(* ===== verification/Opensky_Prelude.thy ===== *)
theory Opensky_Prelude
  imports Main "HOL-Library.Word"
begin

text \<open>
  Shared vocabulary of the development: the machine integer types of the C sources, the
  faults a C function of this program can end in, and the list and word lemmas that several
  components use. Pointer-walking library calls that the sources use on plain byte buffers
  (\<open>memchr\<close>) are modelled here once, on lists.
\<close>

unbundle bit_operations_syntax

section \<open>Collections\<close>

named_theorems os_defs \<open>definitions of model operations that proofs unfold together\<close>
named_theorems os_inv \<open>preservation facts of component invariants\<close>

section \<open>Machine integers\<close>

type_synonym u8 = "8 word"
type_synonym u16 = "16 word"
type_synonym u32 = "32 word"
type_synonym u64 = "64 word"

text \<open>\<open>size_t\<close> and \<open>uint_fast16_t\<close> are 64 bit wide on the LP64 targets of the program.\<close>

type_synonym size_t = "64 word"

text \<open>The characters of a string literal.\<close>

definition ascii :: "string \<Rightarrow> u8 list" where "ascii s = map of_char s"

lemma ascii_simps [simp]: "ascii [] = []" "ascii (c # s) = of_char c # ascii s"
  by (simp_all add: ascii_def)

lemma length_ascii [simp]: "length (ascii s) = length s" by (simp add: ascii_def)

lemma of_nat_eq_0_iff_small:
  "n < 2 ^ LENGTH('a) \<Longrightarrow> (of_nat n :: 'a::len word) = 0 \<longleftrightarrow> n = 0"
  by (auto simp: word_of_nat_eq_0_iff dest: dvd_imp_le)

lemma unat_of_nat_small: "n < 2 ^ LENGTH('a) \<Longrightarrow> unat (of_nat n :: 'a::len word) = n"
  by (simp add: unat_of_nat take_bit_nat_eq_self)

lemma unat_u64_less: "unat (x :: u64) < 2 ^ 64"
  using unsigned_less [where ?'a = nat, of x] by simp

lemma unat_u32_less: "unat (x :: u32) < 2 ^ 32"
  using unsigned_less [where ?'a = nat, of x] by simp

lemma unat_ucast_u32 [simp]: "unat (ucast (x :: u32) :: u64) = unat x"
proof -
  have "unat (ucast x :: u64) = take_bit 64 (unat x)" by (simp add: unsigned_ucast_eq)
  also have "\<dots> = unat x"
    using unat_u32_less [of x] by (simp add: take_bit_nat_eq_self)
  finally show ?thesis .
qed

section \<open>Faults\<close>

text \<open>
  How a call can fail to return: a violated \<open>assert\<close>, a message logged at
  \<open>LOG_LEVEL_EMERG\<close> (which aborts the process, log\_stdio.c), an access outside a buffer,
  a division by zero, an operation on a socket that is not open, and one on a thread that has not been
  created or has been joined, and an access to a variable or member of a union of another type. Results of fallible operations are \<open>fault + 'a\<close>.
\<close>

datatype fault = Assert_failed | Emergency | Out_of_bounds | Div_by_zero | Bad_descriptor | Bad_thread | Bad_type

abbreviation Ok :: "'a \<Rightarrow> fault + 'a" where "Ok \<equiv> Inr"
abbreviation Fault :: "fault \<Rightarrow> fault + 'a" where "Fault \<equiv> Inl"

definition bind_ok :: "fault + 'a \<Rightarrow> ('a \<Rightarrow> fault + 'b) \<Rightarrow> fault + 'b" where
  "bind_ok r f = (case r of Inl e \<Rightarrow> Inl e | Inr a \<Rightarrow> f a)"

lemma bind_ok_simps [simp]:
  "bind_ok (Inl e) f = Inl e" "bind_ok (Inr a) f = f a"
  by (simp_all add: bind_ok_def)

lemma bind_ok_eq_Inr: "bind_ok r f = Inr b \<longleftrightarrow> (\<exists>a. r = Inr a \<and> f a = Inr b)"
  by (cases r) simp_all

section \<open>memchr\<close>

text \<open>The index of the first occurrence of a byte, \<open>None\<close> for a NULL result.\<close>

fun memchr :: "'a \<Rightarrow> 'a list \<Rightarrow> nat option" where
  "memchr c [] = None"
| "memchr c (x # xs) = (if x = c then Some 0 else map_option Suc (memchr c xs))"

lemma memchr_None_iff: "memchr c xs = None \<longleftrightarrow> c \<notin> set xs"
  by (induction xs) auto

lemma memchr_SomeD:
  "memchr c xs = Some n \<Longrightarrow> n < length xs \<and> xs ! n = c \<and> c \<notin> set (take n xs)"
  by (induction xs arbitrary: n) (auto split: if_splits simp: less_Suc_eq_0_disj)

lemma memchr_Some_less: "memchr c xs = Some n \<Longrightarrow> n < length xs"
  by (simp add: memchr_SomeD)

lemma memchr_Some_split:
  assumes "memchr c xs = Some n"
  shows "xs = take n xs @ c # drop (Suc n) xs" and "c \<notin> set (take n xs)"
  using memchr_SomeD [OF assms] by (auto simp: id_take_nth_drop)

lemma memchr_append: "c \<notin> set xs \<Longrightarrow> memchr c (xs @ ys) = map_option ((+) (length xs)) (memchr c ys)"
  by (induction xs) (auto simp: option.map_comp fun_eq_iff intro!: option.map_cong map_option_idI [symmetric])

lemma memchr_append_hit: "c \<notin> set xs \<Longrightarrow> memchr c (xs @ c # ys) = Some (length xs)"
  by (simp add: memchr_append)

section \<open>Lists\<close>

lemma drop_eq_ConsD: "drop n xs = y # ys \<Longrightarrow> n < length xs \<and> xs ! n = y \<and> drop (Suc n) xs = ys"
  by (metis Cons_nth_drop_Suc drop_all le_eq_less_or_eq linorder_not_le list.discI list.inject)

lemma hd_or_tl_append: "xs \<noteq> [] \<Longrightarrow> hd xs # tl xs = xs"
  by simp

lemma in_set_butlast_append_last: "xs \<noteq> [] \<Longrightarrow> butlast xs @ [last xs] = xs"
  by simp

end
