(* ===== verification/Util_Endec.thy ===== *)
theory Util_Endec
  imports Opensky_Prelude
begin

text \<open>
  Model of src/util/endec.h and src/util/port/endian.h: big endian encoding and decoding of
  integers and IEEE 754 numbers. The C functions copy the bytes into a host integer
  (\<open>memcpy\<close>) and swap it when the host is little endian; the model keeps the byte order
  of the host as a parameter and both steps. A buffer that is too short is read or written out
  of bounds: \<open>None\<close>. The wider \<open>uint\_fast\<close> result types only zero- or sign-extend.
\<close>

section \<open>Words in memory\<close>

datatype byte_order = Little_endian | Big_endian

fun le_word :: "u8 list \<Rightarrow> 'a::len word" where
  "le_word [] = 0"
| "le_word (b # bs) = ucast b OR push_bit 8 (le_word bs)"

definition le_bytes :: "nat \<Rightarrow> 'a::len word \<Rightarrow> u8 list" where
  "le_bytes n w = map (\<lambda>i. ucast (drop_bit (8 * i) w)) [0..<n]"

lemma length_le_bytes [simp]: "length (le_bytes n w) = n"
  by (simp add: le_bytes_def)

lemma bit_le_word:
  "bit (le_word bs :: 'a::len word) k \<longleftrightarrow>
   k < LENGTH('a) \<and> k div 8 < length bs \<and> bit (bs ! (k div 8)) (k mod 8)"
proof (induction bs arbitrary: k)
  case Nil
  then show ?case by simp
next
  case (Cons b bs)
  show ?case
  proof (cases "k < 8")
    case True
    then show ?thesis
      by (auto simp: bit_or_iff bit_push_bit_iff bit_ucast_iff dest: bit_imp_le_length)
  next
    case False
    then have "k div 8 = Suc ((k - 8) div 8)" "k mod 8 = (k - 8) mod 8"
      by (simp_all add: le_div_geq le_mod_geq)
    then show ?thesis
      using False Cons.IH [of "k - 8"]
      by (auto simp: bit_or_iff bit_push_bit_iff bit_ucast_iff dest: bit_imp_le_length)
  qed
qed

lemma le_word_le_bytes:
  assumes "LENGTH('a) = 8 * n"
  shows "le_word (le_bytes n w) = (w :: 'a::len word)"
proof (rule bit_word_eqI)
  fix k assume k: "k < LENGTH('a)"
  then have "k div 8 < n" using assms by auto
  moreover have "8 * (k div 8) + k mod 8 = k" by simp
  ultimately show "bit (le_word (le_bytes n w) :: 'a word) k \<longleftrightarrow> bit w k"
    using k by (auto simp: bit_le_word le_bytes_def bit_ucast_iff bit_drop_bit_eq)
qed

lemma le_bytes_le_word:
  assumes "8 * length bs \<le> LENGTH('a)"
  shows "le_bytes (length bs) (le_word bs :: 'a::len word) = bs"
proof (rule nth_equalityI)
  fix i assume "i < length (le_bytes (length bs) (le_word bs :: 'a word))"
  then have i: "i < length bs" by simp
  show "le_bytes (length bs) (le_word bs :: 'a word) ! i = bs ! i"
  proof (rule bit_word_eqI)
    fix k assume k: "k < LENGTH(8)"
    then have "(8 * i + k) div 8 = i" "(8 * i + k) mod 8 = k" by simp_all
    moreover have "8 * i + k < LENGTH('a)" using i k assms by simp
    ultimately show "bit (le_bytes (length bs) (le_word bs :: 'a word) ! i) k \<longleftrightarrow> bit (bs ! i) k"
      using i k by (simp add: le_bytes_def bit_ucast_iff bit_drop_bit_eq bit_le_word)
  qed
qed simp

text \<open>\<open>memcpy(&u, buf, n)\<close> and \<open>memcpy(buf, &u, n)\<close> on a host of the given byte order.\<close>

definition load_host :: "byte_order \<Rightarrow> nat \<Rightarrow> u8 list \<Rightarrow> 'a::len word option" where
  "load_host bo n buf =
     (if length buf < n then None
      else Some (case bo of Little_endian \<Rightarrow> le_word (take n buf)
                          | Big_endian \<Rightarrow> le_word (rev (take n buf))))"

definition store_host :: "byte_order \<Rightarrow> nat \<Rightarrow> 'a::len word \<Rightarrow> u8 list \<Rightarrow> u8 list option" where
  "store_host bo n w buf =
     (if length buf < n then None
      else Some ((case bo of Little_endian \<Rightarrow> le_bytes n w
                           | Big_endian \<Rightarrow> rev (le_bytes n w)) @ drop n buf))"

text \<open>\<open>\_\_builtin\_bswap\<close> and the \<open>htobe\<close>/\<open>betoh\<close> macros of endian.h.\<close>

definition bswap :: "nat \<Rightarrow> 'a::len word \<Rightarrow> 'a word" where
  "bswap n w = le_word (rev (le_bytes n w))"

definition betoh :: "byte_order \<Rightarrow> nat \<Rightarrow> 'a::len word \<Rightarrow> 'a word" where
  "betoh bo n w = (case bo of Little_endian \<Rightarrow> bswap n w | Big_endian \<Rightarrow> w)"

definition htobe :: "byte_order \<Rightarrow> nat \<Rightarrow> 'a::len word \<Rightarrow> 'a word" where
  "htobe bo n w = (case bo of Little_endian \<Rightarrow> bswap n w | Big_endian \<Rightarrow> w)"

section \<open>The operations of endec.h\<close>

definition ENDEC_tou16 :: "byte_order \<Rightarrow> u8 list \<Rightarrow> u16 option" where
  "ENDEC_tou16 bo buf = map_option (betoh bo 2) (load_host bo 2 buf)"

definition ENDEC_toi16 :: "byte_order \<Rightarrow> u8 list \<Rightarrow> int option" where
  "ENDEC_toi16 bo buf = map_option sint (ENDEC_tou16 bo buf)"

definition ENDEC_tou32 :: "byte_order \<Rightarrow> u8 list \<Rightarrow> u32 option" where
  "ENDEC_tou32 bo buf = map_option (betoh bo 4) (load_host bo 4 buf)"

definition ENDEC_toi32 :: "byte_order \<Rightarrow> u8 list \<Rightarrow> int option" where
  "ENDEC_toi32 bo buf = map_option sint (ENDEC_tou32 bo buf)"

definition ENDEC_tou64 :: "byte_order \<Rightarrow> u8 list \<Rightarrow> u64 option" where
  "ENDEC_tou64 bo buf = map_option (betoh bo 8) (load_host bo 8 buf)"

text \<open>
  Floating point values are their IEEE 754 bit patterns; the unions of the C code reinterpret
  the bits and compute nothing.
\<close>

datatype ieee_single = Float_bits (float_bits: u32)
datatype ieee_double = Double_bits (double_bits: u64)

definition ENDEC_tofloat :: "byte_order \<Rightarrow> u8 list \<Rightarrow> ieee_single option" where
  "ENDEC_tofloat bo buf = map_option Float_bits (ENDEC_tou32 bo buf)"

definition ENDEC_todouble :: "byte_order \<Rightarrow> u8 list \<Rightarrow> ieee_double option" where
  "ENDEC_todouble bo buf = map_option Double_bits (ENDEC_tou64 bo buf)"

definition ENDEC_fromu32 :: "byte_order \<Rightarrow> u32 \<Rightarrow> u8 list \<Rightarrow> u8 list option" where
  "ENDEC_fromu32 bo u buf = store_host bo 4 (htobe bo 4 u) buf"

definition ENDEC_fromu64 :: "byte_order \<Rightarrow> u64 \<Rightarrow> u8 list \<Rightarrow> u8 list option" where
  "ENDEC_fromu64 bo u buf = store_host bo 8 (htobe bo 8 u) buf"

definition ENDEC_fromdouble :: "byte_order \<Rightarrow> ieee_double \<Rightarrow> u8 list \<Rightarrow> u8 list option" where
  "ENDEC_fromdouble bo d buf = ENDEC_fromu64 bo (double_bits d) buf"

section \<open>Specification: most significant byte first\<close>

definition be_word :: "u8 list \<Rightarrow> 'a::len word" where
  "be_word bs = le_word (rev bs)"

definition be_bytes :: "nat \<Rightarrow> 'a::len word \<Rightarrow> u8 list" where
  "be_bytes n w = rev (le_bytes n w)"

lemma length_be_bytes [simp]: "length (be_bytes n w) = n"
  by (simp add: be_bytes_def)

lemma be_word_be_bytes: "LENGTH('a) = 8 * n \<Longrightarrow> be_word (be_bytes n w) = (w :: 'a::len word)"
  by (simp add: be_word_def be_bytes_def le_word_le_bytes)

lemma be_bytes_be_word:
  "8 * length bs \<le> LENGTH('a) \<Longrightarrow> be_bytes (length bs) (be_word bs :: 'a::len word) = bs"
  using le_bytes_le_word [of "rev bs", where 'a = 'a] by (simp add: be_word_def be_bytes_def)

text \<open>Loading then swapping gives the big endian value whatever the host's byte order.\<close>

lemma betoh_load_host:
  assumes "LENGTH('a) = 8 * n"
  shows "map_option (betoh bo n) (load_host bo n buf :: 'a::len word option) =
         (if length buf < n then None else Some (be_word (take n buf)))"
proof (cases "length buf < n")
  case True
  then show ?thesis by (simp add: load_host_def)
next
  case False
  then have "le_bytes n (le_word (take n buf) :: 'a word) = take n buf"
    using le_bytes_le_word [of "take n buf", where 'a = 'a] assms by simp
  then show ?thesis
    using False by (cases bo) (simp_all add: load_host_def betoh_def bswap_def be_word_def)
qed

lemma store_host_htobe:
  assumes "LENGTH('a) = 8 * n"
  shows "store_host bo n (htobe bo n w :: 'a::len word) buf =
         (if length buf < n then None else Some (be_bytes n w @ drop n buf))"
proof -
  have "le_bytes n (le_word (rev (le_bytes n w)) :: 'a word) = rev (le_bytes n w)"
    using le_bytes_le_word [of "rev (le_bytes n w)", where 'a = 'a] assms by simp
  then show ?thesis
    by (cases bo) (simp_all add: store_host_def htobe_def bswap_def be_bytes_def)
qed

lemma ENDEC_tou16_be:
  "ENDEC_tou16 bo buf = (if length buf < 2 then None else Some (be_word (take 2 buf)))"
  unfolding ENDEC_tou16_def by (rule betoh_load_host) simp

lemma ENDEC_tou32_be:
  "ENDEC_tou32 bo buf = (if length buf < 4 then None else Some (be_word (take 4 buf)))"
  unfolding ENDEC_tou32_def by (rule betoh_load_host) simp

lemma ENDEC_tou64_be:
  "ENDEC_tou64 bo buf = (if length buf < 8 then None else Some (be_word (take 8 buf)))"
  unfolding ENDEC_tou64_def by (rule betoh_load_host) simp

lemma ENDEC_fromu32_be:
  "ENDEC_fromu32 bo u buf = (if length buf < 4 then None else Some (be_bytes 4 u @ drop 4 buf))"
  unfolding ENDEC_fromu32_def by (rule store_host_htobe) simp

lemma ENDEC_fromu64_be:
  "ENDEC_fromu64 bo u buf = (if length buf < 8 then None else Some (be_bytes 8 u @ drop 8 buf))"
  unfolding ENDEC_fromu64_def by (rule store_host_htobe) simp

lemmas ENDEC_be =
  ENDEC_tou16_be ENDEC_tou32_be ENDEC_tou64_be ENDEC_fromu32_be ENDEC_fromu64_be

section \<open>The codec contract\<close>

text \<open>
  What the users of endec.h rely on: an encoder that fills exactly the first \<open>n\<close> bytes of a
  buffer with an image of fixed width, and a decoder that reads it back.
\<close>

locale be_codec =
  fixes enc :: "'v \<Rightarrow> u8 list \<Rightarrow> u8 list option"
    and dec :: "u8 list \<Rightarrow> 'v option"
    and image :: "'v \<Rightarrow> u8 list"
    and width :: nat
  assumes enc_image: "enc v buf =
      (if length buf < width then None else Some (image v @ drop width buf))"
    and dec_short: "length buf < width \<Longrightarrow> dec buf = None"
    and dec_image: "dec (image v @ rest) = Some v"
    and length_image: "length (image v) = width"
begin

lemma roundtrip: "width \<le> length buf \<Longrightarrow> \<exists>buf'. enc v buf = Some buf' \<and> dec buf' = Some v"
  by (simp add: enc_image dec_image)

lemma enc_frame: "enc v buf = Some buf' \<Longrightarrow> length buf' = length buf \<and> drop width buf' = drop width buf"
  by (auto simp: enc_image length_image split: if_splits)

lemma image_inj: "image v = image w \<Longrightarrow> v = w"
  using dec_image [of v "[]"] dec_image [of w "[]"] by simp

end

interpretation u32_codec: be_codec "ENDEC_fromu32 bo" "ENDEC_tou32 bo" "be_bytes 4" 4
  by unfold_locales (simp_all add: ENDEC_be be_word_be_bytes)

interpretation u64_codec: be_codec "ENDEC_fromu64 bo" "ENDEC_tou64 bo" "be_bytes 8" 8
  by unfold_locales (simp_all add: ENDEC_be be_word_be_bytes)

interpretation double_codec:
  be_codec "ENDEC_fromdouble bo" "ENDEC_todouble bo" "\<lambda>d. be_bytes 8 (double_bits d)" 8
  by unfold_locales
    (simp_all add: ENDEC_fromdouble_def ENDEC_todouble_def u64_codec.enc_image u64_codec.dec_short
      u64_codec.dec_image u64_codec.length_image)

text \<open>A double written by ENDEC\_fromdouble into a large enough buffer is read back by
  ENDEC\_todouble with the same bit pattern, on hosts of either byte order, even when the two
  hosts differ, and the bytes after the first eight are untouched.\<close>

theorem endec_double_roundtrip:
  assumes "8 \<le> length buf"
  shows "\<exists>buf'. ENDEC_fromdouble bo d buf = Some buf' \<and> ENDEC_todouble bo' buf' = Some d \<and>
           length buf' = length buf \<and> drop 8 buf' = drop 8 buf"
proof -
  obtain buf' where enc: "ENDEC_fromdouble bo d buf = Some buf'"
    using double_codec.roundtrip [OF assms] by blast
  then have "buf' = be_bytes 8 (double_bits d) @ drop 8 buf"
    using assms by (simp add: double_codec.enc_image)
  then have "ENDEC_todouble bo' buf' = Some d"
    by (simp add: double_codec.dec_image)
  then show ?thesis
    using enc double_codec.enc_frame [OF enc] by blast
qed

theorem endec_double_roundtrip_witness:
  "\<exists>buf'. ENDEC_fromdouble Little_endian (Double_bits 0x4048000000000000) (replicate 9 7) = Some buf' \<and>
     ENDEC_todouble Big_endian buf' = Some (Double_bits 0x4048000000000000) \<and>
     length buf' = 9 \<and> drop 8 buf' = [7]"
  using endec_double_roundtrip [of "replicate 9 7" Little_endian "Double_bits 0x4048000000000000" Big_endian]
  by simp

end
