(* ===== verification/Util_List_D.thy ===== *)
theory Util_List_D
  imports Opensky_Prelude
begin

text \<open>
  Model of the double linked lists of src/util/list.h (LIST\_LinkD, LIST\_ListD, LIST\_ListDC)
  at the level of the pointers: a link is an address, a list is the address of its anchor, and
  an operation is the sequence of its stores. A list abstracts to the HOL list of the addresses
  of its links, in order; every operation is shown to do to that list what its comment says.
\<close>

section \<open>The heap\<close>

type_synonym ptr = u64

text \<open>
  \<open>nxt\<close> and \<open>prv\<close> are the fields of LIST\_LinkD; \<open>cnt\<close> and \<open>tnt\<close> the fields
  \<open>length\<close> and \<open>tainted\<close> of the LIST\_ListDC whose anchor is at the address. As in the
  source, \<open>head\<close> is the anchor's \<open>next\<close> and \<open>tail\<close> its \<open>prev\<close>.
\<close>

record heap =
  nxt :: "ptr \<Rightarrow> ptr"
  prv :: "ptr \<Rightarrow> ptr"
  cnt :: "ptr \<Rightarrow> size_t"
  tnt :: "ptr \<Rightarrow> bool"

definition set_nxt :: "ptr \<Rightarrow> ptr \<Rightarrow> heap \<Rightarrow> heap" where
  "set_nxt p q h = h\<lparr>nxt := (nxt h)(p := q)\<rparr>"

definition set_prv :: "ptr \<Rightarrow> ptr \<Rightarrow> heap \<Rightarrow> heap" where
  "set_prv p q h = h\<lparr>prv := (prv h)(p := q)\<rparr>"

definition set_cnt :: "ptr \<Rightarrow> size_t \<Rightarrow> heap \<Rightarrow> heap" where
  "set_cnt l n h = h\<lparr>cnt := (cnt h)(l := n)\<rparr>"

definition set_tnt :: "ptr \<Rightarrow> bool \<Rightarrow> heap \<Rightarrow> heap" where
  "set_tnt l b h = h\<lparr>tnt := (tnt h)(l := b)\<rparr>"

lemma set_simps [simp]:
  "nxt (set_nxt p q h) = (nxt h)(p := q)" "prv (set_nxt p q h) = prv h"
  "cnt (set_nxt p q h) = cnt h" "tnt (set_nxt p q h) = tnt h"
  "nxt (set_prv p q h) = nxt h" "prv (set_prv p q h) = (prv h)(p := q)"
  "cnt (set_prv p q h) = cnt h" "tnt (set_prv p q h) = tnt h"
  "nxt (set_cnt l n h) = nxt h" "prv (set_cnt l n h) = prv h"
  "cnt (set_cnt l n h) = (cnt h)(l := n)" "tnt (set_cnt l n h) = tnt h"
  "nxt (set_tnt l b h) = nxt h" "prv (set_tnt l b h) = prv h"
  "cnt (set_tnt l b h) = cnt h" "tnt (set_tnt l b h) = (tnt h)(l := b)"
  by (simp_all add: set_nxt_def set_prv_def set_cnt_def set_tnt_def)

section \<open>Operations on double linked lists\<close>

definition LIST_initD :: "heap \<Rightarrow> ptr \<Rightarrow> heap" where
  "LIST_initD h l = set_nxt l l (set_prv l l h)"

definition LIST_emptyD :: "heap \<Rightarrow> ptr \<Rightarrow> bool" where
  "LIST_emptyD h l \<longleftrightarrow> nxt h l = l"

definition LIST_unlinkD :: "heap \<Rightarrow> ptr \<Rightarrow> heap \<times> ptr" where
  "LIST_unlinkD h link =
     (let h = set_nxt (prv h link) (nxt h link) h;
          h = set_prv (nxt h link) (prv h link) h
      in (h, link))"

definition LIST_shiftD :: "heap \<Rightarrow> ptr \<Rightarrow> heap \<times> ptr" where
  "LIST_shiftD h l = LIST_unlinkD h (nxt h l)"

definition LIST_popD :: "heap \<Rightarrow> ptr \<Rightarrow> heap \<times> ptr" where
  "LIST_popD h l = LIST_unlinkD h (prv h l)"

definition LIST_insertD :: "heap \<Rightarrow> ptr \<Rightarrow> ptr \<Rightarrow> heap" where
  "LIST_insertD h p link =
     (let h = set_nxt link (nxt h p) h;
          h = set_prv link p h;
          h = set_prv (nxt h p) link h
      in set_nxt p link h)"

definition LIST_pushD :: "heap \<Rightarrow> ptr \<Rightarrow> ptr \<Rightarrow> heap" where
  "LIST_pushD h l link = LIST_insertD h (prv h l) link"

definition LIST_unshiftD :: "heap \<Rightarrow> ptr \<Rightarrow> ptr \<Rightarrow> heap" where
  "LIST_unshiftD h l link = LIST_insertD h l link"

definition LIST_separateFromD :: "heap \<Rightarrow> ptr \<Rightarrow> ptr \<Rightarrow> ptr \<Rightarrow> heap" where
  "LIST_separateFromD h l new pivot =
     (if pivot \<noteq> l then
        let h = set_nxt new pivot h;
            h = set_prv new (prv h l) h;
            h = set_nxt (prv h new) new h;
            h = set_prv l (prv h pivot) h;
            h = set_nxt (prv h l) l h
        in set_prv pivot new h
      else LIST_initD h new)"

definition LIST_separateUntilD :: "heap \<Rightarrow> ptr \<Rightarrow> ptr \<Rightarrow> ptr \<Rightarrow> heap" where
  "LIST_separateUntilD h l new pivot =
     (if pivot \<noteq> nxt h l then
        let h = set_nxt new (nxt h l) h;
            h = set_prv (nxt h new) new h;
            h = set_prv new (prv h pivot) h;
            h = set_nxt (prv h new) new h;
            h = set_nxt l pivot h
        in set_prv pivot l h
      else LIST_initD h new)"

definition LIST_concatenatePushD :: "heap \<Rightarrow> ptr \<Rightarrow> ptr \<Rightarrow> heap" where
  "LIST_concatenatePushD h dst src =
     (if \<not> LIST_emptyD h src then
        let h = set_prv (nxt h src) (prv h dst) h;
            h = set_nxt (prv h src) dst h;
            h = set_nxt (prv h dst) (nxt h src) h;
            h = set_prv dst (prv h src) h
        in LIST_initD h src
      else h)"

definition LIST_concatenateUnshiftD :: "heap \<Rightarrow> ptr \<Rightarrow> ptr \<Rightarrow> heap" where
  "LIST_concatenateUnshiftD h dst src =
     (if \<not> LIST_emptyD h src then
        let h = set_prv (nxt h src) dst h;
            h = set_nxt (prv h src) (nxt h dst) h;
            h = set_prv (nxt h dst) (prv h src) h;
            h = set_nxt dst (nxt h src) h
        in LIST_initD h src
      else h)"

text \<open>
  The links of a vector of \<open>items\<close> elements of \<open>elemSize\<close> bytes, each with its link at
  \<open>offset\<close>, and the loop that chains them.
\<close>

definition vector_links :: "ptr \<Rightarrow> u64 \<Rightarrow> nat \<Rightarrow> u64 \<Rightarrow> ptr list" where
  "vector_links vector offset items elemSize =
     map (\<lambda>i. vector + of_nat i * elemSize + offset) [0..<items]"

fun fromVector_loop :: "heap \<Rightarrow> ptr \<Rightarrow> ptr list \<Rightarrow> heap \<times> ptr" where
  "fromVector_loop h prev [] = (h, prev)"
| "fromVector_loop h prev (link # links) =
     fromVector_loop (set_nxt prev link (set_prv link prev h)) link links"

definition LIST_fromVectorD :: "heap \<Rightarrow> ptr \<Rightarrow> ptr \<Rightarrow> u64 \<Rightarrow> nat \<Rightarrow> u64 \<Rightarrow> heap" where
  "LIST_fromVectorD h dst vector offset items elemSize =
     (let (h, prev) = fromVector_loop h dst (vector_links vector offset items elemSize)
      in set_prv dst prev (set_nxt prev dst h))"

definition LIST_beginD :: "heap \<Rightarrow> ptr \<Rightarrow> ptr" where "LIST_beginD h l = nxt h l"
definition LIST_beginRevD :: "heap \<Rightarrow> ptr \<Rightarrow> ptr" where "LIST_beginRevD h l = prv h l"
definition LIST_endD :: "ptr \<Rightarrow> ptr" where "LIST_endD l = l"
definition LIST_next :: "heap \<Rightarrow> ptr \<Rightarrow> ptr" where "LIST_next h link = nxt h link"
definition LIST_prev :: "heap \<Rightarrow> ptr \<Rightarrow> ptr" where "LIST_prev h link = prv h link"

text \<open>The macros LIST\_forward and LIST\_rewind, and LIST\_atD.\<close>

fun LIST_forward :: "heap \<Rightarrow> ptr \<Rightarrow> nat \<Rightarrow> ptr" where
  "LIST_forward h link 0 = link"
| "LIST_forward h link (Suc n) = LIST_forward h (LIST_next h link) n"

fun LIST_rewind :: "heap \<Rightarrow> ptr \<Rightarrow> nat \<Rightarrow> ptr" where
  "LIST_rewind h link 0 = link"
| "LIST_rewind h link (Suc n) = LIST_rewind h (LIST_prev h link) n"

definition LIST_atD :: "heap \<Rightarrow> ptr \<Rightarrow> nat \<Rightarrow> ptr" where
  "LIST_atD h l n = LIST_forward h (LIST_beginD h l) n"

text \<open>
  The iteration macros LIST\_foreach and LIST\_foreachRev: the links they visit, in order;
  \<open>None\<close> if the loop never meets the anchor.
\<close>

partial_function (option) walk :: "(ptr \<Rightarrow> ptr) \<Rightarrow> ptr \<Rightarrow> ptr \<Rightarrow> ptr list \<Rightarrow> ptr list option" where
  "walk step stop link visited =
     (if link = stop then Some visited else walk step stop (step link) (visited @ [link]))"

definition LIST_foreach :: "heap \<Rightarrow> ptr \<Rightarrow> ptr list option" where
  "LIST_foreach h l = walk (LIST_next h) (LIST_endD l) (LIST_beginD h l) []"

definition LIST_foreachRev :: "heap \<Rightarrow> ptr \<Rightarrow> ptr list option" where
  "LIST_foreachRev h l = walk (LIST_prev h) (LIST_endD l) (LIST_beginRevD h l) []"

text \<open>
  LIST\_foreachSafe: the body may unlink the current link, because the successor \<open>n\<close> is
  read before the body runs.
\<close>

partial_function (option) safe_loop ::
  "(heap \<Rightarrow> ptr \<Rightarrow> heap) \<Rightarrow> ptr \<Rightarrow> heap \<Rightarrow> ptr \<Rightarrow> ptr \<Rightarrow> heap option" where
  "safe_loop body l h link n =
     (if link = LIST_endD l then Some h
      else let h = body h link in safe_loop body l h n (LIST_next h n))"

definition LIST_foreachSafe :: "heap \<Rightarrow> ptr \<Rightarrow> (heap \<Rightarrow> ptr \<Rightarrow> heap) \<Rightarrow> heap option" where
  "LIST_foreachSafe h l body =
     (let link = LIST_beginD h l in safe_loop body l h link (LIST_next h link))"

section \<open>Abstraction\<close>

text \<open>Consecutive links of a path point at each other.\<close>

fun linked :: "heap \<Rightarrow> ptr list \<Rightarrow> bool" where
  "linked h (p # q # ps) \<longleftrightarrow> nxt h p = q \<and> prv h q = p \<and> linked h (q # ps)"
| "linked h _ \<longleftrightarrow> True"

definition is_listD :: "heap \<Rightarrow> ptr \<Rightarrow> ptr list \<Rightarrow> bool" where
  "is_listD h a xs \<longleftrightarrow> distinct (a # xs) \<and> linked h (a # xs @ [a])"

lemma linked_append: "linked h (xs @ y # ys) \<longleftrightarrow> linked h (xs @ [y]) \<and> linked h (y # ys)"
  by (induction xs rule: induct_list012) auto

lemma linked_append2:
  "linked h (xs @ y # z # ys) \<longleftrightarrow>
   linked h (xs @ [y]) \<and> nxt h y = z \<and> prv h z = y \<and> linked h (z # ys)"
  by (subst linked_append) simp

lemma linked_Cons_append2:
  "linked h (x # xs @ y # z # ys) \<longleftrightarrow>
   linked h (x # xs @ [y]) \<and> nxt h y = z \<and> prv h z = y \<and> linked h (z # ys)"
  using linked_append2 [of h "x # xs"] by simp

lemma linked_snoc2 [simp]:
  "linked h (xs @ [y, z]) \<longleftrightarrow> linked h (xs @ [y]) \<and> nxt h y = z \<and> prv h z = y"
  by (subst linked_append) simp

lemma linked_Cons_snoc2 [simp]:
  "linked h (x # xs @ [y, z]) \<longleftrightarrow> linked h (x # xs @ [y]) \<and> nxt h y = z \<and> prv h z = y"
  using linked_snoc2 [of h "x # xs"] by simp

lemma linked_cong:
  "(\<And>p. p \<in> set (butlast ps) \<Longrightarrow> nxt h p = nxt h' p) \<Longrightarrow>
   (\<And>p. p \<in> set (tl ps) \<Longrightarrow> prv h p = prv h' p) \<Longrightarrow> linked h ps = linked h' ps"
proof (induction ps rule: induct_list012)
  case (3 x y zs)
  have "linked h (y # zs) = linked h' (y # zs)"
    by (rule "3.IH"(2)) (use "3.prems" in auto)
  moreover have "nxt h x = nxt h' x" "prv h y = prv h' y"
    using "3.prems" by auto
  ultimately show ?case by simp
qed auto

lemma linked_set_nxt [simp]: "p \<notin> set (butlast ps) \<Longrightarrow> linked (set_nxt p q h) ps = linked h ps"
  by (rule linked_cong) auto

lemma linked_set_prv [simp]: "p \<notin> set (tl ps) \<Longrightarrow> linked (set_prv p q h) ps = linked h ps"
  by (rule linked_cong) auto

lemma linked_counters [simp]:
  "linked (set_cnt l n h) ps = linked h ps" "linked (set_tnt l b h) ps = linked h ps"
  by (rule linked_cong; simp)+

lemma is_listD_counters [simp]:
  "is_listD (set_cnt l n h) a xs = is_listD h a xs" "is_listD (set_tnt l b h) a xs = is_listD h a xs"
  by (simp_all add: is_listD_def)

text \<open>Operations touch no cell outside a set: other lists are left alone.\<close>

definition same_links :: "ptr set \<Rightarrow> heap \<Rightarrow> heap \<Rightarrow> bool" where
  "same_links A h h' \<longleftrightarrow> (\<forall>p \<in> A. nxt h' p = nxt h p \<and> prv h' p = prv h p)"

lemma is_listD_frame: "same_links (set (a # xs)) h h' \<Longrightarrow> is_listD h a xs \<Longrightarrow> is_listD h' a xs"
  unfolding is_listD_def same_links_def
  by (subst linked_cong [of _ h' h]) (auto simp: butlast_append)

lemma is_listD_distinct: "is_listD h a xs \<Longrightarrow> distinct (a # xs)"
  by (simp add: is_listD_def)

text \<open>The links of a list determine it: a list has one abstraction.\<close>

lemma linked_unique:
  "linked h (p # xs @ [a]) \<Longrightarrow> linked h (p # ys @ [a]) \<Longrightarrow> a \<notin> set xs \<Longrightarrow> a \<notin> set ys \<Longrightarrow> xs = ys"
proof (induction xs arbitrary: p ys)
  case Nil
  then show ?case by (cases ys) auto
next
  case (Cons x xs)
  then show ?case by (cases ys) auto
qed

lemma is_listD_unique: "is_listD h a xs \<Longrightarrow> is_listD h a ys \<Longrightarrow> xs = ys"
  by (auto simp: is_listD_def dest: linked_unique)

lemma is_listD_head: "is_listD h a xs \<Longrightarrow> nxt h a = hd (xs @ [a])"
  by (cases xs) (auto simp: is_listD_def)

lemma is_listD_tail: "is_listD h a xs \<Longrightarrow> prv h a = last (a # xs)"
  by (cases xs rule: rev_cases) (auto simp: is_listD_def)

section \<open>Each operation on the abstraction\<close>

lemma LIST_initD_list: "is_listD (LIST_initD h a) a []"
  by (simp add: is_listD_def LIST_initD_def)

lemma LIST_emptyD_list: "is_listD h a xs \<Longrightarrow> LIST_emptyD h a \<longleftrightarrow> xs = []"
  by (cases xs) (auto simp: is_listD_def LIST_emptyD_def)

lemma LIST_unlinkD_list:
  assumes "is_listD h a (xs @ x # ys)"
  shows "is_listD (fst (LIST_unlinkD h x)) a (xs @ ys)"
    and "snd (LIST_unlinkD h x) = x"
    and "same_links (- (insert a (set xs \<union> set ys))) h (fst (LIST_unlinkD h x))"
proof -
  show "is_listD (fst (LIST_unlinkD h x)) a (xs @ ys)"
    using assms
    by (cases xs rule: rev_cases; cases ys)
      (auto simp: is_listD_def LIST_unlinkD_def Let_def linked_Cons_append2 butlast_append)
  show "same_links (- (insert a (set xs \<union> set ys))) h (fst (LIST_unlinkD h x))"
    using assms
    by (cases xs rule: rev_cases; cases ys)
      (auto simp: is_listD_def LIST_unlinkD_def Let_def linked_Cons_append2 same_links_def)
qed (simp add: LIST_unlinkD_def Let_def)

lemma LIST_insertD_list:
  assumes "is_listD h a (xs @ ys)" "x \<notin> set (a # xs @ ys)" "p = last (a # xs)"
  shows "is_listD (LIST_insertD h p x) a (xs @ x # ys)"
    and "same_links (- (insert a (set (x # xs @ ys)))) h (LIST_insertD h p x)"
proof -
  show "is_listD (LIST_insertD h p x) a (xs @ x # ys)"
    using assms
    by (cases xs rule: rev_cases; cases ys)
      (auto simp: is_listD_def LIST_insertD_def Let_def linked_Cons_append2 butlast_append)
  show "same_links (- (insert a (set (x # xs @ ys)))) h (LIST_insertD h p x)"
    using assms
    by (cases xs rule: rev_cases; cases ys)
      (auto simp: is_listD_def LIST_insertD_def Let_def linked_Cons_append2 same_links_def)
qed

lemma LIST_pushD_list:
  assumes "is_listD h a xs" "x \<notin> set (a # xs)"
  shows "is_listD (LIST_pushD h a x) a (xs @ [x])"
    and "same_links (- (insert a (set (x # xs)))) h (LIST_pushD h a x)"
  using LIST_insertD_list [of h a xs "[]" x "prv h a"] assms is_listD_tail [OF assms(1)]
  by (simp_all add: LIST_pushD_def)

lemma LIST_unshiftD_list:
  assumes "is_listD h a xs" "x \<notin> set (a # xs)"
  shows "is_listD (LIST_unshiftD h a x) a (x # xs)"
    and "same_links (- (insert a (set (x # xs)))) h (LIST_unshiftD h a x)"
  using LIST_insertD_list [of h a "[]" xs x a] assms by (simp_all add: LIST_unshiftD_def)

lemma LIST_shiftD_list:
  assumes "is_listD h a (x # xs)"
  shows "is_listD (fst (LIST_shiftD h a)) a xs" and "snd (LIST_shiftD h a) = x"
    and "same_links (- (insert a (set xs))) h (fst (LIST_shiftD h a))"
  using LIST_unlinkD_list [of h a "[]" x xs] assms is_listD_head [OF assms]
  by (simp_all add: LIST_shiftD_def)

lemma LIST_popD_list:
  assumes "is_listD h a (xs @ [x])"
  shows "is_listD (fst (LIST_popD h a)) a xs" and "snd (LIST_popD h a) = x"
    and "same_links (- (insert a (set xs))) h (fst (LIST_popD h a))"
  using LIST_unlinkD_list [of h a xs x "[]"] assms is_listD_tail [OF assms]
  by (simp_all add: LIST_popD_def)

text \<open>On the empty list, shift and pop return the anchor and change nothing.\<close>

lemma LIST_unlinkD_empty:
  "is_listD h a [] \<Longrightarrow> LIST_unlinkD h a = (h, a)"
  by (simp add: is_listD_def LIST_unlinkD_def Let_def set_nxt_def set_prv_def fun_upd_idem)

lemma LIST_shiftD_empty: "is_listD h a [] \<Longrightarrow> LIST_shiftD h a = (h, a)"
  by (simp add: LIST_shiftD_def LIST_unlinkD_empty is_listD_head)

lemma LIST_popD_empty: "is_listD h a [] \<Longrightarrow> LIST_popD h a = (h, a)"
  by (simp add: LIST_popD_def LIST_unlinkD_empty is_listD_tail)

lemma LIST_separateFromD_list:
  assumes "is_listD h a (xs @ y # ys)" "new \<notin> set (a # xs @ y # ys)"
  shows "is_listD (LIST_separateFromD h a new y) a xs"
    and "is_listD (LIST_separateFromD h a new y) new (y # ys)"
    and "same_links (- ({a, new} \<union> set (xs @ y # ys))) h (LIST_separateFromD h a new y)"
proof -
  note defs = is_listD_def LIST_separateFromD_def Let_def linked_Cons_append2 butlast_append
  define p where "p = last (a # xs)"
  define q where "q = last (y # ys)"
  have q: "prv h a = q" "prv h y = p"
    using assms(1) unfolding p_def q_def
    by (cases xs rule: rev_cases; cases ys rule: rev_cases; simp add: defs)+
  have ny: "y \<noteq> a" "new \<noteq> a" "new \<noteq> y" "new \<noteq> p" "new \<noteq> q" "a \<noteq> q" "p \<noteq> q"
    "p \<noteq> y" "p \<notin> set ys" "q \<notin> set xs" 
    using assms unfolding p_def q_def
    by (cases xs rule: rev_cases; cases ys rule: rev_cases; auto simp: is_listD_def)+
  have lk: "linked h (y # ys @ [a])"
    using assms(1) linked_append [of h "a # xs" y "ys @ [a]"] by (simp add: is_listD_def)
  show "is_listD (LIST_separateFromD h a new y) a xs"
    using assms ny by (cases xs rule: rev_cases) (auto simp: defs q p_def)
  show "is_listD (LIST_separateFromD h a new y) new (y # ys)"
    using assms ny lk by (cases ys rule: rev_cases) (auto simp: defs q q_def)
  show "same_links (- ({a, new} \<union> set (xs @ y # ys))) h (LIST_separateFromD h a new y)"
    using assms ny last_in_set [of "a # xs"] last_in_set [of "y # ys"]
    by (auto simp: same_links_def LIST_separateFromD_def Let_def q p_def q_def split: if_splits)
qed

lemma LIST_separateUntilD_list:
  assumes "is_listD h a (xs @ ys)" "new \<notin> set (a # xs @ ys)" "pivot = hd (ys @ [a])"
  shows "is_listD (LIST_separateUntilD h a new pivot) a ys"
    and "is_listD (LIST_separateUntilD h a new pivot) new xs"
    and "same_links (- ({a, new} \<union> set (xs @ ys))) h (LIST_separateUntilD h a new pivot)"
proof -
  note defs = is_listD_def LIST_separateUntilD_def LIST_initD_def Let_def linked_Cons_append2
    butlast_append same_links_def
  have cases: "xs = [] \<or> (\<exists>x. xs = [x]) \<or> (\<exists>x zs z. xs = x # zs @ [z])"
    by (cases xs; cases "tl xs" rule: rev_cases) auto
  show "is_listD (LIST_separateUntilD h a new pivot) a ys"
    using assms cases by (cases ys) (auto simp: defs)
  show "is_listD (LIST_separateUntilD h a new pivot) new xs"
    using assms cases by (cases ys) (auto simp: defs)
  show "same_links (- ({a, new} \<union> set (xs @ ys))) h (LIST_separateUntilD h a new pivot)"
    using assms cases by (cases ys) (auto simp: defs)
qed

lemma LIST_concatenatePushD_list:
  assumes "is_listD h a xs" "is_listD h b ys" "set (a # xs) \<inter> set (b # ys) = {}"
  shows "is_listD (LIST_concatenatePushD h a b) a (xs @ ys)"
    and "is_listD (LIST_concatenatePushD h a b) b []"
    and "same_links (- ({a, b} \<union> set (xs @ ys))) h (LIST_concatenatePushD h a b)"
proof -
  note defs = is_listD_def LIST_concatenatePushD_def LIST_emptyD_def LIST_initD_def Let_def
    linked_Cons_append2 butlast_append same_links_def
  have cases: "ys = [] \<or> (\<exists>y. ys = [y]) \<or> (\<exists>y zs z. ys = y # zs @ [z])"
    by (cases ys; cases "tl ys" rule: rev_cases) auto
  show "is_listD (LIST_concatenatePushD h a b) a (xs @ ys)"
    using assms cases by (cases xs rule: rev_cases) (auto simp: defs)
  show "is_listD (LIST_concatenatePushD h a b) b []"
    using assms by (cases ys) (auto simp: defs)
  show "same_links (- ({a, b} \<union> set (xs @ ys))) h (LIST_concatenatePushD h a b)"
    using assms cases by (cases xs rule: rev_cases) (auto simp: defs)
qed

lemma LIST_concatenateUnshiftD_list:
  assumes "is_listD h a xs" "is_listD h b ys" "set (a # xs) \<inter> set (b # ys) = {}"
  shows "is_listD (LIST_concatenateUnshiftD h a b) a (ys @ xs)"
    and "is_listD (LIST_concatenateUnshiftD h a b) b []"
    and "same_links (- ({a, b} \<union> set (xs @ ys))) h (LIST_concatenateUnshiftD h a b)"
proof -
  note defs = is_listD_def LIST_concatenateUnshiftD_def LIST_emptyD_def LIST_initD_def Let_def
    linked_Cons_append2 butlast_append same_links_def
  have cases: "ys = [] \<or> (\<exists>y. ys = [y]) \<or> (\<exists>y zs z. ys = y # zs @ [z])"
    by (cases ys; cases "tl ys" rule: rev_cases) auto
  show "is_listD (LIST_concatenateUnshiftD h a b) a (ys @ xs)"
    using assms cases by (cases xs) (auto simp: defs)
  show "is_listD (LIST_concatenateUnshiftD h a b) b []"
    using assms by (cases ys) (auto simp: defs)
  show "same_links (- ({a, b} \<union> set (xs @ ys))) h (LIST_concatenateUnshiftD h a b)"
    using assms cases by (cases xs) (auto simp: defs)
qed

section \<open>Building a list from a vector\<close>

lemma length_vector_links [simp]: "length (vector_links v off n sz) = n"
  by (simp add: vector_links_def)

lemma fromVector_loop_list:
  "linked h (ps @ [p]) \<Longrightarrow> distinct (ps @ p # links) \<Longrightarrow> fromVector_loop h p links = (h', q) \<Longrightarrow>
   linked h' (ps @ p # links) \<and> q = last (p # links) \<and>
   same_links (- set (p # links)) h h'"
proof (induction links arbitrary: h p ps)
  case Nil
  then show ?case by (auto simp: same_links_def)
next
  case (Cons x links)
  let ?h = "set_nxt p x (set_prv x p h)"
  have "linked ?h ((ps @ [p]) @ [x])"
    using Cons.prems(1,2) by (cases ps) (auto simp: butlast_append)
  moreover have "distinct ((ps @ [p]) @ x # links)" using Cons.prems(2) by simp
  moreover have "fromVector_loop ?h x links = (h', q)" using Cons.prems(3) by simp
  ultimately have "linked h' ((ps @ [p]) @ x # links) \<and> q = last (x # links) \<and>
      same_links (- set (x # links)) ?h h'"
    by (rule Cons.IH)
  then show ?case by (auto simp: same_links_def)
qed

lemma LIST_fromVectorD_list:
  assumes "distinct (dst # vector_links vector offset items elemSize)"
  shows "is_listD (LIST_fromVectorD h dst vector offset items elemSize) dst
           (vector_links vector offset items elemSize)"
    and "same_links (- set (dst # vector_links vector offset items elemSize)) h
           (LIST_fromVectorD h dst vector offset items elemSize)"
proof -
  let ?vs = "vector_links vector offset items elemSize"
  obtain h' q where loop: "fromVector_loop h dst ?vs = (h', q)" by fastforce
  have "linked h ([] @ [dst])" "distinct ([] @ dst # ?vs)" using assms by simp_all
  from fromVector_loop_list [OF this loop]
  have l: "linked h' (dst # ?vs)" "q = last (dst # ?vs)" "same_links (- set (dst # ?vs)) h h'"
    by auto
  have r: "LIST_fromVectorD h dst vector offset items elemSize = set_prv dst q (set_nxt q dst h')"
    by (simp add: LIST_fromVectorD_def loop)
  show "is_listD (LIST_fromVectorD h dst vector offset items elemSize) dst ?vs"
    using assms l by (cases ?vs rule: rev_cases) (auto simp: r is_listD_def butlast_append)
  show "same_links (- set (dst # ?vs)) h (LIST_fromVectorD h dst vector offset items elemSize)"
    using l(2,3) last_in_set [of "dst # ?vs"] by (auto simp: same_links_def r split: if_splits)
qed

section \<open>Indexing and iteration\<close>

lemma LIST_next_nxt [simp]: "LIST_next h = nxt h" "LIST_prev h = prv h" "LIST_endD l = l"
  by (simp_all add: fun_eq_iff LIST_next_def LIST_prev_def LIST_endD_def)

lemma LIST_forward_linked:
  "linked h (p # xs @ [a]) \<Longrightarrow> n \<le> length xs \<Longrightarrow> LIST_forward h (hd (xs @ [a])) n = (xs @ [a]) ! n"
proof (induction n arbitrary: p xs)
  case 0
  then show ?case by (cases xs) auto
next
  case (Suc n)
  then obtain x ys where xs: "xs = x # ys" by (cases xs) auto
  have "nxt h x = hd (ys @ [a])" using Suc.prems(1) xs by (cases ys) auto
  moreover have "linked h (x # ys @ [a])" using Suc.prems(1) xs by simp
  ultimately show ?case using Suc.IH [of x ys] Suc.prems(2) xs by simp
qed

text \<open>LIST\_atD finds the n-th link, and the anchor right after the last one.\<close>

lemma LIST_atD_list: "is_listD h a xs \<Longrightarrow> n \<le> length xs \<Longrightarrow> LIST_atD h a n = (xs @ [a]) ! n"
  using LIST_forward_linked [of h a xs a n] is_listD_head [of h a xs]
  by (simp add: LIST_atD_def LIST_beginD_def is_listD_def)

lemma walk_forward:
  "linked h (p # xs @ [a]) \<Longrightarrow> a \<notin> set xs \<Longrightarrow> walk (nxt h) a (hd (xs @ [a])) vs = Some (vs @ xs)"
proof (induction xs arbitrary: p vs)
  case Nil
  then show ?case by (simp add: walk.simps)
next
  case (Cons x xs)
  have "nxt h x = hd (xs @ [a])" using Cons.prems(1) by (cases xs) auto
  then show ?case
    using Cons.IH [of x "vs @ [x]"] Cons.prems by (subst walk.simps) auto
qed

lemma walk_backward:
  "linked h (a # xs @ [p]) \<Longrightarrow> a \<notin> set xs \<Longrightarrow> walk (prv h) a (last (a # xs)) vs = Some (vs @ rev xs)"
proof (induction xs arbitrary: p vs rule: rev_induct)
  case Nil
  then show ?case by (simp add: walk.simps)
next
  case (snoc x xs)
  have l: "linked h (a # xs @ [x])" using snoc.prems(1) by simp
  then have "prv h x = last (a # xs)" by (cases xs rule: rev_cases) auto
  then show ?case
    using snoc.IH [OF l, of "vs @ [x]"] snoc.prems(2) by (subst walk.simps) auto
qed

lemma LIST_foreach_list: "is_listD h a xs \<Longrightarrow> LIST_foreach h a = Some xs"
  using walk_forward [of h a xs a "[]"] is_listD_head [of h a xs]
  by (simp add: LIST_foreach_def LIST_beginD_def is_listD_def)

lemma LIST_foreachRev_list: "is_listD h a xs \<Longrightarrow> LIST_foreachRev h a = Some (rev xs)"
  using walk_backward [of h a xs a "[]"] is_listD_tail [of h a xs]
  by (simp add: LIST_foreachRev_def LIST_beginRevD_def is_listD_def)

text \<open>A safe iteration whose body unlinks the links a test selects keeps exactly the others.\<close>

lemma safe_loop_unlink:
  assumes "is_listD h a (kept @ ys)"
  shows "\<exists>h'. safe_loop (\<lambda>h p. if Q p then fst (LIST_unlinkD h p) else h) a h
             (hd (ys @ [a])) (nxt h (hd (ys @ [a]))) = Some h' \<and>
           is_listD h' a (kept @ filter (\<lambda>p. \<not> Q p) ys) \<and>
           same_links (- insert a (set kept \<union> set ys)) h h'"
  using assms
proof (induction ys arbitrary: h kept)
  case Nil
  then show ?case by (auto simp: safe_loop.simps same_links_def)
next
  case (Cons x ys)
  let ?body = "\<lambda>h p. if Q p then fst (LIST_unlinkD h p) else h"
  have x: "x \<noteq> a" using Cons.prems by (auto simp: is_listD_def)
  have nx: "nxt h x = hd (ys @ [a])"
    using Cons.prems linked_append [of h "a # kept" x "ys @ [a]"]
    by (cases ys) (simp_all add: is_listD_def)
  have step: "safe_loop ?body a h x (nxt h x) =
      safe_loop ?body a (?body h x) (hd (ys @ [a])) (nxt (?body h x) (hd (ys @ [a])))"
    using x nx by (subst safe_loop.simps) (simp add: Let_def)
  show ?case
  proof (cases "Q x")
    case True
    then have l: "is_listD (?body h x) a (kept @ ys)"
      using LIST_unlinkD_list(1) [OF Cons.prems] by simp
    have f: "same_links (- insert a (set kept \<union> set ys)) h (?body h x)"
      using LIST_unlinkD_list(3) [OF Cons.prems] True by simp
    show ?thesis
      using Cons.IH [OF l] f True unfolding list.sel append_Cons step by (auto simp: same_links_def)
  next
    case False
    then have l: "is_listD (?body h x) a ((kept @ [x]) @ ys)" using Cons.prems by simp
    show ?thesis
      using Cons.IH [OF l] False unfolding list.sel append_Cons step by (auto simp: same_links_def)
  qed
qed

lemma LIST_foreachSafe_unlink:
  assumes "is_listD h a xs"
  shows "\<exists>h'. LIST_foreachSafe h a (\<lambda>h p. if Q p then fst (LIST_unlinkD h p) else h) = Some h' \<and>
           is_listD h' a (filter (\<lambda>p. \<not> Q p) xs) \<and> same_links (- insert a (set xs)) h h'"
  using safe_loop_unlink [of h a "[]" xs Q] assms is_listD_head [OF assms]
  by (simp add: LIST_foreachSafe_def LIST_beginD_def Let_def)

end
