(* ===== verification/Util_List_DC.thy ===== *)
theory Util_List_DC
  imports Util_List_D
begin

text \<open>
  Model of the counted double linked lists of src/util/list.h (LIST\_ListDC): the list with a
  lazily maintained length. \<open>cnt\<close> wraps at 64 bits like the C \<open>size\_t\<close>, and is only
  meaningful while \<open>tnt\<close> is false.
\<close>

section \<open>Operations\<close>

definition LIST_initDC :: "heap \<Rightarrow> ptr \<Rightarrow> heap" where
  "LIST_initDC h l = set_tnt l False (set_cnt l 0 (LIST_initD h l))"

definition LIST_emptyDC :: "heap \<Rightarrow> ptr \<Rightarrow> bool" where
  "LIST_emptyDC h l \<longleftrightarrow> LIST_emptyD h l"

text \<open>The counting loop of LIST\_lengthDC; \<open>None\<close> if it never meets the anchor.\<close>

partial_function (option) count_links :: "heap \<Rightarrow> ptr \<Rightarrow> ptr \<Rightarrow> size_t \<Rightarrow> size_t option" where
  "count_links h l link n =
     (if link = l then Some n else count_links h l (nxt h link) (n + 1))"

definition LIST_lengthDC :: "heap \<Rightarrow> ptr \<Rightarrow> (heap \<times> size_t) option" where
  "LIST_lengthDC h l =
     (if tnt h l then
        (case count_links h l (nxt h l) 0 of
           None \<Rightarrow> None
         | Some n \<Rightarrow> (let h = set_tnt l False (set_cnt l n h) in Some (h, cnt h l)))
      else Some (h, cnt h l))"

definition LIST_unlinkDC :: "heap \<Rightarrow> ptr \<Rightarrow> ptr \<Rightarrow> heap \<times> ptr" where
  "LIST_unlinkDC h l link =
     (if tnt h l \<or> cnt h l \<noteq> 0 then
        let h = fst (LIST_unlinkD h link) in (set_cnt l (cnt h l - 1) h, link)
      else (h, link))"

definition LIST_shiftDC :: "heap \<Rightarrow> ptr \<Rightarrow> heap \<times> ptr" where
  "LIST_shiftDC h l = LIST_unlinkDC h l (nxt h l)"

definition LIST_popDC :: "heap \<Rightarrow> ptr \<Rightarrow> heap \<times> ptr" where
  "LIST_popDC h l = LIST_unlinkDC h l (prv h l)"

definition LIST_insertDC :: "heap \<Rightarrow> ptr \<Rightarrow> ptr \<Rightarrow> ptr \<Rightarrow> heap" where
  "LIST_insertDC h l p link = (let h = LIST_insertD h p link in set_cnt l (cnt h l + 1) h)"

definition LIST_pushDC :: "heap \<Rightarrow> ptr \<Rightarrow> ptr \<Rightarrow> heap" where
  "LIST_pushDC h l link = LIST_insertDC h l (prv h l) link"

definition LIST_unshiftDC :: "heap \<Rightarrow> ptr \<Rightarrow> ptr \<Rightarrow> heap" where
  "LIST_unshiftDC h l link = LIST_insertDC h l l link"

definition LIST_separateFromDC :: "heap \<Rightarrow> ptr \<Rightarrow> ptr \<Rightarrow> ptr \<Rightarrow> heap" where
  "LIST_separateFromDC h l new pivot =
     (if pivot \<noteq> l then set_tnt l True (set_tnt new True (LIST_separateFromD h l new pivot))
      else LIST_initDC h new)"

definition LIST_separateFromFixDC :: "heap \<Rightarrow> ptr \<Rightarrow> ptr \<Rightarrow> ptr \<Rightarrow> heap option" where
  "LIST_separateFromFixDC h l new pivot =
     map_option (\<lambda>(h, _). set_tnt l False (set_cnt l (cnt h l - cnt h new) h))
       (LIST_lengthDC (LIST_separateFromDC h l new pivot) new)"

definition LIST_separateUntilDC :: "heap \<Rightarrow> ptr \<Rightarrow> ptr \<Rightarrow> ptr \<Rightarrow> heap" where
  "LIST_separateUntilDC h l new pivot =
     set_tnt l True (set_tnt new True (LIST_separateUntilD h l new pivot))"

definition LIST_separateUntilFixDC :: "heap \<Rightarrow> ptr \<Rightarrow> ptr \<Rightarrow> ptr \<Rightarrow> heap option" where
  "LIST_separateUntilFixDC h l new pivot =
     map_option (\<lambda>(h, _). set_tnt l False (set_cnt l (cnt h l - cnt h new) h))
       (LIST_lengthDC (LIST_separateUntilDC h l new pivot) new)"

definition add_counts :: "heap \<Rightarrow> ptr \<Rightarrow> ptr \<Rightarrow> heap" where
  "add_counts h dst src =
     (let h = set_tnt dst (tnt h dst \<or> tnt h src) h
      in set_cnt dst (cnt h dst + cnt h src) h)"

definition LIST_concatenatePushDC :: "heap \<Rightarrow> ptr \<Rightarrow> ptr \<Rightarrow> heap" where
  "LIST_concatenatePushDC h dst src =
     (if \<not> LIST_emptyDC h src
      then LIST_initDC (add_counts (LIST_concatenatePushD h dst src) dst src) src else h)"

definition LIST_concatenateUnshiftDC :: "heap \<Rightarrow> ptr \<Rightarrow> ptr \<Rightarrow> heap" where
  "LIST_concatenateUnshiftDC h dst src =
     (if \<not> LIST_emptyDC h src
      then LIST_initDC (add_counts (LIST_concatenateUnshiftD h dst src) dst src) src else h)"

definition LIST_fromVectorDC :: "heap \<Rightarrow> ptr \<Rightarrow> ptr \<Rightarrow> u64 \<Rightarrow> nat \<Rightarrow> u64 \<Rightarrow> heap" where
  "LIST_fromVectorDC h dst vector offset items elemSize =
     set_tnt dst False (set_cnt dst (of_nat items)
       (LIST_fromVectorD h dst vector offset items elemSize))"

definition LIST_beginDC :: "heap \<Rightarrow> ptr \<Rightarrow> ptr" where "LIST_beginDC h l = LIST_beginD h l"
definition LIST_beginRevDC :: "heap \<Rightarrow> ptr \<Rightarrow> ptr" where "LIST_beginRevDC h l = LIST_beginRevD h l"
definition LIST_endDC :: "ptr \<Rightarrow> ptr" where "LIST_endDC l = LIST_endD l"
definition LIST_atDC :: "heap \<Rightarrow> ptr \<Rightarrow> nat \<Rightarrow> ptr" where "LIST_atDC h l n = LIST_atD h l n"

text \<open>The macro LIST\_insert inserts before the given link.\<close>

definition LIST_insert :: "heap \<Rightarrow> ptr \<Rightarrow> ptr \<Rightarrow> ptr \<Rightarrow> heap" where
  "LIST_insert h l at link = LIST_insertDC h l (LIST_prev h at) link"

section \<open>Abstraction\<close>

definition is_listDC :: "heap \<Rightarrow> ptr \<Rightarrow> ptr list \<Rightarrow> bool" where
  "is_listDC h a xs \<longleftrightarrow> is_listD h a xs \<and> (\<not> tnt h a \<longrightarrow> cnt h a = of_nat (length xs))"

text \<open>
  Addresses are 64 bit wide, so a list has fewer than \<open>2 ^ 64\<close> links and its length fits the
  counter.
\<close>

lemma length_lt_size_t: "distinct (a # xs) \<Longrightarrow> length (xs :: ptr list) < 2 ^ 64"
proof -
  assume "distinct (a # xs)"
  then have "length (a # xs) = card (set (a # xs))" by (simp add: distinct_card)
  also have "\<dots> \<le> CARD(ptr)" by (intro card_mono) simp_all
  finally show ?thesis by (simp add: card_word)
qed

lemma count_zero: "is_listD h a xs \<Longrightarrow> (of_nat (length xs) :: size_t) = 0 \<longleftrightarrow> xs = []"
  using length_lt_size_t [OF is_listD_distinct] of_nat_eq_0_iff_small [of "length xs", where 'a = 64]
  by simp

definition same_cells :: "ptr set \<Rightarrow> heap \<Rightarrow> heap \<Rightarrow> bool" where
  "same_cells A h h' \<longleftrightarrow> same_links A h h' \<and> (\<forall>p \<in> A. cnt h' p = cnt h p \<and> tnt h' p = tnt h p)"

lemma is_listDC_frame: "same_cells (set (a # xs)) h h' \<Longrightarrow> is_listDC h a xs \<Longrightarrow> is_listDC h' a xs"
  using is_listD_frame [of a xs h h'] by (auto simp: is_listDC_def same_cells_def)

lemma counters_unchanged [simp]:
  "cnt (fst (LIST_unlinkD h x)) = cnt h" "tnt (fst (LIST_unlinkD h x)) = tnt h"
  "cnt (LIST_insertD h p x) = cnt h" "tnt (LIST_insertD h p x) = tnt h"
  "cnt (LIST_initD h l) = cnt h" "tnt (LIST_initD h l) = tnt h"
  "cnt (LIST_separateFromD h l new p) = cnt h" "tnt (LIST_separateFromD h l new p) = tnt h"
  "cnt (LIST_separateUntilD h l new p) = cnt h" "tnt (LIST_separateUntilD h l new p) = tnt h"
  "cnt (LIST_concatenatePushD h l src) = cnt h" "tnt (LIST_concatenatePushD h l src) = tnt h"
  "cnt (LIST_concatenateUnshiftD h l src) = cnt h" "tnt (LIST_concatenateUnshiftD h l src) = tnt h"
  by (simp_all add: LIST_unlinkD_def LIST_insertD_def LIST_initD_def LIST_separateFromD_def
      LIST_separateUntilD_def LIST_concatenatePushD_def LIST_concatenateUnshiftD_def Let_def)

lemma is_listDC_distinct: "is_listDC h a xs \<Longrightarrow> distinct (a # xs)"
  by (simp add: is_listDC_def is_listD_def)

lemma LIST_initDC_list: "is_listDC (LIST_initDC h a) a []"
  by (simp add: is_listDC_def LIST_initDC_def LIST_initD_list)

lemma LIST_emptyDC_list: "is_listDC h a xs \<Longrightarrow> LIST_emptyDC h a \<longleftrightarrow> xs = []"
  by (simp add: is_listDC_def LIST_emptyDC_def LIST_emptyD_list)

lemma count_links_linked:
  "linked h (p # xs @ [a]) \<Longrightarrow> a \<notin> set xs \<Longrightarrow>
   count_links h a (hd (xs @ [a])) n = Some (n + of_nat (length xs))"
proof (induction xs arbitrary: p n)
  case Nil
  then show ?case by (simp add: count_links.simps)
next
  case (Cons x xs)
  have "nxt h x = hd (xs @ [a])" using Cons.prems(1) by (cases xs) auto
  then show ?case
    using Cons.IH [of x "n + 1"] Cons.prems by (subst count_links.simps) (auto simp: ac_simps)
qed

lemma LIST_lengthDC_list:
  assumes "is_listDC h a xs"
  shows "\<exists>h'. LIST_lengthDC h a = Some (h', of_nat (length xs)) \<and> is_listDC h' a xs \<and>
           \<not> tnt h' a \<and> same_cells (- {a}) h h' \<and> same_links UNIV h h'"
proof (cases "tnt h a")
  case True
  have l: "is_listD h a xs" using assms by (simp add: is_listDC_def)
  then have "count_links h a (nxt h a) 0 = Some (of_nat (length xs))"
    using count_links_linked [of h a xs a 0] is_listD_head [OF l] by (simp add: is_listD_def)
  then show ?thesis
    using True l by (simp add: LIST_lengthDC_def Let_def is_listDC_def same_links_def same_cells_def)
next
  case False
  then show ?thesis using assms by (simp add: LIST_lengthDC_def is_listDC_def same_links_def same_cells_def)
qed

lemma LIST_unlinkDC_list:
  assumes "is_listDC h a (xs @ x # ys)"
  shows "is_listDC (fst (LIST_unlinkDC h a x)) a (xs @ ys)" and "snd (LIST_unlinkDC h a x) = x"
    and "same_cells (- insert a (set xs \<union> set ys)) h (fst (LIST_unlinkDC h a x))"
proof -
  have l: "is_listD h a (xs @ x # ys)" using assms by (simp add: is_listDC_def)
  have guard: "tnt h a \<or> cnt h a \<noteq> 0"
    using assms count_zero [OF l] by (auto simp: is_listDC_def)
  show "is_listDC (fst (LIST_unlinkDC h a x)) a (xs @ ys)"
    using assms guard LIST_unlinkD_list(1) [OF l] by (auto simp: is_listDC_def LIST_unlinkDC_def Let_def)
  show "same_cells (- insert a (set xs \<union> set ys)) h (fst (LIST_unlinkDC h a x))"
    using LIST_unlinkD_list(3) [OF l] guard
    by (auto simp: same_cells_def same_links_def LIST_unlinkDC_def Let_def)
qed (simp add: LIST_unlinkDC_def Let_def)

lemma LIST_insertDC_list:
  assumes "is_listDC h a (xs @ ys)" "x \<notin> set (a # xs @ ys)" "p = last (a # xs)"
  shows "is_listDC (LIST_insertDC h a p x) a (xs @ x # ys)"
    and "same_cells (- insert a (set (x # xs @ ys))) h (LIST_insertDC h a p x)"
proof -
  have l: "is_listD h a (xs @ ys)" using assms(1) by (simp add: is_listDC_def)
  show "is_listDC (LIST_insertDC h a p x) a (xs @ x # ys)"
    using assms(1) LIST_insertD_list(1) [OF l assms(2,3)]
    by (auto simp: is_listDC_def LIST_insertDC_def Let_def)
  show "same_cells (- insert a (set (x # xs @ ys))) h (LIST_insertDC h a p x)"
    using LIST_insertD_list(2) [OF l assms(2,3)]
    by (auto simp: same_cells_def same_links_def LIST_insertDC_def Let_def)
qed

lemma LIST_pushDC_list:
  assumes "is_listDC h a xs" "x \<notin> set (a # xs)"
  shows "is_listDC (LIST_pushDC h a x) a (xs @ [x])"
    and "same_cells (- insert a (set (x # xs))) h (LIST_pushDC h a x)"
  using LIST_insertDC_list [of h a xs "[]" x "prv h a"] assms is_listD_tail [of h a xs]
  by (simp_all add: LIST_pushDC_def is_listDC_def)

lemma LIST_unshiftDC_list:
  assumes "is_listDC h a xs" "x \<notin> set (a # xs)"
  shows "is_listDC (LIST_unshiftDC h a x) a (x # xs)"
    and "same_cells (- insert a (set (x # xs))) h (LIST_unshiftDC h a x)"
  using LIST_insertDC_list [of h a "[]" xs x a] assms by (simp_all add: LIST_unshiftDC_def)

lemma LIST_shiftDC_list:
  assumes "is_listDC h a (x # xs)"
  shows "is_listDC (fst (LIST_shiftDC h a)) a xs" and "snd (LIST_shiftDC h a) = x"
    and "same_cells (- insert a (set xs)) h (fst (LIST_shiftDC h a))"
  using LIST_unlinkDC_list [of h a "[]" x xs] assms is_listD_head [of h a "x # xs"]
  by (simp_all add: LIST_shiftDC_def is_listDC_def)

lemma LIST_popDC_list:
  assumes "is_listDC h a (xs @ [x])"
  shows "is_listDC (fst (LIST_popDC h a)) a xs" and "snd (LIST_popDC h a) = x"
    and "same_cells (- insert a (set xs)) h (fst (LIST_popDC h a))"
  using LIST_unlinkDC_list [of h a xs x "[]"] assms is_listD_tail [of h a "xs @ [x]"]
  by (simp_all add: LIST_popDC_def is_listDC_def)

lemma LIST_shiftDC_empty:
  assumes "is_listDC h a []"
  shows "is_listDC (fst (LIST_shiftDC h a)) a []" and "snd (LIST_shiftDC h a) = a"
  using assms is_listD_head [of h a "[]"]
  by (auto simp: is_listDC_def LIST_shiftDC_def LIST_unlinkDC_def Let_def LIST_unlinkD_empty)

lemma LIST_insert_list:
  assumes "is_listDC h a (xs @ y # ys)" "x \<notin> set (a # xs @ y # ys)"
  shows "is_listDC (LIST_insert h a y x) a (xs @ x # y # ys)"
proof -
  have "prv h y = last (a # xs)"
    using assms(1) by (cases xs rule: rev_cases)
      (auto simp: is_listDC_def is_listD_def linked_Cons_append2)
  then show ?thesis
    using LIST_insertDC_list(1) [of h a xs "y # ys" x "prv h y"] assms by (simp add: LIST_insert_def)
qed

lemma LIST_concatenatePushDC_list:
  assumes "is_listDC h a xs" "is_listDC h b ys" "set (a # xs) \<inter> set (b # ys) = {}"
  shows "is_listDC (LIST_concatenatePushDC h a b) a (xs @ ys)"
    and "is_listDC (LIST_concatenatePushDC h a b) b []"
    and "same_cells (- ({a, b} \<union> set (xs @ ys))) h (LIST_concatenatePushDC h a b)"
proof -
  have l: "is_listD h a xs" "is_listD h b ys" using assms(1,2) by (simp_all add: is_listDC_def)
  note D = LIST_concatenatePushD_list [OF l assms(3)]
  have ab: "a \<noteq> b" "b \<noteq> a" using assms(3) by auto
  have e: "LIST_emptyDC h b \<longleftrightarrow> ys = []" by (rule LIST_emptyDC_list [OF assms(2)])
  have init: "is_listD (LIST_initD h' b) a (xs @ ys)" if "is_listD h' a (xs @ ys)" for h'
    by (rule is_listD_frame [OF _ that]) (use assms(3) is_listD_distinct [OF l(2)] in \<open>auto simp: same_links_def LIST_initD_def\<close>)
  show "is_listDC (LIST_concatenatePushDC h a b) a (xs @ ys)"
    using assms D(1) ab by (auto simp: is_listDC_def LIST_concatenatePushDC_def e add_counts_def
        LIST_initDC_def Let_def init)
  show "is_listDC (LIST_concatenatePushDC h a b) b []"
    using assms(2) by (auto simp: LIST_concatenatePushDC_def e LIST_initDC_list)
  show "same_cells (- ({a, b} \<union> set (xs @ ys))) h (LIST_concatenatePushDC h a b)"
    using D(3) by (auto simp: same_cells_def same_links_def LIST_concatenatePushDC_def
        add_counts_def LIST_initDC_def LIST_initD_def Let_def)
qed

lemma LIST_concatenateUnshiftDC_list:
  assumes "is_listDC h a xs" "is_listDC h b ys" "set (a # xs) \<inter> set (b # ys) = {}"
  shows "is_listDC (LIST_concatenateUnshiftDC h a b) a (ys @ xs)"
    and "is_listDC (LIST_concatenateUnshiftDC h a b) b []"
    and "same_cells (- ({a, b} \<union> set (xs @ ys))) h (LIST_concatenateUnshiftDC h a b)"
proof -
  have l: "is_listD h a xs" "is_listD h b ys" using assms(1,2) by (simp_all add: is_listDC_def)
  note D = LIST_concatenateUnshiftD_list [OF l assms(3)]
  have ab: "a \<noteq> b" "b \<noteq> a" using assms(3) by auto
  have e: "LIST_emptyDC h b \<longleftrightarrow> ys = []" by (rule LIST_emptyDC_list [OF assms(2)])
  have init: "is_listD (LIST_initD h' b) a (ys @ xs)" if "is_listD h' a (ys @ xs)" for h'
    by (rule is_listD_frame [OF _ that]) (use assms(3) is_listD_distinct [OF l(2)] in \<open>auto simp: same_links_def LIST_initD_def\<close>)
  show "is_listDC (LIST_concatenateUnshiftDC h a b) a (ys @ xs)"
    using assms D(1) ab by (auto simp: is_listDC_def LIST_concatenateUnshiftDC_def e add_counts_def
        LIST_initDC_def Let_def init ac_simps)
  show "is_listDC (LIST_concatenateUnshiftDC h a b) b []"
    using assms(2) by (auto simp: LIST_concatenateUnshiftDC_def e LIST_initDC_list)
  show "same_cells (- ({a, b} \<union> set (xs @ ys))) h (LIST_concatenateUnshiftDC h a b)"
    using D(3) by (auto simp: same_cells_def same_links_def LIST_concatenateUnshiftDC_def
        add_counts_def LIST_initDC_def LIST_initD_def Let_def)
qed

text \<open>
  Separation taints both lists; the eager variants recount the new list and correct the old
  list's count by subtraction, which is right when that count was valid before.
\<close>

lemma LIST_separateFromDC_list:
  assumes "is_listDC h a (xs @ y # ys)" "new \<notin> set (a # xs @ y # ys)"
  shows "is_listDC (LIST_separateFromDC h a new y) a xs"
    and "is_listDC (LIST_separateFromDC h a new y) new (y # ys)"
  using assms LIST_separateFromD_list(1,2) [of h a xs y ys new]
  by (auto simp: is_listDC_def is_listD_def LIST_separateFromDC_def)

lemma LIST_separateUntilDC_list:
  assumes "is_listDC h a (xs @ ys)" "new \<notin> set (a # xs @ ys)" "pivot = hd (ys @ [a])"
  shows "is_listDC (LIST_separateUntilDC h a new pivot) a ys"
    and "is_listDC (LIST_separateUntilDC h a new pivot) new xs"
  using assms LIST_separateUntilD_list(1,2) [of h a xs ys new pivot]
  by (simp_all add: is_listDC_def LIST_separateUntilDC_def)

lemma separate_fix:
  assumes "is_listDC h1 a xs" "is_listDC h1 new ys" "a \<noteq> new" "cnt h1 a = of_nat (length xs + length ys)"
  shows "\<exists>h'. map_option (\<lambda>(h, _). set_tnt a False (set_cnt a (cnt h a - cnt h new) h))
             (LIST_lengthDC h1 new) = Some h' \<and>
           is_listDC h' a xs \<and> \<not> tnt h' a \<and> is_listDC h' new ys \<and> \<not> tnt h' new"
proof -
  obtain h2 where h2: "LIST_lengthDC h1 new = Some (h2, of_nat (length ys))"
      "is_listDC h2 new ys" "\<not> tnt h2 new" "same_cells (- {new}) h1 h2" "same_links UNIV h1 h2"
    using LIST_lengthDC_list [OF assms(2)] by blast
  have "is_listD h2 a xs"
    using assms(1) h2(5) by (auto simp: is_listDC_def same_links_def intro: is_listD_frame [rotated])
  moreover have "cnt h2 a = of_nat (length xs + length ys)" "cnt h2 new = of_nat (length ys)"
    using assms(3,4) h2(2,3,4) by (auto simp: same_cells_def is_listDC_def)
  ultimately show ?thesis
    using h2 assms(3) by (auto simp: is_listDC_def)
qed

lemma LIST_separateFromFixDC_list:
  assumes "is_listDC h a (xs @ y # ys)" "new \<notin> set (a # xs @ y # ys)" "\<not> tnt h a"
  shows "\<exists>h'. LIST_separateFromFixDC h a new y = Some h' \<and>
           is_listDC h' a xs \<and> \<not> tnt h' a \<and> is_listDC h' new (y # ys) \<and> \<not> tnt h' new"
  unfolding LIST_separateFromFixDC_def
proof (rule separate_fix [OF LIST_separateFromDC_list [OF assms(1,2)]])
  show "cnt (LIST_separateFromDC h a new y) a = of_nat (length xs + length (y # ys))"
    using assms by (auto simp: LIST_separateFromDC_def is_listDC_def is_listD_def)
qed (use assms(2) in auto)

lemma LIST_separateUntilFixDC_list:
  assumes "is_listDC h a (xs @ ys)" "new \<notin> set (a # xs @ ys)" "pivot = hd (ys @ [a])" "\<not> tnt h a"
  shows "\<exists>h'. LIST_separateUntilFixDC h a new pivot = Some h' \<and>
           is_listDC h' a ys \<and> \<not> tnt h' a \<and> is_listDC h' new xs \<and> \<not> tnt h' new"
  unfolding LIST_separateUntilFixDC_def
proof (rule separate_fix [OF LIST_separateUntilDC_list [OF assms(1-3)]])
  show "cnt (LIST_separateUntilDC h a new pivot) a = of_nat (length ys + length xs)"
    using assms(1,4) by (simp add: LIST_separateUntilDC_def is_listDC_def ac_simps)
qed (use assms(2) in auto)

lemma fromVector_loop_counters:
  "fromVector_loop h p links = (h', q) \<Longrightarrow> cnt h' = cnt h \<and> tnt h' = tnt h"
  by (induction links arbitrary: h p) fastforce+

lemma LIST_fromVectorDC_list:
  assumes "distinct (dst # vector_links vector offset items elemSize)"
  shows "is_listDC (LIST_fromVectorDC h dst vector offset items elemSize) dst
           (vector_links vector offset items elemSize)"
    and "same_cells (- set (dst # vector_links vector offset items elemSize)) h
           (LIST_fromVectorDC h dst vector offset items elemSize)"
proof -
  show "is_listDC (LIST_fromVectorDC h dst vector offset items elemSize) dst
      (vector_links vector offset items elemSize)"
    using LIST_fromVectorD_list(1) [OF assms] by (simp add: is_listDC_def LIST_fromVectorDC_def)
  have "cnt (LIST_fromVectorD h dst vector offset items elemSize) = cnt h"
    "tnt (LIST_fromVectorD h dst vector offset items elemSize) = tnt h"
    by (auto simp: LIST_fromVectorD_def split: prod.splits dest: fromVector_loop_counters)
  then show "same_cells (- set (dst # vector_links vector offset items elemSize)) h
      (LIST_fromVectorDC h dst vector offset items elemSize)"
    using LIST_fromVectorD_list(2) [OF assms]
    by (auto simp: same_cells_def same_links_def LIST_fromVectorDC_def)
qed

end
