(* ===== verification/Util_List_S.thy ===== *)
theory Util_List_S
  imports Util_List_D
begin

text \<open>
  Model of the single linked lists of src/util/list.h (LIST\_LinkS, LIST\_ListS, LIST\_ListSC):
  circular through the anchor like the double linked ones, with a separate tail pointer per
  list and, for LIST\_ListSC, an eagerly maintained length.
\<close>

section \<open>The heap\<close>

text \<open>\<open>stl\<close> and \<open>scnt\<close> are the fields \<open>tail\<close> and \<open>length\<close> of the list at the address.\<close>

record sheap =
  snxt :: "ptr \<Rightarrow> ptr"
  stl :: "ptr \<Rightarrow> ptr"
  scnt :: "ptr \<Rightarrow> size_t"

definition set_snxt :: "ptr \<Rightarrow> ptr \<Rightarrow> sheap \<Rightarrow> sheap" where
  "set_snxt p q h = h\<lparr>snxt := (snxt h)(p := q)\<rparr>"

definition set_stl :: "ptr \<Rightarrow> ptr \<Rightarrow> sheap \<Rightarrow> sheap" where
  "set_stl l p h = h\<lparr>stl := (stl h)(l := p)\<rparr>"

definition set_scnt :: "ptr \<Rightarrow> size_t \<Rightarrow> sheap \<Rightarrow> sheap" where
  "set_scnt l n h = h\<lparr>scnt := (scnt h)(l := n)\<rparr>"

lemma sset_simps [simp]:
  "snxt (set_snxt p q h) = (snxt h)(p := q)" "stl (set_snxt p q h) = stl h"
  "scnt (set_snxt p q h) = scnt h"
  "snxt (set_stl l p h) = snxt h" "stl (set_stl l p h) = (stl h)(l := p)"
  "scnt (set_stl l p h) = scnt h"
  "snxt (set_scnt l n h) = snxt h" "stl (set_scnt l n h) = stl h"
  "scnt (set_scnt l n h) = (scnt h)(l := n)"
  by (simp_all add: set_snxt_def set_stl_def set_scnt_def)

section \<open>Operations on single linked lists\<close>

definition LIST_initS :: "sheap \<Rightarrow> ptr \<Rightarrow> sheap" where
  "LIST_initS h l = set_snxt l l (set_stl l l h)"

definition LIST_emptyS :: "sheap \<Rightarrow> ptr \<Rightarrow> bool" where
  "LIST_emptyS h l \<longleftrightarrow> snxt h l = l"

definition LIST_shiftS :: "sheap \<Rightarrow> ptr \<Rightarrow> sheap \<times> ptr" where
  "LIST_shiftS h l =
     (let link = snxt h l;
          h = set_snxt l (snxt h link) h;
          h = (if LIST_emptyS h l then set_stl l l h else h)
      in (h, link))"

definition LIST_pushS :: "sheap \<Rightarrow> ptr \<Rightarrow> ptr \<Rightarrow> sheap" where
  "LIST_pushS h l link =
     (let h = set_snxt link l h;
          h = set_snxt (stl h l) link h
      in set_stl l link h)"

definition LIST_unshiftS :: "sheap \<Rightarrow> ptr \<Rightarrow> ptr \<Rightarrow> sheap" where
  "LIST_unshiftS h l link =
     (let h = set_snxt link (snxt h l) h;
          h = (if LIST_emptyS h l then set_stl l link h else h)
      in set_snxt l link h)"

definition LIST_concatenatePushS :: "sheap \<Rightarrow> ptr \<Rightarrow> ptr \<Rightarrow> sheap" where
  "LIST_concatenatePushS h dst src =
     (if \<not> LIST_emptyS h src then
        let h = set_snxt (stl h src) dst h;
            h = set_snxt (stl h dst) (snxt h src) h;
            h = set_stl dst (stl h src) h
        in LIST_initS h src
      else h)"

definition LIST_concatenateUnshiftS :: "sheap \<Rightarrow> ptr \<Rightarrow> ptr \<Rightarrow> sheap" where
  "LIST_concatenateUnshiftS h dst src =
     (if \<not> LIST_emptyS h src then
        let h = set_snxt (stl h src) (snxt h dst) h;
            h = (if LIST_emptyS h dst then set_stl dst (snxt h src) h else h);
            h = set_snxt dst (snxt h src) h
        in LIST_initS h src
      else h)"

fun fromVectorS_loop :: "sheap \<Rightarrow> ptr \<Rightarrow> ptr list \<Rightarrow> sheap \<times> ptr" where
  "fromVectorS_loop h prev [] = (h, prev)"
| "fromVectorS_loop h prev (link # links) = fromVectorS_loop (set_snxt prev link h) link links"

definition LIST_fromVectorS :: "sheap \<Rightarrow> ptr \<Rightarrow> ptr \<Rightarrow> u64 \<Rightarrow> nat \<Rightarrow> u64 \<Rightarrow> sheap" where
  "LIST_fromVectorS h dst vector offset items elemSize =
     (let (h, prev) = fromVectorS_loop h dst (vector_links vector offset items elemSize)
      in set_stl dst prev (set_snxt prev dst h))"

definition LIST_beginS :: "sheap \<Rightarrow> ptr \<Rightarrow> ptr" where "LIST_beginS h l = snxt h l"
definition LIST_endS :: "ptr \<Rightarrow> ptr" where "LIST_endS l = l"

definition LIST_atS :: "sheap \<Rightarrow> ptr \<Rightarrow> nat \<Rightarrow> ptr" where
  "LIST_atS h l n = (snxt h ^^ n) (snxt h l)"

section \<open>Operations on counted single linked lists\<close>

definition LIST_initSC :: "sheap \<Rightarrow> ptr \<Rightarrow> sheap" where
  "LIST_initSC h l = set_scnt l 0 (LIST_initS h l)"

definition LIST_emptySC :: "sheap \<Rightarrow> ptr \<Rightarrow> bool" where
  "LIST_emptySC h l \<longleftrightarrow> LIST_emptyS h l"

definition LIST_lengthSC :: "sheap \<Rightarrow> ptr \<Rightarrow> size_t" where
  "LIST_lengthSC h l = scnt h l"

definition LIST_shiftSC :: "sheap \<Rightarrow> ptr \<Rightarrow> sheap \<times> ptr" where
  "LIST_shiftSC h l =
     (if \<not> LIST_emptySC h l then
        let (h, ret) = LIST_shiftS h l in (set_scnt l (scnt h l - 1) h, ret)
      else (h, snxt h l))"

definition LIST_pushSC :: "sheap \<Rightarrow> ptr \<Rightarrow> ptr \<Rightarrow> sheap" where
  "LIST_pushSC h l link = (let h = LIST_pushS h l link in set_scnt l (scnt h l + 1) h)"

definition LIST_unshiftSC :: "sheap \<Rightarrow> ptr \<Rightarrow> ptr \<Rightarrow> sheap" where
  "LIST_unshiftSC h l link = (let h = LIST_unshiftS h l link in set_scnt l (scnt h l + 1) h)"

definition LIST_concatenatePushSC :: "sheap \<Rightarrow> ptr \<Rightarrow> ptr \<Rightarrow> sheap" where
  "LIST_concatenatePushSC h dst src =
     (if \<not> LIST_emptySC h src then
        let h = LIST_concatenatePushS h dst src
        in LIST_initSC (set_scnt dst (scnt h dst + scnt h src) h) src
      else h)"

definition LIST_concatenateUnshiftSC :: "sheap \<Rightarrow> ptr \<Rightarrow> ptr \<Rightarrow> sheap" where
  "LIST_concatenateUnshiftSC h dst src =
     (if \<not> LIST_emptySC h src then
        let h = LIST_concatenateUnshiftS h dst src
        in LIST_initSC (set_scnt dst (scnt h dst + scnt h src) h) src
      else h)"

definition LIST_fromVectorSC :: "sheap \<Rightarrow> ptr \<Rightarrow> ptr \<Rightarrow> u64 \<Rightarrow> nat \<Rightarrow> u64 \<Rightarrow> sheap" where
  "LIST_fromVectorSC h dst vector offset items elemSize =
     set_scnt dst (of_nat items) (LIST_fromVectorS h dst vector offset items elemSize)"

definition LIST_beginSC :: "sheap \<Rightarrow> ptr \<Rightarrow> ptr" where "LIST_beginSC h l = LIST_beginS h l"
definition LIST_endSC :: "ptr \<Rightarrow> ptr" where "LIST_endSC l = LIST_endS l"
definition LIST_atSC :: "sheap \<Rightarrow> ptr \<Rightarrow> nat \<Rightarrow> ptr" where "LIST_atSC h l n = LIST_atS h l n"

section \<open>Abstraction\<close>

fun chained :: "sheap \<Rightarrow> ptr list \<Rightarrow> bool" where
  "chained h (p # q # ps) \<longleftrightarrow> snxt h p = q \<and> chained h (q # ps)"
| "chained h _ \<longleftrightarrow> True"

definition is_listS :: "sheap \<Rightarrow> ptr \<Rightarrow> ptr list \<Rightarrow> bool" where
  "is_listS h a xs \<longleftrightarrow> distinct (a # xs) \<and> chained h (a # xs @ [a]) \<and> stl h a = last (a # xs)"

definition is_listSC :: "sheap \<Rightarrow> ptr \<Rightarrow> ptr list \<Rightarrow> bool" where
  "is_listSC h a xs \<longleftrightarrow> is_listS h a xs \<and> scnt h a = of_nat (length xs)"

lemma chained_append: "chained h (xs @ y # ys) \<longleftrightarrow> chained h (xs @ [y]) \<and> chained h (y # ys)"
  by (induction xs rule: induct_list012) auto

lemma chained_Cons_append2:
  "chained h (x # xs @ y # z # ys) \<longleftrightarrow>
   chained h (x # xs @ [y]) \<and> snxt h y = z \<and> chained h (z # ys)"
  using chained_append [of h "x # xs" y "z # ys"] by simp

lemma chained_cong:
  "(\<And>p. p \<in> set (butlast ps) \<Longrightarrow> snxt h p = snxt h' p) \<Longrightarrow> chained h ps = chained h' ps"
proof (induction ps rule: induct_list012)
  case (3 x y zs)
  have "chained h (y # zs) = chained h' (y # zs)"
    by (rule "3.IH"(2)) (use "3.prems" in auto)
  moreover have "snxt h x = snxt h' x" using "3.prems" by auto
  ultimately show ?case by simp
qed auto

lemma chained_upd [simp]:
  "p \<notin> set (butlast ps) \<Longrightarrow> chained (set_snxt p q h) ps = chained h ps"
  "chained (set_stl l p h) ps = chained h ps" "chained (set_scnt l n h) ps = chained h ps"
  by (rule chained_cong; auto; fail)+

lemma is_listS_counter [simp]: "is_listS (set_scnt l n h) a xs = is_listS h a xs"
  by (simp add: is_listS_def)

lemma is_listS_distinct: "is_listS h a xs \<Longrightarrow> distinct (a # xs)"
  "is_listSC h a xs \<Longrightarrow> distinct (a # xs)"
  by (simp_all add: is_listS_def is_listSC_def)

lemma is_listS_head: "is_listS h a xs \<Longrightarrow> snxt h a = hd (xs @ [a])"
  by (cases xs) (auto simp: is_listS_def)

lemma counter_unchangedS [simp]:
  "scnt (LIST_initS h l) = scnt h" "scnt (fst (LIST_shiftS h l)) = scnt h"
  "scnt (LIST_pushS h l x) = scnt h" "scnt (LIST_unshiftS h l x) = scnt h"
  "scnt (LIST_concatenatePushS h l s) = scnt h" "scnt (LIST_concatenateUnshiftS h l s) = scnt h"
  by (simp_all add: LIST_initS_def LIST_shiftS_def LIST_pushS_def LIST_unshiftS_def
      LIST_concatenatePushS_def LIST_concatenateUnshiftS_def Let_def)

section \<open>Each operation on the abstraction\<close>

lemma LIST_initS_list: "is_listS (LIST_initS h a) a []"
  by (simp add: is_listS_def LIST_initS_def)

lemma LIST_emptyS_list: "is_listS h a xs \<Longrightarrow> LIST_emptyS h a \<longleftrightarrow> xs = []"
  by (cases xs) (auto simp: is_listS_def LIST_emptyS_def)

lemma LIST_shiftS_list:
  assumes "is_listS h a (x # xs)"
  shows "is_listS (fst (LIST_shiftS h a)) a xs" and "snd (LIST_shiftS h a) = x"
  using assms
  by (cases xs; auto simp: is_listS_def LIST_shiftS_def LIST_emptyS_def Let_def)+

lemma LIST_shiftS_empty: "is_listS h a [] \<Longrightarrow> is_listS (fst (LIST_shiftS h a)) a [] \<and> snd (LIST_shiftS h a) = a"
  by (simp add: is_listS_def LIST_shiftS_def LIST_emptyS_def Let_def)

lemma LIST_pushS_list: "is_listS h a xs \<Longrightarrow> x \<notin> set (a # xs) \<Longrightarrow> is_listS (LIST_pushS h a x) a (xs @ [x])"
  by (cases xs rule: rev_cases)
    (auto simp: is_listS_def LIST_pushS_def Let_def chained_Cons_append2 butlast_append)

lemma LIST_unshiftS_list: "is_listS h a xs \<Longrightarrow> x \<notin> set (a # xs) \<Longrightarrow> is_listS (LIST_unshiftS h a x) a (x # xs)"
  by (cases xs) (auto simp: is_listS_def LIST_unshiftS_def LIST_emptyS_def Let_def butlast_append)

lemma LIST_concatenatePushS_list:
  assumes "is_listS h a xs" "is_listS h b ys" "set (a # xs) \<inter> set (b # ys) = {}"
  shows "is_listS (LIST_concatenatePushS h a b) a (xs @ ys)"
    and "is_listS (LIST_concatenatePushS h a b) b []"
proof -
  note defs = is_listS_def LIST_concatenatePushS_def LIST_emptyS_def LIST_initS_def Let_def
    chained_Cons_append2 butlast_append
  have cases: "ys = [] \<or> (\<exists>y. ys = [y]) \<or> (\<exists>y zs z. ys = y # zs @ [z])"
    by (cases ys; cases "tl ys" rule: rev_cases) auto
  show "is_listS (LIST_concatenatePushS h a b) a (xs @ ys)"
    using assms cases by (cases xs rule: rev_cases) (auto simp: defs)
  show "is_listS (LIST_concatenatePushS h a b) b []"
    using assms by (cases ys) (auto simp: defs)
qed

text \<open>
  Prepending works when the destination is not empty or the source has at most one link.
\<close>

lemma LIST_concatenateUnshiftS_list:
  assumes "is_listS h a xs" "is_listS h b ys" "set (a # xs) \<inter> set (b # ys) = {}"
    and "xs \<noteq> [] \<or> length ys \<le> 1"
  shows "is_listS (LIST_concatenateUnshiftS h a b) a (ys @ xs)"
    and "is_listS (LIST_concatenateUnshiftS h a b) b []"
proof -
  note defs = is_listS_def LIST_concatenateUnshiftS_def LIST_emptyS_def LIST_initS_def Let_def
    chained_Cons_append2 butlast_append
  have cases: "ys = [] \<or> (\<exists>y. ys = [y]) \<or> (\<exists>y zs z. ys = y # zs @ [z])"
    by (cases ys; cases "tl ys" rule: rev_cases) auto
  show "is_listS (LIST_concatenateUnshiftS h a b) a (ys @ xs)"
    using assms cases by (cases xs) (auto simp: defs)
  show "is_listS (LIST_concatenateUnshiftS h a b) b []"
    using assms by (cases ys) (auto simp: defs)
qed

text \<open>
  Prepending two or more links to an empty list sets the tail to the first of them, so the next
  push cuts off all the others.
\<close>

lemma concatenateUnshiftS_empty:
  assumes "is_listS h a []" "is_listS h b (y # ys)" "a \<notin> set (b # y # ys)"
  shows "stl (LIST_concatenateUnshiftS h a b) a = y"
    and "snxt (LIST_concatenateUnshiftS h a b) a = y"
  using assms
  by (cases ys rule: rev_cases;
      auto simp: is_listS_def LIST_concatenateUnshiftS_def LIST_emptyS_def LIST_initS_def Let_def)+

lemma concatenateUnshiftS_loses_links:
  assumes "is_listS h a []" "is_listS h b (y # ys)" "a \<notin> set (b # y # ys)"
    and "x \<notin> {a, y}"
  shows "is_listS (LIST_pushS (LIST_concatenateUnshiftS h a b) a x) a [y, x]"
  using concatenateUnshiftS_empty [OF assms(1-3)] assms(3,4)
  by (auto simp: is_listS_def LIST_pushS_def Let_def)

section \<open>The counted variants\<close>

lemma LIST_initSC_list: "is_listSC (LIST_initSC h a) a []"
  by (simp add: is_listSC_def LIST_initSC_def LIST_initS_list)

lemma LIST_emptySC_list: "is_listSC h a xs \<Longrightarrow> LIST_emptySC h a \<longleftrightarrow> xs = []"
  by (simp add: is_listSC_def LIST_emptySC_def LIST_emptyS_list)

lemma LIST_lengthSC_list: "is_listSC h a xs \<Longrightarrow> LIST_lengthSC h a = of_nat (length xs)"
  by (simp add: is_listSC_def LIST_lengthSC_def)

lemma LIST_shiftSC_list:
  assumes "is_listSC h a (x # xs)"
  shows "is_listSC (fst (LIST_shiftSC h a)) a xs" and "snd (LIST_shiftSC h a) = x"
  using assms LIST_shiftS_list [of h a x xs] LIST_emptyS_list [of h a "x # xs"]
  by (auto simp: is_listSC_def LIST_shiftSC_def LIST_emptySC_def split_beta)

lemma LIST_shiftSC_empty:
  assumes "is_listSC h a []"
  shows "LIST_shiftSC h a = (h, a)"
  using assms is_listS_head [of h a "[]"] LIST_emptyS_list [of h a "[]"]
  by (simp add: is_listSC_def LIST_shiftSC_def LIST_emptySC_def)

lemma LIST_pushSC_list: "is_listSC h a xs \<Longrightarrow> x \<notin> set (a # xs) \<Longrightarrow> is_listSC (LIST_pushSC h a x) a (xs @ [x])"
  by (simp add: is_listSC_def LIST_pushSC_def LIST_pushS_list Let_def)

lemma LIST_unshiftSC_list: "is_listSC h a xs \<Longrightarrow> x \<notin> set (a # xs) \<Longrightarrow> is_listSC (LIST_unshiftSC h a x) a (x # xs)"
  by (simp add: is_listSC_def LIST_unshiftSC_def LIST_unshiftS_list Let_def)

lemma LIST_concatenatePushSC_list:
  assumes "is_listSC h a xs" "is_listSC h b ys" "set (a # xs) \<inter> set (b # ys) = {}"
  shows "is_listSC (LIST_concatenatePushSC h a b) a (xs @ ys)"
    and "is_listSC (LIST_concatenatePushSC h a b) b []"
proof -
  have l: "is_listS h a xs" "is_listS h b ys" using assms(1,2) by (simp_all add: is_listSC_def)
  have ab: "a \<noteq> b" using assms(3) by auto
  have e: "LIST_emptySC h b \<longleftrightarrow> ys = []" by (rule LIST_emptySC_list [OF assms(2)])
  have init: "is_listS (LIST_initS h' b) a (xs @ ys)" if "is_listS h' a (xs @ ys)" for h'
    using that assms(3) l(2) by (auto simp: is_listS_def LIST_initS_def butlast_append)
  show "is_listSC (LIST_concatenatePushSC h a b) a (xs @ ys)"
    using assms(1,2) LIST_concatenatePushS_list(1) [OF l assms(3)] ab
    by (auto simp: is_listSC_def LIST_concatenatePushSC_def e LIST_initSC_def Let_def init)
  show "is_listSC (LIST_concatenatePushSC h a b) b []"
    using assms(2) by (auto simp: LIST_concatenatePushSC_def e Let_def LIST_initSC_list)
qed

end
