(* ===== verification/Util_List.thy ===== *)
theory Util_List
  imports Util_List_DC Util_List_S
begin

text \<open>
  The interface of src/util/list.h: its generic macros (LIST\_push, LIST\_shift, ...) select one of
  four implementations by the type of the list. The locale states what a caller of the macros
  may rely on, its lemmas are proved from that contract alone, and the four implementations are
  its interpretations. The second half is the refinement of arbitrary sequences of operations.
\<close>

section \<open>The contract behind the generic macros\<close>

text \<open>Pushing several links and shifting several times, for any implementation.\<close>

fun push_all :: "('h \<Rightarrow> ptr \<Rightarrow> ptr \<Rightarrow> 'h) \<Rightarrow> 'h \<Rightarrow> ptr \<Rightarrow> ptr list \<Rightarrow> 'h" where
  "push_all push h l [] = h"
| "push_all push h l (x # xs) = push_all push (push h l x) l xs"

fun shift_many :: "('h \<Rightarrow> ptr \<Rightarrow> 'h \<times> ptr) \<Rightarrow> 'h \<Rightarrow> ptr \<Rightarrow> nat \<Rightarrow> 'h \<times> ptr list" where
  "shift_many shift h l 0 = (h, [])"
| "shift_many shift h l (Suc n) =
     (let (h, x) = shift h l; (h, xs) = shift_many shift h l n in (h, x # xs))"

locale list_contract =
  fixes rep :: "'h \<Rightarrow> ptr \<Rightarrow> ptr list \<Rightarrow> bool"
    and init :: "'h \<Rightarrow> ptr \<Rightarrow> 'h"
    and empty :: "'h \<Rightarrow> ptr \<Rightarrow> bool"
    and push :: "'h \<Rightarrow> ptr \<Rightarrow> ptr \<Rightarrow> 'h"
    and unshift :: "'h \<Rightarrow> ptr \<Rightarrow> ptr \<Rightarrow> 'h"
    and shift :: "'h \<Rightarrow> ptr \<Rightarrow> 'h \<times> ptr"
    and concat_push :: "'h \<Rightarrow> ptr \<Rightarrow> ptr \<Rightarrow> 'h"
  assumes rep_init: "rep (init h l) l []"
    and rep_distinct: "rep h l xs \<Longrightarrow> distinct (l # xs)"
    and empty_iff: "rep h l xs \<Longrightarrow> empty h l \<longleftrightarrow> xs = []"
    and rep_push: "rep h l xs \<Longrightarrow> x \<notin> set (l # xs) \<Longrightarrow> rep (push h l x) l (xs @ [x])"
    and rep_unshift: "rep h l xs \<Longrightarrow> x \<notin> set (l # xs) \<Longrightarrow> rep (unshift h l x) l (x # xs)"
    and rep_shift: "rep h l (x # xs) \<Longrightarrow> rep (fst (shift h l)) l xs \<and> snd (shift h l) = x"
    and shift_empty: "rep h l [] \<Longrightarrow> rep (fst (shift h l)) l [] \<and> snd (shift h l) = l"
    and rep_concat_push: "rep h l xs \<Longrightarrow> rep h m ys \<Longrightarrow> set (l # xs) \<inter> set (m # ys) = {} \<Longrightarrow>
          rep (concat_push h l m) l (xs @ ys) \<and> rep (concat_push h l m) m []"
begin

lemma rep_push_all: "rep h l xs \<Longrightarrow> distinct (l # xs @ ys) \<Longrightarrow> rep (push_all push h l ys) l (xs @ ys)"
proof (induction ys arbitrary: h xs)
  case Nil
  then show ?case by simp
next
  case (Cons y ys)
  have "rep (push h l y) l (xs @ [y])" using Cons.prems by (intro rep_push) auto
  moreover have "distinct (l # (xs @ [y]) @ ys)" using Cons.prems(2) by auto
  ultimately show ?case using Cons.IH [of "push h l y" "xs @ [y]"] by simp
qed

lemma rep_shift_many:
  "rep h l (xs @ ys) \<Longrightarrow> rep (fst (shift_many shift h l (length xs))) l ys \<and>
     snd (shift_many shift h l (length xs)) = xs"
proof (induction xs arbitrary: h)
  case Nil
  then show ?case by simp
next
  case (Cons x xs)
  then have "rep (fst (shift h l)) l (xs @ ys)" "snd (shift h l) = x"
    using rep_shift [of h l x "xs @ ys"] by simp_all
  then show ?case using Cons.IH [of "fst (shift h l)"] by (simp add: split_beta Let_def)
qed

text \<open>First in, first out.\<close>

lemma fifo:
  assumes "distinct (l # xs)"
  shows "snd (shift_many shift (push_all push (init h l) l xs) l (length xs)) = xs"
    and "empty (fst (shift_many shift (push_all push (init h l) l xs) l (length xs))) l"
proof -
  have "rep (push_all push (init h l) l xs) l (xs @ [])"
    using rep_push_all [OF rep_init, of l xs h] assms by simp
  note r = rep_shift_many [OF this]
  show "snd (shift_many shift (push_all push (init h l) l xs) l (length xs)) = xs"
    using r by simp
  show "empty (fst (shift_many shift (push_all push (init h l) l xs) l (length xs))) l"
    using r empty_iff by blast
qed

text \<open>An unshifted link is the next one shifted.\<close>

lemma unshift_shift:
  "rep h l xs \<Longrightarrow> x \<notin> set (l # xs) \<Longrightarrow>
   snd (shift (unshift h l x) l) = x \<and> rep (fst (shift (unshift h l x) l)) l xs"
  using rep_shift [OF rep_unshift] by blast

end

interpretation listD: list_contract is_listD LIST_initD LIST_emptyD LIST_pushD LIST_unshiftD
    LIST_shiftD LIST_concatenatePushD
  by unfold_locales
    (auto simp: LIST_initD_list LIST_emptyD_list LIST_pushD_list LIST_unshiftD_list LIST_shiftD_list
      LIST_shiftD_empty LIST_concatenatePushD_list dest: is_listD_distinct)

interpretation listDC: list_contract is_listDC LIST_initDC LIST_emptyDC LIST_pushDC LIST_unshiftDC
    LIST_shiftDC LIST_concatenatePushDC
  by unfold_locales
    (auto simp: LIST_initDC_list LIST_emptyDC_list LIST_pushDC_list LIST_unshiftDC_list
      LIST_shiftDC_list LIST_shiftDC_empty LIST_concatenatePushDC_list
      dest: is_listDC_distinct)

interpretation listS: list_contract is_listS LIST_initS LIST_emptyS LIST_pushS LIST_unshiftS
    LIST_shiftS LIST_concatenatePushS
  by unfold_locales
    (auto simp: LIST_initS_list LIST_emptyS_list LIST_pushS_list LIST_unshiftS_list LIST_shiftS_list
      LIST_shiftS_empty LIST_concatenatePushS_list dest: is_listS_distinct)

interpretation listSC: list_contract is_listSC LIST_initSC LIST_emptySC LIST_pushSC LIST_unshiftSC
    LIST_shiftSC LIST_concatenatePushSC
  by unfold_locales
    (auto simp: LIST_initSC_list LIST_emptySC_list LIST_pushSC_list LIST_unshiftSC_list
      LIST_shiftSC_list LIST_shiftSC_empty LIST_concatenatePushSC_list dest: is_listS_distinct)

section \<open>Sequences of operations on a counted double linked list\<close>

text \<open>
  The operations a program applies to one LIST\_ListDC, what they do to the HOL list of its
  links and what they return; \<open>None\<close> when the caller breaks the documented precondition (a
  link inserted twice, or unlinked although it is not a member).
\<close>

datatype list_op = Push ptr | Unshift ptr | Shift | Pop | Unlink ptr | Insert ptr ptr | Length

fun spec_op :: "ptr \<Rightarrow> ptr list \<Rightarrow> list_op \<Rightarrow> (ptr list \<times> u64) option" where
  "spec_op l xs (Push x) = (if x \<in> set (l # xs) then None else Some (xs @ [x], x))"
| "spec_op l xs (Unshift x) = (if x \<in> set (l # xs) then None else Some (x # xs, x))"
| "spec_op l xs Shift = Some (tl xs, hd (xs @ [l]))"
| "spec_op l xs Pop = Some (butlast xs, last (l # xs))"
| "spec_op l xs (Unlink x) = (if x \<in> set xs then Some (remove1 x xs, x) else None)"
| "spec_op l xs (Insert y x) =
     (if y \<in> set xs \<and> x \<notin> set (l # xs)
      then Some (takeWhile (\<lambda>z. z \<noteq> y) xs @ x # dropWhile (\<lambda>z. z \<noteq> y) xs, x) else None)"
| "spec_op l xs Length = Some (xs, of_nat (length xs))"

fun impl_op :: "heap \<Rightarrow> ptr \<Rightarrow> list_op \<Rightarrow> (heap \<times> u64) option" where
  "impl_op h l (Push x) = Some (LIST_pushDC h l x, x)"
| "impl_op h l (Unshift x) = Some (LIST_unshiftDC h l x, x)"
| "impl_op h l Shift = Some (LIST_shiftDC h l)"
| "impl_op h l Pop = Some (LIST_popDC h l)"
| "impl_op h l (Unlink x) = Some (LIST_unlinkDC h l x)"
| "impl_op h l (Insert y x) = Some (LIST_insert h l y x, x)"
| "impl_op h l Length = LIST_lengthDC h l"

fun run_ops :: "('s \<Rightarrow> list_op \<Rightarrow> ('s \<times> u64) option) \<Rightarrow> 's \<Rightarrow> list_op list \<Rightarrow> ('s \<times> u64 list) option" where
  "run_ops f s [] = Some (s, [])"
| "run_ops f s (oper # opers) =
     (case f s oper of
        None \<Rightarrow> None
      | Some (s', r) \<Rightarrow> map_option (\<lambda>(s'', rs). (s'', r # rs)) (run_ops f s' opers))"

lemma LIST_popDC_empty:
  assumes "is_listDC h a []"
  shows "is_listDC (fst (LIST_popDC h a)) a []" and "snd (LIST_popDC h a) = a"
  using assms is_listD_tail [of h a "[]"]
  by (auto simp: is_listDC_def LIST_popDC_def LIST_unlinkDC_def Let_def LIST_unlinkD_empty)

lemma impl_op_refines:
  assumes "is_listDC h l xs" "spec_op l xs oper = Some (xs', r)"
  shows "\<exists>h'. impl_op h l oper = Some (h', r) \<and> is_listDC h' l xs'"
proof (cases oper)
  case (Push x)
  then show ?thesis using assms LIST_pushDC_list(1) [of h l xs x] by (auto split: if_splits)
next
  case (Unshift x)
  then show ?thesis using assms LIST_unshiftDC_list(1) [of h l xs x] by (auto split: if_splits)
next
  case Shift
  then show ?thesis
    using assms LIST_shiftDC_list [of h l "hd xs" "tl xs"] LIST_shiftDC_empty [of h l]
    by (cases xs; cases "LIST_shiftDC h l") auto
next
  case Pop
  then show ?thesis
    using assms LIST_popDC_list [of h l "butlast xs" "last xs"] LIST_popDC_empty [of h l]
    by (cases xs rule: rev_cases; cases "LIST_popDC h l") auto
next
  case (Unlink x)
  then obtain ys zs where "xs = ys @ x # zs" "x \<notin> set ys"
    using assms by (auto split: if_splits dest: split_list_first)
  then show ?thesis
    using assms Unlink LIST_unlinkDC_list(1,2) [of h l ys x zs]
    by (cases "LIST_unlinkDC h l x") (auto simp: remove1_append)
next
  case (Insert y x)
  then obtain ys zs where xs: "xs = ys @ y # zs" "y \<notin> set ys" and x: "x \<notin> set (l # xs)"
    using assms by (auto split: if_splits dest: split_list_first)
  have "takeWhile (\<lambda>z. z \<noteq> y) xs = ys" "dropWhile (\<lambda>z. z \<noteq> y) xs = y # zs"
    using xs by (simp_all add: takeWhile_append dropWhile_append)
  then show ?thesis
    using assms Insert xs x LIST_insert_list [of h l ys y zs x] by auto
next
  case Length
  then show ?thesis using assms LIST_lengthDC_list [of h l xs] by auto
qed

lemma run_ops_refines:
  "is_listDC h l xs \<Longrightarrow> run_ops (spec_op l) xs opers = Some (xs', rs) \<Longrightarrow>
   \<exists>h'. run_ops (\<lambda>h. impl_op h l) h opers = Some (h', rs) \<and> is_listDC h' l xs'"
proof (induction opers arbitrary: h xs rs)
  case Nil
  then show ?case by simp
next
  case (Cons oper opers)
  from Cons.prems(2) obtain ys r rs' where
    ys: "spec_op l xs oper = Some (ys, r)" "run_ops (spec_op l) ys opers = Some (xs', rs')"
    and rs: "rs = r # rs'"
    by (auto split: option.splits)
  obtain h1 where h1: "impl_op h l oper = Some (h1, r)" "is_listDC h1 l ys"
    using impl_op_refines [OF Cons.prems(1) ys(1)] by blast
  from Cons.IH [OF h1(2) ys(2)] show ?case using h1(1) rs by auto
qed

text \<open>A concrete start: a list initialised in a heap of zeroes.\<close>

definition zero_heap :: heap where
  "zero_heap = \<lparr>nxt = \<lambda>_. 0, prv = \<lambda>_. 0, cnt = \<lambda>_. 0, tnt = \<lambda>_. False\<rparr>"

definition zero_sheap :: sheap where
  "zero_sheap = \<lparr>snxt = \<lambda>_. 0, stl = \<lambda>_. 0, scnt = \<lambda>_. 0\<rparr>"

text \<open>C31: Any sequence of list.h operations on a counted double linked list that respects the
  documented preconditions returns, on the heap of pointers, exactly what the same operations
  return on a plain sequence, and leaves a well formed list of the same links in the same order
  with a correct (or tainted) counter; the counting loop always ends.\<close>

theorem list_ops_refine_sequence:
  assumes "is_listDC h l xs" and "run_ops (spec_op l) xs opers = Some (xs', rs)"
  shows "\<exists>h'. run_ops (\<lambda>h. impl_op h l) h opers = Some (h', rs) \<and> is_listDC h' l xs'"
  using assms by (rule run_ops_refines)

theorem list_ops_refine_sequence_witness:
  "\<exists>h'. run_ops (\<lambda>h. impl_op h 100) (LIST_initDC zero_heap 100)
          [Push 1, Push 2, Unshift 3, Insert 2 4, Unlink 1, Length, Shift, Pop, Pop, Pop] =
        Some (h', [1, 2, 3, 4, 1, 3, 3, 2, 4, 100]) \<and> is_listDC h' 100 []"
  by (rule list_ops_refine_sequence [OF LIST_initDC_list]) simp

text \<open>On all four kinds of list, the links pushed to an initialised list come out of
  repeated shifts in the order they were pushed, and the list is empty afterwards.\<close>

theorem list_fifo_all_kinds:
  assumes "distinct (l # xs)"
  shows
   "snd (shift_many LIST_shiftD (push_all LIST_pushD (LIST_initD h l) l xs) l (length xs)) = xs \<and>
    snd (shift_many LIST_shiftDC (push_all LIST_pushDC (LIST_initDC h l) l xs) l (length xs)) = xs \<and>
    snd (shift_many LIST_shiftS (push_all LIST_pushS (LIST_initS s l) l xs) l (length xs)) = xs \<and>
    snd (shift_many LIST_shiftSC (push_all LIST_pushSC (LIST_initSC s l) l xs) l (length xs)) = xs \<and>
    LIST_emptyDC (fst (shift_many LIST_shiftDC
      (push_all LIST_pushDC (LIST_initDC h l) l xs) l (length xs))) l \<and>
    LIST_emptySC (fst (shift_many LIST_shiftSC
      (push_all LIST_pushSC (LIST_initSC s l) l xs) l (length xs))) l"
  using listD.fifo(1) [OF assms] listDC.fifo [OF assms] listS.fifo(1) [OF assms]
    listSC.fifo [OF assms] by blast

theorem list_fifo_all_kinds_witness:
  "snd (shift_many LIST_shiftDC (push_all LIST_pushDC (LIST_initDC zero_heap 9) 9 [1, 2, 3]) 9
     (length [1, 2, 3 :: ptr])) = [1, 2, 3]"
  by (rule list_fifo_all_kinds [of 9 "[1, 2, 3]" zero_heap zero_sheap, THEN conjunct2, THEN conjunct1])
    simp

text \<open>Cutting a list at any of its links with the eager LIST\_separateFrom and appending the
  cut part again gives back the same list, and both lists have valid counters in between.\<close>

theorem list_separate_concatenate:
  assumes "is_listDC h l (xs @ y # ys)" "\<not> tnt h l" "new \<notin> set (l # xs @ y # ys)"
  shows "\<exists>h'. LIST_separateFromFixDC h l new y = Some h' \<and>
           cnt h' l = of_nat (length xs) \<and> cnt h' new = of_nat (Suc (length ys)) \<and>
           is_listDC h' l xs \<and> is_listDC h' new (y # ys) \<and>
           is_listDC (LIST_concatenatePushDC h' l new) l (xs @ y # ys) \<and>
           is_listDC (LIST_concatenatePushDC h' l new) new []"
proof -
  obtain h' where h': "LIST_separateFromFixDC h l new y = Some h'"
      "is_listDC h' l xs" "\<not> tnt h' l" "is_listDC h' new (y # ys)" "\<not> tnt h' new"
    using LIST_separateFromFixDC_list [OF assms(1,3,2)] by blast
  have "set (l # xs) \<inter> set (new # y # ys) = {}"
    using assms(3) is_listDC_distinct [OF assms(1)] by auto
  from LIST_concatenatePushDC_list(1,2) [OF h'(2,4) this] show ?thesis
    using h' by (auto simp: is_listDC_def)
qed

theorem list_separate_concatenate_witness:
  "\<exists>h'. LIST_separateFromFixDC (push_all LIST_pushDC (LIST_initDC zero_heap 9) 9 [1, 2, 3]) 9 8 2 = Some h' \<and>
     cnt h' 9 = 1 \<and> cnt h' 8 = 2 \<and> is_listDC (LIST_concatenatePushDC h' 9 8) 9 [1, 2, 3]"
proof -
  let ?h = "push_all LIST_pushDC (LIST_initDC zero_heap 9) 9 [1, 2, 3]"
  have "is_listDC ?h 9 ([] @ [1, 2, 3])"
    by (rule listDC.rep_push_all [OF LIST_initDC_list]) simp
  then have "is_listDC ?h 9 ([1] @ 2 # [3])" by simp
  moreover have "\<not> tnt ?h 9" by (simp add: LIST_pushDC_def LIST_insertDC_def Let_def LIST_initDC_def)
  ultimately show ?thesis
    using list_separate_concatenate [of ?h 9 "[1]" 2 "[3]" 8] by auto
qed

text \<open>Prepending a single linked list of two or more links to an empty one
  (LIST\_concatenateUnshiftS) leaves the tail pointer at the first link instead of the last, so
  the next LIST\_pushS cuts off every prepended link but the first.\<close>

theorem list_concatenateUnshiftS_loses_links:
  assumes "is_listS h l []" "is_listS h m (y # ys)" "l \<notin> set (m # y # ys)" "x \<notin> {l, y}"
  shows "stl (LIST_concatenateUnshiftS h l m) l = y \<and>
    is_listS (LIST_pushS (LIST_concatenateUnshiftS h l m) l x) l [y, x]"
  using concatenateUnshiftS_empty(1) [OF assms(1-3)] concatenateUnshiftS_loses_links [OF assms]
  by blast+

theorem list_concatenateUnshiftS_loses_links_witness:
  "\<exists>h. is_listS h 8 [1, 2, 3] \<and> is_listS (LIST_pushS (LIST_concatenateUnshiftS h 9 8) 9 4) 9 [1, 4]"
proof -
  let ?h = "push_all LIST_pushS (LIST_initS (LIST_initS zero_sheap 9) 8) 8 [1, 2, 3]"
  have m: "is_listS ?h 8 [1, 2, 3]"
    using listS.rep_push_all [OF LIST_initS_list, of 8 "[1, 2, 3]"] by simp
  have l: "is_listS ?h 9 []"
    by (simp add: is_listS_def LIST_pushS_def LIST_initS_def Let_def)
  show ?thesis
    using list_concatenateUnshiftS_loses_links [OF l m, of 4] m by auto
qed

end
