(* ===== verification/Core_Beast.thy ===== *)
theory Core_Beast
  imports Opensky_Prelude
begin

text \<open>
  Model of src/core/beast.c: escaping of the synchronization byte in the beast frame format.
  The C function walks the input with a pointer to the current start and a pointer to the
  next SYNC found by \<open>memchr\<close>; the model keeps both as offsets into the input list and the
  bytes written so far as a list, whose length is the return value.
\<close>

definition BEAST_SYNC :: u8 where
  "BEAST_SYNC = 0x1a"

text \<open>\<open>memchr(in + 1, BEAST_SYNC, end - in - 1)\<close>, as an offset into the whole input.\<close>

definition next_sync :: "u8 list \<Rightarrow> nat \<Rightarrow> nat option" where
  "next_sync inp i = map_option (\<lambda>k. i + 1 + k) (memchr BEAST_SYNC (drop (i + 1) inp))"

text \<open>
  The \<open>while (true)\<close> loop: \<open>i\<close> is the offset of \<open>in\<close>, \<open>sync\<close> the offset of the SYNC
  found (\<open>None\<close> for NULL), \<open>out\<close> what has been written.
\<close>

function beast_loop :: "u8 list \<Rightarrow> nat \<Rightarrow> nat option \<Rightarrow> u8 list \<Rightarrow> u8 list" where
  "beast_loop inp i sync out =
     (case sync of
        Some s \<Rightarrow>
          (let out' = out @ take (s + 1 - i) (drop i inp); i' = s
           in if length inp \<noteq> i' + 1
              then beast_loop inp i' (next_sync inp i') out'
              else out' @ [BEAST_SYNC])
      | None \<Rightarrow> out @ drop i inp)"
  by pat_completeness auto
termination
proof (relation "measure (\<lambda>(inp, i, sync, out).
    case sync of None \<Rightarrow> 0 | Some s \<Rightarrow> Suc (length inp - s))", goal_cases)
  case (2 inp i sync out s)
  then show ?case
    by (auto simp: next_sync_def split: option.splits dest!: memchr_Some_less)
qed simp

declare beast_loop.simps [simp del]

definition BEAST_encode :: "u8 list \<Rightarrow> u8 list" where
  "BEAST_encode inp =
     (if length inp = 0 then [] else beast_loop inp 0 (memchr BEAST_SYNC inp) [])"

section \<open>Specification: escaping byte by byte\<close>

definition escape1 :: "u8 \<Rightarrow> u8 list" where
  "escape1 b = (if b = BEAST_SYNC then [BEAST_SYNC, BEAST_SYNC] else [b])"

definition escape :: "u8 list \<Rightarrow> u8 list" where
  "escape bs = concat (map escape1 bs)"

lemma escape_simps [simp]:
  "escape [] = []" "escape (b # bs) = escape1 b @ escape bs"
  "escape (xs @ ys) = escape xs @ escape ys"
  by (simp_all add: escape_def)

lemma escape_no_sync: "BEAST_SYNC \<notin> set bs \<Longrightarrow> escape bs = bs"
  by (induction bs) (auto simp: escape1_def)

text \<open>
  At the loop head the input pointer is at the start (nothing copied yet), or it points at a
  SYNC that has been copied once already; everything between it and the next SYNC is free of
  SYNC bytes.
\<close>

lemma beast_loop_escape_at_sync:
  "i < length inp \<Longrightarrow> inp ! i = BEAST_SYNC \<Longrightarrow>
   sync = next_sync inp i \<Longrightarrow>
   beast_loop inp i sync out = out @ BEAST_SYNC # escape (drop (Suc i) inp)"
proof (induction inp i sync out rule: beast_loop.induct)
  case (1 inp i sync out)
  define rest where "rest = drop (Suc i) inp"
  have split_i: "drop i inp = BEAST_SYNC # rest"
    using "1.prems" by (simp add: rest_def Cons_nth_drop_Suc [symmetric])
  show ?case
  proof (cases "memchr BEAST_SYNC rest")
    case None
    then have "escape rest = rest"
      by (simp add: escape_no_sync memchr_None_iff)
    then show ?thesis
      using None "1.prems" split_i by (simp add: beast_loop.simps rest_def next_sync_def)
  next
    case (Some k)
    define s where "s = i + 1 + k"
    have sync: "sync = Some s"
      using Some "1.prems"(3) by (simp add: rest_def s_def next_sync_def)
    have k: "k < length rest" "rest ! k = BEAST_SYNC" "BEAST_SYNC \<notin> set (take k rest)"
      using memchr_SomeD [OF Some] by auto
    have s: "s < length inp" "inp ! s = BEAST_SYNC"
      using k(1,2) by (auto simp: rest_def s_def)
    have rest: "rest = take k rest @ BEAST_SYNC # drop (Suc s) inp"
      using memchr_Some_split(1) [OF Some] by (simp add: rest_def s_def ac_simps)
    have copied: "take (s + 1 - i) (drop i inp) = BEAST_SYNC # take k rest @ [BEAST_SYNC]"
      using split_i k by (simp add: s_def take_Suc_conv_app_nth)
    have le: "i \<le> s" by (simp add: s_def)
    have esc: "escape rest = take k rest @ BEAST_SYNC # BEAST_SYNC # escape (drop (Suc s) inp)"
      by (subst rest) (simp add: escape_no_sync [OF k(3)] escape1_def)
    show ?thesis
    proof (cases "length inp = s + 1")
      case True
      then have "drop (Suc s) inp = []" by simp
      then show ?thesis
        using True esc copied le k(1)
        by (simp add: beast_loop.simps [of inp i "Some s"] sync rest_def)
    next
      case False
      have "beast_loop inp s (next_sync inp s) (out @ take (s + 1 - i) (drop i inp)) =
            (out @ take (s + 1 - i) (drop i inp)) @ BEAST_SYNC # escape (drop (Suc s) inp)"
        by (rule "1.IH" [OF sync refl refl]) (use False s in auto)
      then show ?thesis
        using False esc copied by (simp add: beast_loop.simps [of inp i "Some s"] sync rest_def)
    qed
  qed
qed

lemma BEAST_encode_eq_escape: "BEAST_encode inp = escape inp"
proof (cases "memchr BEAST_SYNC inp")
  case None
  then have "escape inp = inp"
    by (simp add: escape_no_sync memchr_None_iff)
  then show ?thesis
    using None by (simp add: BEAST_encode_def beast_loop.simps [of inp 0])
next
  case (Some s)
  note s = memchr_SomeD [OF Some]
  have inp: "inp = take s inp @ BEAST_SYNC # drop (Suc s) inp"
    by (rule memchr_Some_split(1) [OF Some])
  have esc: "escape inp = take s inp @ BEAST_SYNC # BEAST_SYNC # escape (drop (Suc s) inp)"
    using s by (subst inp) (simp add: escape_no_sync escape1_def)
  have copied: "take (s + 1 - 0) (drop 0 inp) = take s inp @ [BEAST_SYNC]"
    using s by (simp add: take_Suc_conv_app_nth)
  show ?thesis
  proof (cases "length inp = s + 1")
    case True
    then show ?thesis
      using s esc copied by (simp add: BEAST_encode_def beast_loop.simps [of inp 0] Some)
  next
    case False
    have "BEAST_encode inp =
        beast_loop inp s (next_sync inp s) (take s inp @ [BEAST_SYNC])"
      using False s(1) copied
      by (subst BEAST_encode_def, subst beast_loop.simps) (auto simp: Some Let_def)
    also have "\<dots> = (take s inp @ [BEAST_SYNC]) @ BEAST_SYNC # escape (drop (Suc s) inp)"
      using s by (intro beast_loop_escape_at_sync) auto
    finally show ?thesis using esc by simp
  qed
qed

section \<open>Decoding\<close>

text \<open>The inverse a receiver applies: a doubled SYNC is one byte, a lone SYNC is no encoding.\<close>

fun unescape :: "u8 list \<Rightarrow> u8 list option" where
  "unescape [] = Some []"
| "unescape [b] = (if b = BEAST_SYNC then None else Some [b])"
| "unescape (b # c # bs) =
     (if b \<noteq> BEAST_SYNC then map_option ((#) b) (unescape (c # bs))
      else if c = BEAST_SYNC then map_option ((#) BEAST_SYNC) (unescape bs) else None)"

lemma unescape_plain: "b \<noteq> BEAST_SYNC \<Longrightarrow> unescape (b # bs) = map_option ((#) b) (unescape bs)"
  by (cases bs) auto

lemma unescape_escape: "unescape (escape bs) = Some bs"
  by (induction bs) (auto simp: escape1_def unescape_plain)

lemma length_escape: "length (escape bs) = length bs + count_list bs BEAST_SYNC"
  by (induction bs) (auto simp: escape1_def)

lemma count_list_le_length: "count_list xs x \<le> length xs"
  by (induction xs) auto

lemma length_BEAST_encode_le: "length (BEAST_encode bs) \<le> 2 * length bs"
  by (simp add: BEAST_encode_eq_escape length_escape count_list_le_length mult_2)

end
