(* ===== verification/Core_Types.thy ===== *)
theory Core_Types
  imports Core_Beast
begin

text \<open>
  The data types the core components exchange (\<open>core/openskytypes.h\<close>, \<open>core/devicetypes.h\<close>):
  frame types by their wire number, device types, the raw frame that travels from the input
  through the buffer to the network, and the decoded frame the filter looks at.
\<close>

section \<open>Frame and device types\<close>

text \<open>The enumerations are C integers that are compared, subtracted and written to the wire,
  so they stay bytes here.\<close>

definition OPENSKY_SYNC :: u8 where "OPENSKY_SYNC = BEAST_SYNC"

definition OPENSKY_FRAME_TYPE_MODE_AC :: u8 where "OPENSKY_FRAME_TYPE_MODE_AC = 0x31"
definition OPENSKY_FRAME_TYPE_MODE_S_SHORT :: u8 where "OPENSKY_FRAME_TYPE_MODE_S_SHORT = 0x32"
definition OPENSKY_FRAME_TYPE_MODE_S_LONG :: u8 where "OPENSKY_FRAME_TYPE_MODE_S_LONG = 0x33"
definition OPENSKY_FRAME_TYPE_STATUS :: u8 where "OPENSKY_FRAME_TYPE_STATUS = 0x34"
definition OPENSKY_FRAME_TYPE_SERIAL :: u8 where "OPENSKY_FRAME_TYPE_SERIAL = 0x35"
definition OPENSKY_FRAME_TYPE_KEEP_ALIVE :: u8 where "OPENSKY_FRAME_TYPE_KEEP_ALIVE = 0x36"
definition OPENSKY_FRAME_TYPE_GPS_POSITION :: u8 where "OPENSKY_FRAME_TYPE_GPS_POSITION = 0x37"
definition OPENSKY_FRAME_TYPE_DEVICE_ID :: u8 where "OPENSKY_FRAME_TYPE_DEVICE_ID = 65"
definition OPENSKY_FRAME_TYPE_SERIAL_REQ :: u8 where "OPENSKY_FRAME_TYPE_SERIAL_REQ = 66"
definition OPENSKY_FRAME_TYPE_USER :: u8 where "OPENSKY_FRAME_TYPE_USER = 67"

lemmas frame_type_defs =
  OPENSKY_FRAME_TYPE_MODE_AC_def OPENSKY_FRAME_TYPE_MODE_S_SHORT_def
  OPENSKY_FRAME_TYPE_MODE_S_LONG_def OPENSKY_FRAME_TYPE_STATUS_def
  OPENSKY_FRAME_TYPE_SERIAL_def OPENSKY_FRAME_TYPE_KEEP_ALIVE_def
  OPENSKY_FRAME_TYPE_GPS_POSITION_def OPENSKY_FRAME_TYPE_DEVICE_ID_def
  OPENSKY_FRAME_TYPE_SERIAL_REQ_def OPENSKY_FRAME_TYPE_USER_def

text \<open>\<open>OPENSKY_FRAME_TYPE_TO_INDEX\<close>: the difference is an \<open>int\<close>, converted to \<open>size_t\<close>.\<close>

definition OPENSKY_FRAME_TYPE_TO_INDEX :: "u8 \<Rightarrow> size_t" where
  "OPENSKY_FRAME_TYPE_TO_INDEX ft = ucast ft - 0x31"

definition OPENSKY_INDEX_TO_FRAME_TYPE :: "size_t \<Rightarrow> u8" where
  "OPENSKY_INDEX_TO_FRAME_TYPE i = ucast (i + 0x31)"

definition OPENSKY_MAX_USERNAME :: nat where "OPENSKY_MAX_USERNAME = 40"

definition OPENSKY_DEVICE_TYPE_INVALID :: u32 where "OPENSKY_DEVICE_TYPE_INVALID = 0"

section \<open>Frames\<close>

text \<open>\<open>struct OPENSKY_RawFrame\<close>: \<open>raw\<close> has 46 bytes, \<open>rawLen\<close> of them in use.\<close>

record raw_frame =
  rawLen :: size_t
  raw :: "u8 list"

text \<open>\<open>struct OPENSKY_DecodedFrame\<close>: \<open>payload\<close> has 14 bytes, \<open>payloadLen\<close> of them in use.\<close>

record decoded_frame =
  frameType :: u8
  mlat :: u64
  siglevel :: u8
  payloadLen :: size_t
  payload :: "u8 list"

definition RAW_SIZE :: nat where "RAW_SIZE = 23 * 2"
definition PAYLOAD_SIZE :: nat where "PAYLOAD_SIZE = 14"

lemma frame_type_index_roundtrip:
  "OPENSKY_INDEX_TO_FRAME_TYPE (OPENSKY_FRAME_TYPE_TO_INDEX ft) = ft"
  by (rule bit_word_eqI)
    (simp add: OPENSKY_INDEX_TO_FRAME_TYPE_def OPENSKY_FRAME_TYPE_TO_INDEX_def bit_ucast_iff)

end
