(* ===== verification/Core_Buffer.thy ===== *)
theory Core_Buffer
  imports Core_Types
begin

text \<open>
  The frame buffer (\<open>core/buffer.c\<close>): a static pool of frames, dynamic pools allocated on
  demand, the overall pool of free frames, the queue of committed frames, the frame the producer
  holds and the frame the consumer holds, and the garbage collector of dynamic pools.

  A frame link is named by the pool it belongs to (its \<open>pool\<close> member, set once by
  \<open>deployPool\<close>) and its index in the pool's vector; a pool is named by its allocation. The
  \<open>LIST_ListDC\<close> lists are plain sequences here, which Util\_List justifies: every list operation
  used below refines the sequence operation that stands for it. The functions run under
  \<open>mutex\<close>, so each is one atomic step. The results of \<open>malloc\<close> are arguments. A message at
  \<open>LOG_LEVEL_EMERG\<close>, a failed \<open>assert\<close>, a division by zero and an access to a freed pool are
  faults.
\<close>

section \<open>State\<close>

datatype pool_addr = Static_pool | Dyn_pool nat

type_synonym frame_link = "pool_addr \<times> nat"

record buf_pool =
  p_addr :: pool_addr
  p_size :: size_t
  p_collect :: "frame_link list"

record buf_configuration =
  statBacklog :: u32
  dynBacklog :: u32
  dynIncrement :: u32
  history :: bool
  gc_enabled :: bool
  gcInterval :: u32
  gcLevel :: u32

record BUFFER_Statistics =
  queueSize :: u64
  maxQueueSize :: u64
  discardedCur :: u64
  discardedAll :: u64
  discardedMax :: u64
  poolSize :: u64
  n_dynPools :: u64
  dynPoolsAll :: u64
  dynPoolsMax :: u64
  uncollectedPools :: u64
  flushes :: u64
  GCruns :: u64

record buffer =
  buf_cfg :: buf_configuration
  staticPool :: buf_pool
  dynMaxPools :: size_t
  dynPools :: "buf_pool list"
  free_pool :: "frame_link list"
  queue :: "frame_link list"
  newFrame :: "frame_link option"
  currentFrame :: "frame_link option"
  buf_stats :: BUFFER_Statistics
  contents :: "frame_link \<Rightarrow> raw_frame"
  next_addr :: nat

abbreviation upd_stats :: "(BUFFER_Statistics \<Rightarrow> BUFFER_Statistics) \<Rightarrow> buffer \<Rightarrow> buffer" where
  "upd_stats \<equiv> buf_stats_update"

text \<open>\<open>LIST_length\<close> of a list: a \<open>size_t\<close>.\<close>

abbreviation list_length :: "'a list \<Rightarrow> size_t" where
  "list_length xs \<equiv> of_nat (length xs)"

definition zero_stats :: BUFFER_Statistics where
  "zero_stats = \<lparr>queueSize = 0, maxQueueSize = 0, discardedCur = 0, discardedAll = 0,
     discardedMax = 0, poolSize = 0, n_dynPools = 0, dynPoolsAll = 0, dynPoolsMax = 0,
     uncollectedPools = 0, flushes = 0, GCruns = 0\<rparr>"

section \<open>Pools\<close>

text \<open>The frames of a pool, in the order of its vector.\<close>

definition pool_frames :: "buf_pool \<Rightarrow> frame_link list" where
  "pool_frames p = map (Pair (p_addr p)) [0..<unat (p_size p)]"

definition deployPool :: "bool \<Rightarrow> buf_pool \<Rightarrow> size_t \<Rightarrow> buffer \<Rightarrow> bool \<times> buf_pool \<times> buffer" where
  "deployPool malloc_ok newPool sz s =
    (if \<not> malloc_ok then (False, newPool, s)
     else let newPool = newPool\<lparr>p_size := sz, p_collect := []\<rparr>
          in (True, newPool, s\<lparr>free_pool := free_pool s @ pool_frames newPool\<rparr>))"

definition createDynPool :: "bool \<times> bool \<Rightarrow> buffer \<Rightarrow> bool \<times> buffer" where
  "createDynPool m s =
    (if \<not> fst m then (False, s)
     else let newPool = \<lparr>p_addr = Dyn_pool (next_addr s), p_size = 0, p_collect = []\<rparr>;
              (ok, newPool, s) = deployPool (snd m) newPool (ucast (dynBacklog (buf_cfg s)))
                (s\<lparr>next_addr := Suc (next_addr s)\<rparr>)
          in if \<not> ok then (False, s)
             else let s = s\<lparr>dynPools := dynPools s @ [newPool]\<rparr>;
                      s = upd_stats (\<lambda>t. t\<lparr>dynPoolsAll := dynPoolsAll t + 1\<rparr>) s;
                      s = (if list_length (dynPools s) > dynPoolsMax (buf_stats s)
                           then upd_stats (\<lambda>t. t\<lparr>dynPoolsMax := list_length (dynPools s)\<rparr>) s
                           else s)
                  in (True, s))"

section \<open>Garbage collection\<close>

text \<open>\<open>LIST_unshift(&frame->pool->collect, l)\<close>: reaching a pool that no longer exists is an
  access to freed memory.\<close>

fun unshift_collect :: "frame_link \<Rightarrow> buf_pool list \<Rightarrow> buf_pool list option" where
  "unshift_collect f [] = None"
| "unshift_collect f (p # ps) =
    (if p_addr p = fst f then Some (p\<lparr>p_collect := f # p_collect p\<rparr> # ps)
     else map_option ((#) p) (unshift_collect f ps))"

fun collect_loop :: "frame_link list \<Rightarrow> buffer \<Rightarrow> fault + buffer" where
  "collect_loop [] s = Ok s"
| "collect_loop (f # fs) s =
    (if fst f \<noteq> Static_pool
     then let s = s\<lparr>free_pool := remove1 f (free_pool s)\<rparr>
          in case unshift_collect f (dynPools s) of
               None \<Rightarrow> Fault Out_of_bounds
             | Some ps \<Rightarrow> collect_loop fs (s\<lparr>dynPools := ps\<rparr>)
     else collect_loop fs s)"

definition collectPools :: "buffer \<Rightarrow> fault + buffer" where
  "collectPools s = collect_loop (free_pool s) s"

text \<open>The first pool with collected frames gives them back; the loop of \<open>uncollectPools\<close>.\<close>

fun uncollect_loop :: "buf_pool list \<Rightarrow> (frame_link list \<times> buf_pool list) option" where
  "uncollect_loop [] = None"
| "uncollect_loop (p # ps) =
    (if p_collect p \<noteq> [] then Some (p_collect p, p\<lparr>p_collect := []\<rparr> # ps)
     else map_option (apsnd ((#) p)) (uncollect_loop ps))"

definition uncollectPools :: "buffer \<Rightarrow> bool \<times> buffer" where
  "uncollectPools s =
    (case uncollect_loop (dynPools s) of
       None \<Rightarrow> (False, s)
     | Some (fs, ps) \<Rightarrow> (True, s\<lparr>free_pool := free_pool s @ fs, dynPools := ps\<rparr>))"

text \<open>Unlinking fully collected pools while walking the list of pools.\<close>

fun destroy_loop :: "buf_pool list \<Rightarrow> buf_pool list" where
  "destroy_loop [] = []"
| "destroy_loop (p # ps) =
    (if list_length (p_collect p) = p_size p then destroy_loop ps else p # destroy_loop ps)"

definition destroyUnusedPools :: "buffer \<Rightarrow> buffer" where
  "destroyUnusedPools s = s\<lparr>dynPools := destroy_loop (dynPools s)\<rparr>"

definition gc :: "buffer \<Rightarrow> fault + buffer" where
  "gc s = bind_ok (collectPools (upd_stats (\<lambda>t. t\<lparr>GCruns := GCruns t + 1\<rparr>) s))
            (\<lambda>s. Ok (destroyUnusedPools s))"

definition BUF_runGC :: "buffer \<Rightarrow> fault + buffer" where
  "BUF_runGC s = gc s"

text \<open>One turn of the collector's main loop, after the sleep.\<close>

definition gc_turn :: "buffer \<Rightarrow> fault + buffer" where
  "gc_turn s =
    (if gcLevel (buf_cfg s) = 0 then Fault Div_by_zero
     else if list_length (queue s) <
       (list_length (dynPools s) * ucast (dynBacklog (buf_cfg s))) div ucast (gcLevel (buf_cfg s))
     then gc s else Ok s)"

section \<open>Configuration, construction, statistics\<close>

definition buf_cfgFix :: "buf_configuration \<Rightarrow> buf_configuration" where
  "buf_cfgFix c =
    (let c = (if statBacklog c < 2 then c\<lparr>statBacklog := 2\<rparr> else c)
     in if gc_enabled c \<and> \<not> history c then c\<lparr>gc_enabled := False\<rparr> else c)"

definition buf_construct :: "bool \<Rightarrow> buffer \<Rightarrow> fault + (bool \<times> buffer)" where
  "buf_construct malloc_ok s =
    (if \<not> 2 \<le> statBacklog (buf_cfg s) then Fault Assert_failed
     else let s = s\<lparr>dynPools := [], free_pool := [], queue := [], newFrame := None,
                currentFrame := None,
                dynMaxPools := (if history (buf_cfg s) then ucast (dynIncrement (buf_cfg s)) else 0)\<rparr>;
              (ok, p, s) = deployPool malloc_ok (staticPool s) (ucast (statBacklog (buf_cfg s))) s
          in if \<not> ok then Ok (False, s) else Ok (True, s\<lparr>staticPool := p\<rparr>))"

definition buf_destruct :: "buffer \<Rightarrow> buffer" where
  "buf_destruct s = s\<lparr>dynPools := []\<rparr>"

definition buf_resetStats :: "buffer \<Rightarrow> buffer" where
  "buf_resetStats s = s\<lparr>buf_stats := zero_stats\<rparr>"

definition BUFFER_getStatistics :: "buffer \<Rightarrow> BUFFER_Statistics" where
  "BUFFER_getStatistics s = (buf_stats s)\<lparr>queueSize := list_length (queue s),
     poolSize := list_length (free_pool s), n_dynPools := list_length (dynPools s)\<rparr>"

section \<open>Queue operations\<close>

definition BUF_flush :: "buffer \<Rightarrow> buffer" where
  "BUF_flush s = upd_stats (\<lambda>t. t\<lparr>flushes := flushes t + 1\<rparr>)
     (s\<lparr>free_pool := free_pool s @ queue s, queue := []\<rparr>)"

definition BUF_flushUnlessHistoryEnabled :: "buffer \<Rightarrow> buffer" where
  "BUF_flushUnlessHistoryEnabled s = (if \<not> history (buf_cfg s) then BUF_flush s else s)"

text \<open>\<open>LIST_shift(&pool)\<close> and \<open>LIST_shift(&queue)\<close>: the first frame, \<open>None\<close> for NULL.\<close>

definition shift_free :: "buffer \<Rightarrow> frame_link option \<times> buffer" where
  "shift_free s = (case free_pool s of [] \<Rightarrow> (None, s) | f # fs \<Rightarrow> (Some f, s\<lparr>free_pool := fs\<rparr>))"

definition shift_queue :: "buffer \<Rightarrow> frame_link option \<times> buffer" where
  "shift_queue s = (case queue s of [] \<Rightarrow> (None, s) | f # fs \<Rightarrow> (Some f, s\<lparr>queue := fs\<rparr>))"

definition sacrifice_stats :: "BUFFER_Statistics \<Rightarrow> BUFFER_Statistics" where
  "sacrifice_stats t =
    (let t = t\<lparr>discardedCur := discardedCur t + 1, discardedAll := discardedAll t + 1\<rparr>
     in if discardedCur t > discardedMax t then t\<lparr>discardedMax := discardedCur t\<rparr> else t)"

definition getFrameFromPool :: "bool \<times> bool \<Rightarrow> buffer \<Rightarrow> fault + (frame_link \<times> buffer)" where
  "getFrameFromPool m s =
    (let (ret, s) =
       (if free_pool s \<noteq> [] then
          let (ret, s) = shift_free s
          in (ret, upd_stats (\<lambda>t. t\<lparr>discardedCur := 0\<rparr>) s)
        else let (ok, s) = uncollectPools s in if ok then
          shift_free (upd_stats (\<lambda>t. t\<lparr>uncollectedPools := uncollectedPools t + 1, discardedCur := 0\<rparr>) s)
        else let (ok, s) = (if list_length (dynPools s) < dynMaxPools s then createDynPool m s
                            else (False, s)) in if ok then
          shift_free (upd_stats (\<lambda>t. t\<lparr>discardedCur := 0\<rparr>) s)
        else shift_queue (upd_stats sacrifice_stats s))
     in case ret of None \<Rightarrow> Fault Assert_failed | Some f \<Rightarrow> Ok (f, s))"

section \<open>Producer\<close>

definition BUF_newFrame :: "bool \<times> bool \<Rightarrow> buffer \<Rightarrow> fault + (frame_link \<times> buffer)" where
  "BUF_newFrame m s =
    (if newFrame s \<noteq> None then Fault Assert_failed
     else bind_ok (getFrameFromPool m s) (\<lambda>(f, s).
       let s = s\<lparr>newFrame := Some f\<rparr>
       in if newFrame s = currentFrame s then Fault Assert_failed else Ok (f, s)))"

text \<open>The producer writes through the pointer it got.\<close>

definition write_frame :: "frame_link \<Rightarrow> raw_frame \<Rightarrow> buffer \<Rightarrow> buffer" where
  "write_frame f r s = s\<lparr>contents := (contents s)(f := r)\<rparr>"

definition BUF_commitFrame :: "frame_link \<Rightarrow> buffer \<Rightarrow> fault + buffer" where
  "BUF_commitFrame f s =
    (if newFrame s \<noteq> Some f then Fault Assert_failed
     else let s = s\<lparr>queue := queue s @ [f]\<rparr>;
              s = (if list_length (queue s) > maxQueueSize (buf_stats s)
                   then upd_stats (\<lambda>t. t\<lparr>maxQueueSize := list_length (queue s)\<rparr>) s else s)
          in Ok (s\<lparr>newFrame := None\<rparr>))"

definition BUF_abortFrame :: "frame_link \<Rightarrow> buffer \<Rightarrow> fault + buffer" where
  "BUF_abortFrame f s =
    (if newFrame s \<noteq> Some f then Fault Assert_failed
     else Ok (s\<lparr>free_pool := f # free_pool s, newFrame := None\<rparr>))"

section \<open>Consumer\<close>

text \<open>
  Waiting on the condition variable releases the mutex: each wake-up comes with the return code
  of the wait and with what the other threads did to the buffer meanwhile. A consumer that runs
  out of wake-ups is still waiting.
\<close>

type_synonym wakeup = "u32 \<times> (buffer \<Rightarrow> buffer)"

datatype wait_result = Waiting | Timed_out buffer | Ready frame_link buffer

definition take_current :: "buffer \<Rightarrow> wait_result" where
  "take_current s = (case shift_queue s of
     (Some f, s) \<Rightarrow> Ready f (s\<lparr>currentFrame := Some f\<rparr>) | (None, s) \<Rightarrow> Waiting)"

fun getFrame_loop :: "wakeup list \<Rightarrow> buffer \<Rightarrow> fault + wait_result" where
  "getFrame_loop ws s =
    (if queue s \<noteq> [] then Ok (take_current s)
     else case ws of [] \<Rightarrow> Ok Waiting
     | (r, env) # ws \<Rightarrow> if r \<noteq> 0 then Fault Emergency else getFrame_loop ws (env s))"

definition BUF_getFrame :: "wakeup list \<Rightarrow> buffer \<Rightarrow> fault + wait_result" where
  "BUF_getFrame ws s =
    (if currentFrame s \<noteq> None then Fault Assert_failed else getFrame_loop ws s)"

definition ETIMEDOUT :: u32 where "ETIMEDOUT = 110"

fun getFrameTimeout_loop :: "wakeup list \<Rightarrow> buffer \<Rightarrow> fault + wait_result" where
  "getFrameTimeout_loop ws s =
    (if queue s \<noteq> [] then Ok (take_current s)
     else case ws of [] \<Rightarrow> Ok Waiting
     | (r, env) # ws \<Rightarrow>
         if r = ETIMEDOUT then Ok (Timed_out (env s))
         else if r \<noteq> 0 then Fault Emergency else getFrameTimeout_loop ws (env s))"

definition BUF_getFrameTimeout :: "wakeup list \<Rightarrow> buffer \<Rightarrow> fault + wait_result" where
  "BUF_getFrameTimeout ws s =
    (if currentFrame s \<noteq> None then Fault Assert_failed else getFrameTimeout_loop ws s)"

text \<open>The absolute deadline handed to the timed wait: seconds and nanoseconds.\<close>

definition deadline :: "u64 \<Rightarrow> u64 \<times> u64 \<Rightarrow> u64 \<times> u64" where
  "deadline timeout_ms ts =
    (let sec = fst ts + timeout_ms div 1000;
         nsec = snd ts + (timeout_ms mod 1000) * 1000000
     in if nsec \<ge> 1000000000 then (sec + 1, nsec - 1000000000) else (sec, nsec))"

definition BUF_releaseFrame :: "frame_link \<Rightarrow> buffer \<Rightarrow> fault + buffer" where
  "BUF_releaseFrame f s =
    (if currentFrame s \<noteq> Some f then Fault Assert_failed
     else Ok (s\<lparr>free_pool := f # free_pool s, currentFrame := None\<rparr>))"

definition BUF_putFrame :: "frame_link \<Rightarrow> buffer \<Rightarrow> fault + buffer" where
  "BUF_putFrame f s =
    (if currentFrame s \<noteq> Some f then Fault Assert_failed
     else Ok (s\<lparr>queue := f # queue s, currentFrame := None\<rparr>))"

end
