(* ===== verification/Core_Buffer_Inv.thy ===== *)
theory Core_Buffer_Inv
  imports Core_Buffer "HOL-Library.Multiset"
begin

text \<open>
  The invariant of the frame buffer: every frame of every deployed pool is in exactly one place
  (free, queued, held by the producer, held by the consumer, or collected by its own pool), so
  no frame is lost, duplicated, or left dangling into a freed pool. Each operation of
  Core\_Buffer preserves it; the operations that only move free frames around keep the client's
  view (\<open>same_client\<close>).
\<close>

section \<open>The invariant\<close>

definition opt_list :: "'a option \<Rightarrow> 'a list" where
  "opt_list x = (case x of None \<Rightarrow> [] | Some a \<Rightarrow> [a])"

lemma opt_list_simps [simp]: "opt_list None = []" "opt_list (Some a) = [a]"
  by (simp_all add: opt_list_def)

definition collected :: "buf_pool list \<Rightarrow> frame_link list" where
  "collected ps = concat (map p_collect ps)"

definition frames_of :: "buf_pool list \<Rightarrow> frame_link list" where
  "frames_of ps = concat (map pool_frames ps)"

definition all_frames :: "buffer \<Rightarrow> frame_link list" where
  "all_frames s = free_pool s @ queue s @ opt_list (newFrame s) @ opt_list (currentFrame s)
     @ collected (dynPools s)"

definition deployed :: "buffer \<Rightarrow> frame_link list" where
  "deployed s = pool_frames (staticPool s) @ frames_of (dynPools s)"

definition pools_ok :: "nat \<Rightarrow> size_t \<Rightarrow> buf_pool list \<Rightarrow> bool" where
  "pools_ok n sz ps \<longleftrightarrow> distinct (map p_addr ps)
     \<and> (\<forall>p\<in>set ps. p_addr p \<in> Dyn_pool ` {..<n} \<and> p_size p = sz
          \<and> (\<forall>f\<in>set (p_collect p). fst f = p_addr p))"

definition buf_inv :: "buffer \<Rightarrow> bool" where
  "buf_inv s \<longleftrightarrow> mset (all_frames s) = mset (deployed s)
     \<and> p_addr (staticPool s) = Static_pool \<and> 2 \<le> p_size (staticPool s)
     \<and> pools_ok (next_addr s) (ucast (dynBacklog (buf_cfg s))) (dynPools s)
     \<and> length (dynPools s) \<le> unat (dynMaxPools s)"

definition same_client :: "buffer \<Rightarrow> buffer \<Rightarrow> bool" where
  "same_client s s' \<longleftrightarrow> queue s' = queue s \<and> newFrame s' = newFrame s
     \<and> currentFrame s' = currentFrame s \<and> contents s' = contents s \<and> buf_cfg s' = buf_cfg s
     \<and> dynMaxPools s' = dynMaxPools s \<and> staticPool s' = staticPool s"

lemma same_client_refl [simp]: "same_client s s"
  by (simp add: same_client_def)

lemma same_client_trans: "same_client s t \<Longrightarrow> same_client t u \<Longrightarrow> same_client s u"
  by (simp add: same_client_def)

lemma collected_simps [simp]:
  "collected [] = []" "collected (p # ps) = p_collect p @ collected ps"
  "collected (ps @ qs) = collected ps @ collected qs"
  by (simp_all add: collected_def)

lemma frames_of_simps [simp]:
  "frames_of [] = []" "frames_of (p # ps) = pool_frames p @ frames_of ps"
  "frames_of (ps @ qs) = frames_of ps @ frames_of qs"
  by (simp_all add: frames_of_def)

lemma set_pool_frames: "set (pool_frames p) = {p_addr p} \<times> {..<unat (p_size p)}"
  by (auto simp: pool_frames_def)

lemma distinct_pool_frames: "distinct (pool_frames p)"
  by (simp add: pool_frames_def distinct_map inj_on_def)

lemma length_pool_frames [simp]: "length (pool_frames p) = unat (p_size p)"
  by (simp add: pool_frames_def)

lemma pool_frames_cong: "p_addr p = p_addr q \<Longrightarrow> p_size p = p_size q \<Longrightarrow> pool_frames p = pool_frames q"
  by (simp add: pool_frames_def)

lemma set_frames_of: "set (frames_of ps) = (\<Union>p\<in>set ps. {p_addr p} \<times> {..<unat (p_size p)})"
  by (auto simp: frames_of_def set_pool_frames)

lemma distinct_frames_of: "distinct (map p_addr ps) \<Longrightarrow> distinct (frames_of ps)"
  by (induction ps) (auto simp: distinct_pool_frames set_pool_frames set_frames_of)

lemma pools_ok_frames_dyn:
  "pools_ok n sz ps \<Longrightarrow> f \<in> set (frames_of ps) \<Longrightarrow> fst f \<noteq> Static_pool"
  by (auto simp: pools_ok_def set_frames_of)

lemma distinct_deployed: "buf_inv s \<Longrightarrow> distinct (deployed s)"
  by (auto simp: buf_inv_def deployed_def distinct_pool_frames distinct_frames_of pools_ok_def
      set_pool_frames set_frames_of)

lemma distinct_all_frames: "buf_inv s \<Longrightarrow> distinct (all_frames s)"
  by (metis buf_inv_def distinct_deployed mset_eq_imp_distinct_iff)

lemma set_all_frames: "buf_inv s \<Longrightarrow> set (all_frames s) = set (deployed s)"
  by (metis buf_inv_def set_mset_mset)

section \<open>Collection\<close>

lemma unshift_collect_exists:
  "fst f \<in> p_addr ` set ps \<Longrightarrow> \<exists>ps'. unshift_collect f ps = Some ps'"
  by (induction ps) auto

lemma unshift_collect_all:
  assumes "unshift_collect f ps = Some ps'" "\<forall>p\<in>set ps. G p"
    and "\<And>p. G p \<Longrightarrow> p_addr p = fst f \<Longrightarrow> G (p\<lparr>p_collect := f # p_collect p\<rparr>)"
  shows "\<forall>p\<in>set ps'. G p"
  using assms by (induction ps arbitrary: ps') (auto split: if_splits)

lemma unshift_collect_Some:
  assumes "unshift_collect f ps = Some ps'"
  shows "map p_addr ps' = map p_addr ps" "mset (collected ps') = add_mset f (mset (collected ps))"
    "frames_of ps' = frames_of ps" "pools_ok n sz ps \<Longrightarrow> pools_ok n sz ps'"
proof -
  have *: "map p_addr ps' = map p_addr ps \<and> mset (collected ps') = add_mset f (mset (collected ps))
      \<and> frames_of ps' = frames_of ps"
    using assms
    by (induction ps arbitrary: ps') (auto split: if_splits simp: pool_frames_def)
  then show "map p_addr ps' = map p_addr ps"
    "mset (collected ps') = add_mset f (mset (collected ps))" "frames_of ps' = frames_of ps" by auto
  assume ok: "pools_ok n sz ps"
  have "\<forall>p\<in>set ps'. p_addr p \<in> Dyn_pool ` {..<n} \<and> p_size p = sz \<and> (\<forall>f\<in>set (p_collect p). fst f = p_addr p)"
    by (rule unshift_collect_all [OF assms]) (use ok in \<open>simp_all add: pools_ok_def\<close>)
  then show "pools_ok n sz ps'"
    using * ok by (simp add: pools_ok_def)
qed

lemma in_deployed_dyn:
  assumes "buf_inv s" "f \<in> set (all_frames s)" "fst f \<noteq> Static_pool"
  shows "fst f \<in> p_addr ` set (dynPools s)"
  using assms by (auto simp: set_all_frames deployed_def set_pool_frames set_frames_of buf_inv_def)

lemma collect_loop_ok:
  assumes "buf_inv s" "mset fs \<subseteq># mset (free_pool s)"
  shows "\<exists>s'. collect_loop fs s = Ok s' \<and> buf_inv s' \<and> same_client s s' \<and> buf_stats s' = buf_stats s
    \<and> length (dynPools s') = length (dynPools s)"
  using assms
proof (induction fs arbitrary: s)
  case (Cons f fs)
  from Cons.prems(2) have sub: "mset fs \<subseteq># mset (free_pool s)"
    by (metis mset.simps(2) mset_subset_eq_insertD subset_mset.less_imp_le)
  from Cons.prems(2) have f: "f \<in> set (free_pool s)"
    by (metis in_mset_fold_plus_iff list.set_intros(1) mset_subset_eqD set_mset_mset)
  show ?case
  proof (cases "fst f = Static_pool")
    case True
    then show ?thesis using Cons.IH [OF Cons.prems(1) sub] by simp
  next
    case False
    have "fst f \<in> p_addr ` set (dynPools s)"
      using in_deployed_dyn [OF Cons.prems(1) _ False] f by (simp add: all_frames_def)
    then obtain ps where ps: "unshift_collect f (dynPools s) = Some ps"
      using unshift_collect_exists by blast
    note ups = unshift_collect_Some [OF ps]
    let ?t = "s\<lparr>free_pool := remove1 f (free_pool s), dynPools := ps\<rparr>"
    have len: "length ps = length (dynPools s)"
      using ups(1) by (metis length_map)
    have "mset (all_frames ?t) = mset (all_frames s)"
      using f by (simp add: all_frames_def ups(2) ac_simps)
    then have "buf_inv ?t"
      using Cons.prems(1) ups(3,4) len by (simp add: buf_inv_def deployed_def)
    moreover have "mset fs \<subseteq># mset (free_pool ?t)"
      using Cons.prems(2) f by (simp add: insert_subset_eq_iff)
    ultimately obtain s' where "collect_loop fs ?t = Ok s'" "buf_inv s'" "same_client ?t s'"
      "buf_stats s' = buf_stats ?t" "length (dynPools s') = length (dynPools ?t)"
      using Cons.IH by blast
    then show ?thesis using False ps len by (simp add: Let_def same_client_def)
  qed
qed simp

lemma collectPools_ok:
  assumes "buf_inv s"
  shows "\<exists>s'. collectPools s = Ok s' \<and> buf_inv s' \<and> same_client s s' \<and> buf_stats s' = buf_stats s
    \<and> length (dynPools s') = length (dynPools s)"
  using collect_loop_ok [OF assms] by (simp add: collectPools_def)

text \<open>Destroying a pool that has collected all of its frames frees no frame in use.\<close>

lemma length_collect_bound:
  assumes inv: "buf_inv s" and p: "p \<in> set (dynPools s)"
  shows "length (p_collect p) \<le> unat (p_size p)" "set (p_collect p) \<subseteq> set (pool_frames p)"
proof -
  have ok: "pools_ok (next_addr s) (ucast (dynBacklog (buf_cfg s))) (dynPools s)"
    using inv by (simp add: buf_inv_def)
  show sub: "set (p_collect p) \<subseteq> set (pool_frames p)"
  proof
    fix f assume f: "f \<in> set (p_collect p)"
    then have "f \<in> set (deployed s)" "fst f = p_addr p"
      using p ok by (auto simp: set_all_frames [OF inv, symmetric] all_frames_def collected_def pools_ok_def)
    moreover have "p_addr p \<noteq> p_addr (staticPool s)"
      using p ok inv by (auto simp: pools_ok_def buf_inv_def)
    ultimately obtain q where "q \<in> set (dynPools s)" "f \<in> set (pool_frames q)" "p_addr q = p_addr p"
      by (auto simp: deployed_def set_frames_of set_pool_frames)
    then show "f \<in> set (pool_frames p)"
      using ok p by (metis distinct_map inj_onD pools_ok_def)
  qed
  have "distinct (p_collect p)"
    using distinct_all_frames [OF inv] p
    by (metis (no_types, lifting) all_frames_def collected_def distinct_append distinct_concat_iff
        imageI list.set_map)
  then show "length (p_collect p) \<le> unat (p_size p)"
    using sub by (metis card_mono distinct_card distinct_pool_frames length_pool_frames List.finite_set)
qed

lemma full_collect:
  assumes inv: "buf_inv s" and p: "p \<in> set (dynPools s)"
    and full: "list_length (p_collect p) = p_size p"
  shows "mset (p_collect p) = mset (pool_frames p)"
proof -
  have le: "length (p_collect p) \<le> unat (p_size p)" by (rule length_collect_bound [OF inv p])
  moreover have "unat (p_size p) < 2 ^ 64"
    by (rule unat_u64_less)
  ultimately have "unat (list_length (p_collect p) :: u64) = length (p_collect p)"
    by (intro unat_of_nat_small) simp
  then have "length (p_collect p) = unat (p_size p)"
    using full by simp
  moreover have "distinct (p_collect p)"
    using distinct_all_frames [OF inv] p
    by (metis (no_types, lifting) all_frames_def collected_def distinct_append distinct_concat_iff
        imageI list.set_map)
  ultimately have "set (p_collect p) = set (pool_frames p)"
    using length_collect_bound(2) [OF inv p]
    by (metis List.finite_set card_subset_eq distinct_card distinct_pool_frames length_pool_frames)
  then show ?thesis
    using \<open>distinct (p_collect p)\<close> by (simp add: set_eq_iff_mset_eq_distinct distinct_pool_frames)
qed

lemma destroy_loop_filter:
  "destroy_loop ps = filter (\<lambda>p. list_length (p_collect p) \<noteq> p_size p) ps"
  by (induction ps) auto

lemma destroy_loop_mset:
  assumes "\<And>p. p \<in> set ps \<Longrightarrow> list_length (p_collect p) = p_size p \<Longrightarrow>
    mset (p_collect p) = mset (pool_frames p)"
  shows "mset (collected ps) + mset (frames_of (destroy_loop ps))
       = mset (frames_of ps) + mset (collected (destroy_loop ps))"
  using assms by (induction ps) (auto simp: ac_simps)

lemma exchange_mset:
  fixes a :: "'a multiset"
  assumes "a + c = s + f" "c + f' = f + c'"
  shows "a + c' = s + f'"
proof -
  have "a + c' + f = a + c + f'" using assms(2) by (simp add: add.assoc add.commute)
  also have "\<dots> = s + f' + f" using assms(1) by (simp add: ac_simps)
  finally show ?thesis by simp
qed

lemma destroyUnusedPools_inv:
  assumes inv: "buf_inv s"
  shows "buf_inv (destroyUnusedPools s)" "same_client s (destroyUnusedPools s)"
proof -
  let ?ps = "dynPools s" and ?qs = "destroy_loop (dynPools s)"
  have swap: "mset (collected ?ps) + mset (frames_of ?qs) = mset (frames_of ?ps) + mset (collected ?qs)"
    by (rule destroy_loop_mset) (rule full_collect [OF inv])
  have "mset (all_frames s) = mset (deployed s)"
    using inv by (simp add: buf_inv_def)
  then have "mset (all_frames (destroyUnusedPools s)) = mset (deployed (destroyUnusedPools s))"
    using exchange_mset [OF _ swap, of "mset (free_pool s @ queue s @ opt_list (newFrame s) @ opt_list (currentFrame s))"
        "mset (pool_frames (staticPool s))"]
    by (simp add: all_frames_def deployed_def destroyUnusedPools_def add.assoc)
  moreover have "length ?qs \<le> length ?ps" "set ?qs \<subseteq> set ?ps"
    by (auto simp: destroy_loop_filter)
  moreover have "distinct (map p_addr ?qs)" if "distinct (map p_addr ?ps)"
    using that by (simp add: destroy_loop_filter distinct_map_filter)
  ultimately show "buf_inv (destroyUnusedPools s)"
    using inv by (auto simp: buf_inv_def destroyUnusedPools_def pools_ok_def)
  show "same_client s (destroyUnusedPools s)"
    by (simp add: same_client_def destroyUnusedPools_def)
qed

lemma buf_inv_upd_stats [simp]: "buf_inv (upd_stats g s) = buf_inv s"
  by (simp add: buf_inv_def all_frames_def deployed_def)

lemma same_client_upd_stats [simp]: "same_client s (upd_stats g t) = same_client s t"
  "same_client (upd_stats g s) t = same_client s t"
  by (simp_all add: same_client_def)

lemma gc_ok:
  assumes "buf_inv s"
  shows "\<exists>s'. gc s = Ok s' \<and> buf_inv s' \<and> same_client s s' \<and> discardedAll (buf_stats s') = discardedAll (buf_stats s)"
proof -
  let ?s = "upd_stats (\<lambda>t. t\<lparr>GCruns := GCruns t + 1\<rparr>) s"
  obtain t where t: "collectPools ?s = Ok t" "buf_inv t" "same_client ?s t" "buf_stats t = buf_stats ?s"
    using collectPools_ok [of ?s] assms by auto
  then have "gc s = Ok (destroyUnusedPools t)" by (simp add: gc_def)
  then show ?thesis
    using t destroyUnusedPools_inv [OF t(2)] same_client_trans
    by (auto simp: destroyUnusedPools_def)
qed

section \<open>Taking a frame from the pool\<close>

text \<open>A dynamic pool has at least one frame, if there are dynamic pools at all.\<close>

definition buf_live :: "buffer \<Rightarrow> bool" where
  "buf_live s \<longleftrightarrow> dynMaxPools s = 0 \<or> dynBacklog (buf_cfg s) \<noteq> 0"

lemma buf_live_same_client: "same_client s s' \<Longrightarrow> buf_live s' = buf_live s"
  by (simp add: buf_live_def same_client_def)

lemma uncollect_loop_None: "uncollect_loop ps = None \<Longrightarrow> collected ps = []"
  by (induction ps) (auto split: if_splits)

lemma uncollect_loop_all:
  assumes "uncollect_loop ps = Some (fs, ps')" "\<forall>p\<in>set ps. G p"
    and "\<And>p. G p \<Longrightarrow> G (p\<lparr>p_collect := []\<rparr>)"
  shows "\<forall>p\<in>set ps'. G p"
  using assms by (induction ps arbitrary: ps') (auto split: if_splits)

lemma pools_ok_Suc: "pools_ok n sz ps \<Longrightarrow> pools_ok (Suc n) sz ps"
  by (fastforce simp: pools_ok_def)

lemma uncollect_loop_Some:
  assumes "uncollect_loop ps = Some (fs, ps')"
  shows "fs \<noteq> []" "mset (collected ps) = mset fs + mset (collected ps')" "frames_of ps' = frames_of ps"
    "length ps' = length ps" "pools_ok n sz ps \<Longrightarrow> pools_ok n sz ps'"
proof -
  have *: "fs \<noteq> [] \<and> mset (collected ps) = mset fs + mset (collected ps') \<and> frames_of ps' = frames_of ps
    \<and> map p_addr ps' = map p_addr ps"
    using assms by (induction ps arbitrary: ps') (auto split: if_splits simp: pool_frames_def)
  then show "fs \<noteq> []" "mset (collected ps) = mset fs + mset (collected ps')"
    "frames_of ps' = frames_of ps" by auto
  from * show "length ps' = length ps" by (metis length_map)
  assume ok: "pools_ok n sz ps"
  have "\<forall>p\<in>set ps'. p_addr p \<in> Dyn_pool ` {..<n} \<and> p_size p = sz \<and> (\<forall>f\<in>set (p_collect p). fst f = p_addr p)"
    by (rule uncollect_loop_all [OF assms]) (use ok in \<open>simp_all add: pools_ok_def\<close>)
  then show "pools_ok n sz ps'"
    using * ok by (simp add: pools_ok_def)
qed

lemma uncollectPools_ok:
  assumes inv: "buf_inv s" and res: "uncollectPools s = (b, s')"
  shows "buf_inv s' \<and> same_client s s' \<and> buf_stats s' = buf_stats s \<and> length (dynPools s') = length (dynPools s)
    \<and> (if b then free_pool s' \<noteq> [] else s' = s \<and> collected (dynPools s) = [])"
proof (cases "uncollect_loop (dynPools s)")
  case None
  then show ?thesis
    using assms uncollect_loop_None by (auto simp: uncollectPools_def)
next
  case (Some r)
  then obtain fs ps where r: "uncollect_loop (dynPools s) = Some (fs, ps)" by (cases r) auto
  note us = uncollect_loop_Some [OF r]
  have s': "s' = s\<lparr>free_pool := free_pool s @ fs, dynPools := ps\<rparr>" "b"
    using res r by (auto simp: uncollectPools_def)
  have "mset (all_frames s') = mset (all_frames s)"
    using s' us(2) by (simp add: all_frames_def ac_simps)
  then show ?thesis
    using inv us s' by (simp add: buf_inv_def deployed_def same_client_def)
qed

lemma dynPools_room:
  assumes "buf_inv s" "list_length (dynPools s) < dynMaxPools s"
  shows "length (dynPools s) < unat (dynMaxPools s)"
proof -
  have "unat (dynMaxPools s) < 2 ^ 64"
    by (rule unat_u64_less)
  then have "unat (list_length (dynPools s) :: u64) = length (dynPools s)"
    using assms(1) by (intro unat_of_nat_small) (simp add: buf_inv_def)
  then show ?thesis using assms(2) by (simp add: word_less_nat_alt)
qed

lemma createDynPool_ok:
  assumes inv: "buf_inv s" and room: "list_length (dynPools s) < dynMaxPools s"
    and res: "createDynPool m s = (b, s')"
  shows "buf_inv s' \<and> same_client s s' \<and> (buf_live s \<longrightarrow> b \<longrightarrow> free_pool s' \<noteq> [])
    \<and> discardedAll (buf_stats s') = discardedAll (buf_stats s)
    \<and> (\<not> b \<longrightarrow> free_pool s' = free_pool s \<and> dynPools s' = dynPools s \<and> buf_stats s' = buf_stats s)"
proof (cases "fst m \<and> snd m")
  case False
  then have "\<not> b \<and> (s' = s \<or> s' = s\<lparr>next_addr := Suc (next_addr s)\<rparr>)"
    using res by (auto simp: createDynPool_def deployPool_def Let_def split: if_splits)
  then show ?thesis
    using inv by (auto simp: buf_inv_def all_frames_def deployed_def same_client_def pools_ok_Suc)
next
  case True
  define p where "p = \<lparr>p_addr = Dyn_pool (next_addr s), p_size = ucast (dynBacklog (buf_cfg s)), p_collect = []\<rparr>"
  define t where "t = s\<lparr>next_addr := Suc (next_addr s), free_pool := free_pool s @ pool_frames p,
    dynPools := dynPools s @ [p]\<rparr>"
  have s': "b" "\<exists>g. s' = upd_stats g t \<and> (\<forall>x. discardedAll (g x) = discardedAll x)"
    using res True
    by (auto simp: createDynPool_def deployPool_def Let_def p_def t_def split: if_splits intro!: exI)
  have "mset (all_frames t) = mset (deployed t)"
    using inv by (simp add: t_def p_def all_frames_def deployed_def buf_inv_def ac_simps)
  then have "buf_inv t"
    using inv dynPools_room [OF inv room]
    by (auto simp: t_def p_def buf_inv_def pools_ok_def)
  moreover have "same_client s t" by (simp add: same_client_def t_def)
  moreover have "free_pool t \<noteq> []" if "buf_live s"
  proof -
    have "dynMaxPools s \<noteq> 0" using room by (metis word_not_simps(1))
    then have "dynBacklog (buf_cfg s) \<noteq> 0" using that by (simp add: buf_live_def)
    then have "unat (ucast (dynBacklog (buf_cfg s)) :: u64) \<noteq> 0"
      by (simp add: unat_eq_0)
    then show ?thesis by (simp add: t_def p_def pool_frames_def)
  qed
  ultimately show ?thesis using s' by (auto simp: t_def)
qed

end
