(* ===== verification/Core_Buffer_Run.thy ===== *)
theory Core_Buffer_Run
  imports Core_Buffer_Inv "HOL-Library.Sublist"
begin

text \<open>
  The frame buffer as the producer and the consumer use it: what taking a frame from the pool
  does on every branch, the calls of the two threads and of the garbage collector as steps, the
  states reachable from \<open>construct\<close> in any configuration with the frames committed and delivered so
  far, and the properties of every interleaving of those steps: which calls fault (only in two
  configurations the code does not rule out), frames are delivered in the order they were committed,
  and a frame is given up only when nothing else is left.
\<close>

section \<open>Taking a frame from the pool\<close>

lemma take_free_inv:
  assumes "buf_inv s" "newFrame s = None" "free_pool s = f # fs"
  shows "buf_inv (upd_stats g s\<lparr>free_pool := fs, newFrame := Some f\<rparr>)"
  using assms by (simp add: buf_inv_def all_frames_def deployed_def)

lemma take_queue_inv:
  assumes "buf_inv s" "newFrame s = None" "queue s = f # fs"
  shows "buf_inv (upd_stats g s\<lparr>queue := fs, newFrame := Some f\<rparr>)"
  using assms by (simp add: buf_inv_def all_frames_def deployed_def)

text \<open>Every deployed frame is queued or held by the consumer.\<close>

definition exhausted :: "buffer \<Rightarrow> bool" where
  "exhausted s \<longleftrightarrow> free_pool s = [] \<and> collected (dynPools s) = []"

lemma exhausted_queue:
  assumes inv: "buf_inv s" and "exhausted s" "newFrame s = None"
  shows "length (queue s) + length (opt_list (currentFrame s)) = length (deployed s)"
proof -
  have "size (mset (all_frames s)) = size (mset (deployed s))"
    using inv by (simp only: buf_inv_def)
  then show ?thesis
    using assms by (simp add: exhausted_def all_frames_def)
qed

lemma length_opt_list: "length (opt_list x) \<le> 1"
  by (cases x) simp_all

lemma exhausted_queue_nonempty:
  assumes "buf_inv s" "exhausted s" "newFrame s = None"
  shows "queue s \<noteq> []"
proof -
  have "2 \<le> length (deployed s)"
    using assms(1) by (auto simp: buf_inv_def deployed_def word_le_nat_alt)
  then show ?thesis
    using exhausted_queue [OF assms] length_opt_list [of "currentFrame s"]
    by (metis One_nat_def add_0 le_trans list.size(3) not_less_eq_eq numeral_2_eq_2)
qed

lemma discardedAll_sacrifice: "discardedAll (sacrifice_stats t) = discardedAll t + 1"
  by (simp add: sacrifice_stats_def Let_def)

text \<open>Another dynamic pool may be created, but would have no frames.\<close>

definition empty_pool_next :: "buffer \<Rightarrow> bool" where
  "empty_pool_next s \<longleftrightarrow> dynBacklog (buf_cfg s) = 0 \<and> list_length (dynPools s) < dynMaxPools s"

lemma createDynPool_free:
  assumes "createDynPool m s = (True, u)" "free_pool s = []"
  shows "fst m \<and> snd m \<and> (free_pool u = [] \<longleftrightarrow> dynBacklog (buf_cfg s) = 0)"
proof -
  have "unat (ucast (dynBacklog (buf_cfg s)) :: u64) = unat (dynBacklog (buf_cfg s))"
    by (simp add: unsigned_ucast_eq take_bit_nat_eq_self unat_of_nat_small)
  then show ?thesis
    using assms by (auto simp: createDynPool_def deployPool_def pool_frames_def Let_def unat_eq_0 split: if_splits)
qed

lemma getFrameFromPool_cases:
  assumes inv: "buf_inv s" and new: "newFrame s = None"
  obtains (keep) f s' where "getFrameFromPool m s = Ok (f, s')" "buf_inv (s'\<lparr>newFrame := Some f\<rparr>)"
      "same_client s s'" "discardedAll (buf_stats s') = discardedAll (buf_stats s)"
      "\<not> (exhausted s \<and> empty_pool_next s \<and> fst m \<and> snd m)"
  | (drop) f q s' where "getFrameFromPool m s = Ok (f, s')" "buf_inv (s'\<lparr>newFrame := Some f\<rparr>)"
      "queue s = f # q" "same_client (s\<lparr>queue := q\<rparr>) s'" "exhausted s"
      "\<not> list_length (dynPools s) < dynMaxPools s \<or> \<not> (fst m \<and> snd m)"
      "discardedAll (buf_stats s') = discardedAll (buf_stats s) + 1"
  | (fault) "getFrameFromPool m s = Fault Assert_failed" "exhausted s" "empty_pool_next s" "fst m" "snd m"
proof (cases "free_pool s")
  case (Cons f fs)
  let ?s = "upd_stats (\<lambda>t. t\<lparr>discardedCur := 0\<rparr>) s\<lparr>free_pool := fs\<rparr>"
  have "getFrameFromPool m s = Ok (f, ?s)"
    using Cons by (simp add: getFrameFromPool_def shift_free_def)
  moreover have "buf_inv (?s\<lparr>newFrame := Some f\<rparr>)"
    by (rule take_free_inv [OF inv new Cons])
  ultimately show ?thesis by (rule keep) (simp_all add: same_client_def exhausted_def Cons)
next
  case Nil
  obtain b t where t: "uncollectPools s = (b, t)" by fastforce
  note ut = uncollectPools_ok [OF inv t]
  show ?thesis
  proof (cases b)
    case True
    then obtain f fs where fs: "free_pool t = f # fs" using ut by (cases "free_pool t") auto
    let ?t = "upd_stats (\<lambda>t. t\<lparr>uncollectedPools := uncollectedPools t + 1, discardedCur := 0\<rparr>) t\<lparr>free_pool := fs\<rparr>"
    have "getFrameFromPool m s = Ok (f, ?t)"
      using Nil True t fs by (simp add: getFrameFromPool_def shift_free_def)
    moreover have "buf_inv (?t\<lparr>newFrame := Some f\<rparr>)"
      by (rule take_free_inv [OF _ _ fs]) (use ut new in \<open>simp_all add: same_client_def\<close>)
    moreover have ne: "collected (dynPools s) \<noteq> []"
    proof -
      obtain gs ps where "uncollect_loop (dynPools s) = Some (gs, ps)"
        using t True by (auto simp: uncollectPools_def split: option.splits)
      from uncollect_loop_Some(1,2) [OF this] show ?thesis by auto
    qed
    ultimately show ?thesis by (intro keep [of f ?t]) (use ut in \<open>simp_all add: same_client_def exhausted_def\<close>)
  next
    case False
    then have ts: "t = s" "exhausted s" using ut Nil by (simp_all add: exhausted_def)
    obtain c u where u: "(if list_length (dynPools s) < dynMaxPools s then createDynPool m s
                          else (False, s)) = (c, u)" by fastforce
    show ?thesis
    proof (cases c)
      case True
      then have room: "list_length (dynPools s) < dynMaxPools s" and cu: "createDynPool m s = (True, u)"
        using u by (auto split: if_splits)
      note cd = createDynPool_ok [OF inv room cu]
      note fr = createDynPool_free [OF cu Nil]
      show ?thesis
      proof (cases "free_pool u")
        case pool: Nil
        have "getFrameFromPool m s = Fault Assert_failed"
          using Nil t \<open>\<not> b\<close> ts u True pool by (simp add: getFrameFromPool_def shift_free_def)
        then show ?thesis using fault ts(2) fr pool room by (simp add: empty_pool_next_def)
      next
        case fs: (Cons f fs)
        let ?u = "upd_stats (\<lambda>t. t\<lparr>discardedCur := 0\<rparr>) u\<lparr>free_pool := fs\<rparr>"
        have "getFrameFromPool m s = Ok (f, ?u)"
          using Nil t \<open>\<not> b\<close> ts u True fs by (simp add: getFrameFromPool_def shift_free_def)
        moreover have "buf_inv (?u\<lparr>newFrame := Some f\<rparr>)"
          by (rule take_free_inv [OF _ _ fs]) (use cd new in \<open>simp_all add: same_client_def\<close>)
        ultimately show ?thesis by (rule keep) (use cd fr fs in \<open>simp_all add: same_client_def empty_pool_next_def\<close>)
      qed
    next
      case F: False
      then have cd: "buf_inv u \<and> same_client s u \<and> buf_stats u = buf_stats s"
        using u inv createDynPool_ok [OF inv] by (auto split: if_splits)
      obtain f q where q: "queue s = f # q"
        using exhausted_queue_nonempty [OF inv ts(2) new] by (cases "queue s") auto
      then have qu: "queue u = f # q" using cd by (simp add: same_client_def)
      let ?u = "upd_stats sacrifice_stats u\<lparr>queue := q\<rparr>"
      have "getFrameFromPool m s = Ok (f, ?u)"
        using Nil t \<open>\<not> b\<close> ts u F qu by (simp add: getFrameFromPool_def shift_queue_def)
      moreover have "buf_inv (?u\<lparr>newFrame := Some f\<rparr>)"
        by (rule take_queue_inv [OF _ _ qu]) (use cd new in \<open>simp_all add: same_client_def\<close>)
      moreover have "same_client (s\<lparr>queue := q\<rparr>) ?u"
        using cd by (simp add: same_client_def)
      moreover have "\<not> list_length (dynPools s) < dynMaxPools s \<or> \<not> (fst m \<and> snd m)"
        using u F by (auto simp: createDynPool_def deployPool_def Let_def split: if_splits)
      moreover have "discardedAll (buf_stats ?u) = discardedAll (buf_stats s) + 1"
        using cd by (simp add: discardedAll_sacrifice)
      ultimately show ?thesis
        using q ts(2) by (intro drop)
    qed
  qed
qed

section \<open>The calls as steps\<close>

datatype buf_call = New "bool \<times> bool" | Write raw_frame | Commit | Abort
  | Get | Release | Put | Flush | Collect | Gc_turn | Reset_stats

text \<open>The client protocol: one producer, which asks for a frame when it holds none and fills,
  commits or aborts the one it holds; one consumer, likewise.\<close>

fun buf_enabled :: "buf_call \<Rightarrow> buffer \<Rightarrow> bool" where
  "buf_enabled (New m) s = (newFrame s = None)"
| "buf_enabled (Write r) s = (newFrame s \<noteq> None)"
| "buf_enabled Commit s = (newFrame s \<noteq> None)"
| "buf_enabled Abort s = (newFrame s \<noteq> None)"
| "buf_enabled Get s = (currentFrame s = None)"
| "buf_enabled Release s = (currentFrame s \<noteq> None)"
| "buf_enabled Put s = (currentFrame s \<noteq> None)"
| "buf_enabled _ s = True"

fun buf_exec :: "buf_call \<Rightarrow> buffer \<Rightarrow> fault + buffer" where
  "buf_exec (New m) s = bind_ok (BUF_newFrame m s) (\<lambda>(f, s). Ok s)"
| "buf_exec (Write r) s = Ok (write_frame (the (newFrame s)) r s)"
| "buf_exec Commit s = BUF_commitFrame (the (newFrame s)) s"
| "buf_exec Abort s = BUF_abortFrame (the (newFrame s)) s"
| "buf_exec Get s = bind_ok (BUF_getFrameTimeout [] s)
     (\<lambda>r. case r of Ready f s \<Rightarrow> Ok s | Timed_out s \<Rightarrow> Ok s | Waiting \<Rightarrow> Ok s)"
| "buf_exec Release s = BUF_releaseFrame (the (currentFrame s)) s"
| "buf_exec Put s = BUF_putFrame (the (currentFrame s)) s"
| "buf_exec Flush s = Ok (BUF_flush s)"
| "buf_exec Collect s = BUF_runGC s"
| "buf_exec Gc_turn s = gc_turn s"
| "buf_exec Reset_stats s = Ok (buf_resetStats s)"

text \<open>What a call adds to the committed and to the delivered frames.\<close>

fun committed_by :: "buf_call \<Rightarrow> buffer \<Rightarrow> raw_frame list" where
  "committed_by Commit s = map (contents s) (opt_list (newFrame s))"
| "committed_by _ s = []"

fun delivered_by :: "buf_call \<Rightarrow> buffer \<Rightarrow> raw_frame list" where
  "delivered_by Release s = map (contents s) (opt_list (currentFrame s))"
| "delivered_by _ s = []"

inductive buf_reach :: "buffer \<Rightarrow> raw_frame list \<Rightarrow> raw_frame list \<Rightarrow> bool" where
  start: "p_addr (staticPool s) = Static_pool \<Longrightarrow> buf_construct True s = Ok (True, s') \<Longrightarrow> buf_reach s' [] []"
| step: "buf_reach s cs ds \<Longrightarrow> buf_enabled c s \<Longrightarrow> buf_exec c s = Ok s' \<Longrightarrow>
    buf_reach s' (cs @ committed_by c s) (ds @ delivered_by c s)"

text \<open>A run of several calls, with what it commits and delivers; \<open>None\<close> if one is not allowed or faults.\<close>

fun buf_run :: "buf_call list \<Rightarrow> buffer \<Rightarrow> (buffer \<times> raw_frame list \<times> raw_frame list) option" where
  "buf_run [] s = Some (s, [], [])"
| "buf_run (c # calls) s =
    (if buf_enabled c s then (case buf_exec c s of
       Inl e \<Rightarrow> None
     | Inr t \<Rightarrow> map_option (\<lambda>(u, xs, ys). (u, committed_by c s @ xs, delivered_by c s @ ys)) (buf_run calls t))
     else None)"

lemma buf_run_reach:
  "buf_run calls s = Some (t, xs, ys) \<Longrightarrow> buf_reach s cs ds \<Longrightarrow> buf_reach t (cs @ xs) (ds @ ys)"
proof (induction calls arbitrary: s cs ds xs ys)
  case (Cons c calls)
  then obtain u xs' ys' where u: "buf_enabled c s" "buf_exec c s = Ok u" "buf_run calls u = Some (t, xs', ys')"
    "xs = committed_by c s @ xs'" "ys = delivered_by c s @ ys'"
    by (auto split: if_splits sum.splits)
  from Cons.IH [OF u(3) buf_reach.step [OF Cons.prems(2) u(1,2)]] show ?case using u by simp
qed simp

text \<open>The two calls that fault: the code does not rule out dynamic pools without frames, nor a collector
  level of zero.\<close>

fun expected_fault :: "buf_call \<Rightarrow> buffer \<Rightarrow> fault option" where
  "expected_fault (New m) s =
    (if exhausted s \<and> empty_pool_next s \<and> fst m \<and> snd m then Some Assert_failed else None)"
| "expected_fault Gc_turn s = (if gcLevel (buf_cfg s) = 0 then Some Div_by_zero else None)"
| "expected_fault _ s = None"

text \<open>The configurations that rule them out.\<close>

definition buf_cfg_ok :: "buf_configuration \<Rightarrow> bool" where
  "buf_cfg_ok c \<longleftrightarrow> 2 \<le> statBacklog c \<and> (history c \<longrightarrow> dynBacklog c \<noteq> 0) \<and> gcLevel c \<noteq> 0"

text \<open>What the consumer still has in front of it, oldest first.\<close>

definition outstanding :: "buffer \<Rightarrow> raw_frame list" where
  "outstanding s = map (contents s) (opt_list (currentFrame s) @ queue s)"

text \<open>Without history there are no dynamic pools.\<close>

definition buf_good :: "buffer \<Rightarrow> bool" where
  "buf_good s \<longleftrightarrow> buf_inv s \<and> (history (buf_cfg s) \<or> dynMaxPools s = 0)"

lemma buf_good_live:
  assumes "buf_good s" "history (buf_cfg s) \<longrightarrow> dynBacklog (buf_cfg s) \<noteq> 0"
  shows "\<not> empty_pool_next s"
proof -
  have "\<not> list_length (dynPools s) < (0 :: u64)" by (metis word_not_simps(1))
  then show ?thesis using assms by (auto simp: buf_good_def empty_pool_next_def)
qed

lemma buf_good_construct:
  assumes "p_addr (staticPool s) = Static_pool"
    and "buf_construct True s = Ok (True, s')"
  shows "buf_good s'" "outstanding s' = []" "length (dynPools s') = 0"
  using assms
  by (auto simp: buf_construct_def deployPool_def Let_def buf_good_def buf_inv_def
      all_frames_def deployed_def pools_ok_def outstanding_def pool_frames_def
      word_le_nat_alt split: if_splits)

text \<open>One step, for every call that does not fault: it keeps the invariant, and what it leaves
  outstanding is a subsequence of what was outstanding or is committed, in order.\<close>

definition step_ok :: "buf_call \<Rightarrow> buffer \<Rightarrow> buffer \<Rightarrow> bool" where
  "step_ok c s s' \<longleftrightarrow> buf_exec c s = Ok s' \<and> buf_good s'
     \<and> subseq (delivered_by c s @ outstanding s') (outstanding s @ committed_by c s)"

lemma buf_good_same_client: "same_client s s' \<Longrightarrow> buf_inv s' \<Longrightarrow> buf_good s \<Longrightarrow> buf_good s'"
  by (simp add: buf_good_def same_client_def)

lemma outstanding_same_client: "same_client s s' \<Longrightarrow> outstanding s' = outstanding s"
  by (simp add: outstanding_def same_client_def)

lemma step_ok_New:
  assumes "buf_good s" "newFrame s = None"
  shows "case expected_fault (New m) s of Some e \<Rightarrow> buf_exec (New m) s = Fault e | None \<Rightarrow> \<exists>s'. step_ok (New m) s s'"
proof -
  have inv: "buf_inv s" using assms by (auto simp: buf_good_def)
  show ?thesis
  proof (cases rule: getFrameFromPool_cases [OF inv assms(2), where m = m, case_names keep drop fault])
    case (keep f s')
    let ?s = "s'\<lparr>newFrame := Some f\<rparr>"
    have "currentFrame s' \<noteq> Some f"
      using distinct_all_frames [OF keep(2)] by (auto simp: all_frames_def)
    then have "buf_exec (New m) s = Ok ?s"
      using keep assms by (auto simp: BUF_newFrame_def)
    moreover have "buf_good ?s" "outstanding ?s = outstanding s"
      using keep assms by (auto simp: buf_good_def same_client_def outstanding_def)
    ultimately have "\<exists>s'. step_ok (New m) s s'" by (auto simp: step_ok_def)
    moreover have "expected_fault (New m) s = None" using keep(5) by simp
    ultimately show ?thesis by simp
  next
    case (drop f q s')
    let ?s = "s'\<lparr>newFrame := Some f\<rparr>"
    have "currentFrame s' \<noteq> Some f"
      using distinct_all_frames [OF drop(2)] by (auto simp: all_frames_def)
    then have "buf_exec (New m) s = Ok ?s"
      using drop assms by (auto simp: BUF_newFrame_def)
    moreover have "buf_good ?s"
      using drop assms by (auto simp: buf_good_def same_client_def)
    moreover have "subseq (outstanding ?s) (outstanding s)"
      using drop by (auto simp: same_client_def outstanding_def intro!: list_emb_append_mono)
    ultimately have "\<exists>s'. step_ok (New m) s s'" by (auto simp: step_ok_def)
    moreover have "expected_fault (New m) s = None" using drop(6) by (auto simp: empty_pool_next_def)
    ultimately show ?thesis by simp
  next
    case fault
    then show ?thesis using assms(2) by (simp add: BUF_newFrame_def)
  qed
qed

lemma step_ok_producer:
  assumes good: "buf_good s" and f: "newFrame s = Some f"
  shows "\<exists>s'. step_ok (Write r) s s'" "\<exists>s'. step_ok Commit s s'" "\<exists>s'. step_ok Abort s s'"
proof -
  have inv: "buf_inv s" using good by (simp add: buf_good_def)
  have "f \<notin> set (opt_list (currentFrame s) @ queue s)"
    using distinct_all_frames [OF inv] f by (auto simp: all_frames_def)
  then have "outstanding (write_frame f r s) = outstanding s"
    by (simp add: outstanding_def write_frame_def)
  moreover have "buf_good (write_frame f r s)"
    using good by (simp add: write_frame_def buf_good_def buf_inv_def all_frames_def deployed_def)
  ultimately show "\<exists>s'. step_ok (Write r) s s'"
    using f by (simp add: step_ok_def)
  obtain s' where s': "buf_exec Commit s = Ok s'" by (auto simp: BUF_commitFrame_def Let_def f)
  then have c: "free_pool s' = free_pool s" "queue s' = queue s @ [f]" "newFrame s' = None"
    "currentFrame s' = currentFrame s" "dynPools s' = dynPools s" "staticPool s' = staticPool s"
    "contents s' = contents s" "next_addr s' = next_addr s" "buf_cfg s' = buf_cfg s"
    "dynMaxPools s' = dynMaxPools s"
    using f by (auto simp: BUF_commitFrame_def Let_def split: if_splits)
  then have "buf_good s'"
    using good f by (simp add: buf_good_def buf_inv_def all_frames_def deployed_def)
  then show "\<exists>s'. step_ok Commit s s'"
    using s' c f by (auto simp: step_ok_def outstanding_def)
  have "buf_inv (s\<lparr>free_pool := f # free_pool s, newFrame := None\<rparr>)"
    using inv f by (simp add: buf_inv_def all_frames_def deployed_def)
  then show "\<exists>s'. step_ok Abort s s'"
    using good f by (auto simp: step_ok_def BUF_abortFrame_def outstanding_def buf_good_def)
qed

lemma step_ok_Get:
  assumes good: "buf_good s" and cur: "currentFrame s = None"
  shows "\<exists>s'. step_ok Get s s'"
proof (cases "queue s")
  case Nil
  then show ?thesis using good cur by (simp add: step_ok_def BUF_getFrameTimeout_def)
next
  case (Cons f q)
  let ?s = "s\<lparr>queue := q, currentFrame := Some f\<rparr>"
  have "buf_good ?s"
    using good cur Cons by (simp add: buf_good_def buf_inv_def all_frames_def deployed_def)
  moreover have "buf_exec Get s = Ok ?s"
    using Cons cur by (simp add: BUF_getFrameTimeout_def take_current_def shift_queue_def)
  ultimately show ?thesis using Cons cur by (auto simp: step_ok_def outstanding_def)
qed

lemma step_ok_consumer:
  assumes good: "buf_good s" and f: "currentFrame s = Some f"
  shows "\<exists>s'. step_ok Release s s'" "\<exists>s'. step_ok Put s s'"
proof -
  have "buf_good (s\<lparr>free_pool := f # free_pool s, currentFrame := None\<rparr>)"
    and "buf_good (s\<lparr>queue := f # queue s, currentFrame := None\<rparr>)"
    using good f by (auto simp: buf_good_def buf_inv_def all_frames_def deployed_def ac_simps)
  then show "\<exists>s'. step_ok Release s s'" "\<exists>s'. step_ok Put s s'"
    using f by (auto simp: step_ok_def BUF_releaseFrame_def BUF_putFrame_def outstanding_def)
qed

lemma gc_turn_gc:
  "gcLevel (buf_cfg s) \<noteq> 0 \<Longrightarrow> gc_turn s = gc s \<or> gc_turn s = Ok s"
  by (simp add: gc_turn_def)

lemma step_ok_background:
  assumes good: "buf_good s"
  shows "\<exists>s'. step_ok Flush s s'" "\<exists>s'. step_ok Collect s s'" "gcLevel (buf_cfg s) \<noteq> 0 \<Longrightarrow> \<exists>s'. step_ok Gc_turn s s'"
    "\<exists>s'. step_ok Reset_stats s s'"
proof -
  have "buf_good (BUF_flush s)"
    using good by (simp add: BUF_flush_def buf_good_def buf_inv_def all_frames_def deployed_def)
  moreover have "subseq (outstanding (BUF_flush s)) (outstanding s)"
    by (simp add: BUF_flush_def outstanding_def subseq_rev_drop_many)
  ultimately show "\<exists>s'. step_ok Flush s s'" by (simp add: step_ok_def)
  obtain t where t: "gc s = Ok t" "buf_good t" "outstanding t = outstanding s"
    using gc_ok [of s] good buf_good_same_client outstanding_same_client by (auto simp: buf_good_def)
  then show "\<exists>s'. step_ok Collect s s'" by (simp add: step_ok_def BUF_runGC_def)
  show "\<exists>s'. step_ok Gc_turn s s'" if "gcLevel (buf_cfg s) \<noteq> 0"
    using gc_turn_gc [OF that] t good by (auto simp: step_ok_def)
  show "\<exists>s'. step_ok Reset_stats s s'"
    using good by (simp add: step_ok_def buf_resetStats_def buf_good_def buf_inv_def
        all_frames_def deployed_def outstanding_def)
qed

lemma buf_step:
  assumes "buf_good s" "buf_enabled c s"
  shows "case expected_fault c s of Some e \<Rightarrow> buf_exec c s = Fault e | None \<Rightarrow> \<exists>s'. step_ok c s s'"
proof (cases c)
  case (New m)
  then have "newFrame s = None" using assms(2) by simp
  then show ?thesis unfolding New by (rule step_ok_New [OF assms(1)])
next
  case Gc_turn
  then show ?thesis using step_ok_background(3) [OF assms(1)] by (simp add: gc_turn_def)
qed (use assms step_ok_producer step_ok_Get step_ok_consumer step_ok_background in auto)

lemma buf_step_ok:
  assumes "buf_good s" "buf_enabled c s" "buf_exec c s = Ok s'"
  shows "step_ok c s s'"
  using buf_step [OF assms(1,2)] assms(3) by (auto simp: step_ok_def split: option.splits)

lemma buf_reach_good:
  assumes "buf_reach s cs ds"
  shows "buf_good s \<and> subseq (ds @ outstanding s) cs"
  using assms
proof induction
  case (start s s')
  then show ?case using buf_good_construct by simp
next
  case (step s cs ds c s')
  then have "step_ok c s s'" using buf_step_ok by blast
  then have "buf_good s'" and
    sub: "subseq (delivered_by c s @ outstanding s') (outstanding s @ committed_by c s)"
    using step.hyps by (auto simp: step_ok_def)
  have "subseq (ds @ delivered_by c s @ outstanding s') (ds @ outstanding s @ committed_by c s)"
    using sub by (simp add: subseq_append')
  also have "subseq \<dots> (cs @ committed_by c s)"
    using step.IH list_emb_append_mono [of "(=)" "ds @ outstanding s" cs "committed_by c s" "committed_by c s"]
    by simp
  finally show ?case using \<open>buf_good s'\<close> by simp
qed

section \<open>Capacity\<close>

text \<open>The number of frames when every allowed dynamic pool is there.\<close>

definition capacity :: "buffer \<Rightarrow> nat" where
  "capacity s = unat (p_size (staticPool s)) + unat (dynMaxPools s) * unat (dynBacklog (buf_cfg s))"

definition in_use :: "buffer \<Rightarrow> nat" where
  "in_use s = length (queue s) + length (opt_list (currentFrame s))"

lemma length_frames_of:
  "pools_ok n sz ps \<Longrightarrow> length (frames_of ps) = length ps * unat sz"
  by (induction ps) (auto simp: pools_ok_def)

lemma length_deployed:
  "buf_inv s \<Longrightarrow> length (deployed s) = unat (p_size (staticPool s))
     + length (dynPools s) * unat (dynBacklog (buf_cfg s))"
  by (auto simp: deployed_def buf_inv_def dest: length_frames_of)

lemma length_deployed_le: "buf_inv s \<Longrightarrow> length (deployed s) \<le> capacity s"
  by (simp add: length_deployed capacity_def buf_inv_def)

lemma size_all_frames: "buf_inv s \<Longrightarrow> length (all_frames s) = length (deployed s)"
  by (metis buf_inv_def size_mset)

lemma no_room_full:
  assumes "buf_inv s" "\<not> list_length (dynPools s) < dynMaxPools s"
  shows "length (deployed s) = capacity s"
proof -
  have "length (dynPools s) \<le> unat (dynMaxPools s)" using assms by (simp add: buf_inv_def)
  moreover have "unat (list_length (dynPools s) :: u64) = length (dynPools s)"
    using calculation unat_u64_less [of "dynMaxPools s"] by (intro unat_of_nat_small) simp
  ultimately have "length (dynPools s) = unat (dynMaxPools s)"
    using assms(2) by (simp add: word_less_nat_alt)
  then show ?thesis using assms(1) by (simp add: length_deployed capacity_def)
qed

lemma newFrame_capacity:
  assumes good: "buf_good s" and new: "newFrame s = None"
  shows "if in_use s < capacity s then
      \<exists>f s'. BUF_newFrame (True, True) s = Ok (f, s') \<and> newFrame s' = Some f
        \<and> currentFrame s' = currentFrame s \<and> contents s' = contents s \<and> buf_cfg s' = buf_cfg s \<and> capacity s' = capacity s
        \<and> queue s' = queue s \<and> discardedAll (buf_stats s') = discardedAll (buf_stats s)
    else in_use s = capacity s \<and> (if empty_pool_next s then BUF_newFrame (True, True) s = Fault Assert_failed
    else \<exists>f s'. BUF_newFrame (True, True) s = Ok (f, s') \<and> newFrame s' = Some f
        \<and> currentFrame s' = currentFrame s \<and> contents s' = contents s \<and> buf_cfg s' = buf_cfg s \<and> capacity s' = capacity s
        \<and> queue s = f # queue s' \<and> discardedAll (buf_stats s') = discardedAll (buf_stats s) + 1)"
proof -
  have inv: "buf_inv s" using good by (auto simp: buf_good_def)
  show ?thesis
  proof (cases rule: getFrameFromPool_cases [OF inv new, where m = "(True, True)", case_names keep drop fault])
    case (keep f s')
    let ?s = "s'\<lparr>newFrame := Some f\<rparr>"
    have "currentFrame s' \<noteq> Some f"
      using distinct_all_frames [OF keep(2)] by (auto simp: all_frames_def)
    moreover have "in_use s < length (all_frames ?s)"
      using keep(3) by (simp add: in_use_def all_frames_def same_client_def)
    then have "in_use s < capacity s"
      using size_all_frames [OF keep(2)] length_deployed_le [OF keep(2)] keep(3)
      by (simp add: capacity_def same_client_def)
    ultimately show ?thesis using keep new by (auto simp: BUF_newFrame_def same_client_def capacity_def)
  next
    case (drop f q s')
    let ?s = "s'\<lparr>newFrame := Some f\<rparr>"
    have "currentFrame s' \<noteq> Some f"
      using distinct_all_frames [OF drop(2)] by (auto simp: all_frames_def)
    moreover have "in_use s = capacity s"
      using exhausted_queue [OF inv(1) drop(5) new] no_room_full [OF inv(1)] drop(6)
      by (simp add: in_use_def)
    moreover have "\<not> empty_pool_next s" using drop(6) by (auto simp: empty_pool_next_def)
    ultimately show ?thesis using drop new by (auto simp: BUF_newFrame_def same_client_def capacity_def)
  next
    case fault
    then have "in_use s = capacity s"
      using exhausted_queue [OF inv(1) _ new] length_deployed [OF inv]
      by (simp add: in_use_def capacity_def empty_pool_next_def)
    then show ?thesis using fault new by (simp add: BUF_newFrame_def)
  qed
qed

section \<open>The collector reclaims every unused pool\<close>

lemma collect_loop_free:
  "collect_loop fs s = Ok s' \<Longrightarrow> distinct (free_pool s) \<Longrightarrow>
    set (free_pool s') \<subseteq> set (free_pool s) \<and> (\<forall>f\<in>set fs. fst f \<noteq> Static_pool \<longrightarrow> f \<notin> set (free_pool s'))"
proof (induction fs arbitrary: s)
  case (Cons f fs)
  show ?case
  proof (cases "fst f = Static_pool")
    case False
    then obtain ps where "collect_loop fs (s\<lparr>free_pool := remove1 f (free_pool s), dynPools := ps\<rparr>) = Ok s'"
      using Cons.prems(1) by (auto simp: Let_def split: option.splits)
    from Cons.IH [OF this] Cons.prems(2) show ?thesis by auto
  next
    case True
    then show ?thesis using Cons by simp
  qed
qed simp

lemma unused_fully_collected:
  assumes inv: "buf_inv s" and p: "p \<in> set (dynPools s)"
    and free: "\<forall>f\<in>set (free_pool s). fst f = Static_pool"
    and unused: "\<forall>f\<in>set (queue s @ opt_list (newFrame s) @ opt_list (currentFrame s)). fst f \<noteq> p_addr p"
  shows "list_length (p_collect p) = p_size p"
proof -
  have ok: "pools_ok (next_addr s) (ucast (dynBacklog (buf_cfg s))) (dynPools s)"
    using inv by (simp add: buf_inv_def)
  have "set (pool_frames p) \<subseteq> set (p_collect p)"
  proof
    fix f assume f: "f \<in> set (pool_frames p)"
    then have fp: "fst f = p_addr p" by (auto simp: set_pool_frames)
    have "f \<in> set (all_frames s)"
      using f p set_all_frames [OF inv] by (auto simp: deployed_def frames_of_def)
    moreover have "p_addr p \<noteq> Static_pool" using ok p by (auto simp: pools_ok_def)
    ultimately have "f \<in> set (collected (dynPools s))"
      using unused free fp by (auto simp: all_frames_def)
    then obtain q where q: "q \<in> set (dynPools s)" "f \<in> set (p_collect q)" by (auto simp: collected_def)
    then have "p_addr q = p_addr p" using ok fp by (auto simp: pools_ok_def)
    then show "f \<in> set (p_collect p)" using q p ok by (metis distinct_map inj_onD pools_ok_def)
  qed
  then have "unat (p_size p) \<le> length (p_collect p)"
    by (metis List.finite_set card_length card_mono distinct_card distinct_pool_frames le_trans length_pool_frames)
  then have "length (p_collect p) = unat (p_size p)"
    using length_collect_bound(1) [OF inv p] by simp
  then show ?thesis by simp
qed

lemma collect_destroys:
  assumes t: "collectPools s = Ok t" "buf_inv t" "same_client s t" and inv: "buf_inv s"
    and p: "p \<in> set (dynPools (destroyUnusedPools t))"
  shows "\<exists>f\<in>set (queue s @ opt_list (newFrame s) @ opt_list (currentFrame s)). fst f = p_addr p"
proof (rule ccontr)
  assume "\<not> ?thesis"
  moreover have "p \<in> set (dynPools t)" "list_length (p_collect p) \<noteq> p_size p"
    using p by (auto simp: destroyUnusedPools_def destroy_loop_filter)
  moreover have "distinct (free_pool s)"
    using distinct_all_frames [OF inv] by (simp add: all_frames_def)
  then have "\<forall>f\<in>set (free_pool t). fst f = Static_pool"
    using collect_loop_free [of "free_pool s" s t] t(1) by (auto simp: collectPools_def)
  ultimately show False
    using unused_fully_collected [OF t(2)] t(3) by (auto simp: same_client_def)
qed

lemma gc_reclaims:
  assumes inv: "buf_inv s" and res: "gc s = Ok s'" and p: "p \<in> set (dynPools s')"
  shows "\<exists>f\<in>set (queue s @ opt_list (newFrame s) @ opt_list (currentFrame s)). fst f = p_addr p"
proof -
  let ?s = "upd_stats (\<lambda>t. t\<lparr>GCruns := GCruns t + 1\<rparr>) s"
  obtain t where "collectPools ?s = Ok t" "buf_inv t" "same_client ?s t"
    using collectPools_ok [of ?s] inv by auto
  moreover from this have "s' = destroyUnusedPools t" using res by (simp add: gc_def)
  ultimately show ?thesis using collect_destroys [of ?s t p] inv p by auto
qed

section \<open>The deadline of a timed wait\<close>

lemma unat_add_small:
  "unat (a :: u64) + unat b < 2 ^ 64 \<Longrightarrow> unat (a + b) = unat a + unat b"
  by (simp add: unat_word_ariths)

lemma deadline_exact:
  assumes n: "unat (snd ts) < 1000000000" and s: "unat (fst ts) + unat t div 1000 + 1 < 2 ^ 64"
  shows "unat (snd (deadline t ts)) < 1000000000
    \<and> unat (fst (deadline t ts)) * 1000000000 + unat (snd (deadline t ts))
      = unat (fst ts) * 1000000000 + unat (snd ts) + unat t * 1000000"
proof -
  define sec where "sec = fst ts + t div 1000"
  define nsec where "nsec = snd ts + (t mod 1000) * 1000000"
  have q: "unat (t div 1000) = unat t div 1000" by (simp add: unat_div)
  have r: "unat (t mod 1000) = unat t mod 1000" by (simp add: unat_mod)
  have "unat ((t mod 1000) * 1000000) = (unat t mod 1000) * 1000000"
    using r by (simp add: unat_word_ariths)
  moreover have "(unat t mod 1000) * 1000000 \<le> 999000000" by simp
  ultimately have nsec: "unat nsec = unat (snd ts) + (unat t mod 1000) * 1000000"
    using n unfolding nsec_def by (subst unat_add_small) simp_all
  have sec: "unat sec = unat (fst ts) + unat t div 1000"
    using s q unfolding sec_def by (subst unat_add_small) simp_all
  have d: "deadline t ts = (if nsec \<ge> 1000000000 then (sec + 1, nsec - 1000000000) else (sec, nsec))"
    by (simp add: deadline_def sec_def nsec_def Let_def)
  obtain m k where t: "unat t div 1000 = m" "unat t mod 1000 = k" "unat t = 1000 * m + k" "k < 1000"
    using that [of "unat t div 1000" "unat t mod 1000"] by simp
  show ?thesis
  proof (cases "nsec \<ge> 1000000000")
    case True
    then have "unat (nsec - 1000000000) = unat nsec - 1000000000"
      by (simp add: unat_sub)
    moreover have "unat (sec + 1) = unat sec + 1"
      using s sec by (subst unat_add_small) simp_all
    moreover have "1000000000 \<le> unat nsec" using True by (simp add: word_le_nat_alt)
    ultimately show ?thesis using True d sec nsec n t by (simp del: unat_eq_0)
  next
    case False
    then have "unat nsec < 1000000000" by (simp add: word_le_nat_alt not_le)
    then show ?thesis using False d sec nsec t by simp
  qed
qed

section \<open>Properties\<close>

text \<open>A small configuration for the concrete instances: two static frames, no history.\<close>

definition sample_cfg :: buf_configuration where
  "sample_cfg = \<lparr>statBacklog = 2, dynBacklog = 3, dynIncrement = 1, history = False,
     gc_enabled = False, gcInterval = 120, gcLevel = 2\<rparr>"

definition sample_buffer :: "buf_configuration \<Rightarrow> buffer" where
  "sample_buffer c = \<lparr>buf_cfg = c,
     staticPool = \<lparr>p_addr = Static_pool, p_size = ucast (statBacklog c), p_collect = []\<rparr>,
     dynMaxPools = (if history c then ucast (dynIncrement c) else 0), dynPools = [],
     free_pool = map (Pair Static_pool) [0..<unat (statBacklog c)], queue = [], newFrame = None,
     currentFrame = None, buf_stats = zero_stats, contents = (\<lambda>f. \<lparr>rawLen = 0, raw = []\<rparr>),
     next_addr = 0\<rparr>"

lemma sample_reach:
  assumes "2 \<le> statBacklog c"
  shows "buf_reach (sample_buffer c) [] []"
proof (rule buf_reach.start)
  show "buf_construct True (sample_buffer c) = Ok (True, sample_buffer c)"
    using assms
    by (simp add: buf_construct_def deployPool_def sample_buffer_def Let_def pool_frames_def)
qed (simp add: sample_buffer_def)

lemma sample_cfg_ok: "2 \<le> statBacklog sample_cfg"
  by (simp add: sample_cfg_def)

text \<open>Runs of these instances are evaluated with the definitions of all operations.\<close>

lemmas buffer_defs = BUF_newFrame_def getFrameFromPool_def shift_free_def shift_queue_def uncollectPools_def
  createDynPool_def deployPool_def pool_frames_def BUF_commitFrame_def BUF_abortFrame_def BUF_releaseFrame_def
  BUF_putFrame_def BUF_getFrameTimeout_def take_current_def write_frame_def sacrifice_stats_def BUF_flush_def
  exhausted_def empty_pool_next_def outstanding_def zero_stats_def Let_def



text \<open>C2: frames are delivered in the order they were committed and never twice: what has been
  delivered, followed by what the consumer holds and what is queued, is a subsequence of what was
  committed.\<close>

theorem buffer_fifo:
  assumes "buf_reach s cs ds"
  shows "subseq (ds @ outstanding s) cs"
  using buf_reach_good [OF assms] by simp

text \<open>Three frames for two places: the first is delivered, the second given up for the third.\<close>

definition sample_calls :: "buf_call list" where
  "sample_calls = [New (True, True), Write \<lparr>rawLen = 1, raw = [1]\<rparr>, Commit, Get, Release,
     New (True, True), Write \<lparr>rawLen = 1, raw = [2]\<rparr>, Commit, New (True, True), Write \<lparr>rawLen = 1, raw = [3]\<rparr>, Commit,
     New (True, True)]"

theorem buffer_fifo_witness:
  "\<exists>t. buf_run sample_calls (sample_buffer sample_cfg)
      = Some (t, [\<lparr>rawLen = 1, raw = [1]\<rparr>, \<lparr>rawLen = 1, raw = [2]\<rparr>, \<lparr>rawLen = 1, raw = [3]\<rparr>], [\<lparr>rawLen = 1, raw = [1]\<rparr>])
    \<and> outstanding t = [\<lparr>rawLen = 1, raw = [3]\<rparr>]
    \<and> subseq ([\<lparr>rawLen = 1, raw = [1]\<rparr>] @ outstanding t)
        [\<lparr>rawLen = 1, raw = [1]\<rparr>, \<lparr>rawLen = 1, raw = [2]\<rparr>, \<lparr>rawLen = 1, raw = [3]\<rparr>]"
proof -
  obtain t where t: "buf_run sample_calls (sample_buffer sample_cfg)
      = Some (t, [\<lparr>rawLen = 1, raw = [1]\<rparr>, \<lparr>rawLen = 1, raw = [2]\<rparr>, \<lparr>rawLen = 1, raw = [3]\<rparr>], [\<lparr>rawLen = 1, raw = [1]\<rparr>])"
    "outstanding t = [\<lparr>rawLen = 1, raw = [3]\<rparr>]"
    by (simp add: sample_calls_def sample_buffer_def sample_cfg_def buffer_defs upt_rec)
  from buffer_fifo [OF buf_run_reach [OF t(1) sample_reach [OF sample_cfg_ok]]] t show ?thesis by auto
qed

text \<open>C19: in every reachable state every frame of every pool that is still allocated is in exactly
  one place, and no frame of a freed pool is in any place.\<close>

theorem buffer_frames_conserved:
  assumes "buf_reach s cs ds"
  shows "distinct (all_frames s) \<and> set (all_frames s) = set (deployed s)"
  using buf_reach_good [OF assms] distinct_all_frames set_all_frames by (simp add: buf_good_def)

theorem buffer_frames_conserved_witness:
  "distinct (all_frames (sample_buffer sample_cfg))
   \<and> set (all_frames (sample_buffer sample_cfg)) = set (deployed (sample_buffer sample_cfg))"
  by (rule buffer_frames_conserved [OF sample_reach [OF sample_cfg_ok]])

text \<open>C20: while memory is available, asking for a new frame gives up a queued frame exactly when
  the frames in use have reached the capacity of the static pool and all dynamic pools; then it
  is the oldest one, and it is counted. (Only where dynamic pools are configured without frames does
  the full buffer fail the assertion instead, while another pool may be created.)\<close>

theorem newFrame_drops_oldest_only_when_full:
  assumes "buf_reach s cs ds" "newFrame s = None"
  shows "if in_use s < capacity s then
      \<exists>f s'. BUF_newFrame (True, True) s = Ok (f, s')
        \<and> queue s' = queue s \<and> discardedAll (buf_stats s') = discardedAll (buf_stats s)
    else if dynBacklog (buf_cfg s) = 0 \<and> list_length (dynPools s) < dynMaxPools s then
      BUF_newFrame (True, True) s = Fault Assert_failed
    else \<exists>f s'. BUF_newFrame (True, True) s = Ok (f, s')
        \<and> queue s = f # queue s' \<and> discardedAll (buf_stats s') = discardedAll (buf_stats s) + 1"
proof -
  have "buf_good s" using buf_reach_good [OF assms(1)] by blast
  from newFrame_capacity [OF this assms(2)] show ?thesis
    by (auto simp: empty_pool_next_def split: if_splits)
qed

theorem newFrame_drops_oldest_only_when_full_witness:
  "\<exists>s f s'. buf_run (take 11 sample_calls) (sample_buffer sample_cfg)
      = Some (s, [\<lparr>rawLen = 1, raw = [1]\<rparr>, \<lparr>rawLen = 1, raw = [2]\<rparr>, \<lparr>rawLen = 1, raw = [3]\<rparr>], [\<lparr>rawLen = 1, raw = [1]\<rparr>])
    \<and> BUF_newFrame (True, True) s = Ok (f, s') \<and> queue s = f # queue s'"
proof -
  obtain s where s: "buf_run (take 11 sample_calls) (sample_buffer sample_cfg)
      = Some (s, [\<lparr>rawLen = 1, raw = [1]\<rparr>, \<lparr>rawLen = 1, raw = [2]\<rparr>, \<lparr>rawLen = 1, raw = [3]\<rparr>], [\<lparr>rawLen = 1, raw = [1]\<rparr>])"
    "newFrame s = None" "\<not> in_use s < capacity s" "dynBacklog (buf_cfg s) \<noteq> 0"
    by (simp add: sample_calls_def sample_buffer_def sample_cfg_def buffer_defs upt_rec in_use_def capacity_def)
  from newFrame_drops_oldest_only_when_full [OF buf_run_reach [OF s(1) sample_reach [OF sample_cfg_ok]] s(2)] s
  show ?thesis by auto
qed

text \<open>C32: the garbage collector never disturbs the queue, the producer or the consumer, and every
  dynamic pool that survives a run has a frame that one of them is using.\<close>

theorem gc_transparent_and_complete:
  assumes "buf_reach s cs ds"
  shows "\<exists>s'. gc s = Ok s' \<and> same_client s s'
    \<and> (\<forall>p\<in>set (dynPools s').
         \<exists>f\<in>set (queue s @ opt_list (newFrame s) @ opt_list (currentFrame s)). fst f = p_addr p)"
proof -
  have inv: "buf_inv s" using buf_reach_good [OF assms] by (simp add: buf_good_def)
  obtain s' where "gc s = Ok s'" "same_client s s'" using gc_ok [OF inv] by auto
  then show ?thesis using gc_reclaims [OF inv] by blast
qed

text \<open>The third frame is in a dynamic pool; once all are delivered the pool is unused and is freed.\<close>

definition sample_gc_calls :: "buf_call list" where
  "sample_gc_calls = concat (replicate 3 [New (True, True), Commit]) @ concat (replicate 3 [Get, Release])"

theorem gc_transparent_and_complete_witness:
  "\<exists>t xs ys s'. buf_run sample_gc_calls (sample_buffer (sample_cfg\<lparr>history := True, dynBacklog := 1\<rparr>)) = Some (t, xs, ys)
    \<and> length (dynPools t) = 1 \<and> gc t = Ok s' \<and> same_client t s' \<and> dynPools s' = []"
proof -
  let ?s = "sample_buffer (sample_cfg\<lparr>history := True, dynBacklog := 1\<rparr>)"
  have "\<exists>t xs ys. buf_run sample_gc_calls ?s = Some (t, xs, ys)
      \<and> length (dynPools t) = 1 \<and> queue t = [] \<and> newFrame t = None \<and> currentFrame t = None"
    by (simp add: sample_gc_calls_def sample_buffer_def sample_cfg_def buffer_defs numeral_3_eq_3 upt_rec)
  then obtain t xs ys where t: "buf_run sample_gc_calls ?s = Some (t, xs, ys)"
    "length (dynPools t) = 1" "queue t = []" "newFrame t = None" "currentFrame t = None" by blast
  have "buf_reach ?s [] []" by (rule sample_reach) (simp add: sample_cfg_def)
  from gc_transparent_and_complete [OF buf_run_reach [OF t(1) this]] t show ?thesis by auto
qed

text \<open>The deadline of a timed wait is normalised and is the current time plus the timeout,
  to the nanosecond.\<close>

theorem deadline_is_now_plus_timeout:
  assumes "unat (snd ts) < 1000000000" "unat (fst ts) + unat t div 1000 + 1 < 2 ^ 64"
  shows "unat (snd (deadline t ts)) < 1000000000
    \<and> unat (fst (deadline t ts)) * 1000000000 + unat (snd (deadline t ts))
      = unat (fst ts) * 1000000000 + unat (snd ts) + unat t * 1000000"
  using assms by (rule deadline_exact)

theorem deadline_is_now_plus_timeout_witness:
  "unat (snd (deadline 1500 (7, 600000000))) < 1000000000
    \<and> unat (fst (deadline 1500 (7, 600000000))) * 1000000000 + unat (snd (deadline 1500 (7, 600000000)))
      = unat (7 :: u64) * 1000000000 + unat (600000000 :: u64) + unat (1500 :: u64) * 1000000"
  using deadline_is_now_plus_timeout [of "(7, 600000000)" 1500] by simp

text \<open>With history enabled and empty dynamic pools configured (DynamicBacklog = 0), a producer
  that finds every frame in use while another pool may be created runs into the assertion that a
  frame is always available.\<close>

theorem newFrame_faults_on_empty_dynamic_pools:
  assumes "free_pool s = []" "dynPools s = []" "newFrame s = None"
    and "0 < dynMaxPools s" "dynBacklog (buf_cfg s) = 0"
  shows "BUF_newFrame (True, True) s = Fault Assert_failed"
  using assms
  by (simp add: BUF_newFrame_def getFrameFromPool_def uncollectPools_def createDynPool_def
      deployPool_def shift_free_def pool_frames_def Let_def)

theorem newFrame_faults_on_empty_dynamic_pools_witness:
  "BUF_newFrame (True, True)
     (sample_buffer (sample_cfg\<lparr>history := True, dynBacklog := 0\<rparr>)\<lparr>free_pool := [],
       queue := [(Static_pool, 0), (Static_pool, 1)]\<rparr>) = Fault Assert_failed"
  by (rule newFrame_faults_on_empty_dynamic_pools) (simp_all add: sample_buffer_def sample_cfg_def)

end
