(* ===== verification/Core_Network.thy ===== *)
theory Core_Network
  imports Opensky_Prelude
begin

text \<open>
  The connection to the OpenSky Network (\<open>core/network.c\<close>). The main thread (re)connects; a
  receiving and a sending thread use one socket each, normally the same one, and each finds out
  by itself that the connection broke. The first to notice becomes the leader, the other one the
  follower, whose stale socket stays open until it has seen the failure too
  (\<open>emitDisconnect\<close>).

  Sockets are the descriptors the operating system hands out; the model keeps which descriptors
  are open and which are shut down, and closing or shutting down one that is not open is the
  fault \<open>Bad_descriptor\<close>. \<open>SOCK_INVALID\<close> is \<open>None\<close>. Results of the operating system's calls
  (connection attempts, \<open>send\<close>, \<open>recv\<close>, \<open>time\<close>) are arguments. Each function body under
  \<open>mutex\<close> is one step; the steps of the three threads interleave freely (\<open>net_step\<close>).
\<close>

section \<open>State\<close>

datatype conn_state = CONN_STATE_DISCONNECTED | CONN_STATE_CONNECTED | CONN_STATE_SHUTDOWN
datatype transit_state = TRANSIT_NONE | TRANSIT_SEND | TRANSIT_RECV
datatype emit_by = EMIT_BY_RECV | EMIT_BY_SEND
datatype net_action = ACTION_NONE | ACTION_RETRY

text \<open>The cast \<open>(enum TRANSIT_STATE)by\<close>.\<close>

fun transit_of :: "emit_by \<Rightarrow> transit_state" where
  "transit_of EMIT_BY_RECV = TRANSIT_SEND"
| "transit_of EMIT_BY_SEND = TRANSIT_RECV"

type_synonym sock = "nat option"

record NET_Statistics =
  isOnline :: bool
  onlineSecs :: u64
  disconnects :: u64
  connectionAttempts :: u64
  bytesSent :: u64
  bytesReceived :: u64

record net =
  connState :: conn_state
  transState :: transit_state
  recvsock :: sock
  sendsock :: sock
  net_stats :: NET_Statistics
  onlineSince :: u64
  open_socks :: "nat list"
  shut_socks :: "nat list"

definition net_zero_stats :: NET_Statistics where
  "net_zero_stats = \<lparr>isOnline = False, onlineSecs = 0, disconnects = 0, connectionAttempts = 0,
     bytesSent = 0, bytesReceived = 0\<rparr>"

section \<open>Descriptors\<close>

definition SOCK_shutdown :: "sock \<Rightarrow> net \<Rightarrow> fault + net" where
  "SOCK_shutdown k n = (case k of None \<Rightarrow> Fault Bad_descriptor
     | Some d \<Rightarrow> if d \<in> set (open_socks n) then Ok (n\<lparr>shut_socks := List.insert d (shut_socks n)\<rparr>)
               else Fault Bad_descriptor)"

definition SOCK_close :: "sock \<Rightarrow> net \<Rightarrow> fault + net" where
  "SOCK_close k n = (case k of None \<Rightarrow> Fault Bad_descriptor
     | Some d \<Rightarrow> if d \<in> set (open_socks n)
               then Ok (n\<lparr>open_socks := removeAll d (open_socks n), shut_socks := removeAll d (shut_socks n)\<rparr>)
               else Fault Bad_descriptor)"

section \<open>Configuration\<close>

definition net_checkCfg :: "u8 list \<Rightarrow> u64 \<Rightarrow> bool" where
  "net_checkCfg cfgHost cfgPort =
    (if cfgHost ! 0 = 0 then False else if cfgPort = 0 then False else True)"

section \<open>The main thread\<close>

text \<open>One descriptor, or a negative number, per call of \<open>NETC_connect\<close>.\<close>

definition tryConnect :: "int \<Rightarrow> sock" where
  "tryConnect sock = (if sock < 0 then None else Some (nat sock))"

text \<open>The loop of connection attempts; \<open>None\<close> while no attempt has succeeded yet.\<close>

fun connect_loop :: "int list \<Rightarrow> net \<Rightarrow> (nat \<times> net) option" where
  "connect_loop [] n = None"
| "connect_loop (r # rs) n =
    (case tryConnect r of
       None \<Rightarrow> connect_loop rs (n\<lparr>net_stats := (net_stats n)
         \<lparr>disconnects := disconnects (net_stats n) + 1,
          connectionAttempts := connectionAttempts (net_stats n) + 1\<rparr>\<rparr>)
     | Some d \<Rightarrow> Some (d, n))"

text \<open>From the top of the loop to the wait for a failure: a connection is established and
  handed to the threads that need it. The new descriptor is open and not shut down.\<close>

definition net_connect :: "int list \<Rightarrow> u64 \<Rightarrow> net \<Rightarrow> fault + net option" where
  "net_connect rs now n =
    (if connState n \<noteq> CONN_STATE_DISCONNECTED then Fault Assert_failed
     else case connect_loop rs (n\<lparr>net_stats := (net_stats n)
         \<lparr>connectionAttempts := connectionAttempts (net_stats n) + 1\<rparr>\<rparr>) of
       None \<Rightarrow> Ok None
     | Some (d, n) \<Rightarrow>
         let n = n\<lparr>open_socks := d # open_socks n\<rparr>;
             n = (case transState n of
                    TRANSIT_NONE \<Rightarrow> n\<lparr>recvsock := Some d, sendsock := Some d\<rparr>
                  | TRANSIT_RECV \<Rightarrow> n\<lparr>sendsock := Some d\<rparr>
                  | TRANSIT_SEND \<Rightarrow> n\<lparr>recvsock := Some d\<rparr>)
         in Ok (Some (n\<lparr>connState := CONN_STATE_CONNECTED, onlineSince := now\<rparr>)))"

text \<open>Waking up from the wait once the connection is lost.\<close>

definition net_wakeup :: "net \<Rightarrow> net" where
  "net_wakeup n = (if connState n \<noteq> CONN_STATE_DISCONNECTED then n
     else n\<lparr>net_stats := (net_stats n)\<lparr>disconnects := disconnects (net_stats n) + 1\<rparr>\<rparr>)"

definition net_init :: "net \<Rightarrow> net" where
  "net_init n = n\<lparr>connState := CONN_STATE_DISCONNECTED, transState := TRANSIT_NONE\<rparr>"

definition net_cleanupMain :: "net \<Rightarrow> fault + net" where
  "net_cleanupMain n =
    bind_ok (if connState n = CONN_STATE_CONNECTED then
       case transState n of
         TRANSIT_RECV \<Rightarrow> bind_ok (SOCK_shutdown (sendsock n) n) (\<lambda>n.
           bind_ok (SOCK_close (sendsock n) n) (\<lambda>n. Ok (n\<lparr>sendsock := None\<rparr>)))
       | _ \<Rightarrow> bind_ok (SOCK_shutdown (recvsock n) n) (\<lambda>n.
           bind_ok (SOCK_close (recvsock n) n) (\<lambda>n. Ok (n\<lparr>recvsock := None\<rparr>)))
     else Ok n) (\<lambda>n. Ok (n\<lparr>connState := CONN_STATE_SHUTDOWN\<rparr>))"

section \<open>Failure reports\<close>

definition mysock :: "emit_by \<Rightarrow> net \<Rightarrow> sock" where
  "mysock by n = (case by of EMIT_BY_RECV \<Rightarrow> recvsock n | EMIT_BY_SEND \<Rightarrow> sendsock n)"

definition othsock :: "emit_by \<Rightarrow> net \<Rightarrow> sock" where
  "othsock by n = (case by of EMIT_BY_RECV \<Rightarrow> sendsock n | EMIT_BY_SEND \<Rightarrow> recvsock n)"

definition set_mysock :: "emit_by \<Rightarrow> sock \<Rightarrow> net \<Rightarrow> net" where
  "set_mysock by k n = (case by of EMIT_BY_RECV \<Rightarrow> n\<lparr>recvsock := k\<rparr> | EMIT_BY_SEND \<Rightarrow> n\<lparr>sendsock := k\<rparr>)"

definition add_online :: "u64 \<Rightarrow> net \<Rightarrow> net" where
  "add_online now n = n\<lparr>net_stats := (net_stats n)\<lparr>onlineSecs := onlineSecs (net_stats n) + (now - onlineSince n)\<rparr>\<rparr>"

definition emitDisconnect :: "u64 \<Rightarrow> emit_by \<Rightarrow> net \<Rightarrow> fault + (net_action \<times> net)" where
  "emitDisconnect now by n =
    bind_ok
     (if connState n = CONN_STATE_CONNECTED then
        if transState n = TRANSIT_NONE then
          bind_ok (SOCK_shutdown (mysock by n) n) (\<lambda>n.
            Ok (add_online now (set_mysock by None n\<lparr>transState := transit_of by,
              connState := CONN_STATE_DISCONNECTED\<rparr>)))
        else if transState n = transit_of by then
          bind_ok (SOCK_shutdown (mysock by n) n) (\<lambda>n.
            bind_ok (SOCK_close (mysock by n) n) (\<lambda>n.
              Ok (add_online now (set_mysock by None n\<lparr>connState := CONN_STATE_DISCONNECTED\<rparr>))))
        else
          let oth = othsock by n
          in bind_ok (SOCK_close (mysock by n) n) (\<lambda>n.
               Ok (set_mysock by oth n\<lparr>transState := TRANSIT_NONE\<rparr>))
      else if connState n \<noteq> CONN_STATE_SHUTDOWN \<and> transState n \<noteq> transit_of by then
        if transState n = TRANSIT_NONE then Fault Assert_failed
        else bind_ok (SOCK_close (mysock by n) n) (\<lambda>n.
               Ok (set_mysock by None n\<lparr>transState := TRANSIT_NONE\<rparr>))
      else Ok n)
     (\<lambda>n. Ok (if connState n = CONN_STATE_CONNECTED then ACTION_RETRY else ACTION_NONE, n))"

text \<open>\<open>NET_waitConnected\<close> returns in a state that satisfies this.\<close>

definition wait_over :: "net \<Rightarrow> bool" where
  "wait_over n \<longleftrightarrow> connState n = CONN_STATE_CONNECTED"

definition NET_forceDisconnect :: "u64 \<Rightarrow> net \<Rightarrow> fault + net" where
  "NET_forceDisconnect now n = bind_ok (emitDisconnect now EMIT_BY_SEND n) (\<lambda>(a, n). Ok n)"

text \<open>The mutex is released between the test and the report; \<open>env\<close> is what the other threads do
  in between.\<close>

definition NET_checkConnected :: "u64 \<Rightarrow> (net \<Rightarrow> net) \<Rightarrow> net \<Rightarrow> fault + (bool \<times> net)" where
  "NET_checkConnected now env n =
    (let emit = (connState n \<noteq> CONN_STATE_CONNECTED \<or> transState n = TRANSIT_SEND); n = env n
     in if emit then bind_ok (emitDisconnect now EMIT_BY_SEND n) (\<lambda>(a, n). Ok (False, n))
        else Ok (True, n))"

section \<open>Sending and receiving\<close>

text \<open>
  \<open>trySend\<close>: each \<open>send\<close> asks for \<open>len\<close> bytes from the current position and gets a result from the
  operating system, together with what the other threads did meanwhile. Asking for bytes behind
  the end of the buffer is \<open>Out_of_bounds\<close>. \<open>None\<close> while the results run out.
\<close>

fun trySend_loop :: "(int \<times> (net \<Rightarrow> net)) list \<Rightarrow> u64 \<Rightarrow> nat \<Rightarrow> nat \<Rightarrow> net \<Rightarrow> fault + (bool \<times> net) option" where
  "trySend_loop [] now len off n = Ok None"
| "trySend_loop ((rc, env) # rs) now len off n =
    (if off + len > len then Fault Out_of_bounds
     else let n = env n
     in if rc \<le> 0
        then bind_ok (emitDisconnect now EMIT_BY_SEND n) (\<lambda>(a, n). Ok (Some (False, n)))
        else let off = off + nat rc
             in if off \<noteq> len then trySend_loop rs now len off n
                else Ok (Some (True, n\<lparr>net_stats := (net_stats n)
                   \<lparr>bytesSent := bytesSent (net_stats n) + of_nat len\<rparr>\<rparr>)))"

definition trySend :: "(int \<times> (net \<Rightarrow> net)) list \<Rightarrow> u64 \<Rightarrow> nat \<Rightarrow> net \<Rightarrow> fault + (bool \<times> net) option" where
  "trySend rs now len n = trySend_loop rs now len 0 n"

definition NET_send :: "(int \<times> (net \<Rightarrow> net)) list \<Rightarrow> u64 \<Rightarrow> nat \<Rightarrow> net \<Rightarrow> fault + (bool \<times> net) option" where
  "NET_send rs now len n = trySend rs now len n"

text \<open>\<open>NET_receive\<close>: the number of bytes received, 0 upon failure.\<close>

fun NET_receive :: "(int \<times> (net \<Rightarrow> net)) list \<Rightarrow> u64 \<Rightarrow> net \<Rightarrow> fault + (nat \<times> net) option" where
  "NET_receive [] now n = Ok None"
| "NET_receive ((rc, env) # rs) now n =
    (let n = env n
     in if rc > 0 then Ok (Some (nat rc, n\<lparr>net_stats := (net_stats n)
          \<lparr>bytesReceived := bytesReceived (net_stats n) + of_int rc\<rparr>\<rparr>))
        else bind_ok (emitDisconnect now EMIT_BY_RECV n)
          (\<lambda>(a, n). if a = ACTION_RETRY then NET_receive rs now n else Ok (Some (0, n))))"

section \<open>Statistics\<close>

definition net_resetStats :: "net \<Rightarrow> net" where
  "net_resetStats n = n\<lparr>net_stats := net_zero_stats\<rparr>"

definition NET_getStatistics :: "u64 \<Rightarrow> net \<Rightarrow> NET_Statistics" where
  "NET_getStatistics now n =
    (let st = (net_stats n)\<lparr>isOnline := (connState n = CONN_STATE_CONNECTED)\<rparr>
     in if isOnline st then st\<lparr>onlineSecs := onlineSecs st + (now - onlineSince n)\<rparr> else st)"

section \<open>Interleaving of the threads\<close>

text \<open>A thread is active from the return of \<open>NET_waitConnected\<close> until a send or receive call
  reports failure to it.\<close>

record net_sys =
  the_net :: net
  snd_active :: bool
  rcv_active :: bool

inductive net_step :: "net_sys \<Rightarrow> net_sys \<Rightarrow> bool" where
  connect: "connState (the_net s) = CONN_STATE_DISCONNECTED \<Longrightarrow>
    \<forall>r\<in>set rs. 0 \<le> r \<longrightarrow> nat r \<notin> set (open_socks (the_net s)) \<Longrightarrow>
    net_connect rs now (the_net s) = Ok (Some n) \<Longrightarrow> net_step s (s\<lparr>the_net := n\<rparr>)"
| wakeup: "net_step s (s\<lparr>the_net := net_wakeup (the_net s)\<rparr>)"
| snd_wait: "wait_over (the_net s) \<Longrightarrow> net_step s (s\<lparr>snd_active := True\<rparr>)"
| rcv_wait: "wait_over (the_net s) \<Longrightarrow> net_step s (s\<lparr>rcv_active := True\<rparr>)"
| snd_fail: "snd_active s \<Longrightarrow> emitDisconnect now EMIT_BY_SEND (the_net s) = Ok (a, n) \<Longrightarrow>
    net_step s (s\<lparr>the_net := n, snd_active := False\<rparr>)"
| rcv_fail: "rcv_active s \<Longrightarrow> emitDisconnect now EMIT_BY_RECV (the_net s) = Ok (a, n) \<Longrightarrow>
    net_step s (s\<lparr>the_net := n, rcv_active := (a = ACTION_RETRY)\<rparr>)"
| reset: "net_step s (s\<lparr>the_net := net_resetStats (the_net s)\<rparr>)"

definition net_start :: "net_sys \<Rightarrow> bool" where
  "net_start s \<longleftrightarrow> connState (the_net s) = CONN_STATE_DISCONNECTED
     \<and> transState (the_net s) = TRANSIT_NONE \<and> open_socks (the_net s) = [] \<and> shut_socks (the_net s) = []
     \<and> \<not> snd_active s \<and> \<not> rcv_active s"

inductive net_reach :: "net_sys \<Rightarrow> bool" where
  start: "net_start s \<Longrightarrow> net_reach s"
| step: "net_reach s \<Longrightarrow> net_step s t \<Longrightarrow> net_reach t"

inductive_cases net_stepE: "net_step s t"

end
