(* ===== verification/Core_Network_Inv.thy ===== *)
theory Core_Network_Inv
  imports Core_Network
begin

text \<open>
  The invariant of the connection state machine, its preservation by every step of the main,
  sending and receiving threads, and the properties that follow: no call faults, no descriptor
  leaks or is closed twice, a stale socket is always shut down so its owner cannot hang on it,
  and the protocol gets back to a connection both threads share. Calls of \<open>NET_send\<close> from a
  thread that does not synchronise with the connection break the protocol; the last property
  shows how.
\<close>

section \<open>The invariant\<close>

definition net_inv :: "net_sys \<Rightarrow> bool" where
  "net_inv s \<longleftrightarrow> (let n = the_net s in
     set (shut_socks n) \<subseteq> set (open_socks n) \<and>
     (case (connState n, transState n) of
        (CONN_STATE_DISCONNECTED, TRANSIT_NONE) \<Rightarrow> open_socks n = [] \<and> \<not> snd_active s \<and> \<not> rcv_active s
      | (CONN_STATE_DISCONNECTED, TRANSIT_SEND) \<Rightarrow>
          (\<exists>d. sendsock n = Some d \<and> recvsock n = None \<and> open_socks n = [d] \<and> d \<in> set (shut_socks n))
          \<and> \<not> rcv_active s
      | (CONN_STATE_DISCONNECTED, TRANSIT_RECV) \<Rightarrow>
          (\<exists>d. recvsock n = Some d \<and> sendsock n = None \<and> open_socks n = [d] \<and> d \<in> set (shut_socks n))
          \<and> \<not> snd_active s
      | (CONN_STATE_CONNECTED, TRANSIT_NONE) \<Rightarrow>
          (\<exists>d. recvsock n = Some d \<and> sendsock n = Some d \<and> open_socks n = [d] \<and> d \<notin> set (shut_socks n))
      | (CONN_STATE_CONNECTED, TRANSIT_SEND) \<Rightarrow>
          (\<exists>d e. sendsock n = Some d \<and> recvsock n = Some e \<and> d \<noteq> e \<and> open_socks n = [e, d]
             \<and> d \<in> set (shut_socks n) \<and> e \<notin> set (shut_socks n))
      | (CONN_STATE_CONNECTED, TRANSIT_RECV) \<Rightarrow>
          (\<exists>d e. recvsock n = Some d \<and> sendsock n = Some e \<and> d \<noteq> e \<and> open_socks n = [e, d]
             \<and> d \<in> set (shut_socks n) \<and> e \<notin> set (shut_socks n))
      | _ \<Rightarrow> False))"

lemma net_inv_start: "net_start s \<Longrightarrow> net_inv s"
  by (simp add: net_start_def net_inv_def)

lemmas sock_defs = SOCK_shutdown_def SOCK_close_def mysock_def othsock_def set_mysock_def add_online_def

text \<open>Which of the six states the machine is in, with the sockets.\<close>

lemma net_inv_cases [consumes 1, case_names down down_send down_recv up up_send up_recv]:
  assumes "net_inv s"
  obtains "connState (the_net s) = CONN_STATE_DISCONNECTED" "transState (the_net s) = TRANSIT_NONE"
    "open_socks (the_net s) = []" "shut_socks (the_net s) = []" "\<not> snd_active s" "\<not> rcv_active s"
  | d where "connState (the_net s) = CONN_STATE_DISCONNECTED" "transState (the_net s) = TRANSIT_SEND"
    "sendsock (the_net s) = Some d" "recvsock (the_net s) = None" "open_socks (the_net s) = [d]"
    "set (shut_socks (the_net s)) = {d}" "\<not> rcv_active s"
  | d where "connState (the_net s) = CONN_STATE_DISCONNECTED" "transState (the_net s) = TRANSIT_RECV"
    "recvsock (the_net s) = Some d" "sendsock (the_net s) = None" "open_socks (the_net s) = [d]"
    "set (shut_socks (the_net s)) = {d}" "\<not> snd_active s"
  | d where "connState (the_net s) = CONN_STATE_CONNECTED" "transState (the_net s) = TRANSIT_NONE"
    "recvsock (the_net s) = Some d" "sendsock (the_net s) = Some d" "open_socks (the_net s) = [d]"
    "shut_socks (the_net s) = []"
  | d e where "connState (the_net s) = CONN_STATE_CONNECTED" "transState (the_net s) = TRANSIT_SEND"
    "sendsock (the_net s) = Some d" "recvsock (the_net s) = Some e" "d \<noteq> e"
    "open_socks (the_net s) = [e, d]" "set (shut_socks (the_net s)) = {d}"
  | d e where "connState (the_net s) = CONN_STATE_CONNECTED" "transState (the_net s) = TRANSIT_RECV"
    "recvsock (the_net s) = Some d" "sendsock (the_net s) = Some e" "d \<noteq> e"
    "open_socks (the_net s) = [e, d]" "set (shut_socks (the_net s)) = {d}"
proof -
  have sub: "set (shut_socks (the_net s)) \<subseteq> set (open_socks (the_net s))"
    using assms by (simp add: net_inv_def Let_def)
  note inv = assms [unfolded net_inv_def Let_def]
  show thesis
  proof (cases "connState (the_net s)")
    case conn: CONN_STATE_DISCONNECTED
    show ?thesis
    proof (cases "transState (the_net s)")
      case TRANSIT_NONE
      then show ?thesis using inv conn sub by (intro that(1)) auto
    next
      case TRANSIT_SEND
      then obtain d where "sendsock (the_net s) = Some d" "recvsock (the_net s) = None"
        "open_socks (the_net s) = [d]" "d \<in> set (shut_socks (the_net s))" "\<not> rcv_active s"
        using inv conn by auto
      then show ?thesis using conn TRANSIT_SEND sub by (intro that(2)) auto
    next
      case TRANSIT_RECV
      then obtain d where "recvsock (the_net s) = Some d" "sendsock (the_net s) = None"
        "open_socks (the_net s) = [d]" "d \<in> set (shut_socks (the_net s))" "\<not> snd_active s"
        using inv conn by auto
      then show ?thesis using conn TRANSIT_RECV sub by (intro that(3)) auto
    qed
  next
    case conn: CONN_STATE_CONNECTED
    show ?thesis
    proof (cases "transState (the_net s)")
      case TRANSIT_NONE
      then obtain d where d: "recvsock (the_net s) = Some d" "sendsock (the_net s) = Some d"
        "open_socks (the_net s) = [d]" "d \<notin> set (shut_socks (the_net s))"
        using inv conn by auto
      then have "shut_socks (the_net s) = []" using sub by (cases "shut_socks (the_net s)") auto
      with d show ?thesis using conn TRANSIT_NONE by (intro that(4)) auto
    next
      case TRANSIT_SEND
      then obtain d e where "sendsock (the_net s) = Some d" "recvsock (the_net s) = Some e" "d \<noteq> e"
        "open_socks (the_net s) = [e, d]" "d \<in> set (shut_socks (the_net s))" "e \<notin> set (shut_socks (the_net s))"
        using inv conn by auto
      then show ?thesis using conn TRANSIT_SEND sub by (intro that(5)) auto
    next
      case TRANSIT_RECV
      then obtain d e where "recvsock (the_net s) = Some d" "sendsock (the_net s) = Some e" "d \<noteq> e"
        "open_socks (the_net s) = [e, d]" "d \<in> set (shut_socks (the_net s))" "e \<notin> set (shut_socks (the_net s))"
        using inv conn by auto
      then show ?thesis using conn TRANSIT_RECV sub by (intro that(6)) auto
    qed
  next
    case CONN_STATE_SHUTDOWN
    then show ?thesis using inv by simp
  qed
qed

lemma emit_send_ok:
  assumes "net_inv s" "snd_active s"
  shows "case emitDisconnect now EMIT_BY_SEND (the_net s) of Inl e \<Rightarrow> False
    | Inr (a, n) \<Rightarrow> net_inv (s\<lparr>the_net := n, snd_active := False\<rparr>)"
  using assms
  by (cases rule: net_inv_cases) (auto simp: net_inv_def emitDisconnect_def sock_defs)

lemma emit_recv_ok:
  assumes "net_inv s" "rcv_active s"
  shows "case emitDisconnect now EMIT_BY_RECV (the_net s) of Inl e \<Rightarrow> False
    | Inr (a, n) \<Rightarrow> net_inv (s\<lparr>the_net := n, rcv_active := (a = ACTION_RETRY)\<rparr>)"
  using assms
  by (cases rule: net_inv_cases) (auto simp: net_inv_def emitDisconnect_def sock_defs)

lemma connect_loop_Some:
  "connect_loop rs m = Some (d, n) \<Longrightarrow>
    (\<exists>g. n = m\<lparr>net_stats := g\<rparr>) \<and> (\<exists>r\<in>set rs. 0 \<le> r \<and> d = nat r)"
proof (induction rs arbitrary: m)
  case (Cons r rs)
  show ?case
  proof (cases "r < 0")
    case True
    with Cons.prems obtain g where "connect_loop rs (m\<lparr>net_stats := g\<rparr>) = Some (d, n)"
      by (simp add: tryConnect_def)
    from Cons.IH [OF this] show ?thesis by auto
  next
    case False
    with Cons.prems show ?thesis by (auto simp: tryConnect_def intro: exI [of _ "net_stats m"])
  qed
qed simp

lemma net_connect_ok:
  assumes "net_inv s" "connState (the_net s) = CONN_STATE_DISCONNECTED"
    and fresh: "\<forall>r\<in>set rs. 0 \<le> r \<longrightarrow> nat r \<notin> set (open_socks (the_net s))"
  shows "case net_connect rs now (the_net s) of Inl e \<Rightarrow> False
    | Inr None \<Rightarrow> True | Inr (Some n) \<Rightarrow> net_inv (s\<lparr>the_net := n\<rparr>)"
proof -
  let ?m = "(the_net s)\<lparr>net_stats := (net_stats (the_net s))
    \<lparr>connectionAttempts := connectionAttempts (net_stats (the_net s)) + 1\<rparr>\<rparr>"
  show ?thesis
  proof (cases "connect_loop rs ?m")
    case None
    then show ?thesis using assms(2) by (simp add: net_connect_def)
  next
    case (Some r)
    then obtain d n where r: "connect_loop rs ?m = Some (d, n)" by (cases r) auto
    obtain g where n: "n = ?m\<lparr>net_stats := g\<rparr>" and d: "d \<notin> set (open_socks (the_net s))"
      using connect_loop_Some [OF r] fresh by blast
    show ?thesis
      using assms(1,2) d r n
      by (cases rule: net_inv_cases) (auto simp: net_connect_def net_inv_def)
  qed
qed

lemma net_step_inv:
  assumes "net_step s t" "net_inv s"
  shows "net_inv t"
  using assms
proof (cases rule: net_step.cases)
  case (connect rs now n)
  then show ?thesis using net_connect_ok [OF assms(2) connect(2,3), of now] by simp
next
  case wakeup
  from assms(2) show ?thesis
    by (cases rule: net_inv_cases) (use wakeup in \<open>auto simp: net_inv_def net_wakeup_def\<close>)
next
  case snd_wait
  from assms(2) show ?thesis
    by (cases rule: net_inv_cases) (use snd_wait in \<open>auto simp: net_inv_def wait_over_def\<close>)
next
  case rcv_wait
  from assms(2) show ?thesis
    by (cases rule: net_inv_cases) (use rcv_wait in \<open>auto simp: net_inv_def wait_over_def\<close>)
next
  case (snd_fail now a n)
  then show ?thesis using emit_send_ok [OF assms(2) snd_fail(2), of now] by simp
next
  case (rcv_fail now a n)
  then show ?thesis using emit_recv_ok [OF assms(2) rcv_fail(2), of now] by simp
next
  case reset
  from assms(2) show ?thesis
    by (cases rule: net_inv_cases) (use reset in \<open>auto simp: net_inv_def net_resetStats_def\<close>)
qed

lemma net_reach_inv: "net_reach s \<Longrightarrow> net_inv s"
  by (induction rule: net_reach.induct) (auto intro: net_inv_start net_step_inv)

section \<open>Resynchronisation\<close>

lemma emit_step_send:
  "net_inv s \<Longrightarrow> snd_active s \<Longrightarrow> emitDisconnect now EMIT_BY_SEND (the_net s) = Ok (a, n) \<Longrightarrow>
    net_step s (s\<lparr>the_net := n, snd_active := False\<rparr>)"
  by (rule net_step.snd_fail)

abbreviation net_steps :: "net_sys \<Rightarrow> net_sys \<Rightarrow> bool" where
  "net_steps \<equiv> net_step\<^sup>*\<^sup>*"

definition in_sync :: "net_sys \<Rightarrow> bool" where
  "in_sync s \<longleftrightarrow> connState (the_net s) = CONN_STATE_CONNECTED \<and> transState (the_net s) = TRANSIT_NONE"

text \<open>The follower reports the failure it is bound to see on its stale socket.\<close>

lemma follower_syncs:
  assumes inv: "net_inv s" and up: "connState (the_net s) = CONN_STATE_CONNECTED"
  shows "\<exists>t. net_steps s t \<and> in_sync t"
  using inv
proof (cases rule: net_inv_cases)
  case (up_send d e)
  let ?s = "s\<lparr>snd_active := True\<rparr>"
  have 1: "net_step s ?s" using up by (intro net_step.snd_wait) (simp add: wait_over_def)
  let ?n = "(the_net s)\<lparr>open_socks := [e], shut_socks := removeAll d (shut_socks (the_net s)),
    sendsock := Some e, transState := TRANSIT_NONE\<rparr>"
  have "emitDisconnect 0 EMIT_BY_SEND (the_net ?s) = Ok (ACTION_RETRY, ?n)"
    using up_send by (simp add: emitDisconnect_def sock_defs Let_def)
  then have "net_step ?s (?s\<lparr>the_net := ?n, snd_active := False\<rparr>)"
    by (intro net_step.snd_fail) simp_all
  moreover have "in_sync (?s\<lparr>the_net := ?n, snd_active := False\<rparr>)" using up by (simp add: in_sync_def)
  ultimately show ?thesis
    using 1 by (meson converse_rtranclp_into_rtranclp rtranclp.rtrancl_refl)
next
  case (up_recv d e)
  let ?s = "s\<lparr>rcv_active := True\<rparr>"
  have 1: "net_step s ?s" using up by (intro net_step.rcv_wait) (simp add: wait_over_def)
  let ?n = "(the_net s)\<lparr>open_socks := [e], shut_socks := removeAll d (shut_socks (the_net s)),
    recvsock := Some e, transState := TRANSIT_NONE\<rparr>"
  have "emitDisconnect 0 EMIT_BY_RECV (the_net ?s) = Ok (ACTION_RETRY, ?n)"
    using up_recv by (simp add: emitDisconnect_def sock_defs Let_def)
  then have "net_step ?s (?s\<lparr>the_net := ?n, rcv_active := (ACTION_RETRY = ACTION_RETRY)\<rparr>)"
    by (intro net_step.rcv_fail) simp_all
  moreover have "in_sync (?s\<lparr>the_net := ?n, rcv_active := (ACTION_RETRY = ACTION_RETRY)\<rparr>)"
    using up by (simp add: in_sync_def)
  ultimately show ?thesis
    using 1 by (meson converse_rtranclp_into_rtranclp rtranclp.rtrancl_refl)
qed (use up in \<open>auto simp: in_sync_def\<close>)

lemma can_connect:
  assumes down: "connState (the_net s) = CONN_STATE_DISCONNECTED"
  shows "\<exists>t. net_step s t \<and> connState (the_net t) = CONN_STATE_CONNECTED"
proof -
  obtain d where d: "d \<notin> set (open_socks (the_net s))"
    using ex_new_if_finite [OF infinite_UNIV_nat] by blast
  obtain n where n: "net_connect [int d] 0 (the_net s) = Ok (Some n)"
    using down by (simp add: net_connect_def tryConnect_def Let_def)
  then have "connState n = CONN_STATE_CONNECTED"
    using down by (auto simp: net_connect_def tryConnect_def Let_def)
  moreover have "net_step s (s\<lparr>the_net := n\<rparr>)"
    using down d n by (intro net_step.connect) simp_all
  ultimately show ?thesis by (metis net_sys.select_convs(1) net_sys.surjective net_sys.update_convs(1))
qed

lemma can_resync:
  assumes "net_inv s"
  shows "\<exists>t. net_steps s t \<and> in_sync t"
proof (cases "connState (the_net s) = CONN_STATE_CONNECTED")
  case True
  then show ?thesis using follower_syncs [OF assms] by blast
next
  case False
  then have "connState (the_net s) = CONN_STATE_DISCONNECTED"
    by (cases rule: net_inv_cases [OF assms]) auto
  then obtain t where t: "net_step s t" "connState (the_net t) = CONN_STATE_CONNECTED"
    using can_connect by blast
  then show ?thesis
    using follower_syncs [OF net_step_inv [OF t(1) assms] t(2)]
    by (meson converse_rtranclp_into_rtranclp)
qed

section \<open>Properties\<close>

definition net_down :: net_sys where
  "net_down = \<lparr>the_net = \<lparr>connState = CONN_STATE_DISCONNECTED, transState = TRANSIT_NONE,
     recvsock = Some 0, sendsock = Some 0, net_stats = net_zero_stats, onlineSince = 0,
     open_socks = [], shut_socks = []\<rparr>, snd_active = False, rcv_active = False\<rparr>"

definition net_up :: net_sys where
  "net_up = net_down\<lparr>the_net := (the_net net_down)\<lparr>connState := CONN_STATE_CONNECTED,
     recvsock := Some 3, sendsock := Some 3, open_socks := [3], onlineSince := 10,
     net_stats := net_zero_stats\<lparr>connectionAttempts := 1\<rparr>\<rparr>\<rparr>"

lemma net_reach_down: "net_reach net_down"
  by (rule net_reach.start) (simp add: net_start_def net_down_def)

lemma net_reach_up: "net_reach net_up"
proof (rule net_reach.step [OF net_reach_down])
  have "net_step net_down (net_down\<lparr>the_net := the_net net_up\<rparr>)"
    by (rule net_step.connect [where rs = "[3]" and now = 10])
      (simp_all add: net_down_def net_up_def net_connect_def tryConnect_def net_zero_stats_def)
  then show "net_step net_down net_up" by (simp add: net_down_def net_up_def)
qed

lemma net_reach_active: "net_reach (net_up\<lparr>snd_active := True, rcv_active := True\<rparr>)"
proof -
  have "net_reach (net_up\<lparr>snd_active := True\<rparr>)"
    by (rule net_reach.step [OF net_reach_up net_step.snd_wait]) (simp add: net_up_def wait_over_def)
  from net_reach.step [OF this net_step.rcv_wait] show ?thesis
    by (simp add: net_up_def wait_over_def)
qed

text \<open>C9: whatever the interleaving of connecting, losing connections and noticing it, a failure
  report of the sending or the receiving thread returns: its assertion holds and it shuts down
  and closes open descriptors only.\<close>

theorem net_reports_never_fault:
  assumes "net_reach s"
  shows "(snd_active s \<longrightarrow> (\<exists>a n. emitDisconnect now EMIT_BY_SEND (the_net s) = Ok (a, n)))
    \<and> (rcv_active s \<longrightarrow> (\<exists>a n. emitDisconnect now EMIT_BY_RECV (the_net s) = Ok (a, n)))"
  using emit_send_ok [OF net_reach_inv [OF assms], of now] emit_recv_ok [OF net_reach_inv [OF assms], of now]
  by (auto split: sum.splits)

theorem net_reports_never_fault_witness:
  "\<exists>a n. emitDisconnect 20 EMIT_BY_SEND (the_net (net_up\<lparr>snd_active := True, rcv_active := True\<rparr>)) = Ok (a, n)"
  using net_reports_never_fault [OF net_reach_active, of 20] by simp

text \<open>C10: no descriptor leaks, and nobody hangs on a dead connection: only the two sockets in use
  are open; an active thread's own socket is open, and it is shut down unless it belongs to the
  current connection.\<close>

theorem net_sockets_exact:
  assumes "net_reach s" and "n = the_net s"
  shows "(\<forall>d\<in>set (open_socks n). recvsock n = Some d \<or> sendsock n = Some d)
    \<and> (snd_active s \<longrightarrow> (\<exists>d. sendsock n = Some d \<and> d \<in> set (open_socks n) \<and>
         (d \<in> set (shut_socks n) \<longleftrightarrow> connState n \<noteq> CONN_STATE_CONNECTED \<or> transState n = TRANSIT_SEND)))
    \<and> (rcv_active s \<longrightarrow> (\<exists>d. recvsock n = Some d \<and> d \<in> set (open_socks n) \<and>
         (d \<in> set (shut_socks n) \<longleftrightarrow> connState n \<noteq> CONN_STATE_CONNECTED \<or> transState n = TRANSIT_RECV)))"
  using net_reach_inv [OF assms(1)] unfolding assms(2)
  by (cases rule: net_inv_cases) auto

theorem net_sockets_exact_witness:
  "\<exists>d. recvsock (the_net (net_up\<lparr>snd_active := True, rcv_active := True\<rparr>)) = Some d
     \<and> d \<in> set (open_socks (the_net (net_up\<lparr>snd_active := True, rcv_active := True\<rparr>)))
     \<and> d \<notin> set (shut_socks (the_net (net_up\<lparr>snd_active := True, rcv_active := True\<rparr>)))"
  using net_sockets_exact [OF net_reach_active refl] by (auto simp: net_up_def net_down_def)

text \<open>C33: the protocol cannot get stuck: from every reachable state the three threads can get to a
  connection that both the sender and the receiver use.\<close>

theorem net_can_resynchronise:
  assumes "net_reach s"
  shows "\<exists>t. net_steps s t \<and> in_sync t \<and> recvsock (the_net t) = sendsock (the_net t)
    \<and> length (open_socks (the_net t)) = 1"
proof -
  obtain t where t: "net_steps s t" "in_sync t"
    using can_resync [OF net_reach_inv [OF assms]] by blast
  have "net_inv t"
    using t(1) net_reach_inv [OF assms] by (induction rule: rtranclp_induct) (auto intro: net_step_inv)
  then show ?thesis using t by (cases rule: net_inv_cases) (auto simp: in_sync_def)
qed

theorem net_can_resynchronise_witness:
  "\<exists>t. net_steps net_down t \<and> in_sync t \<and> recvsock (the_net t) = sendsock (the_net t)
    \<and> length (open_socks (the_net t)) = 1"
  by (rule net_can_resynchronise [OF net_reach_down])

text \<open>A thread that sends without having synchronised with the connection, as the thread that
  delivers GPS positions does, breaks the protocol: once both regular threads have seen a
  disconnection, its failing send runs into the assertion of emitDisconnect.\<close>

theorem net_unsynchronised_send_asserts:
  "\<exists>s. net_steps net_up s \<and> NET_send [(-1, \<lambda>n. n)] 30 len (the_net s) = Fault Assert_failed"
proof -
  let ?a = "net_up\<lparr>snd_active := True, rcv_active := True\<rparr>"
  have 1: "net_steps net_up ?a"
  proof -
    have "net_step net_up (net_up\<lparr>snd_active := True\<rparr>)"
      by (rule net_step.snd_wait) (simp add: net_up_def wait_over_def)
    moreover have "net_step (net_up\<lparr>snd_active := True\<rparr>) (net_up\<lparr>snd_active := True\<rparr>\<lparr>rcv_active := True\<rparr>)"
      by (rule net_step.rcv_wait) (simp add: net_up_def wait_over_def)
    ultimately show ?thesis by (simp add: rtranclp.rtrancl_into_rtrancl)
  qed
  obtain n where n: "emitDisconnect 20 EMIT_BY_RECV (the_net ?a) = Ok (ACTION_NONE, n)"
    "connState n = CONN_STATE_DISCONNECTED" "transState n = TRANSIT_SEND" "sendsock n = Some 3" "open_socks n = [3]"
    by (simp add: net_up_def net_down_def emitDisconnect_def sock_defs)
  let ?b = "?a\<lparr>the_net := n, rcv_active := (ACTION_NONE = ACTION_RETRY)\<rparr>"
  have 2: "net_step ?a ?b" by (rule net_step.rcv_fail [OF _ n(1)]) simp
  obtain m where m: "emitDisconnect 25 EMIT_BY_SEND (the_net ?b) = Ok (ACTION_NONE, m)"
    "connState m = CONN_STATE_DISCONNECTED" "transState m = TRANSIT_NONE"
    using n by (simp add: emitDisconnect_def sock_defs)
  have 3: "net_step ?b (?b\<lparr>the_net := m, snd_active := False\<rparr>)" by (rule net_step.snd_fail [OF _ m(1)]) simp
  have "NET_send [(-1, \<lambda>n. n)] 30 len m = Fault Assert_failed"
    using m by (simp add: NET_send_def trySend_def emitDisconnect_def)
  moreover have "net_steps net_up (?b\<lparr>the_net := m, snd_active := False\<rparr>)"
    using 1 2 3 by (meson rtranclp.rtrancl_into_rtrancl)
  ultimately show ?thesis by (intro exI [of _ "?b\<lparr>the_net := m, snd_active := False\<rparr>"]) simp
qed

text \<open>A send that the operating system completes at once succeeds and is counted, but after a
  partial send the loop asks for the full length again, behind the end of the buffer.\<close>

theorem net_partial_send_overreads:
  assumes "0 < rc" "rc < int len"
  shows "NET_send [(int len, env)] now len n
      = Ok (Some (True, (env n)\<lparr>net_stats := (net_stats (env n))
          \<lparr>bytesSent := bytesSent (net_stats (env n)) + of_nat len\<rparr>\<rparr>))
    \<and> NET_send ((rc, env) # r # rs) now len n = Fault Out_of_bounds"
  using assms by (cases r) (auto simp: NET_send_def trySend_def Let_def)

theorem net_partial_send_overreads_witness:
  "NET_send [(5, \<lambda>n. n), (6, \<lambda>n. n)] 0 11 (the_net net_up) = Fault Out_of_bounds"
  using net_partial_send_overreads [of 5 11] by fastforce

end
