(* ===== verification/Core_Filter.thy ===== *)
theory Core_Filter
  imports Core_Types
begin

text \<open>
  The frame filter (\<open>core/filter.c\<close>): the configuration the talkback channel can change, the
  Mode-S frame type mask derived from it, the synchronization flag, and the counters. Calls of
  \<open>INPUT_reconfigure\<close>, which belongs to the input, are recorded with the setting they carry.
  An index outside a counter array is \<open>Out_of_bounds\<close>.
\<close>

section \<open>State\<close>

record FILTER_Configuration =
  crc :: bool
  sync_filter :: bool
  extSquitter :: bool

record FILTER_Statistics =
  framesByType :: "u64 list"
  modeSByType :: "u64 list"
  unknown_frames :: u64
  filtered :: u64
  modeSfiltered :: u64
  unsynchronized :: u64

record frame_filter =
  FILTER_cfg :: FILTER_Configuration
  modeSFilter :: u32
  isSynchronized :: bool
  filter_stats :: FILTER_Statistics
  reconfigured :: "bool list"

definition MODES_TYPE_EXTENDED_SQUITTER :: u32 where
  "MODES_TYPE_EXTENDED_SQUITTER = push_bit 17 1"
definition MODES_TYPE_EXTENDED_SQUITTER_NON_TRANSPONDER :: u32 where
  "MODES_TYPE_EXTENDED_SQUITTER_NON_TRANSPONDER = push_bit 18 1"
definition MODES_TYPE_ALL :: u32 where
  "MODES_TYPE_ALL = NOT 0"
definition MODES_TYPE_EXTENDED_SQUITTER_ALL :: u32 where
  "MODES_TYPE_EXTENDED_SQUITTER_ALL =
     MODES_TYPE_EXTENDED_SQUITTER OR MODES_TYPE_EXTENDED_SQUITTER_NON_TRANSPONDER"

definition filter_zero_stats :: FILTER_Statistics where
  "filter_zero_stats = \<lparr>framesByType = replicate 4 0, modeSByType = replicate 32 0,
     unknown_frames = 0, filtered = 0, modeSfiltered = 0, unsynchronized = 0\<rparr>"

section \<open>Operations\<close>

definition FILTER_reset :: "frame_filter \<Rightarrow> frame_filter" where
  "FILTER_reset s = s\<lparr>isSynchronized := False\<rparr>"

definition filter_construct :: "frame_filter \<Rightarrow> bool \<times> frame_filter" where
  "filter_construct s =
    (True, FILTER_reset (s\<lparr>modeSFilter := (if extSquitter (FILTER_cfg s)
       then MODES_TYPE_EXTENDED_SQUITTER_ALL else MODES_TYPE_ALL)\<rparr>))"

definition filter_resetStats :: "frame_filter \<Rightarrow> frame_filter" where
  "filter_resetStats s = s\<lparr>filter_stats := filter_zero_stats\<rparr>"

definition FILTER_getStatistics :: "frame_filter \<Rightarrow> FILTER_Statistics" where
  "FILTER_getStatistics s = filter_stats s"

definition FILTER_setSynchronizedFilter :: "bool \<Rightarrow> frame_filter \<Rightarrow> frame_filter" where
  "FILTER_setSynchronizedFilter b s = s\<lparr>FILTER_cfg := (FILTER_cfg s)\<lparr>sync_filter := b\<rparr>\<rparr>"

definition FILTER_setModeSExtSquitter :: "bool \<Rightarrow> frame_filter \<Rightarrow> frame_filter" where
  "FILTER_setModeSExtSquitter b s =
    (let s = s\<lparr>FILTER_cfg := (FILTER_cfg s)\<lparr>extSquitter := b\<rparr>\<rparr>;
         s = s\<lparr>modeSFilter := (if extSquitter (FILTER_cfg s)
               then MODES_TYPE_EXTENDED_SQUITTER_ALL else MODES_TYPE_ALL)\<rparr>
     in s\<lparr>reconfigured := reconfigured s @ [extSquitter (FILTER_cfg s)]\<rparr>)"

definition FILTER_setSynchronized :: "bool \<Rightarrow> frame_filter \<Rightarrow> frame_filter" where
  "FILTER_setSynchronized b s = s\<lparr>isSynchronized := b\<rparr>"

text \<open>\<open>++counters[i]\<close>\<close>

definition count_at :: "nat \<Rightarrow> u64 list \<Rightarrow> u64 list option" where
  "count_at i xs = (if i < length xs then Some (xs[i := xs ! i + 1]) else None)"

abbreviation upd_fstats :: "(FILTER_Statistics \<Rightarrow> FILTER_Statistics) \<Rightarrow> frame_filter \<Rightarrow> frame_filter" where
  "upd_fstats \<equiv> filter_stats_update"

text \<open>From the frame filter to the end of \<open>FILTER_filter\<close>.\<close>

definition filter_frame_type :: "u8 \<Rightarrow> u8 \<Rightarrow> frame_filter \<Rightarrow> fault + (bool \<times> frame_filter)" where
  "filter_frame_type ft firstByte s =
    (if ft \<noteq> OPENSKY_FRAME_TYPE_MODE_S_LONG \<and> ft \<noteq> OPENSKY_FRAME_TYPE_MODE_S_SHORT
     then Ok (False, upd_fstats (\<lambda>t. t\<lparr>filtered := filtered t + 1\<rparr>) s)
     else let ftype = unat (drop_bit 3 firstByte AND 0x1f)
          in case count_at ftype (modeSByType (filter_stats s)) of
               None \<Rightarrow> Fault Out_of_bounds
             | Some ms \<Rightarrow>
                 let s = upd_fstats (\<lambda>t. t\<lparr>modeSByType := ms\<rparr>) s
                 in if push_bit ftype 1 AND modeSFilter s = 0
                    then Ok (False, upd_fstats (\<lambda>t. t\<lparr>filtered := filtered t + 1,
                           modeSfiltered := modeSfiltered t + 1\<rparr>) s)
                    else Ok (True, s))"

definition FILTER_filter :: "u8 \<Rightarrow> u8 \<Rightarrow> frame_filter \<Rightarrow> fault + (bool \<times> frame_filter)" where
  "FILTER_filter ft firstByte s =
    (case count_at (unat (OPENSKY_FRAME_TYPE_TO_INDEX ft)) (framesByType (filter_stats s)) of
       None \<Rightarrow> Fault Out_of_bounds
     | Some fs \<Rightarrow>
         let s = upd_fstats (\<lambda>t. t\<lparr>framesByType := fs\<rparr>) s
         in if \<not> isSynchronized s
            then let s = upd_fstats (\<lambda>t. t\<lparr>unsynchronized := unsynchronized t + 1\<rparr>) s
                 in if sync_filter (FILTER_cfg s)
                    then Ok (False, upd_fstats (\<lambda>t. t\<lparr>filtered := filtered t + 1\<rparr>) s)
                    else filter_frame_type ft firstByte s
            else filter_frame_type ft firstByte s)"

section \<open>Invariant\<close>

text \<open>The mask agrees with the configuration and the counter arrays have their length; every
  operation keeps this.\<close>

definition filter_inv :: "frame_filter \<Rightarrow> bool" where
  "filter_inv s \<longleftrightarrow> modeSFilter s = (if extSquitter (FILTER_cfg s)
       then MODES_TYPE_EXTENDED_SQUITTER_ALL else MODES_TYPE_ALL)
     \<and> length (framesByType (filter_stats s)) = 4 \<and> length (modeSByType (filter_stats s)) = 32"

lemma filter_inv_construct:
  "length (framesByType (filter_stats s)) = 4 \<Longrightarrow> length (modeSByType (filter_stats s)) = 32 \<Longrightarrow>
    filter_inv (snd (filter_construct s))"
  by (simp add: filter_inv_def filter_construct_def FILTER_reset_def)

lemma filter_inv_ops [os_inv]:
  "filter_inv s \<Longrightarrow> filter_inv (FILTER_reset s)"
  "filter_inv s \<Longrightarrow> filter_inv (filter_resetStats s)"
  "filter_inv s \<Longrightarrow> filter_inv (FILTER_setSynchronizedFilter b s)"
  "filter_inv s \<Longrightarrow> filter_inv (FILTER_setModeSExtSquitter b s)"
  "filter_inv s \<Longrightarrow> filter_inv (FILTER_setSynchronized b s)"
  by (simp_all add: filter_inv_def FILTER_reset_def filter_resetStats_def filter_zero_stats_def
      FILTER_setSynchronizedFilter_def FILTER_setModeSExtSquitter_def FILTER_setSynchronized_def Let_def)

text \<open>The types of beast frames, the only ones the input produces.\<close>

definition beast_type :: "u8 \<Rightarrow> bool" where
  "beast_type ft \<longleftrightarrow> ft \<in> {OPENSKY_FRAME_TYPE_MODE_AC, OPENSKY_FRAME_TYPE_MODE_S_SHORT,
     OPENSKY_FRAME_TYPE_MODE_S_LONG, OPENSKY_FRAME_TYPE_STATUS}"

text \<open>What the filter is meant to let pass: Mode-S frames, from a synchronized receiver if the
  synchronization filter is on, with downlink format 17 or 18 if only extended squitter pass.\<close>

definition downlink_format :: "u8 \<Rightarrow> nat" where
  "downlink_format b = unat b div 8"

definition passes :: "FILTER_Configuration \<Rightarrow> bool \<Rightarrow> u8 \<Rightarrow> u8 \<Rightarrow> bool" where
  "passes c synced ft b \<longleftrightarrow> (sync_filter c \<longrightarrow> synced)
     \<and> ft \<in> {OPENSKY_FRAME_TYPE_MODE_S_SHORT, OPENSKY_FRAME_TYPE_MODE_S_LONG}
     \<and> (extSquitter c \<longrightarrow> downlink_format b \<in> {17, 18})"

lemma unat_downlink: "unat (drop_bit 3 (b :: u8) AND 0x1f) = downlink_format b"
proof -
  have "unat b < 256" using unsigned_less [where ?'a = nat, of b] by simp
  then have "unat b div 8 < 2 ^ 5" by simp
  moreover have "drop_bit 3 b AND 0x1f = take_bit 5 (drop_bit 3 b)"
    by (simp only: take_bit_eq_mask mask_eq_exp_minus_1) simp
  ultimately show ?thesis
    by (simp add: downlink_format_def unsigned_take_bit_eq unsigned_drop_bit_eq
        drop_bit_eq_div unat_div take_bit_nat_eq_self)
qed

lemma downlink_less: "downlink_format b < 32"
  using unsigned_less [where ?'a = nat, of b] by (simp add: downlink_format_def)

lemma bit_push_bit_one: "bit (push_bit n 1 :: u32) k \<longleftrightarrow> k = n \<and> k < 32"
  by (auto simp: bit_exp_iff)

lemma squitter_mask:
  assumes "n < 32"
  shows "(push_bit n 1 AND MODES_TYPE_EXTENDED_SQUITTER_ALL = 0) \<longleftrightarrow> n \<notin> {17, 18}"
proof -
  have "bit (push_bit n 1 AND MODES_TYPE_EXTENDED_SQUITTER_ALL) k \<longleftrightarrow> k = n \<and> n \<in> {17, 18}" for k
    unfolding MODES_TYPE_EXTENDED_SQUITTER_ALL_def MODES_TYPE_EXTENDED_SQUITTER_def
      MODES_TYPE_EXTENDED_SQUITTER_NON_TRANSPONDER_def bit_and_iff bit_or_iff bit_push_bit_one
    using assms by auto
  note bits = this
  show ?thesis
  proof
    assume "push_bit n 1 AND MODES_TYPE_EXTENDED_SQUITTER_ALL = 0"
    then show "n \<notin> {17, 18}" using bits [of n] by (metis bit_0_eq bot_apply bot_bool_def)
  next
    assume "n \<notin> {17, 18}"
    then show "push_bit n 1 AND MODES_TYPE_EXTENDED_SQUITTER_ALL = 0"
      using bits by (intro bit_word_eqI) simp
  qed
qed

lemma all_mask:
  assumes "n < 32"
  shows "push_bit n 1 AND MODES_TYPE_ALL \<noteq> 0"
proof -
  have "bit (push_bit n 1 AND MODES_TYPE_ALL) n"
    using assms by (simp add: MODES_TYPE_ALL_def bit_and_iff bit_exp_iff)
  then show ?thesis by auto
qed

lemma filter_frame_type_spec:
  assumes inv: "filter_inv s"
  shows "\<exists>s'. filter_frame_type ft b s
      = Ok (passes (FILTER_cfg s\<lparr>sync_filter := False\<rparr>) True ft b, s')
    \<and> filter_inv s' \<and> FILTER_cfg s' = FILTER_cfg s \<and> isSynchronized s' = isSynchronized s
    \<and> framesByType (filter_stats s') = framesByType (filter_stats s)
    \<and> filtered (filter_stats s') = filtered (filter_stats s)
        + (if passes (FILTER_cfg s\<lparr>sync_filter := False\<rparr>) True ft b then 0 else 1)"
proof (cases "ft \<noteq> OPENSKY_FRAME_TYPE_MODE_S_LONG \<and> ft \<noteq> OPENSKY_FRAME_TYPE_MODE_S_SHORT")
  case True
  then show ?thesis using inv by (simp add: filter_frame_type_def passes_def filter_inv_def)
next
  case False
  let ?n = "downlink_format b"
  have "push_bit ?n 1 AND modeSFilter s = 0 \<longleftrightarrow> extSquitter (FILTER_cfg s) \<and> ?n \<notin> {17, 18}"
    using squitter_mask [OF downlink_less] all_mask [OF downlink_less] inv
    by (simp add: filter_inv_def)
  then show ?thesis
    using False inv downlink_less [of b]
    by (auto simp: filter_frame_type_def passes_def filter_inv_def count_at_def unat_downlink Let_def)
qed

lemma beast_type_index:
  "beast_type ft \<Longrightarrow> unat (OPENSKY_FRAME_TYPE_TO_INDEX ft) < 4"
  by (auto simp: beast_type_def OPENSKY_FRAME_TYPE_TO_INDEX_def frame_type_defs)

lemma FILTER_filter_spec:
  assumes inv: "filter_inv s" and ft: "beast_type ft"
  shows "\<exists>s'. FILTER_filter ft b s = Ok (passes (FILTER_cfg s) (isSynchronized s) ft b, s')
    \<and> filter_inv s' \<and> FILTER_cfg s' = FILTER_cfg s \<and> isSynchronized s' = isSynchronized s
    \<and> framesByType (filter_stats s') = (framesByType (filter_stats s))
        [unat (OPENSKY_FRAME_TYPE_TO_INDEX ft) := framesByType (filter_stats s) ! unat (OPENSKY_FRAME_TYPE_TO_INDEX ft) + 1]
    \<and> filtered (filter_stats s') = filtered (filter_stats s)
        + (if passes (FILTER_cfg s) (isSynchronized s) ft b then 0 else 1)"
proof -
  let ?i = "unat (OPENSKY_FRAME_TYPE_TO_INDEX ft)"
  let ?fs = "(framesByType (filter_stats s))[?i := framesByType (filter_stats s) ! ?i + 1]"
  have i: "count_at ?i (framesByType (filter_stats s)) = Some ?fs"
    using inv beast_type_index [OF ft] by (simp add: count_at_def filter_inv_def)
  let ?s = "upd_fstats (\<lambda>t. t\<lparr>framesByType := ?fs\<rparr>) s"
  let ?u = "upd_fstats (\<lambda>t. t\<lparr>unsynchronized := unsynchronized t + 1\<rparr>) ?s"
  have s: "filter_inv ?s" and u: "filter_inv ?u" using inv by (simp_all add: filter_inv_def)
  have eq: "passes (FILTER_cfg s\<lparr>sync_filter := False\<rparr>) True ft b = passes (FILTER_cfg s) (isSynchronized s) ft b"
    if "isSynchronized s \<or> \<not> sync_filter (FILTER_cfg s)"
    using that by (auto simp: passes_def)
  show ?thesis
  proof (cases "isSynchronized s")
    case True
    then show ?thesis
      using filter_frame_type_spec [OF s, of ft b] eq i by (auto simp: FILTER_filter_def Let_def)
  next
    case F: False
    show ?thesis
    proof (cases "sync_filter (FILTER_cfg s)")
      case True
      then show ?thesis
        using F i u by (auto simp: FILTER_filter_def passes_def Let_def filter_inv_def)
    next
      case False
      then show ?thesis
        using filter_frame_type_spec [OF u, of ft b] eq i F by (auto simp: FILTER_filter_def Let_def)
    qed
  qed
qed

section \<open>Property\<close>

definition sample_filter :: frame_filter where
  "sample_filter = \<lparr>FILTER_cfg = \<lparr>crc = True, sync_filter = True, extSquitter = True\<rparr>,
     modeSFilter = MODES_TYPE_EXTENDED_SQUITTER_ALL, isSynchronized = True,
     filter_stats = filter_zero_stats, reconfigured = []\<rparr>"

lemma sample_filter_inv: "filter_inv sample_filter"
  by (simp add: filter_inv_def sample_filter_def filter_zero_stats_def)

text \<open>C36: for every frame the input can produce, the filter decides as specified from the
  configuration in force, the synchronization state and the downlink format, keeps its invariant,
  counts the frame by type, and counts it as filtered exactly when it rejects it.\<close>

theorem filter_decides_as_specified:
  assumes "filter_inv s" "beast_type ft"
  shows "\<exists>s'. FILTER_filter ft b s = Ok (passes (FILTER_cfg s) (isSynchronized s) ft b, s')
    \<and> filter_inv s' \<and> FILTER_cfg s' = FILTER_cfg s \<and> isSynchronized s' = isSynchronized s
    \<and> framesByType (filter_stats s') = (framesByType (filter_stats s))
        [unat (OPENSKY_FRAME_TYPE_TO_INDEX ft) := framesByType (filter_stats s) ! unat (OPENSKY_FRAME_TYPE_TO_INDEX ft) + 1]
    \<and> filtered (filter_stats s') = filtered (filter_stats s)
        + (if passes (FILTER_cfg s) (isSynchronized s) ft b then 0 else 1)"
  using assms by (rule FILTER_filter_spec)

theorem filter_decides_as_specified_witness:
  "\<exists>s'. FILTER_filter OPENSKY_FRAME_TYPE_MODE_S_LONG 0x8d sample_filter = Ok (True, s')"
proof -
  have "passes (FILTER_cfg sample_filter) (isSynchronized sample_filter) OPENSKY_FRAME_TYPE_MODE_S_LONG 0x8d"
    by (simp add: passes_def sample_filter_def downlink_format_def)
  then show ?thesis
    using filter_decides_as_specified [OF sample_filter_inv, where ft = OPENSKY_FRAME_TYPE_MODE_S_LONG and b = "0x8d"]
    by (auto simp: beast_type_def)
qed

end
