(* ===== verification/Core_Tb.thy ===== *)
theory Core_Tb
  imports Core_Filter Util_Endec
begin

text \<open>
  The talkback channel (\<open>core/tb.c\<close>): packets from the OpenSky Network are cut out of the
  received bytes and handed to the processor registered for their type. The receive buffer is
  the list of its valid bytes (at most 128). The network is the stream of bytes still to come;
  each \<open>NET_receive\<close> takes at most what it is asked for and at most as much as the network has
  ready, and 0 bytes end the connection. Processors are names; what the channel does is the
  sequence of processor calls with their payloads.
\<close>

section \<open>Packet processors\<close>

datatype tb_fn = Fn_configure_filter | Fn_registered nat

text \<open>\<open>struct PacketProcessor\<close>: the callback, \<open>None\<close> for NULL, and the payload length.\<close>

type_synonym processor = "tb_fn option \<times> size_t"

definition TB_PACKET_TYPE_FILTER :: nat where "TB_PACKET_TYPE_FILTER = 4"
definition TB_PACKET_TYPE_N :: nat where "TB_PACKET_TYPE_N = 6"

text \<open>The static initialiser of \<open>processors\<close>.\<close>

definition initial_processors :: "processor list" where
  "initial_processors = (replicate TB_PACKET_TYPE_N (None, 0))
     [TB_PACKET_TYPE_FILTER := (Some Fn_configure_filter, 2)]"

definition TB_register :: "u32 \<Rightarrow> size_t \<Rightarrow> tb_fn \<Rightarrow> processor list \<Rightarrow> fault + processor list" where
  "TB_register type plen fn ps =
    (if unat type < TB_PACKET_TYPE_N
     then if fst (ps ! unat type) \<noteq> None then Fault Assert_failed
          else Ok (ps[unat type := (Some fn, plen)])
     else Ok ps)"

definition TB_unregister :: "u32 \<Rightarrow> processor list \<Rightarrow> fault + processor list" where
  "TB_unregister type ps =
    (if unat type < TB_PACKET_TYPE_N
     then if fst (ps ! unat type) = None then Fault Assert_failed
          else Ok (ps[unat type := (None, snd (ps ! unat type))])
     else Ok ps)"

section \<open>Packets\<close>

text \<open>\<open>struct TB_Packet\<close>; the payload pointer is the rest of the buffer.\<close>

record tb_packet =
  pkt_type :: u64
  pkt_len :: u64
  pkt_payload :: "u8 list"

definition processPacket :: "processor list \<Rightarrow> tb_packet \<Rightarrow> (tb_fn \<times> u8 list) list" where
  "processPacket ps p =
    (if unat (pkt_type p) \<ge> length ps \<or> fst (ps ! unat (pkt_type p)) = None then []
     else let plen = pkt_len p - 4; proc = ps ! unat (pkt_type p)
          in if plen \<noteq> snd proc then []
             else [(the (fst proc), take (unat plen) (pkt_payload p))])"

text \<open>\<open>be16toh(buf16[i])\<close>\<close>

definition header_u16 :: "byte_order \<Rightarrow> nat \<Rightarrow> u8 list \<Rightarrow> u64" where
  "header_u16 bo i buf = ucast (betoh bo 2 (the (load_host bo 2 (drop (2 * i) buf))) :: u16)"

text \<open>The loop over the complete packets in the buffer.\<close>

function tb_consume :: "byte_order \<Rightarrow> processor list \<Rightarrow> u8 list \<Rightarrow> (tb_fn \<times> u8 list) list \<times> u8 list" where
  "tb_consume bo ps buf =
    (if length buf \<ge> 4
     then let type = header_u16 bo 0 buf; len = header_u16 bo 1 buf
          in if len > 128 \<or> len < 4 then ([], [])
             else if length buf \<ge> unat len
             then let call = processPacket ps \<lparr>pkt_type = type, pkt_len = len, pkt_payload = drop 4 buf\<rparr>;
                      (calls, buf) = tb_consume bo ps (drop (unat len) buf)
                  in (call @ calls, buf)
             else ([], buf)
     else ([], buf))"
  by pat_completeness auto
termination
  by (relation "measure (\<lambda>(bo, ps, buf). length buf)") (auto simp: not_less word_le_nat_alt)

declare tb_consume.simps [simp del]

text \<open>One connection: \<open>sizes\<close> says how many bytes the network has ready at each receive call.\<close>

fun tb_session :: "byte_order \<Rightarrow> processor list \<Rightarrow> u8 list \<Rightarrow> nat list \<Rightarrow> u8 list \<Rightarrow> (tb_fn \<times> u8 list) list" where
  "tb_session bo ps buf [] stream = fst (tb_consume bo ps buf)"
| "tb_session bo ps buf (k # ks) stream =
    (let (calls, buf) = tb_consume bo ps buf;
         len = min k (128 - length buf)
     in if len = 0 \<or> stream = [] then calls
        else calls @ tb_session bo ps (buf @ take len stream) ks (drop len stream))"

definition tb_connection :: "byte_order \<Rightarrow> processor list \<Rightarrow> nat list \<Rightarrow> u8 list \<Rightarrow> (tb_fn \<times> u8 list) list" where
  "tb_connection bo ps ks stream = tb_session bo ps [] ks stream"

section \<open>The filter processor\<close>

definition FILT_SYNC_ONLY :: u8 where "FILT_SYNC_ONLY = push_bit 0 1"
definition FILT_EXT_SQUITTER_ONLY :: u8 where "FILT_EXT_SQUITTER_ONLY = push_bit 1 1"
definition FILT_RESET_SYNC :: u8 where "FILT_RESET_SYNC = push_bit 7 1"

definition packetConfigureFilter :: "u8 list \<Rightarrow> frame_filter \<Rightarrow> fault + frame_filter" where
  "packetConfigureFilter pl s =
    (if length pl < 2 then Fault Out_of_bounds
     else let mask = pl ! 0; cfg = pl ! 1;
              s = (if mask AND FILT_SYNC_ONLY \<noteq> 0
                   then FILTER_setSynchronizedFilter (cfg AND FILT_SYNC_ONLY \<noteq> 0) s else s);
              s = (if mask AND FILT_EXT_SQUITTER_ONLY \<noteq> 0
                   then FILTER_setModeSExtSquitter (cfg AND FILT_EXT_SQUITTER_ONLY \<noteq> 0) s else s);
              s = (if mask AND FILT_RESET_SYNC \<noteq> 0 then FILTER_reset s else s)
          in Ok s)"

definition run_call :: "tb_fn \<times> u8 list \<Rightarrow> frame_filter \<Rightarrow> fault + frame_filter" where
  "run_call c s = (case fst c of Fn_configure_filter \<Rightarrow> packetConfigureFilter (snd c) s
     | Fn_registered _ \<Rightarrow> Ok s)"

section \<open>Specification: a stream of packets\<close>

type_synonym packet = "u16 \<times> u8 list"

definition good_packet :: "packet \<Rightarrow> bool" where
  "good_packet p \<longleftrightarrow> length (snd p) + 4 \<le> 128"

definition packet_bytes :: "packet \<Rightarrow> u8 list" where
  "packet_bytes p = be_bytes 2 (fst p) @ be_bytes 2 (of_nat (length (snd p) + 4) :: u16) @ snd p"

definition dispatch :: "processor list \<Rightarrow> packet \<Rightarrow> (tb_fn \<times> u8 list) list" where
  "dispatch ps p =
    (if unat (fst p) < length ps \<and> fst (ps ! unat (fst p)) \<noteq> None
        \<and> snd (ps ! unat (fst p)) = of_nat (length (snd p))
     then [(the (fst (ps ! unat (fst p))), snd p)] else [])"

abbreviation packets_bytes :: "packet list \<Rightarrow> u8 list" where
  "packets_bytes ps \<equiv> concat (map packet_bytes ps)"

lemma header_u16_be:
  "2 * i + 2 \<le> length buf \<Longrightarrow> header_u16 bo i buf = ucast (be_word (take 2 (drop (2 * i) buf)) :: u16)"
proof -
  assume "2 * i + 2 \<le> length buf"
  then have "\<not> length (drop (2 * i) buf) < 2" by simp
  then have "map_option (betoh bo 2) (load_host bo 2 (drop (2 * i) buf))
      = Some (be_word (take 2 (drop (2 * i) buf)) :: u16)"
    using ENDEC_tou16_be [of bo "drop (2 * i) buf"] unfolding ENDEC_tou16_def by argo
  then show ?thesis by (auto simp: header_u16_def)
qed

lemma unat_ucast_u16 [simp]: "unat (ucast (x :: u16) :: u64) = unat x"
proof -
  have "unat x < 2 ^ 16" using unsigned_less [where ?'a = nat, of x] by simp
  moreover have "unat (ucast x :: u64) = take_bit 64 (unat x)" by (simp add: unsigned_ucast_eq)
  ultimately show ?thesis by (simp add: take_bit_nat_eq_self)
qed

lemma length_packet_bytes [simp]: "length (packet_bytes p) = length (snd p) + 4"
  by (simp add: packet_bytes_def)

lemma header_packet:
  assumes "take 4 buf = take 4 (packet_bytes p)" "4 \<le> length buf" "good_packet p"
  shows "header_u16 bo 0 buf = ucast (fst p)" "header_u16 bo 1 buf = of_nat (length (snd p) + 4)"
proof -
  have "take 2 buf = be_bytes 2 (fst p)"
    using arg_cong [OF assms(1), of "take 2"] by (simp add: packet_bytes_def min_def)
  then show "header_u16 bo 0 buf = ucast (fst p)"
    using assms(2) by (simp add: header_u16_be be_word_be_bytes)
  have "take 2 (drop 2 buf) = be_bytes 2 (of_nat (length (snd p) + 4) :: u16)"
    using arg_cong [OF assms(1), of "drop 2"] by (simp add: packet_bytes_def drop_take)
  then have "header_u16 bo 1 buf = ucast (of_nat (length (snd p) + 4) :: u16)"
    using assms(2) by (simp add: header_u16_be be_word_be_bytes)
  moreover have "unat (of_nat (length (snd p) + 4) :: u16) = length (snd p) + 4"
    using assms(3) by (intro unat_of_nat_small) (simp add: good_packet_def)
  moreover have "unat (of_nat (length (snd p) + 4) :: u64) = length (snd p) + 4"
    using assms(3) by (intro unat_of_nat_small) (simp add: good_packet_def)
  ultimately show "header_u16 bo 1 buf = of_nat (length (snd p) + 4)"
    by (metis unat_ucast_u16 word_unat_eq_iff)
qed

lemma processPacket_dispatch:
  assumes "good_packet p"
  shows "processPacket ps \<lparr>pkt_type = ucast (fst p), pkt_len = of_nat (length (snd p) + 4),
           pkt_payload = snd p @ rest\<rparr> = dispatch ps p"
proof -
  have 1: "of_nat (length (snd p) + 4) - 4 = (of_nat (length (snd p)) :: u64)" by simp
  have 2: "unat (of_nat (length (snd p)) :: u64) = length (snd p)"
    using assms by (intro unat_of_nat_small) (simp add: good_packet_def)
  show ?thesis
    unfolding processPacket_def dispatch_def tb_packet.simps Let_def 1
    using 2 by (auto simp: not_le dest!: sym [of "of_nat _"])
qed

text \<open>Consuming a buffer that starts a stream of packets: the complete ones are dispatched.\<close>

lemma tb_consume_packet:
  assumes "good_packet p"
  shows "tb_consume bo ps (packet_bytes p @ rest)
    = (dispatch ps p @ fst (tb_consume bo ps rest), snd (tb_consume bo ps rest))"
proof -
  let ?buf = "packet_bytes p @ rest"
  have len: "4 \<le> length ?buf" by simp
  have h: "header_u16 bo 0 ?buf = ucast (fst p)" "header_u16 bo 1 ?buf = of_nat (length (snd p) + 4)"
    by (rule header_packet [OF _ len assms], simp)+
  have n: "unat (of_nat (length (snd p) + 4) :: u64) = length (snd p) + 4"
    using assms by (intro unat_of_nat_small) (simp add: good_packet_def)
  have bounds: "\<not> (of_nat (length (snd p) + 4) > (128 :: u64) \<or> of_nat (length (snd p) + 4) < (4 :: u64))"
    using assms n by (simp add: word_less_nat_alt good_packet_def del: of_nat_add)
  have pl: "drop 4 ?buf = snd p @ rest" by (simp add: packet_bytes_def)
  have rest: "drop (length (snd p) + 4) ?buf = rest" by simp
  show ?thesis
    by (subst tb_consume.simps)
      (use len h n bounds rest processPacket_dispatch [OF assms] in
        \<open>simp add: Let_def pl split_beta del: of_nat_add drop_append\<close>)
qed

lemma tb_consume_partial:
  assumes "good_packet p" "buf @ rest = packet_bytes p @ later" "length buf < length (packet_bytes p)"
  shows "tb_consume bo ps buf = ([], buf)"
proof (cases "length buf \<ge> 4")
  case False
  then show ?thesis by (subst tb_consume.simps) simp
next
  case True
  have buf: "buf = take (length buf) (packet_bytes p)"
    using assms(2,3) by (metis append_eq_append_conv_if less_imp_le_nat)
  then have "take 4 buf = take 4 (packet_bytes p)"
    using True by (metis min_def take_take)
  note h = header_packet [OF this True assms(1)]
  have n: "unat (of_nat (length (snd p) + 4) :: u64) = length (snd p) + 4"
    using assms(1) by (intro unat_of_nat_small) (simp add: good_packet_def)
  have "\<not> (of_nat (length (snd p) + 4) > (128 :: u64) \<or> of_nat (length (snd p) + 4) < (4 :: u64))"
    using assms(1) n by (simp add: word_less_nat_alt good_packet_def del: of_nat_add)
  then show ?thesis
    by (subst tb_consume.simps) (use True h n assms(3) in \<open>simp add: Let_def del: of_nat_add\<close>)
qed

lemma tb_consume_stream:
  assumes "\<forall>p\<in>set pkts. good_packet p" "buf @ rest = packets_bytes pkts"
  shows "\<exists>pkts1 pkts2 buf'. pkts = pkts1 @ pkts2
    \<and> tb_consume bo ps buf = (concat (map (dispatch ps) pkts1), buf')
    \<and> buf' @ rest = packets_bytes pkts2 \<and> (rest = [] \<longrightarrow> pkts2 = []) \<and> length buf' < 128"
  using assms
proof (induction pkts arbitrary: buf)
  case Nil
  then show ?case by (subst tb_consume.simps) simp
next
  case (Cons p pkts)
  have good: "good_packet p" using Cons.prems by simp
  show ?case
  proof (cases "length buf < length (packet_bytes p)")
    case True
    have "tb_consume bo ps buf = ([], buf)"
      by (rule tb_consume_partial [OF good _ True]) (use Cons.prems in simp)
    moreover have "rest \<noteq> []" using True Cons.prems(2) by (auto dest: arg_cong [of _ _ length])
    moreover have "length buf < 128" using True good by (simp add: good_packet_def)
    ultimately show ?thesis
      using Cons.prems(2)
      by (intro exI [of _ "[]"] exI [of _ "p # pkts"] exI [of _ buf]) simp
  next
    case False
    let ?n = "length (packet_bytes p)"
    define b where "b = drop ?n buf"
    have "take ?n buf = packet_bytes p"
      using arg_cong [OF Cons.prems(2), of "take ?n"] False by simp
    then have b: "buf = packet_bytes p @ b" unfolding b_def by (metis append_take_drop_id)
    then have "b @ rest = packets_bytes pkts" using Cons.prems(2) by simp
    then obtain pkts1 pkts2 buf' where *: "pkts = pkts1 @ pkts2"
      "tb_consume bo ps b = (concat (map (dispatch ps) pkts1), buf')"
      "buf' @ rest = packets_bytes pkts2" "rest = [] \<longrightarrow> pkts2 = []" "length buf' < 128"
      using Cons.IH [of b] Cons.prems(1) by auto
    then show ?thesis
      using tb_consume_packet [OF good] b by (intro exI [of _ "p # pkts1"] exI [of _ pkts2]) simp
  qed
qed

lemma tb_session_stream:
  assumes "\<forall>p\<in>set pkts. good_packet p" "buf @ stream = packets_bytes pkts"
    and "\<forall>k\<in>set ks. 0 < k" "length stream \<le> length ks"
  shows "tb_session bo ps buf ks stream = concat (map (dispatch ps) pkts)"
  using assms
proof (induction ks arbitrary: buf stream pkts)
  case Nil
  then show ?case using tb_consume_stream [of pkts buf "[]" bo ps] by auto
next
  case (Cons k ks)
  obtain pkts1 pkts2 buf' where *: "pkts = pkts1 @ pkts2"
    "tb_consume bo ps buf = (concat (map (dispatch ps) pkts1), buf')"
    "buf' @ stream = packets_bytes pkts2" "stream = [] \<longrightarrow> pkts2 = []" "length buf' < 128"
    using tb_consume_stream [OF Cons.prems(1,2)] by blast
  let ?n = "min k (128 - length buf')"
  have n: "0 < ?n" using *(5) Cons.prems(3) by simp
  show ?case
  proof (cases "stream = []")
    case True
    then show ?thesis using * by simp
  next
    case False
    have "tb_session bo ps (buf' @ take ?n stream) ks (drop ?n stream) = concat (map (dispatch ps) pkts2)"
      using Cons.prems n * False
      by (intro Cons.IH) (auto simp: Suc_le_eq diff_le_mono2)
    moreover obtain j where "?n = Suc j" using n by (cases ?n) auto
    ultimately show ?thesis using * False by (simp add: Let_def)
  qed
qed

section \<open>Registration\<close>

lemma initial_processors_list:
  "initial_processors = [(None, 0), (None, 0), (None, 0), (None, 0), (Some Fn_configure_filter, 2), (None, 0)]"
  by (simp add: initial_processors_def TB_PACKET_TYPE_N_def TB_PACKET_TYPE_FILTER_def eval_nat_numeral)

lemma length_initial_processors: "length initial_processors = TB_PACKET_TYPE_N"
  by (simp add: initial_processors_def)

lemma TB_register_unregister:
  assumes "length ps = TB_PACKET_TYPE_N" "TB_register t n fn ps = Ok qs" "unat t < TB_PACKET_TYPE_N"
  shows "\<exists>rs. TB_unregister t qs = Ok rs \<and> map fst rs = map fst ps"
proof -
  have qs: "qs = ps[unat t := (Some fn, n)]" "fst (ps ! unat t) = None"
    using assms by (auto simp: TB_register_def split: if_splits)
  moreover have "(map fst ps)[unat t := None] = map fst ps"
    using qs(2) assms(1,3) by (metis list_update_id nth_map)
  ultimately show ?thesis using assms(1,3) by (simp add: TB_unregister_def map_update)
qed

lemma TB_register_other:
  "TB_register t n fn ps = Ok qs \<Longrightarrow> i \<noteq> unat t \<Longrightarrow> qs ! i = ps ! i"
  by (auto simp: TB_register_def split: if_splits)

section \<open>Properties\<close>

text \<open>C30: however the network cuts the stream of well-formed packets into receive calls, the
  registered processor of each packet whose payload has the expected length is called once, in
  order, with exactly that payload, and no other processor is called.\<close>

theorem tb_dispatches_every_packet:
  assumes "\<forall>p\<in>set pkts. good_packet p"
    and "\<forall>k\<in>set ks. 0 < k" "length (packets_bytes pkts) \<le> length ks"
  shows "tb_connection bo ps ks (packets_bytes pkts) = concat (map (dispatch ps) pkts)"
  unfolding tb_connection_def using assms by (intro tb_session_stream) simp_all

theorem tb_dispatches_every_packet_witness:
  "tb_connection Little_endian initial_processors (replicate 13 1)
     (packets_bytes [(4, [3, 1]), (9, [1, 2, 3])]) = [(Fn_configure_filter, [3, 1])]"
  using tb_dispatches_every_packet [of "[(4, [3, 1]), (9, [1, 2, 3])]" "replicate 13 1" Little_endian initial_processors]
  by (simp add: good_packet_def dispatch_def initial_processors_list)

text \<open>A filter packet sets exactly the settings its mask selects, to the values of its second
  byte, resets the synchronization state when asked to, and keeps the filter's invariant.\<close>

theorem tb_filter_packet_configures:
  assumes "filter_inv s"
  shows "\<exists>s'. run_call (Fn_configure_filter, [m, c]) s = Ok s' \<and> filter_inv s'
    \<and> sync_filter (FILTER_cfg s') = (if bit m 0 then bit c 0 else sync_filter (FILTER_cfg s))
    \<and> extSquitter (FILTER_cfg s') = (if bit m 1 then bit c 1 else extSquitter (FILTER_cfg s))
    \<and> isSynchronized s' = (if bit m 7 then False else isSynchronized s)
    \<and> crc (FILTER_cfg s') = crc (FILTER_cfg s) \<and> filter_stats s' = filter_stats s"
proof -
  have nz: "x AND push_bit n 1 \<noteq> 0 \<longleftrightarrow> bit x n" for x :: u8 and n
    by (metis and_exp_eq_0_iff_not_bit push_bit_of_1)
  show ?thesis
    unfolding run_call_def packetConfigureFilter_def FILT_SYNC_ONLY_def FILT_EXT_SQUITTER_ONLY_def
      FILT_RESET_SYNC_def Let_def nz
    using assms
    by (simp add: FILTER_setSynchronizedFilter_def FILTER_setModeSExtSquitter_def
        FILTER_reset_def filter_inv_def Let_def)
qed

theorem tb_filter_packet_configures_witness:
  "\<exists>s'. run_call (Fn_configure_filter, [2, 0]) sample_filter = Ok s' \<and> filter_inv s'
    \<and> \<not> extSquitter (FILTER_cfg s')"
  using tb_filter_packet_configures [OF sample_filter_inv, of 2 0] by auto

end
