(* ===== verification/Core_Gps.thy ===== *)
theory Core_Gps
  imports Core_Types Util_Endec
begin

text \<open>
  The GPS position (\<open>core/gps.c\<close>): the last position, whether there is one, whether it has a
  fix, and whether the network still waits for it. \<open>NET_send\<close> is a parameter of the functions
  that send: it takes the message and the state of whatever is behind it, and tells whether
  sending succeeded. Doubles are their bit patterns. The functions run under \<open>posMutex\<close>.
\<close>

section \<open>Messages\<close>

text \<open>A message buffer of \<open>cap\<close> bytes, initialised with SYNC and the frame type, into which
  escaped data is appended: writing behind its end is \<open>Out_of_bounds\<close>.\<close>

definition start_message :: "u8 \<Rightarrow> u8 list" where
  "start_message type = [OPENSKY_SYNC, type]"

definition append_encoded :: "nat \<Rightarrow> u8 list \<Rightarrow> u8 list \<Rightarrow> fault + u8 list" where
  "append_encoded cap msg data =
    (let out = msg @ BEAST_encode data in if length out > cap then Fault Out_of_bounds else Ok out)"

lemma append_encoded_ok:
  "length msg + 2 * length data \<le> cap \<Longrightarrow> append_encoded cap msg data = Ok (msg @ escape data)"
  using length_BEAST_encode_le [of data]
  by (simp add: append_encoded_def BEAST_encode_eq_escape Let_def)

type_synonym 'n net_send = "u8 list \<Rightarrow> 'n \<Rightarrow> bool \<times> 'n"

text \<open>A network that answers from a script and records what was sent, for concrete runs.\<close>

record net_log =
  answers :: "bool list"
  sent :: "u8 list list"

definition log_send :: "net_log net_send" where
  "log_send msg n = (case answers n of [] \<Rightarrow> (False, n\<lparr>sent := sent n @ [msg]\<rparr>)
     | a # as \<Rightarrow> (a, \<lparr>answers = as, sent = sent n @ [msg]\<rparr>))"

section \<open>State\<close>

record GPS_Position =
  latitude :: ieee_double
  longitute :: ieee_double
  altitude :: ieee_double

record gps =
  position :: GPS_Position
  hasPosition :: bool
  hasFix :: bool
  needPosition :: bool

section \<open>Operations\<close>

definition GPS_reset :: "gps \<Rightarrow> gps" where
  "GPS_reset g = g\<lparr>needPosition := False, hasPosition := False, hasFix := False\<rparr>"

definition GPS_resetNeedFlag :: "gps \<Rightarrow> gps" where
  "GPS_resetNeedFlag g = g\<lparr>needPosition := False\<rparr>"

text \<open>The array \<open>rawPos\<close>: three encoded doubles, each written into its own eight bytes.\<close>

definition rawPos :: "byte_order \<Rightarrow> GPS_Position \<Rightarrow> u8 list" where
  "rawPos bo p =
    the (ENDEC_fromdouble bo (latitude p) (replicate 8 0))
    @ the (ENDEC_fromdouble bo (longitute p) (replicate 8 0))
    @ the (ENDEC_fromdouble bo (altitude p) (replicate 8 0))"

definition sendPosition :: "byte_order \<Rightarrow> 'n net_send \<Rightarrow> GPS_Position \<Rightarrow> 'n \<Rightarrow> fault + (bool \<times> 'n)" where
  "sendPosition bo send p n =
    bind_ok (append_encoded (2 + 3 * 8 * 2) (start_message OPENSKY_FRAME_TYPE_GPS_POSITION) (rawPos bo p))
      (\<lambda>msg. Ok (send msg n))"

definition sendPositionIfAvail :: "byte_order \<Rightarrow> 'n net_send \<Rightarrow> gps \<Rightarrow> 'n \<Rightarrow> fault + (gps \<times> 'n)" where
  "sendPositionIfAvail bo send g n =
    (if needPosition g then
       if \<not> hasPosition g then Ok (g, n)
       else if \<not> hasFix g then Ok (g, n)
       else bind_ok (sendPosition bo send (position g) n) (\<lambda>(ok, n). Ok (g\<lparr>needPosition := \<not> ok\<rparr>, n))
     else Ok (g, n))"

definition GPS_setPositionWithFix ::
    "byte_order \<Rightarrow> 'n net_send \<Rightarrow> ieee_double \<Rightarrow> ieee_double \<Rightarrow> ieee_double \<Rightarrow> gps \<Rightarrow> 'n \<Rightarrow> fault + (gps \<times> 'n)" where
  "GPS_setPositionWithFix bo send lat lon alt g n =
    sendPositionIfAvail bo send
      (g\<lparr>position := \<lparr>latitude = lat, longitute = lon, altitude = alt\<rparr>, hasPosition := True, hasFix := True\<rparr>) n"

definition GPS_setPosition ::
    "byte_order \<Rightarrow> 'n net_send \<Rightarrow> ieee_double \<Rightarrow> ieee_double \<Rightarrow> ieee_double \<Rightarrow> gps \<Rightarrow> 'n \<Rightarrow> fault + (gps \<times> 'n)" where
  "GPS_setPosition bo send lat lon alt g n =
    sendPositionIfAvail bo send
      (g\<lparr>position := \<lparr>latitude = lat, longitute = lon, altitude = alt\<rparr>, hasPosition := True\<rparr>) n"

definition GPS_setHasFix :: "byte_order \<Rightarrow> 'n net_send \<Rightarrow> bool \<Rightarrow> gps \<Rightarrow> 'n \<Rightarrow> fault + (gps \<times> 'n)" where
  "GPS_setHasFix bo send fix' g n = sendPositionIfAvail bo send (g\<lparr>hasFix := fix'\<rparr>) n"

definition GPS_sendPosition :: "byte_order \<Rightarrow> 'n net_send \<Rightarrow> gps \<Rightarrow> 'n \<Rightarrow> fault + (bool \<times> gps \<times> 'n)" where
  "GPS_sendPosition bo send g n =
    (if \<not> hasPosition g then Ok (True, g\<lparr>needPosition := True\<rparr>, n)
     else if \<not> hasFix g then Ok (True, g\<lparr>needPosition := True\<rparr>, n)
     else bind_ok (sendPosition bo send (position g) n) (\<lambda>(ok, n). Ok (ok, g, n)))"

section \<open>The position message\<close>

definition gps_message :: "GPS_Position \<Rightarrow> u8 list" where
  "gps_message p = [OPENSKY_SYNC, OPENSKY_FRAME_TYPE_GPS_POSITION]
     @ escape (be_bytes 8 (double_bits (latitude p)) @ be_bytes 8 (double_bits (longitute p))
         @ be_bytes 8 (double_bits (altitude p)))"

lemma rawPos_be:
  "rawPos bo p = be_bytes 8 (double_bits (latitude p)) @ be_bytes 8 (double_bits (longitute p))
     @ be_bytes 8 (double_bits (altitude p))"
  by (simp add: rawPos_def double_codec.enc_image)

lemma sendPosition_message: "sendPosition bo send p n = Ok (send (gps_message p) n)"
  by (simp add: sendPosition_def append_encoded_ok start_message_def rawPos_be gps_message_def)

lemmas gps_op_defs = GPS_setPositionWithFix_def GPS_setPosition_def GPS_setHasFix_def
  sendPositionIfAvail_def GPS_sendPosition_def

text \<open>What a receiver of the message reads: drop the two bytes of header, unescape, decode.\<close>

definition read_position :: "byte_order \<Rightarrow> u8 list \<Rightarrow> GPS_Position option" where
  "read_position bo msg =
    (case unescape (drop 2 msg) of
       Some b \<Rightarrow> (case (ENDEC_todouble bo b, ENDEC_todouble bo (drop 8 b), ENDEC_todouble bo (drop 16 b)) of
           (Some x, Some y, Some z) \<Rightarrow> Some \<lparr>latitude = x, longitute = y, altitude = z\<rparr>
         | _ \<Rightarrow> None)
     | None \<Rightarrow> None)"

lemma read_gps_message: "read_position bo (gps_message p) = Some p"
  using double_codec.dec_image [of bo "altitude p" "[]"]
  by (simp add: read_position_def gps_message_def unescape_escape double_codec.dec_image
      del: escape_simps)

section \<open>Properties\<close>

definition sample_gps :: gps where
  "sample_gps = \<lparr>position = \<lparr>latitude = Double_bits 0x4048000000000000, longitute = Double_bits 0x1a1a1a1a,
     altitude = Double_bits 0\<rparr>, hasPosition = False, hasFix = True, needPosition = True\<rparr>"

text \<open>The position message fits its buffer whatever the position, and a receiver of either
  byte order that unescapes and decodes it reads back the position, bit by bit.\<close>

theorem gps_message_roundtrip:
  "sendPosition bo send p n = Ok (send (gps_message p) n)
   \<and> length (gps_message p) \<le> 50 \<and> read_position bo' (gps_message p) = Some p"
proof -
  have "length (escape (be_bytes 8 (double_bits (latitude p)) @ be_bytes 8 (double_bits (longitute p))
      @ be_bytes 8 (double_bits (altitude p)))) \<le> 2 * (8 + 8 + 8)"
    using length_BEAST_encode_le [of "be_bytes 8 (double_bits (latitude p)) @ be_bytes 8 (double_bits (longitute p))
      @ be_bytes 8 (double_bits (altitude p))"] by (simp add: BEAST_encode_eq_escape)
  then have "length (gps_message p) \<le> 50" by (simp add: gps_message_def del: escape_simps)
  then show ?thesis by (simp add: sendPosition_message read_gps_message)
qed

section \<open>Retries\<close>

datatype gps_op = Set_with_fix GPS_Position | Set_position GPS_Position | Set_fix bool

fun gps_exec :: "byte_order \<Rightarrow> 'n net_send \<Rightarrow> gps_op \<Rightarrow> gps \<Rightarrow> 'n \<Rightarrow> fault + (gps \<times> 'n)" where
  "gps_exec bo send (Set_with_fix p) g n
     = GPS_setPositionWithFix bo send (latitude p) (longitute p) (altitude p) g n"
| "gps_exec bo send (Set_position p) g n
     = GPS_setPosition bo send (latitude p) (longitute p) (altitude p) g n"
| "gps_exec bo send (Set_fix b) g n = GPS_setHasFix bo send b g n"

fun gps_run :: "byte_order \<Rightarrow> 'n net_send \<Rightarrow> gps_op list \<Rightarrow> gps \<Rightarrow> 'n \<Rightarrow> fault + (gps \<times> 'n)" where
  "gps_run bo send [] g n = Ok (g, n)"
| "gps_run bo send (p # ps) g n = bind_ok (gps_exec bo send p g n) (\<lambda>(g, n). gps_run bo send ps g n)"

text \<open>The effect of an update on position and fix alone, and the complete positions a sequence of
  updates goes through.\<close>

fun gps_apply :: "gps_op \<Rightarrow> gps \<Rightarrow> gps" where
  "gps_apply (Set_with_fix p) g = g\<lparr>position := p, hasPosition := True, hasFix := True\<rparr>"
| "gps_apply (Set_position p) g = g\<lparr>position := p, hasPosition := True\<rparr>"
| "gps_apply (Set_fix b) g = g\<lparr>hasFix := b\<rparr>"

fun complete_positions :: "gps_op list \<Rightarrow> gps \<Rightarrow> GPS_Position list" where
  "complete_positions [] g = []"
| "complete_positions (p # ps) g =
    (let g = gps_apply p g
     in (if hasPosition g \<and> hasFix g then [position g] else []) @ complete_positions ps g)"

lemma GPS_Position_eta [simp]:
  "\<lparr>latitude = latitude p, longitute = longitute p, altitude = altitude p\<rparr> = p"
  by simp

lemma gps_exec_eq:
  "gps_exec bo send p g n =
    (if needPosition g \<and> hasPosition (gps_apply p g) \<and> hasFix (gps_apply p g)
     then (let (ok, n') = send (gps_message (position (gps_apply p g))) n
           in Ok (gps_apply p g\<lparr>needPosition := \<not> ok\<rparr>, n'))
     else Ok (gps_apply p g, n))"
  by (cases p) (auto simp: gps_op_defs sendPosition_message Let_def split: prod.splits)

lemma complete_positions_need [simp]:
  "complete_positions ps (g\<lparr>needPosition := b\<rparr>) = complete_positions ps g"
proof (induction ps arbitrary: g)
  case (Cons p ps)
  have "gps_apply p (g\<lparr>needPosition := b\<rparr>) = gps_apply p g\<lparr>needPosition := b\<rparr>" by (cases p) simp_all
  then show ?case using Cons.IH by (simp add: Let_def)
qed simp

lemma gps_apply_need [simp]: "needPosition (gps_apply p g) = needPosition g"
  by (cases p) simp_all

lemma gps_run_idle:
  "\<not> needPosition g \<Longrightarrow> \<exists>g'. gps_run bo send ps g n = Ok (g', n) \<and> \<not> needPosition g'"
  by (induction ps arbitrary: g) (simp_all add: gps_exec_eq)

lemma gps_run_log:
  assumes "needPosition g" "length (complete_positions ps g) \<le> length as"
  shows "\<exists>g' as'. gps_run bo log_send ps g \<lparr>answers = as, sent = ms\<rparr>
    = Ok (g', \<lparr>answers = as', sent = ms @ map gps_message
        (take (Suc (length (takeWhile Not as))) (complete_positions ps g))\<rparr>)"
  using assms
proof (induction ps arbitrary: g as ms)
  case (Cons p ps)
  let ?g = "gps_apply p g"
  show ?case
  proof (cases "hasPosition ?g \<and> hasFix ?g")
    case False
    then show ?thesis using Cons.IH [of ?g as ms] Cons.prems by (auto simp: gps_exec_eq Let_def)
  next
    case True
    then obtain b bs where as: "as = b # bs" using Cons.prems by (cases as) (auto simp: Let_def)
    let ?h = "?g\<lparr>needPosition := \<not> b\<rparr>" and ?ms = "ms @ [gps_message (position ?g)]"
    have step: "gps_run bo log_send (p # ps) g \<lparr>answers = as, sent = ms\<rparr>
      = gps_run bo log_send ps ?h \<lparr>answers = bs, sent = ?ms\<rparr>"
      using True Cons.prems(1) as by (simp add: gps_exec_eq log_send_def)
    show ?thesis
    proof (cases b)
      case True
      then show ?thesis
        using gps_run_idle [of ?h bo log_send ps "\<lparr>answers = bs, sent = ?ms\<rparr>"] step as
          \<open>hasPosition ?g \<and> hasFix ?g\<close> by (auto simp: Let_def)
    next
      case False
      then show ?thesis
        using Cons.IH [of ?h bs ?ms] step as Cons.prems \<open>hasPosition ?g \<and> hasFix ?g\<close>
        by (auto simp: Let_def)
    qed
  qed
qed simp

text \<open>Once the network waits for a position, every complete position the updates go through
  is sent, in order, until one sending succeeds, and none after that.\<close>

theorem gps_retries_until_sent:
  assumes "needPosition g" "length (complete_positions ps g) \<le> length as"
  shows "\<exists>g' as'. gps_run bo log_send ps g \<lparr>answers = as, sent = []\<rparr>
    = Ok (g', \<lparr>answers = as', sent = map gps_message
        (take (Suc (length (takeWhile Not as))) (complete_positions ps g))\<rparr>)"
  using gps_run_log [OF assms, of bo "[]"] by simp

theorem gps_retries_until_sent_witness:
  "\<exists>g' as'. gps_run Little_endian log_send
      [Set_fix True, Set_position (position sample_gps), Set_fix True, Set_fix True] sample_gps
      \<lparr>answers = [False, True, True], sent = []\<rparr>
    = Ok (g', \<lparr>answers = as', sent = [gps_message (position sample_gps), gps_message (position sample_gps)]\<rparr>)"
  using gps_retries_until_sent [of sample_gps
      "[Set_fix True, Set_position (position sample_gps), Set_fix True, Set_fix True]"
      "[False, True, True]" Little_endian]
  by (simp add: sample_gps_def Let_def)

end
