(* ===== verification/Util_Cstring.thy ===== *)
theory Util_Cstring
  imports Opensky_Prelude
begin

text \<open>
  The C library's string functions the sources call, on byte lists: a string is the list of its
  bytes before the terminating zero.
\<close>

definition is_cstring :: "u8 list \<Rightarrow> bool" where
  "is_cstring s \<longleftrightarrow> 0 \<notin> set s"

text \<open>\<open>isspace\<close> and \<open>isdigit\<close> in the C locale.\<close>

definition is_space :: "u8 \<Rightarrow> bool" where
  "is_space c \<longleftrightarrow> c = 32 \<or> (9 \<le> c \<and> c \<le> 13)"

definition is_digit :: "u8 \<Rightarrow> bool" where
  "is_digit c \<longleftrightarrow> 48 \<le> c \<and> c \<le> 57"

definition digits_value :: "u8 list \<Rightarrow> nat" where
  "digits_value ds = foldl (\<lambda>v d. 10 * v + (unat d - 48)) 0 ds"

text \<open>
  \<open>strtoul(s, &end, 10)\<close>: white space, an optional sign, digits. The result is the value (negated
  as an \<open>unsigned long\<close> after a minus sign, saturated on overflow) and the rest of the string at
  \<open>end\<close>; without digits nothing is consumed.
\<close>

definition strtoul10 :: "u8 list \<Rightarrow> u64 \<times> u8 list" where
  "strtoul10 s =
    (let t = dropWhile is_space s;
         neg = (t \<noteq> [] \<and> hd t = 45);
         t = (if t \<noteq> [] \<and> (hd t = 45 \<or> hd t = 43) then tl t else t);
         ds = takeWhile is_digit t
     in if ds = [] then (0, s)
        else let v = digits_value ds;
                 w = (if v \<ge> 2 ^ 64 then - 1 else if neg then - of_nat v else of_nat v)
             in (w, dropWhile is_digit t))"

text \<open>Decimal notation, the inverse of reading digits.\<close>

function decimal :: "nat \<Rightarrow> u8 list" where
  "decimal n = (if n < 10 then [of_nat (48 + n)] else decimal (n div 10) @ [of_nat (48 + n mod 10)])"
  by pat_completeness auto
termination by (relation "measure id") auto

declare decimal.simps [simp del]

lemma unat_digit: "n < 10 \<Longrightarrow> unat (of_nat (48 + n) :: u8) = 48 + n"
  by (intro unat_of_nat_small) simp

lemma is_digit_digit: "n < 10 \<Longrightarrow> is_digit (of_nat (48 + n))"
  using unat_digit [of n] by (simp add: is_digit_def word_le_nat_alt del: of_nat_add)

lemma digits_value_snoc: "digits_value (ds @ [d]) = 10 * digits_value ds + (unat d - 48)"
  by (simp add: digits_value_def)

lemma decimal_props: "digits_value (decimal n) = n \<and> (\<forall>d\<in>set (decimal n). is_digit d) \<and> decimal n \<noteq> []"
proof (induction n rule: decimal.induct)
  case (1 n)
  show ?case
  proof (cases "n < 10")
    case True
    then show ?thesis
      by (subst (1 2 3) decimal.simps)
        (use unat_digit [OF True] is_digit_digit [OF True] in \<open>simp add: digits_value_def del: of_nat_add\<close>)
  next
    case False
    have "n mod 10 < 10" by simp
    note d = unat_digit [OF this] is_digit_digit [OF this]
    have "decimal n = decimal (n div 10) @ [of_nat (48 + n mod 10)]"
      by (subst decimal.simps) (use False in simp)
    then show ?thesis
      using "1.IH" [OF False] d by (simp add: digits_value_snoc del: of_nat_add)
  qed
qed

lemma length_decimal: "n < 10 ^ k \<Longrightarrow> 0 < k \<Longrightarrow> length (decimal n) \<le> k"
proof (induction k arbitrary: n)
  case (Suc k)
  show ?case
  proof (cases "n < 10")
    case True
    then show ?thesis by (subst decimal.simps) simp
  next
    case False
    then have "n div 10 < 10 ^ k" using Suc.prems(1) by (simp add: less_mult_imp_div_less mult.commute)
    moreover have "0 < k" using False Suc.prems(1) by (cases k) simp_all
    ultimately show ?thesis using Suc.IH [of "n div 10"] False by (subst decimal.simps) simp
  qed
qed simp

lemma not_space_digit: "is_digit d \<Longrightarrow> \<not> is_space d \<and> d \<noteq> 45 \<and> d \<noteq> 43"
  by (auto simp: is_digit_def is_space_def word_le_nat_alt)

lemma strtoul10_decimal:
  assumes "n < 2 ^ 64" "rest = [] \<or> \<not> is_digit (hd rest)"
  shows "strtoul10 (decimal n @ rest) = (of_nat n, rest)"
proof -
  obtain d ds where dec: "decimal n = d # ds" using decimal_props [of n] by (cases "decimal n") auto
  have dig: "\<forall>d\<in>set (decimal n). is_digit d" using decimal_props by blast
  then have d: "\<not> is_space d" "d \<noteq> 45" "d \<noteq> 43" using dec not_space_digit by auto
  have tw: "takeWhile is_digit (decimal n @ rest) = decimal n"
    "dropWhile is_digit (decimal n @ rest) = rest"
    using dig assms(2) by (cases rest; simp)+
  have sp: "dropWhile is_space (decimal n @ rest) = decimal n @ rest" using dec d by simp
  show ?thesis
    unfolding strtoul10_def sp Let_def
    using tw assms(1) decimal_props [of n] d dec by (auto simp: Let_def)
qed

end
