(* ===== verification/Core_Login.thy ===== *)
theory Core_Login
  imports Core_Gps Util_Cstring
begin

text \<open>
  Logging into the OpenSky Network (\<open>core/login.c\<close>): device id and version, serial number, GPS
  position and user name, in this order, stopping at the first message that could not be sent.
  \<open>NET_send\<close> and \<open>SERIAL_getSerial\<close> (whose implementation is chosen by the build) are
  parameters; \<open>PACKAGE_VERSION\<close>, a string of the build configuration, is an argument.
\<close>

section \<open>State\<close>

record Version =
  major :: u32
  minor :: u32
  release :: u32

record login =
  deviceType :: u32
  user :: "u8 list"
  cachedVer :: "Version option"

datatype SERIAL_RETURN = SERIAL_RETURN_FAIL_TEMP | SERIAL_RETURN_FAIL_NET
  | SERIAL_RETURN_FAIL_PERM | SERIAL_RETURN_SUCCESS

type_synonym 'n get_serial = "'n \<Rightarrow> SERIAL_RETURN \<times> u32 \<times> 'n"

section \<open>Operations\<close>

definition LOGIN_setDeviceType :: "u32 \<Rightarrow> login \<Rightarrow> fault + login" where
  "LOGIN_setDeviceType type l =
    (if deviceType l \<noteq> OPENSKY_DEVICE_TYPE_INVALID then Fault Assert_failed
     else if type = OPENSKY_DEVICE_TYPE_INVALID then Fault Assert_failed
     else Ok (l\<lparr>deviceType := type\<rparr>))"

text \<open>The array \<open>user\<close> has \<open>OPENSKY_MAX_USERNAME + 1\<close> bytes; \<open>None\<close> is the null pointer.\<close>

definition LOGIN_setUsername :: "u8 list option \<Rightarrow> login \<Rightarrow> login" where
  "LOGIN_setUsername username l =
    (let l = l\<lparr>user := replicate (OPENSKY_MAX_USERNAME + 1) 0\<rparr>
     in case username of
          None \<Rightarrow> l
        | Some s \<Rightarrow> if length s > OPENSKY_MAX_USERNAME then l
                  else l\<lparr>user := s @ drop (length s) (user l)\<rparr>)"

text \<open>Reading the version: the assertions compare the end of every number with the beginning of
  the whole string.\<close>

definition dot :: u8 where "dot = 46"

definition parseVersion :: "u8 list \<Rightarrow> fault + Version" where
  "parseVersion ver =
    (let (a, end) = strtoul10 ver
     in if \<not> (end \<noteq> ver \<and> end \<noteq> [] \<and> hd end = dot) then Fault Assert_failed
     else let (b, end) = strtoul10 (tl end)
     in if \<not> (end \<noteq> ver \<and> end \<noteq> [] \<and> hd end = dot) then Fault Assert_failed
     else let (c, end) = strtoul10 (tl end)
     in if \<not> (end \<noteq> ver \<and> end = []) then Fault Assert_failed
     else Ok \<lparr>major = ucast a, minor = ucast b, release = ucast c\<rparr>)"

definition getVersion :: "u8 list \<Rightarrow> login \<Rightarrow> fault + (Version \<times> login)" where
  "getVersion ver l =
    (case cachedVer l of
       Some v \<Rightarrow> Ok (v, l)
     | None \<Rightarrow> bind_ok (parseVersion ver) (\<lambda>v. Ok (v, l\<lparr>cachedVer := Some v\<rparr>)))"

text \<open>\<open>ENDEC_fromu32\<close> into a part of a buffer of its own.\<close>

definition enc_u32 :: "byte_order \<Rightarrow> u32 \<Rightarrow> u8 list" where
  "enc_u32 bo w = the (ENDEC_fromu32 bo w (replicate 4 0))"

definition sendDeviceId :: "byte_order \<Rightarrow> u8 list \<Rightarrow> 'n net_send \<Rightarrow> login \<Rightarrow> 'n \<Rightarrow> fault + (bool \<times> login \<times> 'n)" where
  "sendDeviceId bo ver send l n =
    (if deviceType l = OPENSKY_DEVICE_TYPE_INVALID then Fault Assert_failed
     else bind_ok (append_encoded (2 + 4 * 4 * 2) (start_message OPENSKY_FRAME_TYPE_DEVICE_ID)
        (enc_u32 bo (deviceType l))) (\<lambda>buf.
       bind_ok (getVersion ver l) (\<lambda>(v, l).
       bind_ok (append_encoded (2 + 4 * 4 * 2) buf
          (enc_u32 bo (major v) @ enc_u32 bo (minor v) @ enc_u32 bo (release v))) (\<lambda>buf.
       let (ok, n) = send buf n in Ok (ok, l, n)))))"

definition sendSerial :: "byte_order \<Rightarrow> 'n get_serial \<Rightarrow> 'n net_send \<Rightarrow> 'n \<Rightarrow> fault + (bool \<times> 'n)" where
  "sendSerial bo getSerial send n =
    (let (rc, serialNumber, n) = getSerial n
     in case rc of
          SERIAL_RETURN_FAIL_NET \<Rightarrow> Ok (False, n)
        | SERIAL_RETURN_FAIL_TEMP \<Rightarrow> Fault Emergency
        | SERIAL_RETURN_FAIL_PERM \<Rightarrow> Fault Emergency
        | SERIAL_RETURN_SUCCESS \<Rightarrow>
            bind_ok (append_encoded (2 + 4 * 2) (start_message OPENSKY_FRAME_TYPE_SERIAL)
              (enc_u32 bo serialNumber)) (\<lambda>buf. Ok (send buf n)))"

definition sendUsername :: "'n net_send \<Rightarrow> login \<Rightarrow> 'n \<Rightarrow> fault + (bool \<times> 'n)" where
  "sendUsername send l n =
    (if user l ! 0 = 0 then Ok (True, n)
     else bind_ok (append_encoded (2 + 2 * OPENSKY_MAX_USERNAME) (start_message OPENSKY_FRAME_TYPE_USER)
        (take OPENSKY_MAX_USERNAME (user l))) (\<lambda>buf. Ok (send buf n)))"

definition LOGIN_login :: "byte_order \<Rightarrow> u8 list \<Rightarrow> 'n get_serial \<Rightarrow> 'n net_send \<Rightarrow> login \<Rightarrow> gps \<Rightarrow> 'n
    \<Rightarrow> fault + (bool \<times> login \<times> gps \<times> 'n)" where
  "LOGIN_login bo ver getSerial send l g n =
    bind_ok (sendDeviceId bo ver send l n) (\<lambda>(ok, l, n).
      if \<not> ok then Ok (False, l, g, n)
      else bind_ok (sendSerial bo getSerial send n) (\<lambda>(ok, n).
      if \<not> ok then Ok (False, l, g, n)
      else bind_ok (GPS_sendPosition bo send g n) (\<lambda>(ok, g, n).
      if \<not> ok then Ok (False, l, g, n)
      else bind_ok (sendUsername send l n) (\<lambda>(ok, n). Ok (ok, l, g, n)))))"

section \<open>Messages\<close>

definition device_message :: "u32 \<Rightarrow> Version \<Rightarrow> u8 list" where
  "device_message d v = [OPENSKY_SYNC, OPENSKY_FRAME_TYPE_DEVICE_ID]
     @ escape (be_bytes 4 d @ be_bytes 4 (major v) @ be_bytes 4 (minor v) @ be_bytes 4 (release v))"

definition serial_message :: "u32 \<Rightarrow> u8 list" where
  "serial_message sn = [OPENSKY_SYNC, OPENSKY_FRAME_TYPE_SERIAL] @ escape (be_bytes 4 sn)"

definition user_message :: "u8 list \<Rightarrow> u8 list" where
  "user_message u = [OPENSKY_SYNC, OPENSKY_FRAME_TYPE_USER] @ escape (take OPENSKY_MAX_USERNAME u)"

definition login_messages :: "Version \<Rightarrow> u32 \<Rightarrow> login \<Rightarrow> gps \<Rightarrow> u8 list list" where
  "login_messages v sn l g = [device_message (deviceType l) v, serial_message sn]
     @ (if hasPosition g \<and> hasFix g then [gps_message (position g)] else [])
     @ (if user l ! 0 \<noteq> 0 then [user_message (user l)] else [])"

lemma enc_u32_be: "enc_u32 bo w = be_bytes 4 w"
  by (simp add: enc_u32_def ENDEC_fromu32_be)

lemma getVersion_ok:
  assumes "cachedVer l = Some v \<or> cachedVer l = None \<and> parseVersion ver = Ok v"
  shows "\<exists>c. getVersion ver l = Ok (v, l\<lparr>cachedVer := c\<rparr>)"
  using assms
proof
  assume "cachedVer l = Some v"
  then have "getVersion ver l = Ok (v, l\<lparr>cachedVer := Some v\<rparr>)" by (simp add: getVersion_def)
  then show ?thesis by blast
qed (auto simp: getVersion_def)

lemma sendDeviceId_ok:
  assumes "cachedVer l = Some v \<or> cachedVer l = None \<and> parseVersion ver = Ok v"
    and "deviceType l \<noteq> OPENSKY_DEVICE_TYPE_INVALID"
  shows "\<exists>c. sendDeviceId bo ver send l n =
    Ok (fst (send (device_message (deviceType l) v) n), l\<lparr>cachedVer := c\<rparr>, snd (send (device_message (deviceType l) v) n))"
proof -
  obtain c where c: "getVersion ver l = Ok (v, l\<lparr>cachedVer := c\<rparr>)" using getVersion_ok [OF assms(1)] by blast
  have len: "length (start_message OPENSKY_FRAME_TYPE_DEVICE_ID @ escape (be_bytes 4 (deviceType l))) \<le> 10"
    using length_BEAST_encode_le [of "be_bytes 4 (deviceType l)"]
    by (simp add: start_message_def BEAST_encode_eq_escape)
  have "append_encoded (2 + 4 * 4 * 2) (start_message OPENSKY_FRAME_TYPE_DEVICE_ID) (enc_u32 bo (deviceType l))
    = Ok (start_message OPENSKY_FRAME_TYPE_DEVICE_ID @ escape (be_bytes 4 (deviceType l)))"
    by (simp add: append_encoded_ok enc_u32_be start_message_def)
  moreover have "append_encoded (2 + 4 * 4 * 2)
      (start_message OPENSKY_FRAME_TYPE_DEVICE_ID @ escape (be_bytes 4 (deviceType l)))
      (enc_u32 bo (major v) @ enc_u32 bo (minor v) @ enc_u32 bo (release v))
    = Ok (device_message (deviceType l) v)"
    by (subst append_encoded_ok) (use len in \<open>simp_all add: enc_u32_be device_message_def start_message_def\<close>)
  ultimately show ?thesis
    using assms(2) c by (auto simp: sendDeviceId_def split: prod.splits)
qed

lemma sendSerial_ok:
  "sendSerial bo (\<lambda>n. (SERIAL_RETURN_SUCCESS, sn, n)) send n = Ok (send (serial_message sn) n)"
  by (simp add: sendSerial_def append_encoded_ok enc_u32_be start_message_def serial_message_def)

lemma sendUsername_ok:
  "sendUsername send l n = (if user l ! 0 = 0 then Ok (True, n) else Ok (send (user_message (user l)) n))"
  by (simp add: sendUsername_def append_encoded_ok start_message_def user_message_def OPENSKY_MAX_USERNAME_def)

section \<open>Properties\<close>

lemma login_log:
  assumes v: "cachedVer l = Some v \<or> cachedVer l = None \<and> parseVersion ver = Ok v"
    and d: "deviceType l \<noteq> OPENSKY_DEVICE_TYPE_INVALID"
    and as: "as = a # b # c # d' # as'"
  shows "\<exists>l' g' rest. LOGIN_login bo ver (\<lambda>n. (SERIAL_RETURN_SUCCESS, sn, n)) log_send l g \<lparr>answers = as, sent = []\<rparr>
    = Ok (list_all id (take (length (login_messages v sn l g)) as), l', g',
        \<lparr>answers = rest, sent = take (Suc (length (takeWhile id as))) (login_messages v sn l g)\<rparr>)"
proof -
  obtain c' where "sendDeviceId bo ver log_send l \<lparr>answers = as, sent = []\<rparr>
    = Ok (a, l\<lparr>cachedVer := c'\<rparr>, \<lparr>answers = b # c # d' # as', sent = [device_message (deviceType l) v]\<rparr>)"
    using sendDeviceId_ok [OF v d, of bo log_send "\<lparr>answers = as, sent = []\<rparr>"] as
    by (auto simp: log_send_def)
  then show ?thesis
    by (auto simp: LOGIN_login_def sendSerial_ok sendUsername_ok GPS_sendPosition_def sendPosition_message
        login_messages_def log_send_def as)
qed

definition sample_login :: login where
  "sample_login = \<lparr>deviceType = 5, user = replicate 41 0, cachedVer = None\<rparr>"

lemma ucast_of_nat_u32: "n < 2 ^ 32 \<Longrightarrow> ucast (of_nat n :: u64) = (of_nat n :: u32)"
proof -
  assume "n < 2 ^ 32"
  then have "unat (of_nat n :: u64) = n" by (intro unat_of_nat_small) simp
  then show ?thesis by (metis of_nat_unat)
qed

lemma version_roundtrip_aux:
  assumes "a < 2 ^ 32" "b < 2 ^ 32" "c < 2 ^ 32"
  shows "parseVersion (decimal a @ dot # decimal b @ dot # decimal c)
    = Ok \<lparr>major = of_nat a, minor = of_nat b, release = of_nat c\<rparr>"
proof -
  have nd: "\<not> is_digit dot" by (simp add: is_digit_def dot_def)
  have n: "a < 2 ^ 64" "b < 2 ^ 64" "c < 2 ^ 64" using assms by simp_all
  have "strtoul10 (decimal c) = (of_nat c, [])" using strtoul10_decimal [OF n(3), of "[]"] by simp
  moreover have "strtoul10 (decimal b @ dot # decimal c) = (of_nat b, dot # decimal c)"
    by (rule strtoul10_decimal [OF n(2)]) (simp add: nd)
  moreover have "strtoul10 (decimal a @ dot # decimal b @ dot # decimal c) = (of_nat a, dot # decimal b @ dot # decimal c)"
    by (rule strtoul10_decimal [OF n(1)]) (simp add: nd)
  moreover have "decimal n \<noteq> []" for n using decimal_props by blast
  moreover have "dot # decimal c \<noteq> decimal a @ dot # decimal b @ dot # decimal c"
    by (auto dest!: arg_cong [of _ _ length])
  ultimately show ?thesis
    using assms by (auto simp: parseVersion_def Let_def ucast_of_nat_u32)
qed

text \<open>A version string of three numbers in decimal notation is read as these numbers.\<close>

theorem version_roundtrip:
  assumes "a < 2 ^ 32" "b < 2 ^ 32" "c < 2 ^ 32"
  shows "parseVersion (decimal a @ dot # decimal b @ dot # decimal c)
    = Ok \<lparr>major = of_nat a, minor = of_nat b, release = of_nat c\<rparr>"
  using assms by (rule version_roundtrip_aux)

theorem version_roundtrip_witness:
  "parseVersion (decimal 2 @ dot # decimal 1 @ dot # decimal 7)
    = Ok \<lparr>major = of_nat 2, minor = of_nat 1, release = of_nat 7\<rparr>"
  by (rule version_roundtrip) simp_all

text \<open>A login sends the device id with the version, the serial number, the position if there
  is a complete one, and the user name if there is one, in this order, each escaped and within
  its buffer; it stops after the first message that could not be sent, and reports success
  exactly when all were.\<close>

theorem login_sends_messages_in_order:
  assumes "cachedVer l = Some v \<or> cachedVer l = None \<and> parseVersion ver = Ok v"
    and "deviceType l \<noteq> OPENSKY_DEVICE_TYPE_INVALID" "4 \<le> length as"
  shows "\<exists>l' g' rest. LOGIN_login bo ver (\<lambda>n. (SERIAL_RETURN_SUCCESS, sn, n)) log_send l g \<lparr>answers = as, sent = []\<rparr>
    = Ok (list_all id (take (length (login_messages v sn l g)) as), l', g',
        \<lparr>answers = rest, sent = take (Suc (length (takeWhile id as))) (login_messages v sn l g)\<rparr>)"
proof -
  obtain a b c d as' where "as = a # b # c # d # as'"
    using assms(3) by (auto simp: eval_nat_numeral Suc_le_length_iff)
  from login_log [OF assms(1,2) this] show ?thesis .
qed

theorem login_sends_messages_in_order_witness:
  "\<exists>l' g' rest. LOGIN_login Little_endian (decimal 2 @ dot # decimal 1 @ dot # decimal 7)
      (\<lambda>n. (SERIAL_RETURN_SUCCESS, 0x1a, n)) log_send sample_login sample_gps
      \<lparr>answers = [True, False, True, True], sent = []\<rparr>
    = Ok (False, l', g', \<lparr>answers = rest,
        sent = [device_message 5 \<lparr>major = 2, minor = 1, release = 7\<rparr>, serial_message 0x1a]\<rparr>)"
proof -
  have "parseVersion (decimal 2 @ dot # decimal 1 @ dot # decimal 7) = Ok \<lparr>major = 2, minor = 1, release = 7\<rparr>"
    using version_roundtrip_aux [of 2 1 7] by simp
  then show ?thesis
    using login_sends_messages_in_order [of sample_login "\<lparr>major = 2, minor = 1, release = 7\<rparr>"
        "decimal 2 @ dot # decimal 1 @ dot # decimal 7" "[True, False, True, True]" Little_endian "0x1a" sample_gps]
    by (simp add: sample_login_def OPENSKY_DEVICE_TYPE_INVALID_def login_messages_def)
qed

end
