(* ===== verification/Core_Relay.thy ===== *)
theory Core_Relay
  imports Core_Buffer_Run Core_Filter
begin

text \<open>
  The two threads that use the buffer: the receiver thread (\<open>core/recv.c\<close>) fills frames from the
  input, filters and commits them; the relay thread (\<open>core/relay.c\<close>) takes them from the queue
  and sends them. What the input delivers, what \<open>malloc\<close> answers, what wakes a waiting relay,
  whether a message could be sent and what the other threads do to the buffer meanwhile are
  arguments, one entry per turn of the loop; a loop that runs out of entries is still waiting.
\<close>

section \<open>Receiver\<close>

type_synonym input_event = "(raw_frame \<times> decoded_frame) option \<times> (bool \<times> bool)"

definition recv_cleanup :: "frame_link option \<Rightarrow> buffer \<Rightarrow> fault + buffer" where
  "recv_cleanup frame b = (case frame of None \<Rightarrow> Ok b | Some f \<Rightarrow> BUF_abortFrame f b)"

text \<open>The inner loop: \<open>frame\<close> is the frame being filled. The result tells the frame still held.\<close>

fun recv_loop :: "input_event list \<Rightarrow> frame_link \<Rightarrow> buffer \<Rightarrow> frame_filter
    \<Rightarrow> fault + (frame_link option \<times> buffer \<times> frame_filter)" where
  "recv_loop [] frame b fl = Ok (Some frame, b, fl)"
| "recv_loop ((Some (r, decoded), m) # es) frame b fl =
    (let b = write_frame frame r b;
         fl = (if frameType decoded = OPENSKY_FRAME_TYPE_STATUS \<and> mlat decoded \<noteq> 0
               then FILTER_setSynchronized True fl else fl)
     in bind_ok (FILTER_filter (frameType decoded) (payload decoded ! 0) fl) (\<lambda>(pass, fl).
          if pass then bind_ok (BUF_commitFrame frame b) (\<lambda>b.
            bind_ok (BUF_newFrame m b) (\<lambda>(frame, b). recv_loop es frame b fl))
          else recv_loop es frame b fl))"
| "recv_loop ((None, m) # es) frame b fl =
    bind_ok (BUF_abortFrame frame b) (\<lambda>b. Ok (None, b, fl))"

text \<open>One connection of the input.\<close>

definition recv_session :: "bool \<times> bool \<Rightarrow> input_event list \<Rightarrow> buffer \<Rightarrow> frame_filter
    \<Rightarrow> fault + (frame_link option \<times> buffer \<times> frame_filter)" where
  "recv_session m es b fl =
    (let fl = FILTER_reset fl
     in bind_ok (BUF_newFrame m b) (\<lambda>(frame, b). recv_loop es frame b fl))"

section \<open>Relay\<close>

text \<open>One turn of the loop: what the other threads do to the buffer before the relay takes the mutex, while
  it waits and while it sends, and whether sending succeeds.\<close>

record relay_event =
  before :: "buffer \<Rightarrow> buffer"
  wakeups :: "wakeup list"
  sending :: "buffer \<Rightarrow> buffer"
  sent :: bool

definition relay_cleanup :: "frame_link option \<Rightarrow> buffer \<Rightarrow> fault + buffer" where
  "relay_cleanup frame b = (case frame of None \<Rightarrow> Ok b | Some f \<Rightarrow> BUF_putFrame f b)"

text \<open>The bytes \<open>sendFrame\<close> and \<open>sendKeepalive\<close> hand to \<open>NET_send\<close>.\<close>

definition sendFrame_bytes :: "raw_frame \<Rightarrow> fault + u8 list" where
  "sendFrame_bytes r = (if unat (rawLen r) > length (raw r) then Fault Out_of_bounds
     else Ok (take (unat (rawLen r)) (raw r)))"

definition keepalive_bytes :: "u8 list" where
  "keepalive_bytes = [OPENSKY_SYNC, OPENSKY_FRAME_TYPE_KEEP_ALIVE]"

text \<open>The loop of one connection: the buffer, what was sent, and whether sending failed.\<close>

fun relay_loop :: "relay_event list \<Rightarrow> buffer \<Rightarrow> fault + (buffer \<times> (u8 list \<times> bool) list \<times> bool)" where
  "relay_loop [] b = Ok (b, [], False)"
| "relay_loop (e # es) b =
    bind_ok (BUF_getFrameTimeout (wakeups e) (before e b)) (\<lambda>r.
      case r of
        Waiting \<Rightarrow> Ok (before e b, [], False)
      | Timed_out b \<Rightarrow>
          let b = sending e b
          in if sent e then bind_ok (relay_loop es b) (\<lambda>(b, ms, e). Ok (b, (keepalive_bytes, True) # ms, e))
            else Ok (b, [(keepalive_bytes, False)], True)
      | Ready f b \<Rightarrow>
          bind_ok (sendFrame_bytes (contents b f)) (\<lambda>msg.
            let b = sending e b
            in if sent e then bind_ok (BUF_releaseFrame f b) (\<lambda>b.
                bind_ok (relay_loop es b) (\<lambda>(b, ms, e). Ok (b, (msg, True) # ms, e)))
              else bind_ok (BUF_putFrame f b) (\<lambda>b. Ok (b, [(msg, False)], True))))"

text \<open>One turn of the main loop, once connected: log in, flush, relay.\<close>

definition relay_session :: "bool \<Rightarrow> relay_event list \<Rightarrow> buffer \<Rightarrow> fault + (buffer \<times> (u8 list \<times> bool) list \<times> bool)" where
  "relay_session login_ok es b =
    (if \<not> login_ok then Ok (b, [], True)
     else relay_loop es (BUF_flushUnlessHistoryEnabled b))"

section \<open>What the receiver commits\<close>

text \<open>The frames that pass the filter, in a connection of the input.\<close>

fun passed_frames :: "FILTER_Configuration \<Rightarrow> bool \<Rightarrow> (raw_frame \<times> decoded_frame) list \<Rightarrow> raw_frame list" where
  "passed_frames c synced [] = []"
| "passed_frames c synced ((r, d) # xs) =
    (let synced = (synced \<or> frameType d = OPENSKY_FRAME_TYPE_STATUS \<and> mlat d \<noteq> 0)
     in (if passes c synced (frameType d) (payload d ! 0) then [r] else []) @ passed_frames c synced xs)"

text \<open>The frame the consumer holds and those that are queued, oldest first; and the last \<open>n\<close> of a list.\<close>

definition held :: "buffer \<Rightarrow> raw_frame list" where
  "held b = map (contents b) (opt_list (currentFrame b))"

definition queued :: "buffer \<Rightarrow> raw_frame list" where
  "queued b = map (contents b) (queue b)"

definition keep_last :: "nat \<Rightarrow> 'a list \<Rightarrow> 'a list" where
  "keep_last n xs = drop (length xs - n) xs"

lemma outstanding_held: "outstanding b = held b @ queued b"
  by (simp add: outstanding_def held_def queued_def)

lemma length_held: "length (held b) \<le> 1"
  using length_opt_list [of "currentFrame b"] by (simp add: held_def)

lemma in_use_held: "in_use b = length (queued b) + length (held b)"
  by (simp add: in_use_def held_def queued_def)

lemma keep_last_simps [simp]: "length (keep_last n xs) = min n (length xs)" "length xs \<le> n \<Longrightarrow> keep_last n xs = xs"
  by (simp_all add: keep_last_def)

lemma keep_last_append: "keep_last n (keep_last n xs @ ys) = keep_last n (xs @ ys)"
proof (cases "length xs \<le> n")
  case False
  then obtain k where "length xs = n + k" by (metis le_add_diff_inverse nat_le_linear)
  then show ?thesis by (simp add: keep_last_def add.commute)
qed simp

lemma keep_last_snoc: "keep_last n xs @ [x] = keep_last (Suc n) (xs @ [x])"
  by (cases "length xs \<le> n") (simp_all add: keep_last_def Suc_diff_le)

text \<open>Dynamic pools, if there can be any, have frames.\<close>

definition pools_not_empty :: "buf_configuration \<Rightarrow> bool" where
  "pools_not_empty c \<longleftrightarrow> (history c \<longrightarrow> dynBacklog c \<noteq> 0)"

lemma step_okD:
  assumes "buf_good s" "buf_enabled c s" "buf_exec c s = Ok s'"
  shows "buf_good s'"
  using buf_step_ok [OF assms] by (simp add: step_ok_def)

lemma write_frame_ok:
  assumes "buf_good b" "newFrame b = Some f"
  shows "buf_good (write_frame f r b)" "queued (write_frame f r b) = queued b" "held (write_frame f r b) = held b"
    "contents (write_frame f r b) f = r" "newFrame (write_frame f r b) = Some f"
    "currentFrame (write_frame f r b) = currentFrame b"
    "capacity (write_frame f r b) = capacity b" "buf_cfg (write_frame f r b) = buf_cfg b"
proof -
  show "buf_good (write_frame f r b)" using step_okD [OF assms(1), of "Write r"] assms(2) by simp
  have "f \<notin> set (opt_list (currentFrame b) @ queue b)"
    using distinct_all_frames [of b] assms by (auto simp: all_frames_def buf_good_def)
  then show "queued (write_frame f r b) = queued b" "held (write_frame f r b) = held b"
    by (simp_all add: queued_def held_def write_frame_def)
qed (use assms in \<open>simp_all add: write_frame_def capacity_def\<close>)

lemma commit_ok:
  assumes "buf_good b" "newFrame b = Some f"
  shows "\<exists>b'. BUF_commitFrame f b = Ok b' \<and> buf_good b' \<and> newFrame b' = None \<and> currentFrame b' = currentFrame b
    \<and> queued b' = queued b @ [contents b f] \<and> held b' = held b \<and> capacity b' = capacity b \<and> buf_cfg b' = buf_cfg b"
proof -
  obtain b' where b': "BUF_commitFrame f b = Ok b'"
    using assms(2) by (auto simp: BUF_commitFrame_def Let_def)
  then have "buf_good b'" using step_okD [OF assms(1), of Commit] assms(2) by simp
  then show ?thesis
    using b' assms(2)
    by (auto simp: BUF_commitFrame_def Let_def queued_def held_def capacity_def split: if_splits)
qed

text \<open>A new frame leaves room for itself: the oldest one is given up if there is none.\<close>

lemma newFrame_push:
  assumes "buf_good b" "newFrame b = None" "pools_not_empty (buf_cfg b)"
  shows "\<exists>f b'. BUF_newFrame (True, True) b = Ok (f, b') \<and> buf_good b' \<and> newFrame b' = Some f \<and> currentFrame b' = currentFrame b
    \<and> queued b' = keep_last (capacity b - 1 - length (held b)) (queued b) \<and> held b' = held b
    \<and> capacity b' = capacity b \<and> buf_cfg b' = buf_cfg b"
proof -
  have np: "\<not> empty_pool_next b" using buf_good_live [OF assms(1)] assms(3) by (simp add: pools_not_empty_def)
  have cap: "in_use b \<le> capacity b" using newFrame_capacity [OF assms(1,2)] by (auto split: if_splits)
  obtain f b' where b': "BUF_newFrame (True, True) b = Ok (f, b')" "newFrame b' = Some f"
      "currentFrame b' = currentFrame b" "contents b' = contents b" "buf_cfg b' = buf_cfg b" "capacity b' = capacity b"
      "queue b' = (if in_use b < capacity b then queue b else tl (queue b))"
    using newFrame_capacity [OF assms(1,2)] np by (auto split: if_splits)
  have good: "buf_good b'" using step_okD [OF assms(1), of "New (True, True)"] assms(2) b'(1) by simp
  have h: "held b' = held b" using b' by (simp add: held_def)
  have "queued b' = keep_last (capacity b - 1 - length (held b)) (queued b)"
  proof (cases "in_use b < capacity b")
    case True
    then have "length (queued b) \<le> capacity b - 1 - length (held b)" by (simp add: in_use_held)
    then show ?thesis using True b' by (simp add: queued_def)
  next
    case False
    then have "length (queued b) - (capacity b - 1 - length (held b)) = 1 \<or> queued b = []"
      using cap by (cases "queued b") (simp_all add: in_use_held)
    then show ?thesis using False b' by (auto simp: queued_def keep_last_def drop_Suc map_tl)
  qed
  then show ?thesis using b' good h by blast
qed

lemma abort_ok:
  assumes "buf_good b" "newFrame b = Some f"
  shows "\<exists>b'. BUF_abortFrame f b = Ok b' \<and> buf_good b' \<and> newFrame b' = None
    \<and> queued b' = queued b \<and> held b' = held b \<and> currentFrame b' = currentFrame b"
proof -
  obtain b' where b': "BUF_abortFrame f b = Ok b'" using assms(2) by (auto simp: BUF_abortFrame_def)
  then have "buf_good b'" using step_okD [OF assms(1), of Abort] assms(2) by simp
  then show ?thesis using b' assms(2) by (auto simp: BUF_abortFrame_def queued_def held_def)
qed

lemma FILTER_setSynchronized_facts:
  "filter_inv fl \<Longrightarrow> filter_inv (if c then FILTER_setSynchronized True fl else fl)"
  "FILTER_cfg (if c then FILTER_setSynchronized True fl else fl) = FILTER_cfg fl"
  "isSynchronized (if c then FILTER_setSynchronized True fl else fl) = (isSynchronized fl \<or> c)"
  using filter_inv_ops(5) by (auto simp: FILTER_setSynchronized_def filter_inv_def)

lemma recv_loop_commits:
  assumes "buf_good b" "newFrame b = Some f" "filter_inv fl" "\<forall>(r, d)\<in>set xs. beast_type (frameType d)"
    and "pools_not_empty (buf_cfg b)" "length (queued b) \<le> capacity b - 1 - length (held b)"
  shows "\<exists>b' fl'. recv_loop (map (\<lambda>x. (Some x, (True, True))) xs @ [(None, m)]) f b fl = Ok (None, b', fl')
    \<and> buf_good b' \<and> newFrame b' = None \<and> filter_inv fl' \<and> currentFrame b' = currentFrame b \<and> held b' = held b
    \<and> queued b' = keep_last (capacity b - 1 - length (held b)) (queued b @ passed_frames (FILTER_cfg fl) (isSynchronized fl) xs)"
  using assms
proof (induction xs arbitrary: b f fl)
  case Nil
  obtain b' where "BUF_abortFrame f b = Ok b'" "buf_good b'" "newFrame b' = None" "queued b' = queued b" "held b' = held b"
    "currentFrame b' = currentFrame b"
    using abort_ok [OF Nil.prems(1,2)] by blast
  then show ?case using Nil.prems(3,6) by simp
next
  case (Cons x xs)
  obtain r d where x: "x = (r, d)" by fastforce
  let ?c = "frameType d = OPENSKY_FRAME_TYPE_STATUS \<and> mlat d \<noteq> 0"
  define room where "room = capacity b - 1 - length (held b)"
  define b1 where "b1 = write_frame f r b"
  define fl1 where "fl1 = (if ?c then FILTER_setSynchronized True fl else fl)"
  have fl1: "filter_inv fl1" "FILTER_cfg fl1 = FILTER_cfg fl" "isSynchronized fl1 = (isSynchronized fl \<or> ?c)"
    unfolding fl1_def by (rule FILTER_setSynchronized_facts Cons.prems(3))+
  have b1: "buf_good b1" "queued b1 = queued b" "held b1 = held b" "contents b1 f = r" "newFrame b1 = Some f"
    "currentFrame b1 = currentFrame b" "capacity b1 = capacity b" "buf_cfg b1 = buf_cfg b"
    unfolding b1_def by (rule write_frame_ok [OF Cons.prems(1,2)])+
  let ?p = "passes (FILTER_cfg fl1) (isSynchronized fl1) (frameType d) (payload d ! 0)"
  obtain fl2 where fl2: "FILTER_filter (frameType d) (payload d ! 0) fl1 = Ok (?p, fl2)"
      "filter_inv fl2" "FILTER_cfg fl2 = FILTER_cfg fl1" "isSynchronized fl2 = isSynchronized fl1"
    using FILTER_filter_spec [OF fl1(1), of "frameType d" "payload d ! 0"] Cons.prems(4) x by auto
  let ?rest = "passed_frames (FILTER_cfg fl2) (isSynchronized fl2) xs"
  have pf: "passed_frames (FILTER_cfg fl) (isSynchronized fl) (x # xs) = (if ?p then [r] else []) @ ?rest"
    using x fl1 fl2 by (simp add: Let_def)
  have types: "\<forall>(r, d)\<in>set xs. beast_type (frameType d)" using Cons.prems(4) by simp
  show ?case
  proof (cases ?p)
    case True
    obtain b2 where b2: "BUF_commitFrame f b1 = Ok b2" "buf_good b2" "newFrame b2 = None" "currentFrame b2 = currentFrame b1"
      "queued b2 = queued b1 @ [r]" "held b2 = held b1" "capacity b2 = capacity b1" "buf_cfg b2 = buf_cfg b1"
      using commit_ok [OF b1(1,5)] b1(4) by auto
    have "pools_not_empty (buf_cfg b2)" using Cons.prems(5) b1 b2 by simp
    from newFrame_push [OF b2(2,3) this] obtain g b3 where b3: "BUF_newFrame (True, True) b2 = Ok (g, b3)" "buf_good b3"
      "newFrame b3 = Some g" "currentFrame b3 = currentFrame b2" "queued b3 = keep_last room (queued b2)" "held b3 = held b2"
      "capacity b3 = capacity b2" "buf_cfg b3 = buf_cfg b2"
      using b1 b2 by (auto simp: room_def)
    have room: "capacity b3 - 1 - length (held b3) = room" using b1 b2 b3 by (simp add: room_def)
    have "pools_not_empty (buf_cfg b3)" "length (queued b3) \<le> capacity b3 - 1 - length (held b3)"
      using Cons.prems(5) b1 b2 b3 room by simp_all
    from Cons.IH [OF b3(2,3) fl2(2) types this, unfolded room] obtain b' fl' where
      b': "recv_loop (map (\<lambda>x. (Some x, (True, True))) xs @ [(None, m)]) g b3 fl2 = Ok (None, b', fl')"
      "buf_good b'" "newFrame b' = None" "filter_inv fl'" "currentFrame b' = currentFrame b3" "held b' = held b3"
      "queued b' = keep_last room (queued b3 @ ?rest)" by blast
    have "queued b' = keep_last room (queued b @ passed_frames (FILTER_cfg fl) (isSynchronized fl) (x # xs))"
      unfolding pf b'(7) b3(5) keep_last_append using True b1 b2 by simp
    then show ?thesis
      using x True b1_def fl1_def fl2(1) b1(3,6) b2(1,4,6) b3(1,4,6) b'(1-6) by (simp add: Let_def room_def)
  next
    case False
    have "pools_not_empty (buf_cfg b1)" "length (queued b1) \<le> capacity b1 - 1 - length (held b1)"
      using Cons.prems(5,6) b1 by simp_all
    from Cons.IH [OF b1(1,5) fl2(2) types this] obtain b' fl' where
      b': "recv_loop (map (\<lambda>x. (Some x, (True, True))) xs @ [(None, m)]) f b1 fl2 = Ok (None, b', fl')"
      "buf_good b'" "newFrame b' = None" "filter_inv fl'" "currentFrame b' = currentFrame b1" "held b' = held b1"
      "queued b' = keep_last room (queued b1 @ ?rest)" using b1(3,7) by (auto simp: room_def)
    have "queued b' = keep_last room (queued b @ passed_frames (FILTER_cfg fl) (isSynchronized fl) (x # xs))"
      unfolding pf b'(7) using False b1(2) by simp
    then show ?thesis
      using x False b1_def fl1_def fl2(1) b1(3,6) b'(1-6) by (simp add: Let_def room_def)
  qed
qed

lemma recv_session_commits:
  assumes "buf_good b" "newFrame b = None" "filter_inv fl" "\<forall>(r, d)\<in>set xs. beast_type (frameType d)"
    and "pools_not_empty (buf_cfg b)"
  shows "\<exists>b' fl'. recv_session (True, True) (map (\<lambda>x. (Some x, (True, True))) xs @ [(None, m)]) b fl = Ok (None, b', fl')
    \<and> buf_good b' \<and> newFrame b' = None \<and> filter_inv fl' \<and> currentFrame b' = currentFrame b \<and> held b' = held b
    \<and> queued b' = keep_last (capacity b - 1 - length (held b)) (queued b @ passed_frames (FILTER_cfg fl) False xs)"
proof -
  obtain f b1 where b1: "BUF_newFrame (True, True) b = Ok (f, b1)" "buf_good b1" "newFrame b1 = Some f"
    "currentFrame b1 = currentFrame b" "queued b1 = keep_last (capacity b - 1 - length (held b)) (queued b)" "held b1 = held b"
    "capacity b1 = capacity b" "buf_cfg b1 = buf_cfg b"
    using newFrame_push [OF assms(1,2,5)] by blast
  have fl: "filter_inv (FILTER_reset fl)" "FILTER_cfg (FILTER_reset fl) = FILTER_cfg fl"
    "isSynchronized (FILTER_reset fl) = False"
    using assms(3) filter_inv_ops(1) by (auto simp: FILTER_reset_def)
  have room: "pools_not_empty (buf_cfg b1)" "length (queued b1) \<le> capacity b1 - 1 - length (held b1)"
    using assms(5) b1 by simp_all
  show ?thesis
    using recv_loop_commits [OF b1(2,3) fl(1) assms(4) room, where m = m] b1 fl(2,3)
    by (simp add: recv_session_def keep_last_append)
qed

section \<open>What the relay sends\<close>

definition frame_fits :: "raw_frame \<Rightarrow> bool" where
  "frame_fits r \<longleftrightarrow> unat (rawLen r) \<le> length (raw r)"

definition wire_bytes :: "raw_frame \<Rightarrow> u8 list" where
  "wire_bytes r = take (unat (rawLen r)) (raw r)"

lemma sendFrame_bytes_ok: "frame_fits r \<Longrightarrow> sendFrame_bytes r = Ok (wire_bytes r)"
  by (simp add: sendFrame_bytes_def frame_fits_def wire_bytes_def)

section \<open>The other threads\<close>

text \<open>What the other threads may do to the buffer: any calls but those of the consumer. A call that is not
  allowed in its state, or that would fault, is not made.\<close>

definition consumer_call :: "buf_call \<Rightarrow> bool" where
  "consumer_call c \<longleftrightarrow> c = Get \<or> c = Release \<or> c = Put"

fun others :: "buf_call list \<Rightarrow> buffer \<Rightarrow> buffer" where
  "others [] b = b"
| "others (c # calls) b =
    (if \<not> consumer_call c \<and> buf_enabled c b
     then (case buf_exec c b of Inl e \<Rightarrow> others calls b | Inr t \<Rightarrow> others calls t)
     else others calls b)"

definition writes_fit :: "buf_call list \<Rightarrow> bool" where
  "writes_fit calls \<longleftrightarrow> (\<forall>r. Write r \<in> set calls \<longrightarrow> frame_fits r)"

definition all_fit :: "buffer \<Rightarrow> bool" where
  "all_fit b \<longleftrightarrow> (\<forall>f. frame_fits (contents b f))"

lemma all_fit_bytes: "all_fit b \<Longrightarrow> sendFrame_bytes (contents b f) = Ok (wire_bytes (contents b f))"
  using sendFrame_bytes_ok unfolding all_fit_def by blast

text \<open>They leave the frame of the consumer alone.\<close>

lemma other_step:
  assumes good: "buf_good b" and c: "\<not> consumer_call c" "buf_enabled c b" "buf_exec c b = Ok t"
    and fit: "all_fit b" "\<forall>r. c = Write r \<longrightarrow> frame_fits r"
  shows "currentFrame t = currentFrame b \<and> held t = held b \<and> all_fit t"
proof -
  have inv: "buf_inv b" using good by (simp add: buf_good_def)
  have client: "same_client b t \<Longrightarrow> ?thesis"
    using fit(1) by (simp add: same_client_def held_def all_fit_def)
  have gc: "gc b = Ok t \<Longrightarrow> ?thesis" using gc_ok [OF inv] client by auto
  show ?thesis
  proof (cases c)
    case (New m)
    have new: "newFrame b = None" using c(2) New by simp
    obtain f u where u: "getFrameFromPool m b = Ok (f, u)" "t = u\<lparr>newFrame := Some f\<rparr>"
      using c(3) New by (auto simp: BUF_newFrame_def bind_ok_eq_Inr split: if_splits prod.splits)
    have "currentFrame u = currentFrame b \<and> contents u = contents b"
    proof (cases rule: getFrameFromPool_cases [OF inv new, where m = m, case_names keep drop fault])
      case (keep f' s')
      then show ?thesis using u(1) by (simp add: same_client_def)
    next
      case (drop f' q s')
      then show ?thesis using u(1) by (simp add: same_client_def)
    next
      case fault
      then show ?thesis using u(1) by simp
    qed
    then show ?thesis using u(2) fit(1) by (simp add: held_def all_fit_def)
  next
    case (Write r)
    then obtain f where f: "newFrame b = Some f" using c(2) by auto
    have "t = write_frame f r b" using c(3) Write f by simp
    then show ?thesis
      using write_frame_ok [OF good f, of r] fit Write by (simp add: all_fit_def write_frame_def)
  next
    case Commit
    then obtain f where f: "newFrame b = Some f" using c(2) by auto
    then show ?thesis
      using c(3) Commit fit(1) by (auto simp: BUF_commitFrame_def Let_def held_def all_fit_def split: if_splits)
  next
    case Abort
    then obtain f where f: "newFrame b = Some f" using c(2) by auto
    then show ?thesis using c(3) Abort fit(1) by (auto simp: BUF_abortFrame_def held_def all_fit_def)
  next
    case Gc_turn
    then have "gc b = Ok t \<or> t = b" using c(3) by (auto simp: gc_turn_def split: if_splits)
    then show ?thesis
    proof
      assume "t = b"
      then show ?thesis using fit(1) by simp
    qed (rule gc)
  next
    case Collect
    then have "gc b = Ok t" using c(3) by (simp add: BUF_runGC_def)
    then show ?thesis by (rule gc)
  qed (use c fit(1) in \<open>auto simp: consumer_call_def BUF_flush_def buf_resetStats_def held_def all_fit_def\<close>)
qed

lemma committed_delivered_other: "\<not> consumer_call c \<Longrightarrow> delivered_by c b = []"
  by (cases c) (simp_all add: consumer_call_def)

text \<open>What they did is a run of the buffer.\<close>

definition run_of_others :: "buf_call list \<Rightarrow> buffer \<Rightarrow> buf_call list \<Rightarrow> raw_frame list \<Rightarrow> buffer \<Rightarrow> bool" where
  "run_of_others calls b tr cs t \<longleftrightarrow> buf_run tr b = Some (t, cs, []) \<and> subseq tr calls \<and> list_all (\<lambda>c. \<not> consumer_call c) tr
     \<and> buf_good t \<and> currentFrame t = currentFrame b \<and> held t = held b \<and> all_fit t"

lemma others_run:
  assumes "buf_good b" "all_fit b" "writes_fit calls"
  shows "\<exists>tr cs. run_of_others calls b tr cs (others calls b)"
  using assms
proof (induction calls arbitrary: b)
  case Nil
  then show ?case by (intro exI [of _ "[]"]) (simp add: run_of_others_def)
next
  case (Cons c calls)
  have wf: "writes_fit calls" using Cons.prems(3) by (auto simp: writes_fit_def)
  show ?case
  proof (cases "\<exists>t. \<not> consumer_call c \<and> buf_enabled c b \<and> buf_exec c b = Ok t")
    case False
    then have "others (c # calls) b = others calls b" by (auto split: sum.splits)
    then show ?thesis
      using Cons.IH [OF Cons.prems(1,2) wf] by (auto simp: run_of_others_def)
  next
    case True
    then obtain t where t: "\<not> consumer_call c" "buf_enabled c b" "buf_exec c b = Ok t" by blast
    have st: "currentFrame t = currentFrame b" "held t = held b" "all_fit t"
      using other_step [OF Cons.prems(1) t Cons.prems(2)] Cons.prems(3) by (auto simp: writes_fit_def)
    obtain tr cs where tr: "run_of_others calls t tr cs (others calls t)"
      using Cons.IH [OF step_okD [OF Cons.prems(1) t(2,3)] st(3) wf] by blast
    then have "run_of_others (c # calls) b (c # tr) (committed_by c b @ cs) (others calls t)"
      using t st(1,2) committed_delivered_other [OF t(1)] by (simp add: run_of_others_def)
    then show ?thesis using t by auto
  qed
qed

lemma buf_run_append:
  "buf_run xs s = Some (t, cs, ds) \<Longrightarrow> buf_run ys t = Some (u, cs', ds') \<Longrightarrow> buf_run (xs @ ys) s = Some (u, cs @ cs', ds @ ds')"
proof (induction xs arbitrary: s cs ds)
  case (Cons x xs)
  then obtain v a b where "buf_enabled x s" "buf_exec x s = Ok v" "buf_run xs v = Some (t, a, b)"
    "cs = committed_by x s @ a" "ds = delivered_by x s @ b"
    by (auto split: if_splits sum.splits)
  then show ?case using Cons.IH [of v a b] Cons.prems(2) by simp
qed simp

section \<open>Turns of the relay\<close>

text \<open>A turn with what the other threads do meanwhile, as calls; and what the relay made of it: the frame it
  sent, or none for a keep-alive, and whether that succeeded.\<close>

record relay_turn =
  t_before :: "buf_call list"
  t_waits :: "(u32 \<times> buf_call list) list"
  t_sending :: "buf_call list"
  t_sent :: bool

definition relay_event_of :: "relay_turn \<Rightarrow> relay_event" where
  "relay_event_of t = \<lparr>before = others (t_before t), wakeups = map (map_prod id others) (t_waits t),
     sending = others (t_sending t), sent = t_sent t\<rparr>"

definition turn_calls :: "relay_turn \<Rightarrow> buf_call list" where
  "turn_calls t = t_before t @ concat (map snd (t_waits t)) @ t_sending t"

text \<open>The condition variable works, and what is written into a frame fits it.\<close>

definition turn_ok :: "relay_turn \<Rightarrow> bool" where
  "turn_ok t \<longleftrightarrow> fst ` set (t_waits t) \<subseteq> {0, ETIMEDOUT} \<and> writes_fit (turn_calls t)"

type_synonym relayed = "raw_frame option \<times> bool"

definition message :: "raw_frame option \<Rightarrow> u8 list" where
  "message x = (case x of None \<Rightarrow> keepalive_bytes | Some r \<Rightarrow> wire_bytes r)"

definition relay_calls :: "relayed \<Rightarrow> buf_call list" where
  "relay_calls m = (case m of (None, ok) \<Rightarrow> [] | (Some r, ok) \<Rightarrow> [Get, if ok then Release else Put])"

definition delivered :: "relayed \<Rightarrow> raw_frame list" where
  "delivered m = (if snd m then opt_list (fst m) else [])"

text \<open>What a run of the relay has done, with the calls of all threads on the buffer: those of the relay are
  exactly a frame taken and given back for each one sent, the other ones are those of the other
  threads, in order; all messages but the last were sent, and a frame that was not is first in the
  queue again.\<close>

definition relayed :: "relay_turn list \<Rightarrow> buffer \<Rightarrow> relayed list \<Rightarrow> buf_call list \<Rightarrow> raw_frame list \<Rightarrow> buffer \<Rightarrow> bool" where
  "relayed turns b log tr cs b' \<longleftrightarrow> buf_run tr b = Some (b', cs, concat (map delivered log))
     \<and> filter consumer_call tr = concat (map relay_calls log)
     \<and> subseq (filter (\<lambda>c. \<not> consumer_call c) tr) (concat (map turn_calls turns))
     \<and> currentFrame b' = None \<and> list_all snd (butlast log)
     \<and> (\<forall>r. log \<noteq> [] \<and> last log = (Some r, False) \<longrightarrow> (\<exists>rs. outstanding b' = r # rs))"

definition relay_result :: "relayed list \<Rightarrow> buffer \<Rightarrow> buffer \<times> (u8 list \<times> bool) list \<times> bool" where
  "relay_result log b' = (b', map (map_prod message id) log, log \<noteq> [] \<and> \<not> snd (last log))"

lemma others_filter:
  "list_all (\<lambda>c. \<not> consumer_call c) tr \<Longrightarrow> filter consumer_call tr = []"
  "list_all (\<lambda>c. \<not> consumer_call c) tr \<Longrightarrow> filter (\<lambda>c. \<not> consumer_call c) tr = tr"
  by (induction tr) auto

text \<open>Waiting for a frame.\<close>

lemma getFrame_run:
  assumes "buf_good b" "currentFrame b = None" "all_fit b" "fst ` set ws \<subseteq> {0, ETIMEDOUT}"
    and "writes_fit (concat (map snd ws))"
  shows "\<exists>r tr cs t. BUF_getFrameTimeout (map (map_prod id others) ws) b = Ok r
    \<and> run_of_others (concat (map snd ws)) b tr cs t
    \<and> (r = Waiting \<or> r = Timed_out t \<or> (\<exists>f q. queue t = f # q \<and> r = Ready f (t\<lparr>queue := q, currentFrame := Some f\<rparr>)))"
  using assms
proof (induction ws arbitrary: b)
  case Nil
  have "run_of_others [] b [] [] b" using Nil by (simp add: run_of_others_def)
  then show ?case
    using Nil by (cases "queue b") (auto simp: BUF_getFrameTimeout_def take_current_def shift_queue_def intro!: exI)
next
  case (Cons w ws)
  obtain e calls where w: "w = (e, calls)" by fastforce
  show ?case
  proof (cases "queue b")
    case (Cons f q)
    have "run_of_others (concat (map snd (w # ws))) b [] [] b" using Cons.prems(1,3) by (simp add: run_of_others_def)
    then show ?thesis
      using Cons Cons.prems(2)
      by (intro exI [of _ "Ready f (b\<lparr>queue := q, currentFrame := Some f\<rparr>)"] exI [of _ "[]"] exI [of _ b])
        (simp add: BUF_getFrameTimeout_def take_current_def shift_queue_def)
  next
    case Nil
    have wf: "writes_fit calls" "writes_fit (concat (map snd ws))" using Cons.prems(5) by (auto simp: w writes_fit_def)
    obtain tr cs where tr: "run_of_others calls b tr cs (others calls b)"
      using others_run [OF Cons.prems(1,3) wf(1)] by blast
    define u where "u = others calls b"
    have u: "buf_good u" "currentFrame u = None" "all_fit u" "buf_run tr b = Some (u, cs, [])"
      using tr Cons.prems(2) by (simp_all add: run_of_others_def u_def)
    show ?thesis
    proof (cases "e = ETIMEDOUT")
      case True
      have "run_of_others (concat (map snd (w # ws))) b tr cs u"
        using tr by (auto simp: run_of_others_def u_def w intro: subseq_append' list_emb_prefix)
      moreover have "BUF_getFrameTimeout (map (map_prod id others) (w # ws)) b = Ok (Timed_out u)"
        using Nil Cons.prems(2) True by (simp add: BUF_getFrameTimeout_def w u_def)
      ultimately show ?thesis by blast
    next
      case False
      then have e: "e = 0" using Cons.prems(4) by (simp add: w)
      have "BUF_getFrameTimeout (map (map_prod id others) (w # ws)) b = BUF_getFrameTimeout (map (map_prod id others) ws) u"
        using Nil Cons.prems(2) u(2) e by (simp add: BUF_getFrameTimeout_def w u_def ETIMEDOUT_def)
      moreover have "fst ` set ws \<subseteq> {0, ETIMEDOUT}" using Cons.prems(4) by simp
      from Cons.IH [OF u(1-3) this wf(2)] obtain r tr2 cs2 t where
        r: "BUF_getFrameTimeout (map (map_prod id others) ws) u = Ok r" "run_of_others (concat (map snd ws)) u tr2 cs2 t"
        "r = Waiting \<or> r = Timed_out t \<or> (\<exists>f q. queue t = f # q \<and> r = Ready f (t\<lparr>queue := q, currentFrame := Some f\<rparr>))"
        by blast
      moreover have "run_of_others (concat (map snd (w # ws))) b (tr @ tr2) (cs @ cs2) t"
        using tr r(2) buf_run_append [of tr b u cs "[]" tr2 t cs2 "[]"] u
        by (auto simp: run_of_others_def w list_emb_append_mono)
      ultimately show ?thesis by metis
    qed
  qed
qed

lemma release_put_ok:
  assumes "buf_good b" "currentFrame b = Some f" "all_fit b"
  shows "\<exists>b'. BUF_releaseFrame f b = Ok b' \<and> buf_run [Release] b = Some (b', [], held b) \<and> buf_good b' \<and> currentFrame b' = None
      \<and> all_fit b' \<and> queued b' = queued b"
    and "\<exists>b'. BUF_putFrame f b = Ok b' \<and> buf_run [Put] b = Some (b', [], []) \<and> buf_good b' \<and> currentFrame b' = None
      \<and> all_fit b' \<and> queued b' = held b @ queued b"
proof -
  obtain b' where b': "BUF_releaseFrame f b = Ok b'" using assms(2) by (auto simp: BUF_releaseFrame_def)
  then have "buf_good b'" using step_okD [OF assms(1), of Release] assms(2) by simp
  then show "\<exists>b'. BUF_releaseFrame f b = Ok b' \<and> buf_run [Release] b = Some (b', [], held b) \<and> buf_good b' \<and> currentFrame b' = None
      \<and> all_fit b' \<and> queued b' = queued b"
    using b' assms(2,3) by (auto simp: BUF_releaseFrame_def held_def queued_def all_fit_def)
  obtain c where c: "BUF_putFrame f b = Ok c" using assms(2) by (auto simp: BUF_putFrame_def)
  then have "buf_good c" using step_okD [OF assms(1), of Put] assms(2) by simp
  then show "\<exists>b'. BUF_putFrame f b = Ok b' \<and> buf_run [Put] b = Some (b', [], []) \<and> buf_good b' \<and> currentFrame b' = None
      \<and> all_fit b' \<and> queued b' = held b @ queued b"
    using c assms(2,3) by (auto simp: BUF_putFrame_def held_def queued_def all_fit_def)
qed

text \<open>One turn that ends with a message, sent or not.\<close>

definition one_turn :: "relay_turn \<Rightarrow> buffer \<Rightarrow> relayed \<Rightarrow> buf_call list \<Rightarrow> raw_frame list \<Rightarrow> buffer \<Rightarrow> bool" where
  "one_turn t b m tr cs u \<longleftrightarrow> buf_run tr b = Some (u, cs, delivered m) \<and> filter consumer_call tr = relay_calls m
     \<and> subseq (filter (\<lambda>c. \<not> consumer_call c) tr) (turn_calls t)
     \<and> buf_good u \<and> currentFrame u = None \<and> all_fit u \<and> (\<forall>r. m = (Some r, False) \<longrightarrow> (\<exists>rs. outstanding u = r # rs))"

lemma relayed_Cons:
  assumes "one_turn t b m tr0 cs0 u" "snd m" "relayed turns u log tr cs b'"
  shows "relayed (t # turns) b (m # log) (tr0 @ tr) (cs0 @ cs) b'"
  using assms buf_run_append [of tr0 b u cs0 "delivered m" tr b' cs "concat (map delivered log)"]
  by (auto simp: relayed_def one_turn_def list_emb_append_mono)

lemma relayed_last:
  assumes "one_turn t b m tr0 cs0 u"
  shows "relayed (t # turns) b [m] tr0 cs0 u"
  using assms by (auto simp: relayed_def one_turn_def)

definition relay_on :: "relay_event list \<Rightarrow> relayed \<Rightarrow> buffer \<Rightarrow> fault + (buffer \<times> (u8 list \<times> bool) list \<times> bool)" where
  "relay_on es m u =
    (if snd m then bind_ok (relay_loop es u) (\<lambda>(b, ms, e). Ok (b, (message (fst m), True) # ms, e))
     else Ok (u, [(message (fst m), False)], True))"

lemma subseq_turn:
  assumes "subseq tr0 (t_before t)" "subseq tr1 (concat (map snd (t_waits t)))" "subseq tr2 (t_sending t)"
  shows "subseq (tr0 @ tr1 @ tr2) (turn_calls t)" "subseq tr0 (turn_calls t @ cs)"
  using assms list_emb_append_mono [of "(=)" tr0 "t_before t" "[]" "concat (map snd (t_waits t)) @ t_sending t @ cs"]
  by (auto simp: turn_calls_def intro!: list_emb_append_mono)

lemma relay_turn:
  assumes "buf_good b" "currentFrame b = None" "all_fit b" "turn_ok t"
  shows "(\<exists>tr cs u. relay_loop (relay_event_of t # es) b = Ok (u, [], False) \<and> relayed (t # turns) b [] tr cs u \<and> buf_good u)
    \<or> (\<exists>m tr cs u. one_turn t b m tr cs u \<and> relay_loop (relay_event_of t # es) b = relay_on es m u)"
proof -
  have wf: "writes_fit (t_before t)" "writes_fit (concat (map snd (t_waits t)))" "writes_fit (t_sending t)"
    "fst ` set (t_waits t) \<subseteq> {0, ETIMEDOUT}"
    using assms(4) by (auto simp: turn_ok_def turn_calls_def writes_fit_def)
  define b0 where "b0 = others (t_before t) b"
  obtain tr0 cs0 where 0: "run_of_others (t_before t) b tr0 cs0 b0"
    using others_run [OF assms(1,3) wf(1)] by (auto simp: b0_def)
  have b0: "buf_run tr0 b = Some (b0, cs0, [])" "subseq tr0 (t_before t)" "list_all (\<lambda>c. \<not> consumer_call c) tr0"
    "buf_good b0" "currentFrame b0 = None" "all_fit b0"
    using 0 assms(2) by (simp_all add: run_of_others_def)
  obtain r tr1 cs1 b1 where r: "BUF_getFrameTimeout (map (map_prod id others) (t_waits t)) b0 = Ok r"
    and 1: "run_of_others (concat (map snd (t_waits t))) b0 tr1 cs1 b1"
    and rcases: "r = Waiting \<or> r = Timed_out b1 \<or> (\<exists>f q. queue b1 = f # q \<and> r = Ready f (b1\<lparr>queue := q, currentFrame := Some f\<rparr>))"
    using getFrame_run [OF b0(4-6) wf(4,2)] by blast
  have b1: "buf_run tr1 b0 = Some (b1, cs1, [])" "subseq tr1 (concat (map snd (t_waits t)))" "list_all (\<lambda>c. \<not> consumer_call c) tr1"
    "buf_good b1" "currentFrame b1 = None" "all_fit b1"
    using 1 b0(5) by (simp_all add: run_of_others_def)
  have run1: "buf_run (tr0 @ tr1) b = Some (b1, cs0 @ cs1, [])" using buf_run_append [OF b0(1) b1(1)] by simp
  note ev = r relay_event_of_def b0_def [symmetric]
  consider (wait) "r = Waiting" | (idle) "r = Timed_out b1"
    | (frame) f q where "queue b1 = f # q" "r = Ready f (b1\<lparr>queue := q, currentFrame := Some f\<rparr>)" using rcases by blast
  then show ?thesis
  proof cases
    case wait
    have "relayed (t # turns) b [] tr0 cs0 b0"
      using b0 subseq_turn(2) [OF b0(2) b1(2) list_emb_Nil] by (simp add: relayed_def others_filter)
    then show ?thesis using wait b0(4) ev by auto
  next
    case idle
    define b2 where "b2 = others (t_sending t) b1"
    obtain tr2 cs2 where "run_of_others (t_sending t) b1 tr2 cs2 b2"
      using others_run [OF b1(4,6) wf(3)] by (auto simp: b2_def)
    then have b2: "buf_run tr2 b1 = Some (b2, cs2, [])" "subseq tr2 (t_sending t)" "list_all (\<lambda>c. \<not> consumer_call c) tr2"
      "buf_good b2" "currentFrame b2 = None" "all_fit b2"
      using b1(5) by (simp_all add: run_of_others_def)
    have "one_turn t b (None, t_sent t) (tr0 @ tr1 @ tr2) (cs0 @ cs1 @ cs2) b2"
      using buf_run_append [OF run1 b2(1)] subseq_turn(1) [OF b0(2) b1(2) b2(2)] b0(3) b1(3) b2
      by (simp add: one_turn_def delivered_def relay_calls_def others_filter)
    moreover have "relay_loop (relay_event_of t # es) b = relay_on es (None, t_sent t) b2"
      using idle ev by (simp add: relay_on_def message_def b2_def Let_def)
    ultimately show ?thesis by blast
  next
    case (frame f q)
    let ?c = "b1\<lparr>queue := q, currentFrame := Some f\<rparr>"
    let ?m = "(Some (contents b1 f), t_sent t)"
    have get: "buf_enabled Get b1" "buf_exec Get b1 = Ok ?c"
      using frame(1) b1(5) by (simp_all add: BUF_getFrameTimeout_def take_current_def shift_queue_def)
    have c: "buf_good ?c" "all_fit ?c" "held ?c = [contents b1 f]" "buf_run [Get] b1 = Some (?c, [], [])"
      using step_okD [OF b1(4) get] b1(6) get by (simp_all add: all_fit_def held_def)
    define b2 where "b2 = others (t_sending t) ?c"
    obtain tr2 cs2 where "run_of_others (t_sending t) ?c tr2 cs2 b2"
      using others_run [OF c(1,2) wf(3)] by (auto simp: b2_def)
    then have b2: "buf_run tr2 ?c = Some (b2, cs2, [])" "subseq tr2 (t_sending t)" "list_all (\<lambda>c. \<not> consumer_call c) tr2"
      "buf_good b2" "currentFrame b2 = Some f" "all_fit b2" "held b2 = [contents b1 f]"
      using c(3) by (simp_all add: run_of_others_def)
    have run2: "buf_run (tr0 @ tr1 @ Get # tr2) b = Some (b2, cs0 @ cs1 @ cs2, [])"
      using buf_run_append [OF run1 buf_run_append [OF c(4) b2(1)]] by simp
    have msg: "sendFrame_bytes (contents b1 f) = Ok (wire_bytes (contents b1 f))"
      by (rule all_fit_bytes [OF b1(6)])
    have cons: "consumer_call Get" "consumer_call Release" "consumer_call Put" by (simp_all add: consumer_call_def)
    have sub: "subseq (filter (\<lambda>c. \<not> consumer_call c) (tr0 @ tr1 @ Get # tr2)) (turn_calls t)"
      "filter consumer_call (tr0 @ tr1 @ Get # tr2) = [Get]"
      using subseq_turn(1) [OF b0(2) b1(2) b2(2)]
      by (simp_all add: others_filter [OF b0(3)] others_filter [OF b1(3)] others_filter [OF b2(3)] cons)
    obtain d where d: "BUF_releaseFrame f b2 = Ok d" "buf_run [Release] b2 = Some (d, [], held b2)" "buf_good d"
      "currentFrame d = None" "all_fit d"
      using release_put_ok(1) [OF b2(4-6)] by blast
    obtain p where p: "BUF_putFrame f b2 = Ok p" "buf_run [Put] b2 = Some (p, [], [])" "buf_good p"
      "currentFrame p = None" "all_fit p" "queued p = held b2 @ queued b2"
      using release_put_ok(2) [OF b2(4-6)] by blast
    have loop: "relay_loop (relay_event_of t # es) b = relay_on es ?m (if t_sent t then d else p)"
      using frame(2) ev msg d(1) p(1) by (simp add: relay_on_def message_def b2_def Let_def)
    have "\<exists>tr cs. one_turn t b ?m tr cs (if t_sent t then d else p)"
    proof (cases "t_sent t")
      case True
      have "one_turn t b ?m (tr0 @ tr1 @ Get # tr2 @ [Release]) (cs0 @ cs1 @ cs2) d"
        using buf_run_append [OF run2 d(2)] sub cons True d b2(7)
        by (simp add: one_turn_def delivered_def relay_calls_def)
      then show ?thesis using True by auto
    next
      case False
      have "outstanding p = contents b1 f # queued b2" using p(4,6) b2(7) by (simp add: outstanding_held held_def)
      then have "one_turn t b ?m (tr0 @ tr1 @ Get # tr2 @ [Put]) (cs0 @ cs1 @ cs2) p"
        using buf_run_append [OF run2 p(2)] sub cons False p
        by (simp add: one_turn_def delivered_def relay_calls_def)
      then show ?thesis using False by auto
    qed
    then show ?thesis using loop by blast
  qed
qed

lemma relay_loop_relayed:
  assumes "buf_good b" "currentFrame b = None" "all_fit b" "\<forall>t\<in>set turns. turn_ok t"
  shows "\<exists>log tr cs b'. relay_loop (map relay_event_of turns) b = Ok (relay_result log b') \<and> relayed turns b log tr cs b'
    \<and> buf_good b'"
  using assms
proof (induction turns arbitrary: b)
  case Nil
  then show ?case
    by (intro exI [of _ "[]"] exI [of _ b]) (simp add: relay_result_def relayed_def)
next
  case (Cons t turns)
  have ok: "turn_ok t" "\<forall>t\<in>set turns. turn_ok t" using Cons.prems(4) by simp_all
  from relay_turn [OF Cons.prems(1-3) ok(1), of "map relay_event_of turns" turns] show ?case
  proof (elim disjE exE conjE)
    fix tr cs u
    assume "relay_loop (relay_event_of t # map relay_event_of turns) b = Ok (u, [], False)" "relayed (t # turns) b [] tr cs u" "buf_good u"
    then show ?thesis by (intro exI [of _ "[]"] exI [of _ tr] exI [of _ cs] exI [of _ u]) (simp add: relay_result_def)
  next
    fix m tr cs u
    assume m: "one_turn t b m tr cs u" "relay_loop (relay_event_of t # map relay_event_of turns) b = relay_on (map relay_event_of turns) m u"
    show ?thesis
    proof (cases "snd m")
      case False
      have "buf_good u" using m(1) by (simp add: one_turn_def)
      then show ?thesis
        using m(2) False relayed_last [OF m(1), of turns]
        by (intro exI [of _ "[m]"] exI [of _ tr] exI [of _ cs] exI [of _ u])
          (cases m; simp add: relay_result_def relay_on_def del: relay_loop.simps)
    next
      case True
      obtain log tr' cs' b' where IH: "relay_loop (map relay_event_of turns) u = Ok (relay_result log b')"
        "relayed turns u log tr' cs' b'" "buf_good b'"
        using Cons.IH [of u] m(1) ok(2) by (auto simp: one_turn_def)
      have "relay_loop (map relay_event_of (t # turns)) b = Ok (relay_result (m # log) b')"
        using m(2) True IH(1) by (cases m) (simp add: relay_result_def relay_on_def)
      then show ?thesis using relayed_Cons [OF m(1) True IH(2)] IH(3) by blast
    qed
  qed
qed

section \<open>When nothing new arrives\<close>

text \<open>A turn in which nothing wakes the relay before the timeout, and the answer of the network.\<close>

definition quiet_turn :: "bool \<Rightarrow> relay_turn" where
  "quiet_turn ok = \<lparr>t_before = [], t_waits = [(ETIMEDOUT, [])], t_sending = [], t_sent = ok\<rparr>"

lemma quiet_turn_ok: "turn_ok (quiet_turn ok)"
  by (simp add: quiet_turn_def turn_ok_def writes_fit_def turn_calls_def)

lemma quiet_step:
  assumes "buf_good b" "currentFrame b = None" "all_fit b"
  shows "\<exists>u. relay_loop (relay_event_of (quiet_turn ok) # es) b
      = relay_on es (case outstanding b of [] \<Rightarrow> (None, ok) | r # rs \<Rightarrow> (Some r, ok)) u
    \<and> buf_good u \<and> currentFrame u = None \<and> all_fit u
    \<and> outstanding u = (if ok then tl (outstanding b) else outstanding b)"
proof (cases "queue b")
  case Nil
  then show ?thesis
    using assms by (intro exI [of _ b]) (simp add: quiet_turn_def relay_event_of_def BUF_getFrameTimeout_def
        relay_on_def message_def outstanding_def Let_def)
next
  case (Cons f q)
  let ?c = "b\<lparr>queue := q, currentFrame := Some f\<rparr>"
  have get: "buf_enabled Get b" "buf_exec Get b = Ok ?c" "BUF_getFrameTimeout ws b = Ok (Ready f ?c)" for ws
    using Cons assms(2) by (cases ws; simp add: BUF_getFrameTimeout_def take_current_def shift_queue_def)+
  have c: "buf_good ?c" "currentFrame ?c = Some f" "all_fit ?c" "held ?c = [contents b f]" "queued ?c = map (contents b) q"
    using step_okD [OF assms(1) get(1,2)] assms(3) by (simp_all add: all_fit_def held_def queued_def)
  have msg: "sendFrame_bytes (contents b f) = Ok (wire_bytes (contents b f))"
    by (rule all_fit_bytes [OF assms(3)])
  have o: "outstanding b = contents b f # map (contents b) q" using Cons assms(2) by (simp add: outstanding_def)
  obtain d where d: "BUF_releaseFrame f ?c = Ok d" "buf_good d" "currentFrame d = None" "all_fit d" "queued d = queued ?c"
    using release_put_ok(1) [OF c(1-3)] by blast
  obtain p where p: "BUF_putFrame f ?c = Ok p" "buf_good p" "currentFrame p = None" "all_fit p" "queued p = held ?c @ queued ?c"
    using release_put_ok(2) [OF c(1-3)] by blast
  have od: "outstanding d = map (contents b) q" "outstanding p = outstanding b"
    using d p c(4,5) o by (simp_all add: outstanding_held held_def)
  show ?thesis
    using get(3) msg d p od o
    by (intro exI [of _ "if ok then d else p"])
      (simp add: quiet_turn_def relay_event_of_def relay_on_def message_def Let_def)
qed

lemma relay_loop_sends:
  assumes "buf_good b" "currentFrame b = None" "all_fit b"
  shows "\<exists>b'. relay_loop (map (\<lambda>ok. relay_event_of (quiet_turn ok)) oks) b
      = Ok (b', zip (map wire_bytes (outstanding b) @ replicate (length oks) keepalive_bytes)
                  (take (Suc (length (takeWhile (\<lambda>x. x) oks))) oks), \<not> list_all (\<lambda>x. x) oks)
    \<and> outstanding b' = drop (length (takeWhile (\<lambda>x. x) oks)) (outstanding b)"
  using assms
proof (induction oks arbitrary: b)
  case (Cons ok oks)
  have zip_rep: "zip (map wire_bytes xs @ replicate (Suc n) k) (take m ys)
      = zip (map wire_bytes xs @ replicate n k) (take m ys)"
    if "length ys = n" for xs n k m and ys :: "bool list"
    by (rule nth_equalityI) (use that in \<open>auto simp: nth_append simp del: replicate_Suc\<close>)
  obtain u where u: "relay_loop (relay_event_of (quiet_turn ok) # map (\<lambda>ok. relay_event_of (quiet_turn ok)) oks) b
      = relay_on (map (\<lambda>ok. relay_event_of (quiet_turn ok)) oks) (case outstanding b of [] \<Rightarrow> (None, ok) | r # rs \<Rightarrow> (Some r, ok)) u"
    "buf_good u" "currentFrame u = None" "all_fit u" "outstanding u = (if ok then tl (outstanding b) else outstanding b)"
    using quiet_step [OF Cons.prems] by metis
  from Cons.IH [OF u(2-4)] obtain b' where IH: "relay_loop (map (\<lambda>ok. relay_event_of (quiet_turn ok)) oks) u
      = Ok (b', zip (map wire_bytes (outstanding u) @ replicate (length oks) keepalive_bytes)
                  (take (Suc (length (takeWhile (\<lambda>x. x) oks))) oks), \<not> list_all (\<lambda>x. x) oks)"
    "outstanding b' = drop (length (takeWhile (\<lambda>x. x) oks)) (outstanding u)" by blast
  show ?case
  proof (cases ok)
    case False
    then show ?thesis
      using u(1,5) by (intro exI [of _ u]) (cases "outstanding b"; simp add: relay_on_def message_def del: relay_loop.simps)
  next
    case True
    then have "relay_loop (map (\<lambda>ok. relay_event_of (quiet_turn ok)) (ok # oks)) b
        = Ok (b', (message (case outstanding b of [] \<Rightarrow> None | r # rs \<Rightarrow> Some r), True)
            # zip (map wire_bytes (tl (outstanding b)) @ replicate (length oks) keepalive_bytes)
                  (take (Suc (length (takeWhile (\<lambda>x. x) oks))) oks), \<not> list_all (\<lambda>x. x) oks)"
      using u IH by (simp add: relay_on_def split: list.split)
    note run = this
    show ?thesis
    proof (cases "outstanding b")
      case Nil
      then show ?thesis using run True IH(2) u(5) by (simp add: message_def del: relay_loop.simps)
    next
      case (Cons r rs)
      then show ?thesis
        using run True IH(2) u(5) zip_rep [OF refl] by (simp add: message_def del: relay_loop.simps replicate_Suc)
    qed
  qed
qed simp

section \<open>Properties\<close>

definition sample_inputs :: "(raw_frame \<times> decoded_frame) list" where
  "sample_inputs =
    [(\<lparr>rawLen = 2, raw = [1, 2]\<rparr>, \<lparr>frameType = OPENSKY_FRAME_TYPE_MODE_S_LONG, mlat = 1, siglevel = 0,
        payloadLen = 14, payload = [0x8d]\<rparr>),
     (\<lparr>rawLen = 2, raw = [3, 4]\<rparr>, \<lparr>frameType = OPENSKY_FRAME_TYPE_STATUS, mlat = 2, siglevel = 0,
        payloadLen = 14, payload = [0]\<rparr>),
     (\<lparr>rawLen = 2, raw = [5, 6]\<rparr>, \<lparr>frameType = OPENSKY_FRAME_TYPE_MODE_S_LONG, mlat = 3, siglevel = 0,
        payloadLen = 14, payload = [0x8d]\<rparr>),
     (\<lparr>rawLen = 2, raw = [7, 8]\<rparr>, \<lparr>frameType = OPENSKY_FRAME_TYPE_MODE_S_LONG, mlat = 4, siglevel = 0,
        payloadLen = 14, payload = [0x8d]\<rparr>)]"

lemma sample_good: "buf_good (sample_buffer sample_cfg)"
  using buf_reach_good [OF sample_reach [OF sample_cfg_ok]] by simp

lemma sample_buffer_facts:
  "newFrame (sample_buffer sample_cfg) = None" "held (sample_buffer sample_cfg) = []"
  "queued (sample_buffer sample_cfg) = []" "capacity (sample_buffer sample_cfg) = 2" "\<not> history (buf_cfg (sample_buffer sample_cfg))"
  by (simp_all add: sample_buffer_def sample_cfg_def capacity_def held_def queued_def)

lemma sample_passed: "passed_frames (FILTER_cfg sample_filter) False sample_inputs
    = [\<lparr>rawLen = 2, raw = [5, 6]\<rparr>, \<lparr>rawLen = 2, raw = [7, 8]\<rparr>]"
  by (simp add: sample_inputs_def sample_filter_def passes_def frame_type_defs downlink_format_def)

text \<open>C21: while memory is available (and dynamic pools, with history, are not configured empty), one
  connection of the input puts exactly the frames that pass the filter behind what is already
  queued, in order; if the buffer runs full the oldest queued frames are given up, so that the last
  ones that fit beside the frame being filled and the one the consumer holds are kept. The filter
  starts unsynchronized, and when the input fails the frame being filled goes back to the pool.\<close>

theorem recv_commits_passing_frames:
  assumes "buf_reach b cs ds" "newFrame b = None" "filter_inv fl"
    and "\<forall>(r, d)\<in>set xs. beast_type (frameType d)"
    and "history (buf_cfg b) \<longrightarrow> dynBacklog (buf_cfg b) \<noteq> 0"
  shows "\<exists>b' fl'. recv_session (True, True) (map (\<lambda>x. (Some x, (True, True))) xs @ [(None, m)]) b fl = Ok (None, b', fl')
    \<and> newFrame b' = None \<and> held b' = held b
    \<and> queued b' = keep_last (capacity b - 1 - length (held b)) (queued b @ passed_frames (FILTER_cfg fl) False xs)"
proof -
  have "buf_good b" using buf_reach_good [OF assms(1)] by blast
  moreover have "pools_not_empty (buf_cfg b)" using assms(5) by (simp add: pools_not_empty_def)
  ultimately show ?thesis using recv_session_commits [OF _ assms(2-4)] by blast
qed

theorem recv_commits_passing_frames_witness:
  "\<exists>b' fl'. recv_session (True, True) (map (\<lambda>x. (Some x, (True, True))) sample_inputs @ [(None, (True, True))])
      (sample_buffer sample_cfg) sample_filter = Ok (None, b', fl')
    \<and> newFrame b' = None \<and> queued b' = [\<lparr>rawLen = 2, raw = [7, 8]\<rparr>]"
proof -
  have "\<forall>(r, d)\<in>set sample_inputs. beast_type (frameType d)"
    by (simp add: sample_inputs_def beast_type_def)
  then obtain b' fl' where
    "recv_session (True, True) (map (\<lambda>x. (Some x, (True, True))) sample_inputs @ [(None, (True, True))])
      (sample_buffer sample_cfg) sample_filter = Ok (None, b', fl')" "newFrame b' = None"
    "queued b' = keep_last 1 (passed_frames (FILTER_cfg sample_filter) False sample_inputs)"
    using recv_commits_passing_frames [OF sample_reach [OF sample_cfg_ok] sample_buffer_facts(1)
        sample_filter_inv, of sample_inputs "(True, True)"]
    by (auto simp: sample_buffer_facts)
  then show ?thesis by (simp add: sample_passed keep_last_def)
qed

text \<open>C12: whatever the other threads do to the buffer before, while and after the relay waits or sends, its
  messages are the frames it takes from the buffer, in the order they were committed and none of them
  twice, and keep-alives; it stops at the first message that cannot be sent. All it does to the
  buffer is to take a frame for each one sent and to release it, or to put the one that could not be
  sent back, which is then first in the queue. (The frames fit their arrays, and the condition
  variable reports no error.) While the others are quiet it sends the queued frames one by one, then
  keep-alives, and what was not sent is still there in order.\<close>

theorem relay_sends_in_order:
  assumes "buf_reach b cs ds" "currentFrame b = None" "\<forall>f. frame_fits (contents b f)"
    and "\<forall>t\<in>set turns. turn_ok t"
  shows "(\<exists>log tr cs' b'. relay_loop (map relay_event_of turns) b = Ok (relay_result log b')
      \<and> relayed turns b log tr cs' b'
      \<and> subseq (ds @ concat (map delivered log) @ outstanding b') (cs @ cs'))
    \<and> (\<exists>b'. relay_loop (map (\<lambda>ok. relay_event_of (quiet_turn ok)) oks) b
        = Ok (b', zip (map wire_bytes (outstanding b) @ replicate (length oks) keepalive_bytes)
                    (take (Suc (length (takeWhile (\<lambda>x. x) oks))) oks), \<not> list_all (\<lambda>x. x) oks)
      \<and> outstanding b' = drop (length (takeWhile (\<lambda>x. x) oks)) (outstanding b))"
proof -
  have good: "buf_good b" using buf_reach_good [OF assms(1)] by blast
  have fit: "all_fit b" unfolding all_fit_def by (rule assms(3))
  obtain log tr cs' b' where l: "relay_loop (map relay_event_of turns) b = Ok (relay_result log b')"
    "relayed turns b log tr cs' b'" using relay_loop_relayed [OF good assms(2) fit assms(4)] by blast
  then have "buf_run tr b = Some (b', cs', concat (map delivered log))" by (simp add: relayed_def)
  from buf_run_reach [OF this assms(1)] have "buf_reach b' (cs @ cs') (ds @ concat (map delivered log))" .
  then have "subseq (ds @ concat (map delivered log) @ outstanding b') (cs @ cs')"
    using buf_reach_good by fastforce
  then show ?thesis using l relay_loop_sends [OF good assms(2) fit, of oks] by blast
qed

text \<open>Two frames are queued; the first is sent, then a third one arrives, and the second cannot be sent.\<close>

theorem relay_sends_in_order_witness:
  "\<exists>b b' r rs. buf_run (take 11 sample_calls) (sample_buffer sample_cfg)
      = Some (b, [\<lparr>rawLen = 1, raw = [1]\<rparr>, \<lparr>rawLen = 1, raw = [2]\<rparr>, \<lparr>rawLen = 1, raw = [3]\<rparr>], [\<lparr>rawLen = 1, raw = [1]\<rparr>])
    \<and> relay_loop (map relay_event_of [quiet_turn True, (quiet_turn False)
         \<lparr>t_before := [New (True, True), Write \<lparr>rawLen = 1, raw = [4]\<rparr>, Commit]\<rparr>]) b
       = Ok (b', [([2], True), ([3], False)], True)
    \<and> outstanding b' = r # rs \<and> wire_bytes r = [3]"
proof -
  let ?turns = "[quiet_turn True, (quiet_turn False)\<lparr>t_before := [New (True, True), Write \<lparr>rawLen = 1, raw = [4]\<rparr>, Commit]\<rparr>]"
  have "\<exists>b b'. buf_run (take 11 sample_calls) (sample_buffer sample_cfg)
      = Some (b, [\<lparr>rawLen = 1, raw = [1]\<rparr>, \<lparr>rawLen = 1, raw = [2]\<rparr>, \<lparr>rawLen = 1, raw = [3]\<rparr>], [\<lparr>rawLen = 1, raw = [1]\<rparr>])
    \<and> currentFrame b = None \<and> (\<forall>f. frame_fits (contents b f))
    \<and> relay_loop (map relay_event_of ?turns) b = Ok (b', [([2], True), ([3], False)], True)"
    by (simp add: sample_calls_def sample_buffer_def sample_cfg_def buffer_defs upt_rec quiet_turn_def relay_event_of_def
        frame_fits_def sendFrame_bytes_def consumer_call_def)
  then obtain b b' where b: "buf_run (take 11 sample_calls) (sample_buffer sample_cfg)
      = Some (b, [\<lparr>rawLen = 1, raw = [1]\<rparr>, \<lparr>rawLen = 1, raw = [2]\<rparr>, \<lparr>rawLen = 1, raw = [3]\<rparr>], [\<lparr>rawLen = 1, raw = [1]\<rparr>])"
    "currentFrame b = None" "\<forall>f. frame_fits (contents b f)"
    and run: "relay_loop (map relay_event_of ?turns) b = Ok (b', [([2], True), ([3], False)], True)" by blast
  have ok: "\<forall>t\<in>set ?turns. turn_ok t"
    by (simp add: turn_ok_def quiet_turn_def writes_fit_def turn_calls_def frame_fits_def)
  obtain log tr cs' b1 where l: "relay_loop (map relay_event_of ?turns) b = Ok (relay_result log b1)" "relayed ?turns b log tr cs' b1"
    using relay_sends_in_order [OF buf_run_reach [OF b(1) sample_reach [OF sample_cfg_ok]] b(2,3) ok, THEN conjunct1] by blast
  then have "relay_result log b1 = (b', [([2], True), ([3], False)], True)" using run by (metis sum.inject(2))
  then have log: "relayed ?turns b log tr cs' b'" "map (map_prod message id) log = [([2], True), ([3], False)]"
    using l(2) by (simp_all add: relay_result_def)
  obtain x y where xy: "log = [x, y]" "message (fst y) = [3]" "\<not> snd y" using log(2) by (auto simp: map_eq_Cons_conv)
  then obtain r where r: "y = (Some r, False)" "wire_bytes r = [3]"
    by (cases y; cases "fst y") (auto simp: message_def keepalive_bytes_def)
  have "\<exists>rs. outstanding b' = r # rs" using log(1) xy(1) r(1) by (simp add: relayed_def)
  then show ?thesis using b(1) run r(2) by blast
qed

end
