(* ===== verification/Rc_Parser.thy ===== *)
theory Rc_Parser
  imports Core_Filter Util_Endec
begin

text \<open>
  The parser of the radarcape's beast stream (\<open>radarcape/rc-parser.c\<close>): synchronization,
  unescaping, decoding of header and payload, resynchronization after damaged frames, and the
  configuration commands. The receive buffer is the list of its bytes from \<open>bufCur\<close> to
  \<open>bufEnd\<close>; the input is the list of what the following \<open>RC_INPUT_read\<close> calls return, an empty
  chunk or the end of the list being a failure. The raw frame is the list of its \<open>rawLen\<close> bytes.
\<close>

section \<open>State\<close>

record RC_PARSER_Statistics =
  frameTypeUnknown :: u64
  outOfSync :: u64

record rc =
  rc_buf :: "u8 list"
  rc_in :: "u8 list list"
  rc_stats :: RC_PARSER_Statistics

datatype decode_status = DECODE_STATUS_OK | DECODE_STATUS_RESYNC | DECODE_STATUS_CONNFAIL

section \<open>Reading\<close>

definition discardAndFill :: "rc \<Rightarrow> bool \<times> rc" where
  "discardAndFill s =
    (case rc_in s of
       [] \<Rightarrow> (False, s)
     | c # cs \<Rightarrow> if c = [] then (False, s\<lparr>rc_in := cs\<rparr>)
               else (True, s\<lparr>rc_buf := c, rc_in := cs\<rparr>))"

text \<open>The bytes still to come, counting every chunk once more: what every turn of the parser's
  loops decreases.\<close>

definition rc_size :: "rc \<Rightarrow> nat" where
  "rc_size s = length (rc_buf s) + sum_list (map (\<lambda>c. Suc (length c)) (rc_in s))"

lemma fill_size: "discardAndFill s = (True, s') \<Longrightarrow> rc_size s' < rc_size s \<and> rc_buf s' \<noteq> []"
  by (auto simp: discardAndFill_def rc_size_def split: list.splits if_splits)

function rc_next :: "rc \<Rightarrow> u8 option \<times> rc" where
  "rc_next s =
    (case rc_buf s of
       ch # bs \<Rightarrow> (Some ch, s\<lparr>rc_buf := bs\<rparr>)
     | [] \<Rightarrow> (let (ok, s') = discardAndFill s in if ok then rc_next s' else (None, s')))"
  by pat_completeness auto
termination by (relation "measure rc_size") (auto dest: fill_size [OF sym])

lemma drop_size: "memchr c (rc_buf s) = Some i \<Longrightarrow> rc_size (s\<lparr>rc_buf := drop (i + 1) (rc_buf s)\<rparr>) < rc_size s"
  by (auto simp: rc_size_def dest: memchr_Some_less)

lemma tl_size: "rc_size (s\<lparr>rc_buf := tl (rc_buf s)\<rparr>) \<le> rc_size s"
  by (simp add: rc_size_def)

text \<open>\<open>synchronize\<close>: the position after the next SYNC that is not escaped.\<close>

function synchronize :: "rc \<Rightarrow> bool \<times> rc" where
  "synchronize s =
    (case memchr BEAST_SYNC (rc_buf s) of
       Some i \<Rightarrow>
         let s = s\<lparr>rc_buf := drop (i + 1) (rc_buf s)\<rparr>;
             (ok, s) = (if rc_buf s = [] then discardAndFill s else (True, s))
         in if \<not> ok then (False, s)
            else if hd (rc_buf s) = BEAST_SYNC
            then let s = s\<lparr>rc_buf := tl (rc_buf s)\<rparr>
                 in if rc_buf s \<noteq> [] then synchronize s
                    else let (ok, s) = discardAndFill s in if ok then synchronize s else (False, s)
            else (True, s)
     | None \<Rightarrow> let (ok, s) = discardAndFill s in if ok then synchronize s else (False, s))"
  by pat_completeness auto
termination
proof (relation "measure rc_size", goal_cases)
  case 1
  then show ?case by simp
next
  case (2 s r ok s')
  then show ?case using fill_size by auto
next
  case (3 s i s1 r ok s2 s3)
  then show ?case
    using drop_size [of BEAST_SYNC s i] tl_size [of s2] fill_size [of s1 s2]
    by (auto split: if_splits)
next
  case (4 s i s1 r ok s2 s3 r' ok' s4)
  then show ?case
    using drop_size [of BEAST_SYNC s i] tl_size [of s2] fill_size [of s1 s2] fill_size [of s3 s4]
    by (auto split: if_splits)
qed

declare rc_next.simps [simp del] synchronize.simps [simp del]

section \<open>Decoding\<close>

text \<open>\<open>decode\<close>: \<open>n\<close> is the number of bytes still expected, \<open>dst\<close> what has been decoded and
  \<open>raw\<close> what has been copied into the raw frame so far.\<close>

function decode :: "nat \<Rightarrow> u8 list \<Rightarrow> u8 list \<Rightarrow> rc \<Rightarrow> decode_status \<times> u8 list \<times> u8 list \<times> rc" where
  "decode n dst rw s =
    (let (ok, s) = (if rc_buf s = [] then discardAndFill s else (True, s))
     in if \<not> ok then (DECODE_STATUS_CONNFAIL, dst, rw, s)
        else let mlen = (if length (rc_buf s) \<le> n then length (rc_buf s) else n)
     in case memchr BEAST_SYNC (take mlen (rc_buf s)) of
          Some i \<Rightarrow>
            let rw = rw @ take (i + 1) (rc_buf s);
                dst = (if i \<noteq> 0 then dst @ take i (rc_buf s) else dst);
                n = n - i;
                s = s\<lparr>rc_buf := drop (i + 1) (rc_buf s)\<rparr>;
                (ok, s) = (if rc_buf s = [] then discardAndFill s else (True, s))
            in if \<not> ok then (DECODE_STATUS_CONNFAIL, dst, rw, s)
               else if hd (rc_buf s) = BEAST_SYNC
               then let s = s\<lparr>rc_buf := tl (rc_buf s)\<rparr>
                    in if n - 1 \<noteq> 0 then decode (n - 1) (dst @ [BEAST_SYNC]) (rw @ [BEAST_SYNC]) s
                       else (DECODE_STATUS_OK, dst @ [BEAST_SYNC], rw @ [BEAST_SYNC], s)
               else (DECODE_STATUS_RESYNC, dst, rw, s)
        | None \<Rightarrow>
            let dst = dst @ take mlen (rc_buf s);
                rw = rw @ take mlen (rc_buf s);
                s = s\<lparr>rc_buf := drop mlen (rc_buf s)\<rparr>
            in if n - mlen \<noteq> 0 then decode (n - mlen) dst rw s
               else (DECODE_STATUS_OK, dst, rw, s))"
  by pat_completeness auto
termination
  by (relation "measure (\<lambda>(n, dst, rw, s). n)")
    (auto split: if_splits dest: fill_size [OF sym])

declare decode.simps [simp del]

lemma size_stats [simp]: "rc_size (s\<lparr>rc_stats := t\<rparr>) = rc_size s"
  by (simp add: rc_size_def)

lemma rc_next_size: "rc_next s = (Some ch, s') \<Longrightarrow> rc_size s' < rc_size s"
proof (induction s rule: rc_next.induct)
  case (1 s)
  show ?case
  proof (cases "rc_buf s")
    case (Cons b bs)
    then show ?thesis using "1.prems" by (auto simp: rc_next.simps rc_size_def)
  next
    case Nil
    obtain ok t where t: "discardAndFill s = (ok, t)" by fastforce
    then have ok: ok using "1.prems" Nil by (subst (asm) rc_next.simps) (auto split: if_splits)
    then have "rc_next t = (Some ch, s')" using "1.prems" Nil t by (subst (asm) rc_next.simps) simp
    then show ?thesis using "1.IH" [OF Nil t [symmetric] refl ok] fill_size t ok by fastforce
  qed
qed

lemma fill_if_size:
  "(if rc_buf s = [] then discardAndFill s else (True, s)) = (True, t) \<Longrightarrow> rc_size t \<le> rc_size s \<and> rc_buf t \<noteq> []"
  using fill_size by (auto split: if_splits simp: less_imp_le)

lemma synchronize_unfold_Some:
  assumes "memchr BEAST_SYNC (rc_buf s) = Some i" "s1 = s\<lparr>rc_buf := drop (i + 1) (rc_buf s)\<rparr>"
    and "(if rc_buf s1 = [] then discardAndFill s1 else (True, s1)) = (ok, s2)"
    and "s3 = s2\<lparr>rc_buf := tl (rc_buf s2)\<rparr>"
  shows "synchronize s = (if \<not> ok then (False, s2)
      else if hd (rc_buf s2) = BEAST_SYNC
      then (if rc_buf s3 \<noteq> [] then synchronize s3
            else let (ok, s) = discardAndFill s3 in if ok then synchronize s else (False, s))
      else (True, s2))"
  using assms by (subst synchronize.simps) (simp only: option.case Let_def prod.case)

lemma synchronize_unfold_None:
  "memchr BEAST_SYNC (rc_buf s) = None \<Longrightarrow> synchronize s
    = (let (ok, s) = discardAndFill s in if ok then synchronize s else (False, s))"
  by (subst synchronize.simps) simp

lemma synchronize_size: "synchronize s = (True, s') \<Longrightarrow> rc_size s' < rc_size s"
proof (induction s rule: synchronize.induct)
  case (1 s)
  show ?case
  proof (cases "memchr BEAST_SYNC (rc_buf s)")
    case None
    obtain ok t where t: "discardAndFill s = (ok, t)" by fastforce
    then have "ok \<and> synchronize t = (True, s')"
      using "1.prems" synchronize_unfold_None [OF None] by (auto split: if_splits)
    then show ?thesis using "1.IH"(1) [OF None t [symmetric] refl] fill_size t by fastforce
  next
    case (Some i)
    define s1 where "s1 = s\<lparr>rc_buf := drop (i + 1) (rc_buf s)\<rparr>"
    have s1: "rc_size s1 < rc_size s" unfolding s1_def by (rule drop_size [OF Some])
    obtain ok s2 where s2: "(if rc_buf s1 = [] then discardAndFill s1 else (True, s1)) = (ok, s2)" by fastforce
    define s3 where "s3 = s2\<lparr>rc_buf := tl (rc_buf s2)\<rparr>"
    note eq = synchronize_unfold_Some [OF Some s1_def s2 s3_def]
    have ok: ok using "1.prems" eq by (auto split: if_splits)
    have sz2: "rc_size s2 < rc_size s" using fill_if_size [of s1 s2] s2 ok s1 by simp
    show ?thesis
    proof (cases "hd (rc_buf s2) = BEAST_SYNC")
      case False
      then show ?thesis using sz2 eq "1.prems" ok by simp
    next
      case True
      have sz3: "rc_size s3 < rc_size s" using sz2 tl_size [of s2] by (simp add: s3_def)
      show ?thesis
      proof (cases "rc_buf s3 = []")
        case False
        then have "synchronize s3 = (True, s')" using eq "1.prems" ok True by simp
        then have "rc_size s' < rc_size s3"
          using "1.IH"(2) [OF Some s1_def s2 [symmetric] refl _ True s3_def False] ok by blast
        then show ?thesis using sz3 by simp
      next
        case nil: True
        obtain ok' s4 where s4: "discardAndFill s3 = (ok', s4)" by fastforce
        then have s4': "ok'" "synchronize s4 = (True, s')"
          using eq "1.prems" nil ok True by (auto split: if_splits)
        then have "rc_size s' < rc_size s4"
          using "1.IH"(3) [OF Some s1_def s2 [symmetric] refl _ True s3_def _ s4 [symmetric] refl] nil ok
          by blast
        then show ?thesis using sz3 fill_size [of s3 s4] s4 s4'(1) by simp
      qed
    qed
  qed
qed

abbreviation filled :: "rc \<Rightarrow> bool \<times> rc" where
  "filled s \<equiv> if rc_buf s = [] then discardAndFill s else (True, s)"

lemma decode_fail: "filled s = (False, t) \<Longrightarrow> decode n dst rw s = (DECODE_STATUS_CONNFAIL, dst, rw, t)"
  by (subst decode.simps) (simp only: Let_def prod.case simp_thms if_True)

lemma decode_miss:
  assumes "filled s = (True, t)" "m = min (length (rc_buf t)) n" "memchr BEAST_SYNC (take m (rc_buf t)) = None"
  shows "decode n dst rw s =
    (if n - m \<noteq> 0 then decode (n - m) (dst @ take m (rc_buf t)) (rw @ take m (rc_buf t)) (t\<lparr>rc_buf := drop m (rc_buf t)\<rparr>)
     else (DECODE_STATUS_OK, dst @ take m (rc_buf t), rw @ take m (rc_buf t), t\<lparr>rc_buf := drop m (rc_buf t)\<rparr>))"
proof -
  have m: "(if length (rc_buf t) \<le> n then length (rc_buf t) else n) = m" using assms(2) by simp
  show ?thesis
    using assms by (subst decode.simps) (simp only: Let_def prod.case simp_thms if_False m option.case)
qed

lemma decode_hit:
  assumes "filled s = (True, t)" "m = min (length (rc_buf t)) n" "memchr BEAST_SYNC (take m (rc_buf t)) = Some i"
    and "filled (t\<lparr>rc_buf := drop (i + 1) (rc_buf t)\<rparr>) = (ok, u)"
  shows "decode n dst rw s =
    (if \<not> ok then (DECODE_STATUS_CONNFAIL, dst @ take i (rc_buf t), rw @ take (i + 1) (rc_buf t), u)
     else if hd (rc_buf u) = BEAST_SYNC
     then (if n - i - 1 \<noteq> 0
           then decode (n - i - 1) (dst @ take i (rc_buf t) @ [BEAST_SYNC]) (rw @ take (i + 1) (rc_buf t) @ [BEAST_SYNC])
             (u\<lparr>rc_buf := tl (rc_buf u)\<rparr>)
           else (DECODE_STATUS_OK, dst @ take i (rc_buf t) @ [BEAST_SYNC], rw @ take (i + 1) (rc_buf t) @ [BEAST_SYNC],
             u\<lparr>rc_buf := tl (rc_buf u)\<rparr>))
     else (DECODE_STATUS_RESYNC, dst @ take i (rc_buf t), rw @ take (i + 1) (rc_buf t), u))"
proof -
  have m: "(if length (rc_buf t) \<le> n then length (rc_buf t) else n) = m" using assms(2) by simp
  have d: "(if i \<noteq> 0 then dst @ take i (rc_buf t) else dst) = dst @ take i (rc_buf t)" by simp
  show ?thesis
    using assms(1,3,4)
    by (subst decode.simps) (simp only: Let_def prod.case simp_thms if_False m option.case d append_assoc)
qed

section \<open>The stream behind the chunks\<close>

text \<open>The bytes not yet consumed, and the chunks that never fail.\<close>

definition flat :: "rc \<Rightarrow> u8 list" where
  "flat s = rc_buf s @ concat (rc_in s)"

definition chunks_ok :: "rc \<Rightarrow> bool" where
  "chunks_ok s \<longleftrightarrow> [] \<notin> set (rc_in s)"

lemma filled_cases:
  assumes "chunks_ok s" "filled s = (ok, t)"
  shows "if ok then flat t = flat s \<and> chunks_ok t \<and> rc_buf t \<noteq> [] \<and> rc_stats t = rc_stats s
    else flat s = []"
proof (cases "rc_buf s")
  case Nil
  then show ?thesis
    using assms by (cases "rc_in s") (auto simp: discardAndFill_def flat_def chunks_ok_def split: if_splits)
next
  case (Cons b bs)
  then show ?thesis using assms by auto
qed

text \<open>Decoding a stream byte by byte: the decoded bytes, the raw bytes and the rest, or the rest at
  which to resynchronize, or nothing when the stream ends.\<close>

datatype stream_decode = Stream_ok "u8 list" "u8 list" "u8 list" | Stream_resync "u8 list" | Stream_end

fun stream_cons :: "u8 list \<Rightarrow> u8 list \<Rightarrow> stream_decode \<Rightarrow> stream_decode" where
  "stream_cons d r (Stream_ok ds rs rest) = Stream_ok (d @ ds) (r @ rs) rest"
| "stream_cons d r x = x"

fun st_decode :: "nat \<Rightarrow> u8 list \<Rightarrow> stream_decode" where
  "st_decode 0 xs = Stream_ok [] [] xs"
| "st_decode (Suc n) [] = Stream_end"
| "st_decode (Suc n) (x # xs) =
    (if x \<noteq> BEAST_SYNC then stream_cons [x] [x] (st_decode n xs)
     else case xs of [] \<Rightarrow> Stream_end
       | y # ys \<Rightarrow> if y = BEAST_SYNC then stream_cons [BEAST_SYNC] [BEAST_SYNC, BEAST_SYNC] (st_decode n ys)
                   else Stream_resync xs)"

lemma stream_cons_stream_cons [simp]: "stream_cons d r (stream_cons d' r' x) = stream_cons (d @ d') (r @ r') x"
  by (cases x) simp_all

lemma st_decode_plain:
  "BEAST_SYNC \<notin> set xs \<Longrightarrow> length xs \<le> n \<Longrightarrow>
    st_decode n (xs @ ys) = stream_cons xs xs (st_decode (n - length xs) ys)"
proof (induction xs arbitrary: n)
  case Nil
  then show ?case by (cases "st_decode n ys") simp_all
next
  case (Cons x xs)
  then show ?case by (cases n) auto
qed

definition decode_agrees :: "u8 list \<Rightarrow> u8 list \<Rightarrow> rc \<Rightarrow> stream_decode \<Rightarrow> decode_status \<times> u8 list \<times> u8 list \<times> rc \<Rightarrow> bool" where
  "decode_agrees dst rw s x res \<longleftrightarrow>
    (case (x, res) of
       (Stream_ok ds rs rest, (DECODE_STATUS_OK, d, r, s')) \<Rightarrow>
          d = dst @ ds \<and> r = rw @ rs \<and> flat s' = rest \<and> chunks_ok s' \<and> rc_stats s' = rc_stats s
     | (Stream_resync rest, (DECODE_STATUS_RESYNC, d, r, s')) \<Rightarrow>
          flat s' = rest \<and> chunks_ok s' \<and> rc_stats s' = rc_stats s
     | (Stream_end, (DECODE_STATUS_CONNFAIL, _)) \<Rightarrow> True
     | _ \<Rightarrow> False)"

lemma decode_agrees_cons:
  "decode_agrees (dst @ d) (rw @ r) s x res \<Longrightarrow> rc_stats s = rc_stats t \<Longrightarrow> decode_agrees dst rw t (stream_cons d r x) res"
  by (cases x; cases res) (auto simp: decode_agrees_def split: decode_status.splits)

lemma decode_stream:
  assumes "chunks_ok s" "n \<noteq> 0"
  shows "decode_agrees dst rw s (st_decode n (flat s)) (decode n dst rw s)"
  using assms
proof (induction n arbitrary: dst rw s rule: less_induct)
  case (less n)
  obtain ok t where ft: "filled s = (ok, t)" by fastforce
  note fc = filled_cases [OF less.prems(1) ft]
  show ?case
  proof (cases ok)
    case False
    then have "flat s = []" using fc by simp
    then have "st_decode n (flat s) = Stream_end" using less.prems(2) by (cases n) simp_all
    moreover have "decode n dst rw s = (DECODE_STATUS_CONNFAIL, dst, rw, t)"
      using ft False by (intro decode_fail) simp
    ultimately show ?thesis by (simp add: decode_agrees_def)
  next
    case True
    let ?B = "rc_buf t" and ?C = "concat (rc_in t)"
    have t: "flat s = ?B @ ?C" "chunks_ok t" "?B \<noteq> []" "rc_stats t = rc_stats s"
      using fc True by (simp_all add: flat_def)
    define m where "m = min (length ?B) n"
    have m: "m \<noteq> 0" "m \<le> n" "m \<le> length ?B" using t(3) less.prems(2) by (simp_all add: m_def)
    have ft': "filled s = (True, t)" using ft True by simp
    show ?thesis
    proof (cases "memchr BEAST_SYNC (take m ?B)")
      case None
      define u where "u = t\<lparr>rc_buf := drop m ?B\<rparr>"
      have u: "flat u = drop m ?B @ ?C" "chunks_ok u" "rc_stats u = rc_stats s"
        using t by (simp_all add: u_def flat_def chunks_ok_def)
      have "BEAST_SYNC \<notin> set (take m ?B)" using None by (simp add: memchr_None_iff)
      then have st: "st_decode n (flat s) = stream_cons (take m ?B) (take m ?B) (st_decode (n - m) (flat u))"
        using st_decode_plain [of "take m ?B" n "drop m ?B @ ?C"] m t(1) u(1)
        by (simp add: append_assoc [symmetric] del: append_assoc)
      show ?thesis
      proof (cases "n - m = 0")
        case True
        then show ?thesis
          using decode_miss [OF ft' m_def None, of dst rw] st u by (simp add: decode_agrees_def u_def [symmetric])
      next
        case False
        have "decode_agrees (dst @ take m ?B) (rw @ take m ?B) u (st_decode (n - m) (flat u))
            (decode (n - m) (dst @ take m ?B) (rw @ take m ?B) u)"
          using less.IH [of "n - m" u] u m False by simp
        from decode_agrees_cons [OF this u(3)] show ?thesis
          using decode_miss [OF ft' m_def None, of dst rw] st False by (simp add: u_def [symmetric])
      qed
    next
      case (Some i)
      have len: "length (take m ?B) = m" using m(3) by simp
      have im: "i < m" using memchr_Some_less [OF Some] unfolding len .
      have nth: "?B ! i = BEAST_SYNC" using memchr_SomeD [OF Some] im by simp
      have "take i (take m ?B) = take i ?B" using im by (simp add: min_def)
      then have nin: "BEAST_SYNC \<notin> set (take i ?B)" using memchr_SomeD [OF Some] by metis
      have "?B = take i ?B @ BEAST_SYNC # drop (i + 1) ?B"
        using id_take_nth_drop [of i ?B] im m(3) nth by simp
      note i = im this nin
      define t1 where "t1 = t\<lparr>rc_buf := drop (i + 1) ?B\<rparr>"
      have t1: "flat t1 = drop (i + 1) ?B @ ?C" "chunks_ok t1" "rc_stats t1 = rc_stats s"
        using t by (simp_all add: t1_def flat_def chunks_ok_def)
      obtain ok2 u where fu: "filled t1 = (ok2, u)" by fastforce
      note fcu = filled_cases [OF t1(2) fu]
      note dh = decode_hit [OF ft' m_def Some fu [unfolded t1_def], of dst rw]
      obtain k where k: "n - i = Suc k" using i(1) m(2) by (metis Suc_diff_Suc less_le_trans)
      have "flat s = take i ?B @ BEAST_SYNC # flat t1" using t(1) t1(1) i(2) by (metis append_Cons append_assoc)
      then have st: "st_decode n (flat s) = stream_cons (take i ?B) (take i ?B) (st_decode (Suc k) (BEAST_SYNC # flat t1))"
        using st_decode_plain [OF i(3), of n "BEAST_SYNC # flat t1"] i(1) m k by simp
      have raw: "take (i + 1) ?B = take i ?B @ [BEAST_SYNC]"
        using im m(3) nth by (simp add: take_Suc_conv_app_nth)
      show ?thesis
      proof (cases ok2)
        case False
        then have "flat t1 = []" using fcu by simp
        then show ?thesis using dh False st by (simp add: decode_agrees_def)
      next
        case True
        then obtain y ys where y: "rc_buf u = y # ys" using fcu by (cases "rc_buf u") auto
        have u: "flat t1 = flat u" "chunks_ok u" "rc_stats u = rc_stats s" using fcu True t1(3) by simp_all
        define v where "v = u\<lparr>rc_buf := ys\<rparr>"
        have v: "flat u = y # flat v" "chunks_ok v" "rc_stats v = rc_stats s"
          using u y by (simp_all add: v_def flat_def chunks_ok_def)
        show ?thesis
        proof (cases "y = BEAST_SYNC")
          case False
          then show ?thesis using dh True st y u v by (simp add: decode_agrees_def)
        next
          case ysync: True
          have st2: "st_decode n (flat s) = stream_cons (take i ?B @ [BEAST_SYNC]) (take (i + 1) ?B @ [BEAST_SYNC]) (st_decode k (flat v))"
            using st u v ysync raw by simp
          show ?thesis
          proof (cases "k = 0")
            case True
            then show ?thesis
              using dh \<open>ok2\<close> st2 y ysync k v by (simp add: decode_agrees_def v_def [symmetric])
          next
            case False
            have "k < n" using k by simp
            have "decode_agrees (dst @ take i ?B @ [BEAST_SYNC]) (rw @ take (i + 1) ?B @ [BEAST_SYNC]) v (st_decode k (flat v))
              (decode k (dst @ take i ?B @ [BEAST_SYNC]) (rw @ take (i + 1) ?B @ [BEAST_SYNC]) v)"
              by (rule less.IH [OF \<open>k < n\<close> v(2) False])
            from decode_agrees_cons [OF this v(3)] show ?thesis
              using dh \<open>ok2\<close> st2 y ysync k False by (simp add: v_def [symmetric])
          qed
        qed
      qed
    qed
  qed
qed

section \<open>Termination of the parser\<close>

lemma filled_size: "filled s = (ok, t) \<Longrightarrow> rc_size t \<le> rc_size s"
  by (auto simp: discardAndFill_def rc_size_def split: if_splits list.splits)

lemma size_upd_le: "length b \<le> length (rc_buf t) \<Longrightarrow> rc_size (t\<lparr>rc_buf := b\<rparr>) \<le> rc_size t"
  by (simp add: rc_size_def)

lemma decode_size: "decode n dst rw s = (st, d, r, s') \<Longrightarrow> rc_size s' \<le> rc_size s"
proof (induction n arbitrary: dst rw s rule: less_induct)
  case (less n)
  obtain ok t where ft: "filled s = (ok, t)" by fastforce
  note t = filled_size [OF ft]
  show ?case
  proof (cases ok)
    case False
    then show ?thesis using less.prems decode_fail [of s t n dst rw] ft t by simp
  next
    case True
    then have ft': "filled s = (True, t)" using ft by simp
    let ?B = "rc_buf t"
    have ne: "?B \<noteq> []" using fill_if_size [OF ft'] by simp
    define m where "m = min (length ?B) n"
    show ?thesis
    proof (cases "memchr BEAST_SYNC (take m ?B)")
      case None
      have u: "rc_size (t\<lparr>rc_buf := drop m ?B\<rparr>) \<le> rc_size s" using size_upd_le [of "drop m ?B" t] t by simp
      show ?thesis
      proof (cases "n - m = 0")
        case True
        then show ?thesis using decode_miss [OF ft' m_def None, of dst rw] less.prems u by simp
      next
        case False
        then have "n - m < n" using ne by (simp add: m_def)
        from less.IH [OF this] show ?thesis
          using decode_miss [OF ft' m_def None, of dst rw] less.prems False u by fastforce
      qed
    next
      case (Some i)
      obtain ok2 u where fu: "filled (t\<lparr>rc_buf := drop (i + 1) ?B\<rparr>) = (ok2, u)" by fastforce
      have u: "rc_size u \<le> rc_size s"
        using filled_size [OF fu] size_upd_le [of "drop (i + 1) ?B" t] t by simp
      have v: "rc_size (u\<lparr>rc_buf := tl (rc_buf u)\<rparr>) \<le> rc_size s" using tl_size [of u] u by simp
      note dh = decode_hit [OF ft' m_def Some fu, of dst rw]
      show ?thesis
      proof (cases "ok2 \<and> hd (rc_buf u) = BEAST_SYNC \<and> n - i - 1 \<noteq> 0")
        case True
        then have "n - i - 1 < n" by simp
        from less.IH [OF this] show ?thesis using dh less.prems True v by fastforce
      next
        case False
        then show ?thesis using dh less.prems u v by (auto split: if_splits)
      qed
    qed
  qed
qed

section \<open>Frames\<close>

definition frame_payload_len :: "u8 \<Rightarrow> nat option" where
  "frame_payload_len type =
    (if type = OPENSKY_FRAME_TYPE_MODE_AC then Some 2
     else if type = OPENSKY_FRAME_TYPE_MODE_S_SHORT then Some 7
     else if type = OPENSKY_FRAME_TYPE_MODE_S_LONG then Some 14
     else if type = OPENSKY_FRAME_TYPE_STATUS then Some 14
     else None)"

definition inc_outOfSync :: "rc \<Rightarrow> rc" where
  "inc_outOfSync s = s\<lparr>rc_stats := (rc_stats s)\<lparr>outOfSync := outOfSync (rc_stats s) + 1\<rparr>\<rparr>"

definition inc_unknown :: "rc \<Rightarrow> rc" where
  "inc_unknown s = s\<lparr>rc_stats := (rc_stats s)\<lparr>frameTypeUnknown := frameTypeUnknown (rc_stats s) + 1\<rparr>\<rparr>"

lemma inc_size [simp]: "rc_size (inc_outOfSync s) = rc_size s" "rc_size (inc_unknown s) = rc_size s"
  by (simp_all add: inc_outOfSync_def inc_unknown_def)

text \<open>The header union: seven bytes read, the eighth is whatever was in memory.\<close>

definition header_mlat :: "byte_order \<Rightarrow> u8 \<Rightarrow> u8 list \<Rightarrow> u64" where
  "header_mlat bo junk hdr = drop_bit 16 (betoh bo 8 (the (load_host bo 8 (hdr @ [junk]))))"

definition make_decoded :: "byte_order \<Rightarrow> u8 \<Rightarrow> u8 \<Rightarrow> nat \<Rightarrow> u8 list \<Rightarrow> u8 list \<Rightarrow> decoded_frame" where
  "make_decoded bo junk type n hdr pl = \<lparr>frameType = type, mlat = header_mlat bo junk hdr,
     siglevel = hdr ! 6, payloadLen = of_nat n, payload = pl\<rparr>"

text \<open>\<open>INPUT_getFrame\<close>: the three places its jumps and its loop lead to.\<close>

datatype rc_label = Lab_top | Lab_synchronize | Lab_decode_frame

function getFrame :: "byte_order \<Rightarrow> u8 \<Rightarrow> rc_label \<Rightarrow> rc \<Rightarrow> (raw_frame \<times> decoded_frame) option \<times> rc" where
  "getFrame bo junk lab s =
    (case lab of
       Lab_top \<Rightarrow>
         (case rc_next s of
            (None, s) \<Rightarrow> (None, s)
          | (Some sync, s) \<Rightarrow>
              if sync \<noteq> BEAST_SYNC then getFrame bo junk Lab_synchronize (inc_outOfSync s)
              else getFrame bo junk Lab_decode_frame s)
     | Lab_synchronize \<Rightarrow>
         (case synchronize s of
            (False, s) \<Rightarrow> (None, s)
          | (True, s) \<Rightarrow> getFrame bo junk Lab_decode_frame s)
     | Lab_decode_frame \<Rightarrow>
         (case rc_next s of
            (None, s) \<Rightarrow> (None, s)
          | (Some type, s) \<Rightarrow>
              (case frame_payload_len type of
                 None \<Rightarrow>
                   if type = BEAST_SYNC then getFrame bo junk Lab_synchronize (inc_outOfSync s)
                   else getFrame bo junk Lab_synchronize (inc_unknown s)
               | Some n \<Rightarrow>
                   (case decode 7 [] [BEAST_SYNC, type] s of
                      (DECODE_STATUS_RESYNC, _, _, s) \<Rightarrow> getFrame bo junk Lab_decode_frame (inc_outOfSync s)
                    | (DECODE_STATUS_CONNFAIL, _, _, s) \<Rightarrow> (None, s)
                    | (DECODE_STATUS_OK, hdr, rw, s) \<Rightarrow>
                        (case decode n [] rw s of
                           (DECODE_STATUS_RESYNC, _, _, s) \<Rightarrow> getFrame bo junk Lab_decode_frame (inc_outOfSync s)
                         | (DECODE_STATUS_CONNFAIL, _, _, s) \<Rightarrow> (None, s)
                         | (DECODE_STATUS_OK, pl, rw, s) \<Rightarrow>
                             (Some (\<lparr>rawLen = of_nat (length rw), raw = rw\<rparr>,
                                    make_decoded bo junk type n hdr pl), s))))))"
  by pat_completeness auto
termination
  by (relation "measure (\<lambda>(bo, junk, lab, s). rc_size s)")
    (auto dest!: rc_next_size [OF sym] synchronize_size [OF sym] decode_size [OF sym])

declare getFrame.simps [simp del]

definition INPUT_getFrame :: "byte_order \<Rightarrow> u8 \<Rightarrow> rc \<Rightarrow> (raw_frame \<times> decoded_frame) option \<times> rc" where
  "INPUT_getFrame bo junk s = getFrame bo junk Lab_top s"

section \<open>The parser on the stream\<close>

fun st_sync :: "u8 list \<Rightarrow> u8 list option" where
  "st_sync [] = None"
| "st_sync (x # xs) =
    (if x \<noteq> BEAST_SYNC then st_sync xs
     else case xs of [] \<Rightarrow> None | y # ys \<Rightarrow> if y = BEAST_SYNC then st_sync ys else Some (y # ys))"

lemma st_sync_plain: "BEAST_SYNC \<notin> set xs \<Longrightarrow> st_sync (xs @ ys) = st_sync ys"
  by (induction xs) auto

definition stats_agree :: "rc \<Rightarrow> rc \<Rightarrow> bool" where
  "stats_agree s s' \<longleftrightarrow> rc_stats s' = rc_stats s \<and> chunks_ok s'"

lemma fill_chunks:
  assumes "chunks_ok s"
  shows "discardAndFill s = (True, t) \<Longrightarrow> flat t = concat (rc_in s) \<and> chunks_ok t \<and> rc_buf t \<noteq> [] \<and> rc_stats t = rc_stats s"
    and "discardAndFill s = (False, t) \<Longrightarrow> rc_in s = []"
  using assms by (auto simp: discardAndFill_def flat_def chunks_ok_def split: list.splits if_splits)

lemma rc_next_stream:
  assumes "chunks_ok s"
  shows "case flat s of
      [] \<Rightarrow> fst (rc_next s) = None
    | x # xs \<Rightarrow> \<exists>s'. rc_next s = (Some x, s') \<and> flat s' = xs \<and> stats_agree s s'"
proof (cases "rc_buf s")
  case (Cons b bs)
  then show ?thesis using assms by (simp add: rc_next.simps flat_def stats_agree_def chunks_ok_def)
next
  case Nil
  obtain ok t where t: "discardAndFill s = (ok, t)" by fastforce
  show ?thesis
  proof (cases ok)
    case False
    then show ?thesis using fill_chunks(2) [OF assms] t Nil by (simp add: rc_next.simps [of s] flat_def)
  next
    case True
    then have ft: "flat t = concat (rc_in s)" "chunks_ok t" "rc_buf t \<noteq> []" "rc_stats t = rc_stats s"
      using fill_chunks(1) [OF assms] t by auto
    then obtain b bs where b: "rc_buf t = b # bs" by (cases "rc_buf t") auto
    have "rc_next s = rc_next t" using True t Nil by (simp add: rc_next.simps [of s])
    moreover have "concat (rc_in s) = b # (bs @ concat (rc_in t))"
      using ft(1) b by (simp add: flat_def)
    ultimately show ?thesis
      using b ft(2,4) Nil by (simp add: rc_next.simps [of t] flat_def stats_agree_def chunks_ok_def)
  qed
qed

lemma synchronize_stream:
  assumes "chunks_ok s"
  shows "case st_sync (flat s) of
      None \<Rightarrow> fst (synchronize s) = False
    | Some xs \<Rightarrow> \<exists>s'. synchronize s = (True, s') \<and> flat s' = xs \<and> stats_agree s s'"
  using assms
proof (induction s rule: synchronize.induct)
  case (1 s)
  show ?case
  proof (cases "memchr BEAST_SYNC (rc_buf s)")
    case None
    then have nin: "BEAST_SYNC \<notin> set (rc_buf s)" by (simp add: memchr_None_iff)
    then have fl: "st_sync (flat s) = st_sync (concat (rc_in s))" by (simp add: flat_def st_sync_plain)
    obtain ok t where t: "discardAndFill s = (ok, t)" by fastforce
    show ?thesis
    proof (cases ok)
      case False
      then show ?thesis
        using synchronize_unfold_None [OF None] t fill_chunks(2) [OF "1.prems"] fl by simp
    next
      case True
      then have "flat t = concat (rc_in s)" "chunks_ok t" "rc_stats t = rc_stats s"
        using fill_chunks(1) [OF "1.prems"] t by auto
      then show ?thesis
        using synchronize_unfold_None [OF None] t True fl "1.IH"(1) [OF None t [symmetric] refl True]
        by (auto simp: stats_agree_def split: option.splits)
    qed
  next
    case (Some i)
    define s1 where "s1 = s\<lparr>rc_buf := drop (i + 1) (rc_buf s)\<rparr>"
    have s1: "chunks_ok s1" "rc_stats s1 = rc_stats s" using "1.prems" by (simp_all add: s1_def chunks_ok_def)
    have "rc_buf s = take i (rc_buf s) @ BEAST_SYNC # drop (i + 1) (rc_buf s)"
      "BEAST_SYNC \<notin> set (take i (rc_buf s))"
      using memchr_Some_split [OF Some] by simp_all
    then have fl: "st_sync (flat s) = st_sync (BEAST_SYNC # flat s1)"
      by (metis flat_def append_Cons append_assoc rc.select_convs(1,2) rc.surjective rc.update_convs(1) s1_def st_sync_plain)
    obtain ok s2 where s2: "filled s1 = (ok, s2)" by fastforce
    note f2 = filled_cases [OF s1(1) s2]
    define s3 where "s3 = s2\<lparr>rc_buf := tl (rc_buf s2)\<rparr>"
    note eq = synchronize_unfold_Some [OF Some s1_def s2 s3_def]
    show ?thesis
    proof (cases ok)
      case False
      then show ?thesis using eq f2 fl by simp
    next
      case ok: True
      then obtain y ys where y: "rc_buf s2 = y # ys" using f2 by (cases "rc_buf s2") auto
      have s3: "flat s1 = y # flat s3" "chunks_ok s3" "rc_stats s3 = rc_stats s" "chunks_ok s2" "flat s2 = flat s1"
        "rc_stats s2 = rc_stats s"
        using f2 ok y s1 by (auto simp: s3_def flat_def chunks_ok_def)
      show ?thesis
      proof (cases "y = BEAST_SYNC")
        case False
        then show ?thesis using eq ok y fl s3 by (simp add: stats_agree_def)
      next
        case True
        then have fl3: "st_sync (flat s) = st_sync (flat s3)" using fl s3(1) by simp
        have hd2: "hd (rc_buf s2) = BEAST_SYNC" using y True by simp
        show ?thesis
        proof (cases "rc_buf s3 = []")
          case False
          then show ?thesis
            using "1.IH"(2) [OF Some s1_def s2 [symmetric] refl _ hd2 s3_def False s3(2)] eq ok hd2 fl3 s3 False
            by (auto simp: stats_agree_def split: option.splits)
        next
          case nil: True
          obtain ok' s4 where s4: "discardAndFill s3 = (ok', s4)" by fastforce
          have f3: "flat s3 = concat (rc_in s3)" using nil by (simp add: flat_def)
          show ?thesis
          proof (cases ok')
            case False
            then show ?thesis using eq ok hd2 nil s4 fl3 f3 fill_chunks(2) [OF s3(2)] by simp
          next
            case True
            then have "flat s4 = flat s3" "chunks_ok s4" "rc_stats s4 = rc_stats s"
              using fill_chunks(1) [OF s3(2)] s4 f3 s3 by auto
            then show ?thesis
              using "1.IH"(3) [OF Some s1_def s2 [symmetric] refl _ hd2 s3_def _ s4 [symmetric] refl True] nil
                eq ok hd2 fl3 s4 True by (auto simp: stats_agree_def split: option.splits)
          qed
        qed
      qed
    qed
  qed
qed

section \<open>Connecting and configuring the receiver\<close>

text \<open>
  \<open>uart\<close> tells whether the build talks to the radarcape over its UART (otherwise there is
  nothing to configure); \<open>RC_INPUT_write\<close>, which returns the number of bytes written, and
  \<open>RC_INPUT_connect\<close> belong to the input and are parameters.
\<close>

definition setOption :: "(u8 list \<Rightarrow> 'n \<Rightarrow> nat \<times> 'n) \<Rightarrow> u8 \<Rightarrow> 'n \<Rightarrow> bool \<times> 'n" where
  "setOption write opt n = (let (k, n) = write [BEAST_SYNC, 0x31, opt] n in (k = 3, n))"

fun set_options :: "(u8 list \<Rightarrow> 'n \<Rightarrow> nat \<times> 'n) \<Rightarrow> u8 list \<Rightarrow> 'n \<Rightarrow> bool \<times> 'n" where
  "set_options write [] n = (True, n)"
| "set_options write (opt # opts) n =
    (let (ok, n) = setOption write opt n in if ok then set_options write opts n else (False, n))"

text \<open>The options in the order of the conjunction in \<open>configure\<close>: output format, frame filter, MLAT,
  CRC, time stamp source, RTS handshake, error correction, Mode-AC, the two LEDs.\<close>

definition filter_option :: "FILTER_Configuration \<Rightarrow> u8" where
  "filter_option c = (if extSquitter c then 0x44 else 0x64)"

definition configure_options :: "FILTER_Configuration \<Rightarrow> bool \<Rightarrow> u8 list" where
  "configure_options c fec =
    [0x43, filter_option c, 0x45, if crc c then 0x66 else 0x46, 0x47, 0x48,
     if fec then 0x69 else 0x49, 0x6a, 0x59, 0x52]"

definition configure :: "bool \<Rightarrow> (u8 list \<Rightarrow> 'n \<Rightarrow> nat \<times> 'n) \<Rightarrow> FILTER_Configuration \<Rightarrow> bool \<Rightarrow> 'n \<Rightarrow> bool \<times> 'n" where
  "configure uart write c fec n = (if uart then set_options write (configure_options c fec) n else (True, n))"

definition INPUT_reconfigure :: "bool \<Rightarrow> (u8 list \<Rightarrow> 'n \<Rightarrow> nat \<times> 'n) \<Rightarrow> FILTER_Configuration \<Rightarrow> 'n \<Rightarrow> 'n" where
  "INPUT_reconfigure uart write c n = (if uart then snd (setOption write (filter_option c) n) else n)"

text \<open>Connecting is tried until the configuration succeeds; \<open>None\<close> when the turns run out.\<close>

fun INPUT_connect :: "nat \<Rightarrow> ('n \<Rightarrow> 'n) \<Rightarrow> bool \<Rightarrow> (u8 list \<Rightarrow> 'n \<Rightarrow> nat \<times> 'n) \<Rightarrow> FILTER_Configuration \<Rightarrow> bool
    \<Rightarrow> rc \<Rightarrow> 'n \<Rightarrow> (rc \<times> 'n) option" where
  "INPUT_connect 0 connect uart write c fec s n = None"
| "INPUT_connect (Suc k) connect uart write c fec s n =
    (let (ok, n) = configure uart write c fec (connect n)
     in if ok then Some (s\<lparr>rc_buf := []\<rparr>, n) else INPUT_connect k connect uart write c fec s n)"

definition rc_resetStats :: "rc \<Rightarrow> rc" where
  "rc_resetStats s = s\<lparr>rc_stats := \<lparr>frameTypeUnknown = 0, outOfSync = 0\<rparr>\<rparr>"

definition RC_PARSER_getStatistics :: "rc \<Rightarrow> RC_PARSER_Statistics" where
  "RC_PARSER_getStatistics s = rc_stats s"

end
