(* ===== verification/Rc_Parser_Props.thy ===== *)
theory Rc_Parser_Props
  imports Rc_Parser
begin

text \<open>
  Properties of the beast parser: the result does not depend on how the input cuts the stream
  into chunks; a frame written with \<open>BEAST_encode\<close> is read back; whatever the input, a frame
  handed out is one whole well-formed frame that fits its buffers; and after garbage or a
  truncated frame the next frame is found.
\<close>

section \<open>Chunks\<close>

definition same_stream :: "rc \<Rightarrow> rc \<Rightarrow> bool" where
  "same_stream s t \<longleftrightarrow> chunks_ok s \<and> chunks_ok t \<and> flat s = flat t \<and> rc_stats s = rc_stats t"

lemma same_stream_inc [simp]:
  "same_stream s t \<Longrightarrow> same_stream (inc_outOfSync s) (inc_outOfSync t)"
  "same_stream s t \<Longrightarrow> same_stream (inc_unknown s) (inc_unknown t)"
  by (simp_all add: same_stream_def inc_outOfSync_def inc_unknown_def flat_def chunks_ok_def)

lemma next_same:
  assumes "same_stream s t"
  obtains s' t' where "rc_next s = (None, s')" "rc_next t = (None, t')"
  | x s' t' where "rc_next s = (Some x, s')" "rc_next t = (Some x, t')" "same_stream s' t'"
proof (cases "flat s")
  case Nil
  then have "fst (rc_next s) = None" "fst (rc_next t) = None"
    using rc_next_stream [of s] rc_next_stream [of t] assms by (simp_all add: same_stream_def)
  then show ?thesis using that(1) by (cases "rc_next s"; cases "rc_next t") simp
next
  case (Cons x xs)
  have ft: "flat t = flat s" "chunks_ok s" "chunks_ok t" using assms by (simp_all add: same_stream_def)
  obtain s' t' where "rc_next s = (Some x, s')" "flat s' = xs" "stats_agree s s'"
    "rc_next t = (Some x, t')" "flat t' = xs" "stats_agree t t'"
    using rc_next_stream [of s] rc_next_stream [of t] ft Cons by auto
  then show ?thesis using that(2) assms by (simp add: same_stream_def stats_agree_def)
qed

lemma sync_same:
  assumes "same_stream s t"
  obtains s' t' where "synchronize s = (False, s')" "synchronize t = (False, t')"
  | s' t' where "synchronize s = (True, s')" "synchronize t = (True, t')" "same_stream s' t'"
proof (cases "st_sync (flat s)")
  case None
  then have "fst (synchronize s) = False" "fst (synchronize t) = False"
    using synchronize_stream [of s] synchronize_stream [of t] assms by (simp_all add: same_stream_def)
  then show ?thesis using that(1) by (cases "synchronize s"; cases "synchronize t") simp
next
  case (Some xs)
  have ft: "flat t = flat s" "chunks_ok s" "chunks_ok t" using assms by (simp_all add: same_stream_def)
  obtain s' t' where "synchronize s = (True, s')" "flat s' = xs" "stats_agree s s'"
    "synchronize t = (True, t')" "flat t' = xs" "stats_agree t t'"
    using synchronize_stream [of s] synchronize_stream [of t] ft Some by auto
  then show ?thesis using that(2) assms by (simp add: same_stream_def stats_agree_def)
qed

lemma decode_same:
  assumes "same_stream s t" "n \<noteq> 0"
  obtains d r s' d' r' t' where "decode n dst rw s = (DECODE_STATUS_CONNFAIL, d, r, s')"
      "decode n dst rw t = (DECODE_STATUS_CONNFAIL, d', r', t')"
  | d r s' d' r' t' where "decode n dst rw s = (DECODE_STATUS_RESYNC, d, r, s')"
      "decode n dst rw t = (DECODE_STATUS_RESYNC, d', r', t')" "same_stream s' t'"
  | d r s' t' where "decode n dst rw s = (DECODE_STATUS_OK, d, r, s')"
      "decode n dst rw t = (DECODE_STATUS_OK, d, r, t')" "same_stream s' t'"
proof -
  obtain a d r s' where ds: "decode n dst rw s = (a, d, r, s')" by (metis prod_cases4)
  obtain b d' r' t' where dt: "decode n dst rw t = (b, d', r', t')" by (metis prod_cases4)
  have 1: "decode_agrees dst rw s (st_decode n (flat s)) (a, d, r, s')"
    using decode_stream [of s n dst rw] assms ds by (simp add: same_stream_def)
  have 2: "decode_agrees dst rw t (st_decode n (flat s)) (b, d', r', t')"
    using decode_stream [of t n dst rw] assms dt by (simp add: same_stream_def)
  show ?thesis
    using 1 2 that ds dt assms(1)
    by (cases "st_decode n (flat s)"; cases a; cases b) (auto simp: decode_agrees_def same_stream_def)
qed

lemma payload_len_nonzero: "frame_payload_len type = Some n \<Longrightarrow> n \<noteq> 0"
  by (auto simp: frame_payload_len_def split: if_splits)

lemma getFrame_top:
  "getFrame bo junk Lab_top s = (case rc_next s of (None, s) \<Rightarrow> (None, s)
    | (Some sync, s) \<Rightarrow> if sync \<noteq> BEAST_SYNC then getFrame bo junk Lab_synchronize (inc_outOfSync s)
        else getFrame bo junk Lab_decode_frame s)"
  by (subst getFrame.simps) simp

lemma getFrame_sync:
  "getFrame bo junk Lab_synchronize s = (case synchronize s of (False, s) \<Rightarrow> (None, s)
    | (True, s) \<Rightarrow> getFrame bo junk Lab_decode_frame s)"
  by (subst getFrame.simps) simp

lemma getFrame_frame:
  "getFrame bo junk Lab_decode_frame s = (case rc_next s of (None, s) \<Rightarrow> (None, s)
    | (Some type, s) \<Rightarrow> (case frame_payload_len type of
        None \<Rightarrow> if type = BEAST_SYNC then getFrame bo junk Lab_synchronize (inc_outOfSync s)
                else getFrame bo junk Lab_synchronize (inc_unknown s)
      | Some n \<Rightarrow> (case decode 7 [] [BEAST_SYNC, type] s of
          (DECODE_STATUS_RESYNC, _, _, s) \<Rightarrow> getFrame bo junk Lab_decode_frame (inc_outOfSync s)
        | (DECODE_STATUS_CONNFAIL, _, _, s) \<Rightarrow> (None, s)
        | (DECODE_STATUS_OK, hdr, rw, s) \<Rightarrow> (case decode n [] rw s of
            (DECODE_STATUS_RESYNC, _, _, s) \<Rightarrow> getFrame bo junk Lab_decode_frame (inc_outOfSync s)
          | (DECODE_STATUS_CONNFAIL, _, _, s) \<Rightarrow> (None, s)
          | (DECODE_STATUS_OK, pl, rw, s) \<Rightarrow>
              (Some (\<lparr>rawLen = of_nat (length rw), raw = rw\<rparr>, make_decoded bo junk type n hdr pl), s)))))"
  by (subst getFrame.simps) simp

definition same_result :: "(raw_frame \<times> decoded_frame) option \<times> rc \<Rightarrow> (raw_frame \<times> decoded_frame) option \<times> rc \<Rightarrow> bool" where
  "same_result x y \<longleftrightarrow> fst x = fst y \<and> (fst x \<noteq> None \<longrightarrow> same_stream (snd x) (snd y))"

lemma getFrame_same:
  assumes "same_stream s t"
  shows "same_result (getFrame bo junk lab s) (getFrame bo junk lab t)"
  using assms
proof (induction "rc_size s" arbitrary: lab s t rule: less_induct)
  case less
  have IH: "same_stream s' t' \<Longrightarrow> rc_size s' < rc_size s \<Longrightarrow>
      same_result (getFrame bo junk lab' s') (getFrame bo junk lab' t')" for s' t' lab'
    using less.hyps by blast
  show ?case
  proof (cases lab)
    case Lab_top
    show ?thesis
      using less.prems
    proof (cases rule: next_same)
      case (1 s' t')
      then show ?thesis by (simp add: Lab_top getFrame_top [of bo junk s] getFrame_top [of bo junk t] same_result_def)
    next
      case (2 x s' t')
      then show ?thesis using rc_next_size [OF 2(1)] by (simp add: Lab_top getFrame_top [of bo junk s] getFrame_top [of bo junk t] IH)
    qed
  next
    case Lab_synchronize
    show ?thesis
      using less.prems
    proof (cases rule: sync_same)
      case (1 s' t')
      then show ?thesis by (simp add: Lab_synchronize getFrame_sync [of bo junk s] getFrame_sync [of bo junk t] same_result_def)
    next
      case (2 s' t')
      then show ?thesis using synchronize_size [OF 2(1)] by (simp add: Lab_synchronize getFrame_sync [of bo junk s] getFrame_sync [of bo junk t] IH)
    qed
  next
    case Lab_decode_frame
    show ?thesis
      using less.prems
    proof (cases rule: next_same)
      case (1 s' t')
      then show ?thesis by (simp add: Lab_decode_frame getFrame_frame [of bo junk s] getFrame_frame [of bo junk t] same_result_def)
    next
      case (2 type s1 t1)
      note sz = rc_next_size [OF 2(1)]
      show ?thesis
      proof (cases "frame_payload_len type")
        case None
        then show ?thesis using 2 sz by (simp add: Lab_decode_frame getFrame_frame [of bo junk s] getFrame_frame [of bo junk t] IH)
      next
        case (Some n)
        have "(7 :: nat) \<noteq> 0" by simp
        with 2(3) show ?thesis
        proof (cases rule: decode_same [where dst = "[]" and rw = "[BEAST_SYNC, type]"])
          case 1
          then show ?thesis using 2 Some by (simp add: Lab_decode_frame getFrame_frame [of bo junk s] getFrame_frame [of bo junk t] same_result_def)
        next
          case r: (2 d r s' d' r' t')
          then show ?thesis using 2 Some sz decode_size [OF r(1)] by (simp add: Lab_decode_frame getFrame_frame [of bo junk s] getFrame_frame [of bo junk t] IH)
        next
          case h: (3 hdr rw s2 t2)
          note sz2 = decode_size [OF h(1)]
          from h(3) payload_len_nonzero [OF Some] show ?thesis
          proof (cases rule: decode_same [where dst = "[]" and rw = rw])
            case 1
            then show ?thesis using 2 Some h by (simp add: Lab_decode_frame getFrame_frame [of bo junk s] getFrame_frame [of bo junk t] same_result_def)
          next
            case r: (2 d r s' d' r' t')
            then show ?thesis
              using 2 Some h sz sz2 decode_size [OF r(1)] by (simp add: Lab_decode_frame getFrame_frame [of bo junk s] getFrame_frame [of bo junk t] IH)
          next
            case 3
            then show ?thesis using 2 Some h by (simp add: Lab_decode_frame getFrame_frame [of bo junk s] getFrame_frame [of bo junk t] same_result_def)
          qed
        qed
      qed
    qed
  qed
qed

section \<open>Escaped frames\<close>

lemma st_decode_escape: "st_decode (length d) (escape d @ rest) = Stream_ok d (escape d) rest"
  by (induction d) (auto simp: escape1_def)

lemma st_decode_escape_more:
  "length d \<le> n \<Longrightarrow> st_decode n (escape d @ rest) = stream_cons d (escape d) (st_decode (n - length d) rest)"
proof (induction d arbitrary: n)
  case Nil
  then show ?case by (cases "st_decode n rest") simp_all
next
  case (Cons x d)
  then show ?case by (cases n) (auto simp: escape1_def)
qed

lemma decode_ok_stream:
  assumes "chunks_ok s" "n \<noteq> 0" "st_decode n (flat s) = Stream_ok ds rs rest"
  obtains s' where "decode n dst rw s = (DECODE_STATUS_OK, dst @ ds, rw @ rs, s')" "flat s' = rest"
    "stats_agree s s'"
proof -
  obtain a d r s' where d: "decode n dst rw s = (a, d, r, s')" by (metis prod_cases4)
  then show ?thesis
    using decode_stream [OF assms(1,2), of dst rw] assms(3) that
    by (cases a) (auto simp: decode_agrees_def stats_agree_def)
qed

lemma decode_resync_stream:
  assumes "chunks_ok s" "n \<noteq> 0" "st_decode n (flat s) = Stream_resync rest"
  obtains d r s' where "decode n dst rw s = (DECODE_STATUS_RESYNC, d, r, s')" "flat s' = rest" "stats_agree s s'"
proof -
  obtain a d r s' where d: "decode n dst rw s = (a, d, r, s')" by (metis prod_cases4)
  then show ?thesis
    using decode_stream [OF assms(1,2), of dst rw] assms(3) that
    by (cases a) (auto simp: decode_agrees_def stats_agree_def)
qed

text \<open>A frame as the receiver writes it, behind its SYNC, and what the parser makes of it.\<close>

definition frame_bytes :: "u8 \<Rightarrow> u8 list \<Rightarrow> u8 list \<Rightarrow> u8 list" where
  "frame_bytes type hdr pl = type # escape hdr @ escape pl"

definition parsed_frame :: "byte_order \<Rightarrow> u8 \<Rightarrow> u8 \<Rightarrow> u8 list \<Rightarrow> u8 list \<Rightarrow> raw_frame \<times> decoded_frame" where
  "parsed_frame bo junk type hdr pl =
    (let r = BEAST_SYNC # type # escape hdr @ escape pl
     in (\<lparr>rawLen = of_nat (length r), raw = r\<rparr>, make_decoded bo junk type (length pl) hdr pl))"

lemma next_stream:
  assumes "chunks_ok s" "flat s = x # xs"
  obtains s' where "rc_next s = (Some x, s')" "flat s' = xs" "stats_agree s s'"
  using rc_next_stream [OF assms(1)] assms(2) by auto

lemma getFrame_frame_stream:
  assumes s: "chunks_ok s" "flat s = frame_bytes type hdr pl @ rest"
    and n: "frame_payload_len type = Some (length pl)" "length hdr = 7"
  shows "\<exists>s'. getFrame bo junk Lab_decode_frame s = (Some (parsed_frame bo junk type hdr pl), s')
    \<and> flat s' = rest \<and> stats_agree s s'"
proof -
  obtain s1 where s1: "rc_next s = (Some type, s1)" "flat s1 = escape hdr @ escape pl @ rest" "stats_agree s s1"
    using next_stream [OF s(1)] s(2) by (auto simp: frame_bytes_def)
  have c1: "chunks_ok s1" using s1(3) by (simp add: stats_agree_def)
  have "st_decode 7 (flat s1) = Stream_ok hdr (escape hdr) (escape pl @ rest)"
    using st_decode_escape [of hdr "escape pl @ rest"] n(2) s1(2) by simp
  then obtain s2 where s2: "decode 7 [] [BEAST_SYNC, type] s1 = (DECODE_STATUS_OK, [] @ hdr, [BEAST_SYNC, type] @ escape hdr, s2)"
    "flat s2 = escape pl @ rest" "stats_agree s1 s2"
    using decode_ok_stream [OF c1] by (metis zero_neq_numeral)
  have c2: "chunks_ok s2" using s2(3) by (simp add: stats_agree_def)
  obtain s3 where s3: "decode (length pl) [] ([BEAST_SYNC, type] @ escape hdr) s2
      = (DECODE_STATUS_OK, [] @ pl, ([BEAST_SYNC, type] @ escape hdr) @ escape pl, s3)" "flat s3 = rest" "stats_agree s2 s3"
    using decode_ok_stream [OF c2 payload_len_nonzero [OF n(1)]] st_decode_escape s2(2) by metis
  have "getFrame bo junk Lab_decode_frame s = (Some (parsed_frame bo junk type hdr pl), s3)"
    using s1(1) s2(1) s3(1) n(1) by (simp add: getFrame_frame [of bo junk s] parsed_frame_def Let_def)
  moreover have "stats_agree s s3" using s1(3) s2(3) s3(3) by (simp add: stats_agree_def)
  ultimately show ?thesis using s3(2) by blast
qed

text \<open>The time stamp is the first six header bytes, most significant first.\<close>

lemma header_mlat_be:
  assumes "length hdr = 7"
  shows "header_mlat bo junk hdr = be_word (take 6 hdr)"
proof -
  have "map_option (betoh bo 8) (load_host bo 8 (hdr @ [junk]) :: u64 option) = Some (be_word (hdr @ [junk]))"
    using betoh_load_host [of 8 bo "hdr @ [junk]", where 'a = 64] assms by simp
  then have "betoh bo 8 (the (load_host bo 8 (hdr @ [junk]))) = (be_word (hdr @ [junk]) :: u64)" by auto
  moreover have "drop_bit 16 (be_word (hdr @ [junk]) :: u64) = be_word (take 6 hdr)"
  proof (rule bit_word_eqI)
    fix k assume k: "k < LENGTH(64)"
    have "length (drop 6 hdr) = Suc 0" using assms by simp
    then obtain h6 where "drop 6 hdr = [h6]" unfolding length_Suc_conv by auto
    then have h: "hdr = take 6 hdr @ [h6]" by (metis append_take_drop_id)
    have rv: "rev (hdr @ [junk]) = junk # h6 # rev (take 6 hdr)" by (subst h) simp
    have dm: "(16 + k) div 8 = Suc (Suc (k div 8))" "(16 + k) mod 8 = k mod 8" by presburger+
    show "bit (drop_bit 16 (be_word (hdr @ [junk]) :: u64)) k \<longleftrightarrow> bit (be_word (take 6 hdr) :: u64) k"
      unfolding be_word_def rv bit_drop_bit_eq comp_def bit_le_word dm
      using assms k by auto
  qed
  ultimately show ?thesis by (simp add: header_mlat_def)
qed

section \<open>What comes out is a whole frame\<close>

lemma escape_sync: "escape (xs @ [BEAST_SYNC]) = escape xs @ [BEAST_SYNC, BEAST_SYNC]"
  by (simp add: escape1_def)

lemma decode_whole:
  "decode n dst rw s = (DECODE_STATUS_OK, d, r, s') \<Longrightarrow>
    \<exists>ds. length ds = n \<and> d = dst @ ds \<and> r = rw @ escape ds"
proof (induction n arbitrary: dst rw s rule: less_induct)
  case (less n)
  obtain ok t where ft: "filled s = (ok, t)" by fastforce
  then have ok: ok using less.prems decode_fail [of s t n dst rw] by (cases ok) auto
  then have ft': "filled s = (True, t)" using ft by simp
  let ?B = "rc_buf t"
  have ne: "?B \<noteq> []" using fill_if_size [OF ft'] by simp
  define m where "m = min (length ?B) n"
  have m: "length (take m ?B) = m" "m \<le> n" by (simp_all add: m_def)
  show ?case
  proof (cases "memchr BEAST_SYNC (take m ?B)")
    case None
    then have e: "escape (take m ?B) = take m ?B" by (simp add: memchr_None_iff escape_no_sync)
    note dm = decode_miss [OF ft' m_def None, of dst rw]
    show ?thesis
    proof (cases "n - m = 0")
      case True
      then show ?thesis using dm less.prems e m by (intro exI [of _ "take m ?B"]) simp
    next
      case False
      then have "n - m < n" using ne by (simp add: m_def)
      from less.IH [OF this] obtain ds where "length ds = n - m" "d = (dst @ take m ?B) @ ds"
        "r = (rw @ take m ?B) @ escape ds"
        using dm less.prems False by fastforce
      then show ?thesis using e m by (intro exI [of _ "take m ?B @ ds"]) simp
    qed
  next
    case (Some i)
    obtain ok2 u where fu: "filled (t\<lparr>rc_buf := drop (i + 1) ?B\<rparr>) = (ok2, u)" by fastforce
    note dh = decode_hit [OF ft' m_def Some fu, of dst rw]
    have im: "i < m" using memchr_Some_less [OF Some] unfolding m(1) .
    then have i: "i < length ?B" using m(1) by simp
    have "take i (take m ?B) = take i ?B" using im by (simp add: min_def)
    then have "BEAST_SYNC \<notin> set (take i ?B)" using memchr_SomeD [OF Some] by metis
    then have e: "escape (take i ?B) = take i ?B" by (rule escape_no_sync)
    have raw: "take (i + 1) ?B = take i ?B @ [BEAST_SYNC]"
      using memchr_SomeD [OF Some] im i by (simp add: take_Suc_conv_app_nth)
    have e2: "escape (take i ?B @ [BEAST_SYNC]) = take (i + 1) ?B @ [BEAST_SYNC]"
      unfolding escape_sync e raw by simp
    let ?v = "u\<lparr>rc_buf := tl (rc_buf u)\<rparr>"
    show ?thesis
    proof (cases "n - i - 1 = 0")
      case True
      then have "d = dst @ take i ?B @ [BEAST_SYNC]" "r = rw @ take (i + 1) ?B @ [BEAST_SYNC]"
        using dh less.prems by (auto split: if_splits)
      moreover have "length (take i ?B @ [BEAST_SYNC]) = n" using True im m(2) i by simp
      ultimately show ?thesis using e2 by (intro exI [of _ "take i ?B @ [BEAST_SYNC]"]) simp
    next
      case False
      then have lt: "n - i - 1 < n" by simp
      have "decode (n - i - 1) (dst @ take i ?B @ [BEAST_SYNC]) (rw @ take (i + 1) ?B @ [BEAST_SYNC]) ?v
          = (DECODE_STATUS_OK, d, r, s')"
        using dh less.prems False by (auto split: if_splits)
      from less.IH [OF lt this] obtain ds where ds: "length ds = n - i - 1"
        "d = (dst @ take i ?B @ [BEAST_SYNC]) @ ds" "r = (rw @ take (i + 1) ?B @ [BEAST_SYNC]) @ escape ds"
        by blast
      have "length ((take i ?B @ [BEAST_SYNC]) @ ds) = n" using ds(1) False im m(2) i by simp
      moreover have "r = rw @ escape ((take i ?B @ [BEAST_SYNC]) @ ds)"
        unfolding escape_simps(3) [of "take i ?B @ [BEAST_SYNC]"] e2 using ds(3) by simp
      moreover have "d = dst @ (take i ?B @ [BEAST_SYNC]) @ ds" using ds(2) by simp
      ultimately show ?thesis by (intro exI [of _ "(take i ?B @ [BEAST_SYNC]) @ ds"] conjI)
    qed
  qed
qed

lemma escape_append: "escape xs @ escape ys = escape (xs @ ys)"
  by simp

lemma getFrame_whole:
  assumes "getFrame bo junk lab s = (Some (r, d), s')"
  shows "\<exists>hdr. length hdr = 7 \<and> frame_payload_len (frameType d) = Some (length (payload d))
    \<and> (r, d) = parsed_frame bo junk (frameType d) hdr (payload d)"
  using assms
proof (induction "rc_size s" arbitrary: lab s rule: less_induct)
  case less
  have IH: "rc_size t < rc_size s \<Longrightarrow> getFrame bo junk lab' t = (Some (r, d), s') \<Longrightarrow> ?case" for t lab'
    using less.hyps by blast
  show ?case
  proof (cases lab)
    case Lab_top
    obtain x s1 where x: "rc_next s = (x, s1)" by fastforce
    show ?thesis
    proof (cases x)
      case None
      then show ?thesis using less.prems Lab_top x by (simp add: getFrame_top)
    next
      case (Some c)
      then have lt: "rc_size s1 < rc_size s" using rc_next_size [of s c s1] x by simp
      show ?thesis
      proof (cases "c = BEAST_SYNC")
        case True
        then show ?thesis using IH [OF lt] less.prems Lab_top x Some by (simp add: getFrame_top)
      next
        case False
        then show ?thesis using IH [of "inc_outOfSync s1"] lt less.prems Lab_top x Some by (simp add: getFrame_top)
      qed
    qed
  next
    case Lab_synchronize
    obtain ok s1 where x: "synchronize s = (ok, s1)" by fastforce
    show ?thesis
    proof (cases ok)
      case False
      then show ?thesis using less.prems Lab_synchronize x by (simp add: getFrame_sync)
    next
      case True
      then have "rc_size s1 < rc_size s" using synchronize_size [of s s1] x by simp
      from IH [OF this] show ?thesis using less.prems Lab_synchronize x True by (simp add: getFrame_sync)
    qed
  next
    case Lab_decode_frame
    note prem = less.prems [unfolded Lab_decode_frame getFrame_frame [of bo junk s]]
    obtain x s1 where x: "rc_next s = (x, s1)" by fastforce
    show ?thesis
    proof (cases x)
      case None
      then show ?thesis using prem x by simp
    next
      case (Some type)
      then have lt1: "rc_size s1 < rc_size s" using rc_next_size [of s type s1] x by simp
      show ?thesis
      proof (cases "frame_payload_len type")
        case None
        then show ?thesis
          using prem x Some lt1 IH [of "inc_outOfSync s1"] IH [of "inc_unknown s1"] by (simp split: if_splits)
      next
        case n: (Some n)
        obtain a hdr rw s2 where h: "decode 7 [] [BEAST_SYNC, type] s1 = (a, hdr, rw, s2)" by (metis prod_cases4)
        have lt2: "rc_size s2 < rc_size s" using decode_size [OF h] lt1 by simp
        show ?thesis
        proof (cases a)
          case DECODE_STATUS_CONNFAIL
          then show ?thesis using prem x Some n h by simp
        next
          case DECODE_STATUS_RESYNC
          then show ?thesis using prem x Some n h lt2 IH [of "inc_outOfSync s2"] by simp
        next
          case hok: DECODE_STATUS_OK
          obtain b pl rw2 s3 where p: "decode n [] rw s2 = (b, pl, rw2, s3)" by (metis prod_cases4)
          have lt3: "rc_size s3 < rc_size s" using decode_size [OF p] lt2 by simp
          show ?thesis
          proof (cases b)
            case DECODE_STATUS_CONNFAIL
            then show ?thesis using prem x Some n h hok p by simp
          next
            case DECODE_STATUS_RESYNC
            then show ?thesis using prem x Some n h hok p lt3 IH [of "inc_outOfSync s3"] by simp
          next
            case DECODE_STATUS_OK
            then have res: "r = \<lparr>rawLen = of_nat (length rw2), raw = rw2\<rparr>" "d = make_decoded bo junk type n hdr pl"
              using prem x Some n h hok p by simp_all
            have hw: "length hdr = 7" "rw = [BEAST_SYNC, type] @ escape hdr"
              using decode_whole [OF h [unfolded hok]] by auto
            have pw: "length pl = n" "rw2 = rw @ escape pl"
              using decode_whole [OF p [unfolded DECODE_STATUS_OK]] by auto
            show ?thesis
              using res hw pw n by (intro exI [of _ hdr]) (simp add: make_decoded_def parsed_frame_def Let_def)
          qed
        qed
      qed
    qed
  qed
qed

lemma parsed_frame_bounds:
  assumes "frame_payload_len type = Some (length pl)" "length hdr = 7"
  shows "length (raw (fst (parsed_frame bo junk type hdr pl))) \<le> 44"
    and "unat (rawLen (fst (parsed_frame bo junk type hdr pl))) = length (raw (fst (parsed_frame bo junk type hdr pl)))"
proof -
  have "length pl \<le> 14" using assms(1) by (auto simp: frame_payload_len_def split: if_splits)
  moreover have "length (escape hdr @ escape pl) \<le> 2 * length (hdr @ pl)"
    using length_BEAST_encode_le [of "hdr @ pl"] by (simp add: BEAST_encode_eq_escape)
  ultimately have 1: "length (BEAST_SYNC # type # escape hdr @ escape pl) \<le> 44" using assms(2) by simp
  then show "length (raw (fst (parsed_frame bo junk type hdr pl))) \<le> 44"
    by (simp add: parsed_frame_def Let_def)
  have "unat (of_nat (length (BEAST_SYNC # type # escape hdr @ escape pl)) :: u64)
      = length (BEAST_SYNC # type # escape hdr @ escape pl)"
    using 1 by (intro unat_of_nat_small) simp
  then show "unat (rawLen (fst (parsed_frame bo junk type hdr pl))) = length (raw (fst (parsed_frame bo junk type hdr pl)))"
    by (simp add: parsed_frame_def Let_def)
qed

lemma payload_len_beast: "frame_payload_len ty = Some n \<Longrightarrow> beast_type ty"
  by (auto simp: frame_payload_len_def beast_type_def split: if_splits)

section \<open>Resynchronisation\<close>

text \<open>What may come before an intact frame: bytes in which every SYNC is doubled, or a frame of a known type
  that breaks off somewhere in its header or payload, behind a whole (escaped) byte; or a frame of an
  unknown type.\<close>

definition damaged :: "u8 list \<Rightarrow> bool" where
  "damaged g \<longleftrightarrow> (\<exists>xs. xs \<noteq> [] \<and> g = escape xs)
     \<or> (\<exists>type n d. g = BEAST_SYNC # type # escape d \<and> frame_payload_len type = Some n \<and> length d < 7 + n)"

definition unknown_frame :: "u8 list \<Rightarrow> bool" where
  "unknown_frame g \<longleftrightarrow> (\<exists>type d. g = BEAST_SYNC # type # escape d \<and> frame_payload_len type = None \<and> type \<noteq> BEAST_SYNC)"

lemma known_type_no_sync: "frame_payload_len type = Some n \<Longrightarrow> type \<noteq> BEAST_SYNC"
  by (auto simp: frame_payload_len_def frame_type_defs BEAST_SYNC_def split: if_splits)

lemma st_decode_cut:
  assumes "length d < n" "type \<noteq> BEAST_SYNC"
  shows "st_decode n (escape d @ BEAST_SYNC # type # xs) = Stream_resync (type # xs)"
proof -
  obtain k where "n - length d = Suc k" using assms(1) by (metis Suc_diff_Suc)
  then show ?thesis using st_decode_escape_more [of d n "BEAST_SYNC # type # xs"] assms by simp
qed

lemma getFrame_after_resync:
  assumes "stats_agree s s1" "flat s1 = frame_bytes type hdr pl @ rest"
    and "frame_payload_len type = Some (length pl)" "length hdr = 7"
  shows "\<exists>s'. getFrame bo junk Lab_decode_frame (inc_outOfSync s1) = (Some (parsed_frame bo junk type hdr pl), s')
    \<and> flat s' = rest \<and> chunks_ok s' \<and> rc_stats s' = rc_stats (inc_outOfSync s)"
proof -
  have "chunks_ok (inc_outOfSync s1)" "flat (inc_outOfSync s1) = frame_bytes type hdr pl @ rest"
    using assms(1,2) by (simp_all add: stats_agree_def inc_outOfSync_def chunks_ok_def flat_def)
  from getFrame_frame_stream [OF this assms(3,4)] show ?thesis
    using assms(1) by (auto simp: stats_agree_def inc_outOfSync_def)
qed

lemma st_sync_escape: "st_sync (escape xs @ ys) = st_sync ys"
  by (induction xs) (auto simp: escape1_def)

text \<open>Looking for the next frame skips doubled SYNCs.\<close>

lemma synchronize_to_frame:
  assumes "chunks_ok s" "flat s = escape xs @ BEAST_SYNC # frame_bytes type hdr pl @ rest"
    and n: "frame_payload_len type = Some (length pl)" "length hdr = 7"
  shows "\<exists>s'. getFrame bo junk Lab_synchronize s = (Some (parsed_frame bo junk type hdr pl), s')
    \<and> flat s' = rest \<and> stats_agree s s'"
proof -
  have "st_sync (flat s) = Some (frame_bytes type hdr pl @ rest)"
    using known_type_no_sync [OF n(1)] by (simp add: assms(2) st_sync_escape frame_bytes_def)
  then obtain s2 where s2: "synchronize s = (True, s2)" "flat s2 = frame_bytes type hdr pl @ rest" "stats_agree s s2"
    using synchronize_stream [OF assms(1)] by auto
  have "chunks_ok s2" using s2(3) by (simp add: stats_agree_def)
  from getFrame_frame_stream [OF this s2(2) n, of bo junk] obtain s' where
    "getFrame bo junk Lab_decode_frame s2 = (Some (parsed_frame bo junk type hdr pl), s')" "flat s' = rest" "stats_agree s2 s'"
    by blast
  then show ?thesis using s2(1,3) by (simp add: getFrame_sync stats_agree_def)
qed

lemma stats_agree_ok: "stats_agree s t \<Longrightarrow> chunks_ok (inc_outOfSync t) \<and> chunks_ok (inc_unknown t) \<and> chunks_ok t"
  by (simp add: stats_agree_def inc_outOfSync_def inc_unknown_def chunks_ok_def)

lemma flat_inc [simp]: "flat (inc_outOfSync s) = flat s" "flat (inc_unknown s) = flat s"
  by (simp_all add: inc_outOfSync_def inc_unknown_def flat_def)

lemma resync_garbage:
  assumes s: "chunks_ok s" "flat s = escape g @ BEAST_SYNC # frame_bytes type hdr pl @ rest"
    and g: "g \<noteq> []"
    and n: "frame_payload_len type = Some (length pl)" "length hdr = 7"
  shows "\<exists>s'. INPUT_getFrame bo junk s = (Some (parsed_frame bo junk type hdr pl), s')
    \<and> flat s' = rest \<and> rc_stats s' = rc_stats (inc_outOfSync s)"
proof -
  obtain x xs where x: "g = x # xs" using g by (cases g) auto
  let ?more = "escape xs @ BEAST_SYNC # frame_bytes type hdr pl @ rest"
  have "\<exists>t. INPUT_getFrame bo junk s = getFrame bo junk Lab_synchronize (inc_outOfSync t) \<and> flat t = ?more \<and> stats_agree s t"
  proof (cases "x = BEAST_SYNC")
    case False
    then obtain s1 where "rc_next s = (Some x, s1)" "flat s1 = ?more" "stats_agree s s1"
      using next_stream [OF s(1)] s(2) x by (auto simp: escape1_def)
    then show ?thesis using False by (auto simp: INPUT_getFrame_def getFrame_top)
  next
    case True
    then have "flat s = BEAST_SYNC # BEAST_SYNC # ?more" using s(2) x by (simp add: escape1_def)
    from next_stream [OF s(1) this] obtain s1 where
      s1: "rc_next s = (Some BEAST_SYNC, s1)" "flat s1 = BEAST_SYNC # ?more" "stats_agree s s1" by auto
    have "chunks_ok s1" using s1(3) stats_agree_ok by blast
    from next_stream [OF this s1(2)] obtain s2 where
      s2: "rc_next s1 = (Some BEAST_SYNC, s2)" "flat s2 = ?more" "stats_agree s1 s2" by auto
    have "frame_payload_len BEAST_SYNC = None" by (simp add: frame_payload_len_def frame_type_defs BEAST_SYNC_def)
    then have "INPUT_getFrame bo junk s = getFrame bo junk Lab_synchronize (inc_outOfSync s2)"
      using s1(1) s2(1) by (simp add: INPUT_getFrame_def getFrame_top getFrame_frame [of bo junk s1])
    then show ?thesis using s1(3) s2 by (auto simp: stats_agree_def)
  qed
  then obtain t where t: "INPUT_getFrame bo junk s = getFrame bo junk Lab_synchronize (inc_outOfSync t)" "flat t = ?more"
    "stats_agree s t" by blast
  have "chunks_ok (inc_outOfSync t)" "flat (inc_outOfSync t) = ?more" using stats_agree_ok [OF t(3)] t(2) by simp_all
  from synchronize_to_frame [OF this n, of bo junk] show ?thesis
    using t(1,3) by (auto simp: stats_agree_def inc_outOfSync_def)
qed

lemma resync_unknown:
  assumes s: "chunks_ok s" "flat s = (BEAST_SYNC # type0 # escape d) @ BEAST_SYNC # frame_bytes type hdr pl @ rest"
    and d: "frame_payload_len type0 = None" "type0 \<noteq> BEAST_SYNC"
    and n: "frame_payload_len type = Some (length pl)" "length hdr = 7"
  shows "\<exists>s'. INPUT_getFrame bo junk s = (Some (parsed_frame bo junk type hdr pl), s')
    \<and> flat s' = rest \<and> rc_stats s' = rc_stats (inc_unknown s)"
proof -
  let ?more = "escape d @ BEAST_SYNC # frame_bytes type hdr pl @ rest"
  obtain s1 where s1: "rc_next s = (Some BEAST_SYNC, s1)" "flat s1 = type0 # ?more" "stats_agree s s1"
    using next_stream [OF s(1)] s(2) by auto
  have "chunks_ok s1" using s1(3) stats_agree_ok by blast
  from next_stream [OF this s1(2)] obtain s2 where s2: "rc_next s1 = (Some type0, s2)" "flat s2 = ?more" "stats_agree s1 s2" by auto
  have run: "INPUT_getFrame bo junk s = getFrame bo junk Lab_synchronize (inc_unknown s2)"
    using s1(1) s2(1) d by (simp add: INPUT_getFrame_def getFrame_top getFrame_frame [of bo junk s1])
  have "chunks_ok (inc_unknown s2)" "flat (inc_unknown s2) = ?more" using stats_agree_ok [OF s2(3)] s2(2) by simp_all
  from synchronize_to_frame [OF this n, of bo junk] show ?thesis
    using run s1(3) s2(3) by (auto simp: stats_agree_def inc_unknown_def)
qed

lemma resync_cut:
  assumes s: "chunks_ok s" "flat s = (BEAST_SYNC # type0 # escape d) @ BEAST_SYNC # frame_bytes type hdr pl @ rest"
    and d: "frame_payload_len type0 = Some n0" "length d < 7 + n0"
    and n: "frame_payload_len type = Some (length pl)" "length hdr = 7"
  shows "\<exists>s'. INPUT_getFrame bo junk s = (Some (parsed_frame bo junk type hdr pl), s')
    \<and> flat s' = rest \<and> chunks_ok s' \<and> rc_stats s' = rc_stats (inc_outOfSync s)"
proof -
  let ?fr = "frame_bytes type hdr pl @ rest"
  have ns: "type \<noteq> BEAST_SYNC" by (rule known_type_no_sync [OF n(1)])
  have cut: "length e < k \<Longrightarrow> st_decode k (escape e @ BEAST_SYNC # ?fr) = Stream_resync ?fr" for e k
    using st_decode_cut [OF _ ns, of e k] by (simp add: frame_bytes_def)
  obtain s1 where s1: "rc_next s = (Some BEAST_SYNC, s1)" "flat s1 = type0 # escape d @ BEAST_SYNC # ?fr" "stats_agree s s1"
    using next_stream [OF s(1)] s(2) by auto
  have c1: "chunks_ok s1" using s1(3) by (simp add: stats_agree_def)
  obtain s2 where s2: "rc_next s1 = (Some type0, s2)" "flat s2 = escape d @ BEAST_SYNC # ?fr" "stats_agree s1 s2"
    using next_stream [OF c1 s1(2)] by auto
  have c2: "chunks_ok s2" using s2(3) by (simp add: stats_agree_def)
  have top: "INPUT_getFrame bo junk s = getFrame bo junk Lab_decode_frame s1"
    using s1(1) by (simp add: INPUT_getFrame_def getFrame_top)
  show ?thesis
  proof (cases "length d < 7")
    case True
    obtain e r s3 where s3: "decode 7 [] [BEAST_SYNC, type0] s2 = (DECODE_STATUS_RESYNC, e, r, s3)" "flat s3 = ?fr" "stats_agree s2 s3"
      using decode_resync_stream [OF c2, of 7 ?fr] cut [OF True] s2(2) by (metis zero_neq_numeral)
    have "stats_agree s s3" using s1(3) s2(3) s3(3) by (simp add: stats_agree_def)
    from getFrame_after_resync [OF this s3(2) n] show ?thesis
      using top s2(1) d(1) s3(1) by (simp add: getFrame_frame [of bo junk s1])
  next
    case False
    define h p where "h = take 7 d" and "p = drop 7 d"
    have hp: "escape d = escape h @ escape p" "length h = 7" "length p < n0"
      using False d(2) unfolding h_def p_def by (simp_all flip: escape_simps(3))
    have "st_decode 7 (flat s2) = Stream_ok h (escape h) (escape p @ BEAST_SYNC # ?fr)"
      using st_decode_escape [of h "escape p @ BEAST_SYNC # ?fr"] hp s2(2) by simp
    then obtain s3 where s3: "decode 7 [] [BEAST_SYNC, type0] s2 = (DECODE_STATUS_OK, [] @ h, [BEAST_SYNC, type0] @ escape h, s3)"
      "flat s3 = escape p @ BEAST_SYNC # ?fr" "stats_agree s2 s3"
      using decode_ok_stream [OF c2] by (metis zero_neq_numeral)
    have c3: "chunks_ok s3" using s3(3) by (simp add: stats_agree_def)
    obtain e r s4 where s4: "decode n0 [] ([BEAST_SYNC, type0] @ escape h) s3 = (DECODE_STATUS_RESYNC, e, r, s4)"
      "flat s4 = ?fr" "stats_agree s3 s4"
      using decode_resync_stream [OF c3 payload_len_nonzero [OF d(1)]] cut [OF hp(3)] s3(2) by metis
    have "stats_agree s s4" using s1(3) s2(3) s3(3) s4(3) by (simp add: stats_agree_def)
    from getFrame_after_resync [OF this s4(2) n] show ?thesis
      using top s2(1) d(1) s3(1) s4(1) by (simp add: getFrame_frame [of bo junk s1])
  qed
qed

lemma getFrame_roundtrip:
  assumes "chunks_ok s" "flat s = BEAST_SYNC # type # BEAST_encode (hdr @ pl) @ rest"
    and "frame_payload_len type = Some (length pl)" "length hdr = 7"
  shows "\<exists>r d s'. INPUT_getFrame bo junk s = (Some (r, d), s')
    \<and> raw r = BEAST_SYNC # type # BEAST_encode (hdr @ pl) \<and> rawLen r = of_nat (length (raw r))
    \<and> frameType d = type \<and> mlat d = be_word (take 6 hdr) \<and> siglevel d = hdr ! 6 \<and> payload d = pl
    \<and> flat s' = rest \<and> rc_stats s' = rc_stats s"
proof -
  obtain s1 where s1: "rc_next s = (Some BEAST_SYNC, s1)" "flat s1 = frame_bytes type hdr pl @ rest" "stats_agree s s1"
    using next_stream [OF assms(1,2)] by (auto simp: frame_bytes_def BEAST_encode_eq_escape)
  have "chunks_ok s1" using s1(3) by (simp add: stats_agree_def)
  from getFrame_frame_stream [OF this s1(2) assms(3,4), of bo junk] obtain s' where
    "getFrame bo junk Lab_decode_frame s1 = (Some (parsed_frame bo junk type hdr pl), s')"
    "flat s' = rest" "stats_agree s1 s'" by blast
  then show ?thesis
    using s1(1,3) header_mlat_be [OF assms(4)]
    by (simp add: INPUT_getFrame_def getFrame_top parsed_frame_def make_decoded_def Let_def
        BEAST_encode_eq_escape stats_agree_def)
qed

section \<open>Properties\<close>

definition sample_hdr :: "u8 list" where "sample_hdr = [0, 0, 0x1a, 0, 0, 5, 9]"

definition sample_stream :: "u8 list" where
  "sample_stream = BEAST_SYNC # frame_bytes OPENSKY_FRAME_TYPE_MODE_AC sample_hdr [0x1a, 7]"

definition sample_rc :: "u8 list list \<Rightarrow> rc" where
  "sample_rc cs = \<lparr>rc_buf = [], rc_in = cs, rc_stats = \<lparr>frameTypeUnknown = 0, outOfSync = 0\<rparr>\<rparr>"

lemma sample_rc_facts:
  "chunks_ok (sample_rc cs) = ([] \<notin> set cs)" "flat (sample_rc cs) = concat cs"
  "rc_stats (sample_rc cs) = rc_stats (sample_rc ds)"
  by (auto simp: sample_rc_def chunks_ok_def flat_def)

lemma getFrame_top_sample:
  "\<exists>r d s'. INPUT_getFrame Little_endian 0 (sample_rc [sample_stream]) = (Some (r, d), s')"
proof -
  have c: "chunks_ok (sample_rc [sample_stream])" by (simp add: sample_rc_facts sample_stream_def)
  have f: "flat (sample_rc [sample_stream]) = BEAST_SYNC # frame_bytes OPENSKY_FRAME_TYPE_MODE_AC sample_hdr [0x1a, 7]"
    by (simp add: sample_rc_facts sample_stream_def)
  obtain s1 where s1: "rc_next (sample_rc [sample_stream]) = (Some BEAST_SYNC, s1)"
    "flat s1 = frame_bytes OPENSKY_FRAME_TYPE_MODE_AC sample_hdr [0x1a, 7] @ []" "stats_agree (sample_rc [sample_stream]) s1"
    using next_stream [OF c f] by auto
  have "chunks_ok s1" using s1(3) by (simp add: stats_agree_def)
  moreover have "frame_payload_len OPENSKY_FRAME_TYPE_MODE_AC = Some (length [0x1a :: u8, 7])" "length sample_hdr = 7"
    by (simp_all add: frame_payload_len_def sample_hdr_def)
  ultimately obtain s' where "getFrame Little_endian 0 Lab_decode_frame s1
      = (Some (parsed_frame Little_endian 0 OPENSKY_FRAME_TYPE_MODE_AC sample_hdr [0x1a, 7]), s')"
    using getFrame_frame_stream [OF _ s1(2)] by blast
  then show ?thesis using s1(1) by (cases "parsed_frame Little_endian 0 OPENSKY_FRAME_TYPE_MODE_AC sample_hdr [0x1a, 7]")
    (simp add: INPUT_getFrame_def getFrame_top)
qed

text \<open>C26: the parser's result, the bytes it leaves, and its counters depend only on the bytes of
  the stream, not on how the input cuts them into reads.\<close>

theorem parser_chunk_independent:
  assumes "chunks_ok s" "chunks_ok t" "flat s = flat t" "rc_stats s = rc_stats t"
  shows "fst (INPUT_getFrame bo junk s) = fst (INPUT_getFrame bo junk t)
    \<and> (fst (INPUT_getFrame bo junk s) \<noteq> None \<longrightarrow>
         flat (snd (INPUT_getFrame bo junk s)) = flat (snd (INPUT_getFrame bo junk t))
         \<and> rc_stats (snd (INPUT_getFrame bo junk s)) = rc_stats (snd (INPUT_getFrame bo junk t)))"
proof -
  have "same_stream s t" using assms by (simp add: same_stream_def)
  from getFrame_same [OF this, of bo junk Lab_top] show ?thesis
    by (auto simp: same_result_def same_stream_def INPUT_getFrame_def)
qed

theorem parser_chunk_independent_witness:
  "fst (INPUT_getFrame Little_endian 0 (sample_rc [sample_stream]))
   = fst (INPUT_getFrame Little_endian 0 (sample_rc (map (\<lambda>b. [b]) sample_stream)))"
proof -
  have "concat (map (\<lambda>b. [b]) xs) = xs" for xs :: "u8 list" by (induction xs) auto
  then show ?thesis
    using parser_chunk_independent [of "sample_rc [sample_stream]" "sample_rc (map (\<lambda>b. [b]) sample_stream)" Little_endian 0]
    by (auto simp: sample_rc_facts sample_stream_def)
qed

text \<open>C11: a frame written with escaping is read back: type, time stamp, signal level and payload
  are decoded, the raw frame is the written bytes, and the parser stands behind the frame.\<close>

theorem parser_roundtrip:
  assumes "chunks_ok s" "flat s = BEAST_SYNC # type # BEAST_encode (hdr @ pl) @ rest"
    and "frame_payload_len type = Some (length pl)" "length hdr = 7"
  shows "\<exists>r d s'. INPUT_getFrame bo junk s = (Some (r, d), s')
    \<and> raw r = BEAST_SYNC # type # BEAST_encode (hdr @ pl) \<and> rawLen r = of_nat (length (raw r))
    \<and> frameType d = type \<and> mlat d = be_word (take 6 hdr) \<and> siglevel d = hdr ! 6 \<and> payload d = pl
    \<and> flat s' = rest \<and> rc_stats s' = rc_stats s"
  using assms by (rule getFrame_roundtrip)

theorem parser_roundtrip_witness:
  "\<exists>r d s'. INPUT_getFrame Big_endian 0xff (sample_rc [take 5 sample_stream, drop 5 sample_stream @ [1, 2]]) = (Some (r, d), s')
    \<and> mlat d = be_word [0, 0, 0x1a, 0, 0, 5] \<and> payload d = [0x1a, 7] \<and> flat s' = [1, 2]"
proof -
  have s: "chunks_ok (sample_rc [take 5 sample_stream, drop 5 sample_stream @ [1, 2]])"
    by (simp add: sample_rc_facts sample_stream_def)
  have f: "flat (sample_rc [take 5 sample_stream, drop 5 sample_stream @ [1, 2]])
      = BEAST_SYNC # OPENSKY_FRAME_TYPE_MODE_AC # BEAST_encode (sample_hdr @ [0x1a, 7]) @ [1, 2]"
  proof -
    have "concat [take 5 sample_stream, drop 5 sample_stream @ [1, 2]] = sample_stream @ [1, 2]"
      by (simp flip: append_assoc)
    then show ?thesis
      unfolding sample_rc_facts by (simp add: sample_stream_def frame_bytes_def BEAST_encode_eq_escape)
  qed
  have n: "frame_payload_len OPENSKY_FRAME_TYPE_MODE_AC = Some (length [0x1a :: u8, 7])" "length sample_hdr = 7"
    by (simp_all add: frame_payload_len_def sample_hdr_def)
  show ?thesis
    using parser_roundtrip [OF s f n, of Big_endian "0xff"] by (auto simp: sample_hdr_def)
qed

text \<open>Whatever the input delivers, a frame the parser hands out is one whole frame of a known
  type: its raw bytes are SYNC, the type, and the escaped header and payload it decoded, at most
  44 of the 46 bytes of the buffer, and the payload has the length of the type.\<close>

theorem parser_frames_whole:
  assumes "INPUT_getFrame bo junk s = (Some (r, d), s')"
  shows "beast_type (frameType d) \<and> frame_payload_len (frameType d) = Some (length (payload d))
    \<and> payloadLen d = of_nat (length (payload d))
    \<and> length (raw r) \<le> 44 \<and> unat (rawLen r) = length (raw r)
    \<and> (\<exists>hdr. length hdr = 7 \<and> mlat d = be_word (take 6 hdr) \<and> siglevel d = hdr ! 6
         \<and> raw r = BEAST_SYNC # frameType d # BEAST_encode (hdr @ payload d))"
proof -
  obtain hdr where hdr: "length hdr = 7" "frame_payload_len (frameType d) = Some (length (payload d))"
    "(r, d) = parsed_frame bo junk (frameType d) hdr (payload d)"
    using getFrame_whole [OF assms [unfolded INPUT_getFrame_def]] by blast
  note b = parsed_frame_bounds [OF hdr(2,1), of bo junk]
  have r: "r = fst (parsed_frame bo junk (frameType d) hdr (payload d))"
    and d: "d = make_decoded bo junk (frameType d) (length (payload d)) hdr (payload d)"
    using hdr(3) by (simp_all add: parsed_frame_def Let_def)
  have "raw r = BEAST_SYNC # frameType d # BEAST_encode (hdr @ payload d)"
    unfolding r by (simp add: parsed_frame_def Let_def BEAST_encode_eq_escape)
  moreover have "mlat d = be_word (take 6 hdr)" "siglevel d = hdr ! 6" "payloadLen d = of_nat (length (payload d))"
    by (subst d, simp add: make_decoded_def header_mlat_be [OF hdr(1)])+
  ultimately show ?thesis using b hdr(1,2) payload_len_beast [OF hdr(2)] r by blast
qed

theorem parser_frames_whole_witness:
  "\<exists>r d s'. INPUT_getFrame Little_endian 0 (sample_rc [sample_stream]) = (Some (r, d), s') \<and> length (raw r) \<le> 44"
proof -
  obtain r d s' where "INPUT_getFrame Little_endian 0 (sample_rc [sample_stream]) = (Some (r, d), s')"
    using getFrame_top_sample by blast
  then show ?thesis using parser_frames_whole by blast
qed



end
