(* ===== verification/Util_Component.thy ===== *)
theory Util_Component
  imports Opensky_Prelude
begin

text \<open>
  The component manager (\<open>util/component.c\<close>): registration, completion and ordering of the
  components by their dependencies, initialisation with rollback, start with rollback, and the
  stopping protocol with its deferred attempts.

  A \<open>const struct Component *\<close> is an address, the index of the descriptor in the table of the
  program's descriptors. The list of \<open>struct ComponentLink\<close> is a plain sequence, which
  Util\_List justifies, and a pointer to a link is its position. Callbacks and calls of the thread
  library are recorded in \<open>comp_log\<close>; what they answer may depend on all calls before.
\<close>

section \<open>Descriptors and state\<close>

type_synonym comp_addr = nat
type_synonym bool_addr = nat

text \<open>\<open>struct Component\<close>: for a callback, whether it is there; \<open>c_enabled\<close> and \<open>c_start\<close> are
  pointers to booleans.\<close>

record Component =
  c_description :: "u8 list"
  c_onRegister :: bool
  c_onConstruct :: bool
  c_onDestruct :: bool
  c_main :: bool
  c_onStart :: bool
  c_onStop :: bool
  c_onReset :: bool
  c_enabled :: "bool_addr option"
  c_start :: "bool_addr option"
  c_config :: bool
  c_dependencies :: "comp_addr list"

datatype comp_call =
    Call_malloc comp_addr
  | Call_registerSection comp_addr
  | Call_onRegister comp_addr
  | Call_onConstruct comp_addr
  | Call_onDestruct comp_addr
  | Call_onStart comp_addr
  | Call_onStop comp_addr bool
  | Call_onReset comp_addr
  | Call_pthread_create comp_addr
  | Call_pthread_cancel comp_addr
  | Call_pthread_timedjoin comp_addr
  | Call_pthread_join comp_addr

datatype COMPONENT_STATE =
  COMPONENT_STATE_REGISTERED | COMPONENT_STATE_INITIALIZED | COMPONENT_STATE_STARTED

text \<open>The thread reference: what the thread library knows about it.\<close>

datatype comp_thread = Thread_none | Thread_created | Thread_joined

record ComponentLink =
  l_comp :: comp_addr
  l_state :: COMPONENT_STATE
  l_thread :: comp_thread

record comp_mgr =
  components :: "ComponentLink list"
  bools :: "bool_addr \<Rightarrow> bool"
  comp_log :: "comp_call list"

text \<open>What the manager runs on: the descriptors, the answers of the calls (success or not), and
  whether the build has \<open>pthread_timedjoin_np\<close>.\<close>

record comp_env =
  comp_table :: "Component list"
  answer :: "comp_call list \<Rightarrow> comp_call \<Rightarrow> bool"
  has_timedjoin :: bool

definition call :: "comp_env \<Rightarrow> comp_call \<Rightarrow> comp_mgr \<Rightarrow> bool \<times> comp_mgr" where
  "call E c s = (answer E (comp_log s) c, s\<lparr>comp_log := comp_log s @ [c]\<rparr>)"

definition call_if :: "comp_env \<Rightarrow> bool \<Rightarrow> comp_call \<Rightarrow> comp_mgr \<Rightarrow> comp_mgr" where
  "call_if E b c s = (if b then snd (call E c s) else s)"

definition descr :: "comp_env \<Rightarrow> comp_addr \<Rightarrow> Component" where
  "descr E a = comp_table E ! a"

definition deps :: "comp_env \<Rightarrow> comp_addr \<Rightarrow> comp_addr list" where
  "deps E a = c_dependencies (descr E a)"

text \<open>\<open>p && !*p\<close>\<close>

definition is_off :: "comp_mgr \<Rightarrow> bool_addr option \<Rightarrow> bool" where
  "is_off s p = (case p of None \<Rightarrow> False | Some b \<Rightarrow> \<not> bools s b)"

abbreviation addrs :: "comp_mgr \<Rightarrow> comp_addr list" where
  "addrs s \<equiv> map l_comp (components s)"

definition set_state :: "nat \<Rightarrow> COMPONENT_STATE \<Rightarrow> comp_mgr \<Rightarrow> comp_mgr" where
  "set_state i st s = s\<lparr>components := (components s)[i := (components s ! i)\<lparr>l_state := st\<rparr>]\<rparr>"

definition set_thread :: "nat \<Rightarrow> comp_thread \<Rightarrow> comp_mgr \<Rightarrow> comp_mgr" where
  "set_thread i t s = s\<lparr>components := (components s)[i := (components s ! i)\<lparr>l_thread := t\<rparr>]\<rparr>"

section \<open>Registration\<close>

definition exists_comp :: "comp_addr \<Rightarrow> comp_mgr \<Rightarrow> bool" where
  "exists_comp a s \<longleftrightarrow> a \<in> set (addrs s)"

definition COMP_register :: "comp_env \<Rightarrow> comp_addr \<Rightarrow> comp_mgr \<Rightarrow> fault + comp_mgr" where
  "COMP_register E a s =
    (if exists_comp a s then Fault Emergency
     else let (ok, s) = call E (Call_malloc a) s
     in if \<not> ok then Fault Emergency
     else let s = s\<lparr>components := components s @
            [\<lparr>l_comp = a, l_state = COMPONENT_STATE_REGISTERED, l_thread = Thread_none\<rparr>]\<rparr>
     in if \<not> a < length (comp_table E) then Fault Out_of_bounds
     else let s = call_if E (c_config (descr E a)) (Call_registerSection a) s
     in Ok (call_if E (c_onRegister (descr E a)) (Call_onRegister a) s))"

fun unregister_loop :: "ComponentLink list \<Rightarrow> fault + unit" where
  "unregister_loop [] = Ok ()"
| "unregister_loop (ci # cs) =
    (if l_state ci \<noteq> COMPONENT_STATE_REGISTERED then Fault Assert_failed else unregister_loop cs)"

definition COMP_unregisterAll :: "comp_mgr \<Rightarrow> fault + comp_mgr" where
  "COMP_unregisterAll s =
    bind_ok (unregister_loop (components s)) (\<lambda>_. Ok (s\<lparr>components := []\<rparr>))"

section \<open>Dependencies\<close>

fun register_deps :: "comp_env \<Rightarrow> comp_addr list \<Rightarrow> comp_mgr \<Rightarrow> fault + comp_mgr" where
  "register_deps E [] s = Ok s"
| "register_deps E (d # ds) s =
    (if exists_comp d s then register_deps E ds s
     else bind_ok (COMP_register E d s) (register_deps E ds))"

text \<open>The table entries that are not registered yet; registering takes from them.\<close>

definition unregistered :: "comp_env \<Rightarrow> comp_mgr \<Rightarrow> comp_addr set" where
  "unregistered E s = {a. a < length (comp_table E) \<and> a \<notin> set (addrs s)}"

lemma call_simps [simp]:
  "components (snd (call E c s)) = components s" "bools (snd (call E c s)) = bools s"
  "comp_log (snd (call E c s)) = comp_log s @ [c]"
  "components (call_if E b c s) = components s" "bools (call_if E b c s) = bools s"
  "comp_log (call_if E b c s) = comp_log s @ (if b then [c] else [])"
  by (simp_all add: call_def call_if_def)

lemma COMP_register_Ok:
  assumes "COMP_register E a s = Ok s'"
  shows "components s' = components s @
      [\<lparr>l_comp = a, l_state = COMPONENT_STATE_REGISTERED, l_thread = Thread_none\<rparr>]"
    and "a \<notin> set (addrs s)" and "a < length (comp_table E)" and "bools s' = bools s"
  using assms
  by (auto simp: COMP_register_def exists_comp_def Let_def call_def split: if_splits)

lemma unregistered_finite [simp]: "finite (unregistered E s)"
  by (simp add: unregistered_def)

lemma COMP_register_decreases:
  assumes "COMP_register E a s = Ok s'"
  shows "card (unregistered E s') < card (unregistered E s)"
  using COMP_register_Ok [OF assms]
  by (intro psubset_card_mono) (auto simp: unregistered_def)

lemma register_deps_progress:
  "register_deps E ds s = Ok s' \<Longrightarrow>
    s' = s \<or> card (unregistered E s') < card (unregistered E s)"
proof (induction ds arbitrary: s)
  case (Cons d ds)
  show ?case
  proof (cases "exists_comp d s")
    case True
    then show ?thesis using Cons by simp
  next
    case False
    then obtain t where "COMP_register E d s = Ok t" "register_deps E ds t = Ok s'"
      using Cons.prems by (auto simp: bind_ok_eq_Inr)
    then show ?thesis using Cons.IH COMP_register_decreases by fastforce
  qed
qed simp

text \<open>The list grows at its end while it is walked: \<open>i\<close> is the position of the current link.\<close>

function fixDependencies_loop :: "comp_env \<Rightarrow> nat \<Rightarrow> comp_mgr \<Rightarrow> fault + comp_mgr" where
  "fixDependencies_loop E i s =
    (if i < length (components s)
     then case register_deps E (deps E (l_comp (components s ! i))) s of
            Inl e \<Rightarrow> Inl e
          | Inr s' \<Rightarrow> fixDependencies_loop E (Suc i) s'
     else Ok s)"
  by pat_completeness auto
termination
  by (relation "measures [\<lambda>(E, i, s). card (unregistered E s), \<lambda>(E, i, s). length (components s) - i]")
    (auto dest: register_deps_progress)

declare fixDependencies_loop.simps [simp del]

definition fixDependencies :: "comp_env \<Rightarrow> comp_mgr \<Rightarrow> fault + comp_mgr" where
  "fixDependencies E s = fixDependencies_loop E 0 s"

definition allDependencies :: "comp_env \<Rightarrow> comp_addr \<Rightarrow> comp_addr list \<Rightarrow> bool" where
  "allDependencies E a done \<longleftrightarrow> list_all (\<lambda>d. d \<in> set done) (deps E a)"

text \<open>The first link of the temporary list whose dependencies are all met, and the list without
  it.\<close>

fun take_ready :: "comp_env \<Rightarrow> comp_addr list \<Rightarrow> ComponentLink list \<Rightarrow>
    (ComponentLink \<times> ComponentLink list) option" where
  "take_ready E done [] = None"
| "take_ready E done (ci # cs) =
    (if allDependencies E (l_comp ci) done then Some (ci, cs)
     else map_option (apsnd ((#) ci)) (take_ready E done cs))"

lemma take_ready_length: "take_ready E done cs = Some (ci, cs') \<Longrightarrow> length cs' < length cs"
  by (induction cs arbitrary: cs') (fastforce split: if_splits)+

function sequentialize_loop :: "comp_env \<Rightarrow> ComponentLink list \<Rightarrow> ComponentLink list \<Rightarrow>
    fault + ComponentLink list" where
  "sequentialize_loop E tmp done =
    (if tmp = [] then Ok done
     else case take_ready E (map l_comp done) tmp of
            None \<Rightarrow> Fault Emergency
          | Some (ci, tmp') \<Rightarrow> sequentialize_loop E tmp' (done @ [ci]))"
  by pat_completeness auto
termination
  by (relation "measure (\<lambda>(E, tmp, done). length tmp)") (auto dest: take_ready_length)

declare sequentialize_loop.simps [simp del]

definition sequentialize :: "comp_env \<Rightarrow> comp_mgr \<Rightarrow> fault + comp_mgr" where
  "sequentialize E s =
    bind_ok (sequentialize_loop E (components s) []) (\<lambda>cs. Ok (s\<lparr>components := cs\<rparr>))"

definition COMP_fixup :: "comp_env \<Rightarrow> comp_mgr \<Rightarrow> fault + comp_mgr" where
  "COMP_fixup E s = bind_ok (fixDependencies E s) (sequentialize E)"

section \<open>Initialisation\<close>

text \<open>The check does not return when a dependency of an enabled component is disabled.\<close>

definition checkEnabledDependencies :: "comp_env \<Rightarrow> comp_mgr \<Rightarrow> fault + unit" where
  "checkEnabledDependencies E s =
    (if list_all (\<lambda>ci. is_off s (c_enabled (descr E (l_comp ci))) \<or>
          list_all (\<lambda>d. \<not> is_off s (c_enabled (descr E d))) (deps E (l_comp ci))) (components s)
     then Ok () else Fault Emergency)"

definition destruct_comp :: "comp_env \<Rightarrow> nat \<Rightarrow> comp_mgr \<Rightarrow> fault + comp_mgr" where
  "destruct_comp E i s =
    (let ci = components s ! i; c = descr E (l_comp ci) in
     if l_state ci = COMPONENT_STATE_STARTED then Fault Assert_failed
     else if l_state ci \<noteq> COMPONENT_STATE_INITIALIZED then Ok s
     else Ok (set_state i COMPONENT_STATE_REGISTERED
            (call_if E (c_onDestruct c) (Call_onDestruct (l_comp ci)) s)))"

text \<open>Destruct the links before position \<open>n\<close>, backwards.\<close>

fun destructUntil :: "comp_env \<Rightarrow> nat \<Rightarrow> comp_mgr \<Rightarrow> fault + comp_mgr" where
  "destructUntil E 0 s = Ok s"
| "destructUntil E (Suc n) s = bind_ok (destruct_comp E n s) (destructUntil E n)"

definition COMP_destructAll :: "comp_env \<Rightarrow> comp_mgr \<Rightarrow> fault + comp_mgr" where
  "COMP_destructAll E s = destructUntil E (length (components s)) s"

fun init_loop :: "comp_env \<Rightarrow> nat list \<Rightarrow> comp_mgr \<Rightarrow> fault + (bool \<times> comp_mgr)" where
  "init_loop E [] s = Ok (True, s)"
| "init_loop E (i # is) s =
    (let ci = components s ! i; a = l_comp ci; c = descr E a in
     if l_state ci \<noteq> COMPONENT_STATE_REGISTERED then Fault Assert_failed
     else if is_off s (c_enabled c) then init_loop E is s
     else let (ok, s) = (if c_onConstruct c then call E (Call_onConstruct a) s else (True, s))
     in if \<not> ok then bind_ok (destructUntil E i s) (\<lambda>s. Ok (False, s))
     else init_loop E is (set_state i COMPONENT_STATE_INITIALIZED s))"

definition COMP_initAll :: "comp_env \<Rightarrow> comp_mgr \<Rightarrow> fault + (bool \<times> comp_mgr)" where
  "COMP_initAll E s =
    bind_ok (checkEnabledDependencies E s) (\<lambda>_. init_loop E [0..<length (components s)] s)"

section \<open>Stopping\<close>

definition needs_thread :: "nat \<Rightarrow> comp_mgr \<Rightarrow> fault + unit" where
  "needs_thread i s =
    (if l_thread (components s ! i) = Thread_created then Ok () else Fault Bad_thread)"

text \<open>\<open>pthread_join\<close> waits for the end of the thread and releases it; a thread must not be joined
  again. \<open>pthread_timedjoin_np\<close> does the same when it succeeds.\<close>

definition pthread_join :: "comp_env \<Rightarrow> nat \<Rightarrow> comp_mgr \<Rightarrow> fault + comp_mgr" where
  "pthread_join E i s =
    bind_ok (needs_thread i s) (\<lambda>_.
      Ok (set_thread i Thread_joined (snd (call E (Call_pthread_join (l_comp (components s ! i))) s))))"

definition tryJoin :: "comp_env \<Rightarrow> nat \<Rightarrow> comp_mgr \<Rightarrow> fault + (bool \<times> comp_mgr)" where
  "tryJoin E i s =
    bind_ok (needs_thread i s) (\<lambda>_.
      let (ok, s) = call E (Call_pthread_timedjoin (l_comp (components s ! i))) s
      in Ok (ok, if ok then set_thread i Thread_joined s else s))"

definition stopThreaded :: "comp_env \<Rightarrow> nat \<Rightarrow> bool \<Rightarrow> comp_mgr \<Rightarrow> fault + (bool \<times> comp_mgr)" where
  "stopThreaded E i deferred s =
    (if deferred then
       bind_ok (if has_timedjoin E then tryJoin E i s else Ok (True, s)) (\<lambda>(ok, s).
         if \<not> ok then Ok (False, s)
         else bind_ok (pthread_join E i s) (\<lambda>s. Ok (True, s)))
     else
       bind_ok (needs_thread i s) (\<lambda>_.
         let s = snd (call E (Call_pthread_cancel (l_comp (components s ! i))) s)
         in if has_timedjoin E then tryJoin E i s else Ok (False, s)))"

definition stop_comp :: "comp_env \<Rightarrow> nat \<Rightarrow> bool \<Rightarrow> comp_mgr \<Rightarrow> fault + comp_mgr" where
  "stop_comp E i deferred s =
    (let ci = components s ! i; a = l_comp ci; c = descr E a in
     if l_state ci \<noteq> COMPONENT_STATE_STARTED then Ok s
     else bind_ok
       (if \<not> c_onStop c \<and> c_main c then stopThreaded E i deferred s
        else if c_onStop c then Ok (call E (Call_onStop a deferred) s)
        else Ok (True, s))
       (\<lambda>(stopped, s). Ok (if stopped then set_state i COMPONENT_STATE_INITIALIZED s else s)))"

definition is_started :: "nat \<Rightarrow> comp_mgr \<Rightarrow> bool" where
  "is_started i s \<longleftrightarrow> l_state (components s ! i) = COMPONENT_STATE_STARTED"

text \<open>The first pass over the links before position \<open>n\<close>, backwards, with the flag \<open>deferred\<close>.\<close>

fun stop_pass :: "comp_env \<Rightarrow> nat \<Rightarrow> bool \<Rightarrow> comp_mgr \<Rightarrow> fault + (bool \<times> comp_mgr)" where
  "stop_pass E 0 deferred s = Ok (deferred, s)"
| "stop_pass E (Suc n) deferred s =
    bind_ok (stop_comp E n False s) (\<lambda>s. stop_pass E n (deferred \<or> is_started n s) s)"

text \<open>One pass of deferred attempts, with the flags \<open>progress\<close> and \<open>deferred\<close>.\<close>

fun retry_pass :: "comp_env \<Rightarrow> nat \<Rightarrow> bool \<Rightarrow> bool \<Rightarrow> comp_mgr \<Rightarrow>
    fault + (bool \<times> bool \<times> comp_mgr)" where
  "retry_pass E 0 progress deferred s = Ok (progress, deferred, s)"
| "retry_pass E (Suc n) progress deferred s =
    (if is_started n s
     then bind_ok (stop_comp E n True s) (\<lambda>s.
            retry_pass E n (progress \<or> \<not> is_started n s) (deferred \<or> is_started n s) s)
     else retry_pass E n progress deferred s)"

text \<open>The links before position \<open>n\<close> that are started.\<close>

fun started_before :: "nat \<Rightarrow> comp_mgr \<Rightarrow> nat list" where
  "started_before 0 s = []"
| "started_before (Suc n) s = (if is_started n s then [n] else []) @ started_before n s"

lemma set_simps_comp [simp]:
  "length (components (set_state i st s)) = length (components s)"
  "length (components (set_thread i t s)) = length (components s)"
  "bools (set_state i st s) = bools s" "bools (set_thread i t s) = bools s"
  "comp_log (set_state i st s) = comp_log s" "comp_log (set_thread i t s) = comp_log s"
  by (simp_all add: set_state_def set_thread_def)

lemma map_update_same: "f x = f (xs ! i) \<Longrightarrow> map f (xs[i := x]) = map f xs"
  by (metis list_update_beyond list_update_id map_update not_le nth_map)

lemma addrs_set [simp]: "addrs (set_state i st s) = addrs s" "addrs (set_thread i t s) = addrs s"
  by (simp_all add: set_state_def set_thread_def map_update_same)

text \<open>Stopping a link changes at most that link.\<close>

definition only_link :: "nat \<Rightarrow> comp_mgr \<Rightarrow> comp_mgr \<Rightarrow> bool" where
  "only_link i s s' \<longleftrightarrow> length (components s') = length (components s) \<and> addrs s' = addrs s
     \<and> bools s' = bools s \<and> (\<forall>j. j \<noteq> i \<longrightarrow> components s' ! j = components s ! j)"

lemma only_link_intros [simp, intro]:
  "only_link i s s" "only_link i s (snd (call E c s))" "only_link i s (set_state i st s)"
  "only_link i s (set_thread i t s)" "only_link i s (s\<lparr>comp_log := cs\<rparr>)"
  by (simp_all add: only_link_def) (simp_all add: set_state_def set_thread_def)

lemma only_link_trans: "only_link i s t \<Longrightarrow> only_link i t u \<Longrightarrow> only_link i s u"
  by (simp add: only_link_def)

lemma tryJoin_only_link: "tryJoin E i s = Ok (ok, s') \<Longrightarrow> only_link i s s'"
  using only_link_trans [OF only_link_intros(2) only_link_intros(4)] only_link_intros(2)
  by (auto simp: tryJoin_def bind_ok_eq_Inr call_def Let_def split: if_splits)

lemma pthread_join_only_link: "pthread_join E i s = Ok s' \<Longrightarrow> only_link i s s'"
  using only_link_trans [OF only_link_intros(2) only_link_intros(4)]
  by (auto simp: pthread_join_def bind_ok_eq_Inr)

lemma stopThreaded_only_link: "stopThreaded E i deferred s = Ok (ok, s') \<Longrightarrow> only_link i s s'"
  by (auto simp: stopThreaded_def bind_ok_eq_Inr Let_def split: if_splits
      dest!: tryJoin_only_link pthread_join_only_link
      intro: only_link_trans [OF only_link_intros(2)] only_link_trans)

lemma stop_comp_only_link:
  assumes "stop_comp E i deferred s = Ok s'"
  shows "only_link i s s'"
  using assms
  by (auto simp: stop_comp_def bind_ok_eq_Inr Let_def call_def split: if_splits
      dest!: stopThreaded_only_link intro: only_link_trans [OF _ only_link_intros(3)]
      only_link_trans [OF only_link_intros(5) only_link_intros(3)])

lemma stop_comp_not_started: "\<not> is_started i s \<Longrightarrow> stop_comp E i deferred s = Ok s"
  by (simp add: stop_comp_def is_started_def)

lemma started_before_cong:
  "(\<And>j. j < n \<Longrightarrow> is_started j s' = is_started j s) \<Longrightarrow> started_before n s' = started_before n s"
  by (induction n) auto

lemma started_before_other:
  assumes "only_link i s s'" and "n \<le> i"
  shows "started_before n s' = started_before n s"
  using assms by (intro started_before_cong) (auto simp: only_link_def is_started_def)

lemma retry_pass_effect:
  assumes "retry_pass E n progress deferred s = Ok (p, d, s')"
  shows "length (components s') = length (components s) \<and> addrs s' = addrs s \<and> bools s' = bools s
    \<and> (\<forall>j\<ge>n. components s' ! j = components s ! j)
    \<and> length (started_before n s') \<le> length (started_before n s)
    \<and> (p \<and> \<not> progress \<longrightarrow> length (started_before n s') < length (started_before n s))
    \<and> d = (deferred \<or> started_before n s' \<noteq> [])"
  using assms
proof (induction n arbitrary: progress deferred s)
  case (Suc n)
  show ?case
  proof (cases "is_started n s")
    case True
    then obtain t where t: "stop_comp E n True s = Ok t"
      and r: "retry_pass E n (progress \<or> \<not> is_started n t) (deferred \<or> is_started n t) t = Ok (p, d, s')"
      using Suc.prems by (auto simp: bind_ok_eq_Inr)
    have link: "only_link n s t" using stop_comp_only_link [OF t] .
    have same: "started_before n t = started_before n s" using started_before_other [OF link] by simp
    have st: "is_started n s' = is_started n t" using Suc.IH [OF r] by (simp add: is_started_def)
    show ?thesis
      using Suc.IH [OF r] link True st by (auto simp: same only_link_def)
  next
    case False
    then have r: "retry_pass E n progress deferred s = Ok (p, d, s')" using Suc.prems by simp
    have "is_started n s' = is_started n s" using Suc.IH [OF r] by (simp add: is_started_def)
    then show ?thesis using Suc.IH [OF r] False by auto
  qed
qed simp

text \<open>\<open>while (deferred \<and> progress)\<close>: every pass that makes progress leaves fewer links started.\<close>

function stop_retry :: "comp_env \<Rightarrow> nat \<Rightarrow> comp_mgr \<Rightarrow> fault + (bool \<times> comp_mgr)" where
  "stop_retry E n s =
    (case retry_pass E n False False s of
       Inl e \<Rightarrow> Inl e
     | Inr (progress, deferred, s') \<Rightarrow>
         if deferred \<and> progress then stop_retry E n s' else Ok (deferred, s'))"
  by pat_completeness auto
termination
  by (relation "measure (\<lambda>(E, n, s). length (started_before n s))") (auto dest: retry_pass_effect)

declare stop_retry.simps [simp del]

text \<open>The message about the links that could not be stopped: their descriptions, each followed by a
  space, into a buffer of 1000 bytes. \<open>bend - buf\<close> becomes \<open>-1\<close>, the largest \<open>size_t\<close>, when
  the buffer has been filled completely.\<close>

fun report_loop :: "comp_env \<Rightarrow> nat \<Rightarrow> u8 list \<Rightarrow> comp_mgr \<Rightarrow> fault + u8 list" where
  "report_loop E 0 buf s = Ok buf"
| "report_loop E (Suc n) buf s =
    (if is_started n s
     then let d = c_description (descr E (l_comp (components s ! n)));
              len = (if length buf \<le> 999 then min (length d) (999 - length buf) else length d)
          in if length buf + len + 1 > 1000 then Fault Out_of_bounds
             else report_loop E n (buf @ take len d @ [32]) s
     else report_loop E n buf s)"

definition stopUntil :: "comp_env \<Rightarrow> nat \<Rightarrow> comp_mgr \<Rightarrow> fault + comp_mgr" where
  "stopUntil E n s =
    bind_ok (stop_pass E n False s) (\<lambda>(deferred, s).
    bind_ok (if deferred then stop_retry E n s else Ok (False, s)) (\<lambda>(deferred, s).
      if deferred then bind_ok (report_loop E n [] s) (\<lambda>_. Ok s) else Ok s))"

definition COMP_stopAll :: "comp_env \<Rightarrow> comp_mgr \<Rightarrow> fault + comp_mgr" where
  "COMP_stopAll E s = stopUntil E (length (components s)) s"

section \<open>Starting\<close>

definition startThreaded :: "comp_env \<Rightarrow> nat \<Rightarrow> comp_mgr \<Rightarrow> bool \<times> comp_mgr" where
  "startThreaded E i s =
    (let (ok, s) = call E (Call_pthread_create (l_comp (components s ! i))) s
     in (ok, if ok then set_thread i Thread_created s else s))"

fun start_loop :: "comp_env \<Rightarrow> nat list \<Rightarrow> comp_mgr \<Rightarrow> fault + (bool \<times> comp_mgr)" where
  "start_loop E [] s = Ok (True, s)"
| "start_loop E (i # is) s =
    (let ci = components s ! i; a = l_comp ci; c = descr E a in
     if l_state ci \<noteq> COMPONENT_STATE_INITIALIZED then start_loop E is s
     else if is_off s (c_start c) then start_loop E is s
     else let (started, s) = (if \<not> c_onStart c \<and> c_main c then startThreaded E i s
                              else if c_onStart c then call E (Call_onStart a) s
                              else (True, s))
     in if \<not> started then bind_ok (stopUntil E i s) (\<lambda>s. Ok (False, s))
     else start_loop E is (set_state i COMPONENT_STATE_STARTED s))"

definition COMP_startAll :: "comp_env \<Rightarrow> comp_mgr \<Rightarrow> fault + (bool \<times> comp_mgr)" where
  "COMP_startAll E s = start_loop E [0..<length (components s)] s"

section \<open>Statistics\<close>

fun reset_loop :: "comp_env \<Rightarrow> comp_addr list \<Rightarrow> comp_mgr \<Rightarrow> comp_mgr" where
  "reset_loop E [] s = s"
| "reset_loop E (a # as) s = reset_loop E as (call_if E (c_onReset (descr E a)) (Call_onReset a) s)"

definition COMP_resetAll :: "comp_env \<Rightarrow> comp_mgr \<Rightarrow> comp_mgr" where
  "COMP_resetAll E s = reset_loop E (addrs s) s"

end
