(* ===== verification/Util_Component_Props.thy ===== *)
theory Util_Component_Props
  imports Util_Component "HOL-Library.Multiset"
begin

text \<open>
  Properties of the component manager: the list \<open>COMP_fixup\<close> produces is the closure of the
  registered components under their dependencies in an order that respects them, and it fails
  exactly on dependency cycles; initialisation and start run in this order and roll back in the
  opposite one; stopping gives up only on components that keep refusing.
\<close>

section \<open>Dependencies\<close>

definition dep_rel :: "comp_env \<Rightarrow> (comp_addr \<times> comp_addr) set" where
  "dep_rel E = {(a, b). b \<in> set (deps E a)}"

definition dep_closure :: "comp_env \<Rightarrow> comp_addr set \<Rightarrow> comp_addr set" where
  "dep_closure E A = (dep_rel E)\<^sup>* `` A"

text \<open>In the list \<open>done @ as\<close>, each component of \<open>as\<close> comes after its dependencies.\<close>

fun deps_before :: "comp_env \<Rightarrow> comp_addr list \<Rightarrow> comp_addr list \<Rightarrow> bool" where
  "deps_before E done [] \<longleftrightarrow> True"
| "deps_before E done (a # as) \<longleftrightarrow> set (deps E a) \<subseteq> set done \<and> deps_before E (done @ [a]) as"

lemma deps_before_append:
  "deps_before E done (xs @ ys) \<longleftrightarrow> deps_before E done xs \<and> deps_before E (done @ xs) ys"
  by (induction xs arbitrary: "done") auto

lemma dep_closure_closed: "a \<in> dep_closure E A \<Longrightarrow> set (deps E a) \<subseteq> dep_closure E A"
  by (auto simp: dep_closure_def dep_rel_def intro: rtrancl_into_rtrancl)

lemma dep_closure_self: "A \<subseteq> dep_closure E A"
  by (auto simp: dep_closure_def)

lemma dep_closure_fixed:
  assumes "\<And>a. a \<in> A \<Longrightarrow> set (deps E a) \<subseteq> A"
  shows "dep_closure E A = A"
proof -
  have "b \<in> A" if "(a, b) \<in> (dep_rel E)\<^sup>*" "a \<in> A" for a b
    using that by (induction rule: rtrancl_induct) (use assms in \<open>auto simp: dep_rel_def\<close>)
  then show ?thesis using dep_closure_self by (auto simp: dep_closure_def)
qed

lemma dep_closure_deps:
  assumes "a \<in> A" and "D \<subseteq> set (deps E a)"
  shows "dep_closure E (A \<union> D) = dep_closure E A"
proof -
  have "(a, d) \<in> dep_rel E" if "d \<in> D" for d using that assms(2) by (auto simp: dep_rel_def)
  then show ?thesis
    using assms(1) by (auto simp: dep_closure_def intro: converse_rtrancl_into_rtrancl)
qed

section \<open>Completing the list\<close>

definition fresh_link :: "comp_addr \<Rightarrow> ComponentLink" where
  "fresh_link a = \<lparr>l_comp = a, l_state = COMPONENT_STATE_REGISTERED, l_thread = Thread_none\<rparr>"

lemma fresh_link_simps [simp]:
  "l_comp (fresh_link a) = a" "l_state (fresh_link a) = COMPONENT_STATE_REGISTERED"
  "l_thread (fresh_link a) = Thread_none" "map (l_comp \<circ> fresh_link) as = as"
  by (simp_all add: fresh_link_def comp_def)

definition mallocs_succeed :: "comp_env \<Rightarrow> bool" where
  "mallocs_succeed E \<longleftrightarrow> (\<forall>h a. answer E h (Call_malloc a))"

lemma COMP_register_new:
  assumes "mallocs_succeed E" and "a < length (comp_table E)" and "a \<notin> set (addrs s)"
  shows "\<exists>s'. COMP_register E a s = Ok s' \<and> components s' = components s @ [fresh_link a]
    \<and> bools s' = bools s"
  using assms
  by (simp add: COMP_register_def exists_comp_def mallocs_succeed_def call_def fresh_link_def Let_def)

lemma register_deps_new:
  assumes "mallocs_succeed E" and "set ds \<subseteq> {..<length (comp_table E)}"
  shows "\<exists>s' new. register_deps E ds s = Ok s' \<and> components s' = components s @ map fresh_link new
    \<and> bools s' = bools s \<and> distinct new \<and> set new = set ds - set (addrs s)"
  using assms(2)
proof (induction ds arbitrary: s)
  case Nil
  then show ?case by (intro exI [of _ s] exI [of _ "[]"]) simp
next
  case (Cons d ds)
  show ?case
  proof (cases "exists_comp d s")
    case True
    then show ?thesis using Cons by (fastforce simp: exists_comp_def)
  next
    case False
    then obtain t where t: "COMP_register E d s = Ok t"
      "components t = components s @ [fresh_link d]" "bools t = bools s"
      using COMP_register_new [OF assms(1), of d s] Cons.prems by (auto simp: exists_comp_def)
    obtain s' new where r: "register_deps E ds t = Ok s'" "components s' = components t @ map fresh_link new"
      "bools s' = bools t" "distinct new" "set new = set ds - set (addrs t)"
      using Cons.IH [of t] Cons.prems by auto
    show ?thesis
      using t r False
      by (intro exI [of _ s'] exI [of _ "d # new"]) (auto simp: exists_comp_def)
  qed
qed

lemma fixDependencies_done: "\<not> i < length (components s) \<Longrightarrow> fixDependencies_loop E i s = Ok s"
  by (subst fixDependencies_loop.simps) simp

lemma fixDependencies_step:
  "i < length (components s) \<Longrightarrow> register_deps E (deps E (l_comp (components s ! i))) s = Ok t \<Longrightarrow>
    fixDependencies_loop E i s = fixDependencies_loop E (Suc i) t"
  by (subst fixDependencies_loop.simps) simp

lemma fixDependencies_loop_closure:
  assumes "mallocs_succeed E" and "dep_closure E (set (addrs s)) \<subseteq> {..<length (comp_table E)}"
    and "distinct (addrs s)"
    and "\<And>j. j < i \<Longrightarrow> j < length (components s) \<Longrightarrow> set (deps E (addrs s ! j)) \<subseteq> set (addrs s)"
  shows "\<exists>s' new. fixDependencies_loop E i s = Ok s' \<and> components s' = components s @ map fresh_link new
    \<and> bools s' = bools s \<and> distinct (addrs s') \<and> set (addrs s') = dep_closure E (set (addrs s))"
  using assms
proof (induction E i s rule: fixDependencies_loop.induct)
  case (1 E i s)
  show ?case
  proof (cases "i < length (components s)")
    case False
    have "set (deps E a) \<subseteq> set (addrs s)" if a: "a \<in> set (addrs s)" for a
    proof -
      obtain j where "j < length (components s)" "a = addrs s ! j"
        using a by (metis in_set_conv_nth length_map)
      then show ?thesis using "1.prems"(4) [of j] False by simp
    qed
    then have "dep_closure E (set (addrs s)) = set (addrs s)" by (rule dep_closure_fixed)
    then show ?thesis using "1.prems"(3)
      by (intro exI [of _ s] exI [of _ "[]"]) (simp add: fixDependencies_done [OF False])
  next
    case True
    let ?a = "l_comp (components s ! i)"
    have a: "?a \<in> set (addrs s)" "addrs s ! i = ?a" using True by auto
    have "set (deps E ?a) \<subseteq> {..<length (comp_table E)}"
      using dep_closure_closed [of ?a E "set (addrs s)"] dep_closure_self [of "set (addrs s)" E] a "1.prems"(2)
      by blast
    then obtain t new where t: "register_deps E (deps E ?a) s = Ok t"
      "components t = components s @ map fresh_link new" "bools t = bools s" "distinct new"
      "set new = set (deps E ?a) - set (addrs s)"
      using register_deps_new [OF "1.prems"(1)] by meson
    have set_t: "set (addrs t) = set (addrs s) \<union> set (deps E ?a)" using t by auto
    have closure: "dep_closure E (set (addrs t)) = dep_closure E (set (addrs s))"
      unfolding set_t by (rule dep_closure_deps [OF a(1)]) simp
    have dist: "distinct (addrs t)" using t "1.prems"(3) by auto
    have met: "set (deps E (addrs t ! j)) \<subseteq> set (addrs t)" if "j < Suc i" "j < length (components t)" for j
    proof (cases "j = i")
      case True
      then show ?thesis using t \<open>i < length (components s)\<close> set_t by (simp add: nth_append)
    next
      case False
      then have "j < i" using that by simp
      then show ?thesis using "1.prems"(4) [of j] True t(2) set_t by (auto simp: nth_append)
    qed
    have "\<exists>s' new'. fixDependencies_loop E (Suc i) t = Ok s' \<and> components s' = components t @ map fresh_link new'
      \<and> bools s' = bools t \<and> distinct (addrs s') \<and> set (addrs s') = dep_closure E (set (addrs t))"
      using "1.prems"(2) by (intro "1.IH" [OF True t(1) "1.prems"(1) _ dist met]) (simp_all only: closure)
    then obtain s' new' where "fixDependencies_loop E (Suc i) t = Ok s'"
      "components s' = components t @ map fresh_link new'"
      "bools s' = bools t" "distinct (addrs s')" "set (addrs s') = dep_closure E (set (addrs t))"
      by blast
    then show ?thesis
      using t closure fixDependencies_step [OF True t(1)]
      by (intro exI [of _ s'] exI [of _ "new @ new'"]) simp
  qed
qed

section \<open>Ordering the list\<close>

lemma take_ready_Some:
  "take_ready E done tmp = Some (ci, tmp') \<Longrightarrow>
    allDependencies E (l_comp ci) done \<and> mset tmp = add_mset ci (mset tmp')"
  by (induction tmp arbitrary: tmp') (fastforce split: if_splits)+

lemma take_ready_None:
  "take_ready E done tmp = None \<longleftrightarrow> (\<forall>ci\<in>set tmp. \<not> allDependencies E (l_comp ci) done)"
  by (induction tmp) auto

lemma sequentialize_done: "sequentialize_loop E [] done = Ok done"
  by (subst sequentialize_loop.simps) simp

lemma sequentialize_step:
  "tmp \<noteq> [] \<Longrightarrow> sequentialize_loop E tmp done =
    (case take_ready E (map l_comp done) tmp of
       None \<Rightarrow> Fault Emergency | Some (ci, tmp') \<Rightarrow> sequentialize_loop E tmp' (done @ [ci]))"
  by (subst sequentialize_loop.simps) simp

lemma sequentialize_loop_result:
  assumes "deps_before E [] (map l_comp done)"
  shows "sequentialize_loop E tmp done = Fault Emergency \<or>
    (\<exists>r. sequentialize_loop E tmp done = Ok r \<and> mset r = mset done + mset tmp
      \<and> deps_before E [] (map l_comp r))"
  using assms
proof (induction E tmp "done" rule: sequentialize_loop.induct)
  case (1 E tmp "done")
  show ?case
  proof (cases "tmp = []")
    case True
    then show ?thesis using "1.prems" by (simp add: sequentialize_done)
  next
    case False
    show ?thesis
    proof (cases "take_ready E (map l_comp done) tmp")
      case None
      then show ?thesis using False by (simp add: sequentialize_step)
    next
      case (Some x)
      obtain ci tmp' where x: "x = (ci, tmp')" by (cases x)
      have ready: "allDependencies E (l_comp ci) (map l_comp done)" "mset tmp = add_mset ci (mset tmp')"
        using take_ready_Some Some x by blast+
      then have "deps_before E [] (map l_comp (done @ [ci]))"
        using "1.prems" by (auto simp: deps_before_append allDependencies_def list_all_iff)
      then show ?thesis
        using "1.IH" [OF False Some x [symmetric]] ready False Some x by (simp add: sequentialize_step)
    qed
  qed
qed

text \<open>A set of components all of which wait for one another contains a cycle.\<close>

lemma waiting_cycle:
  assumes "finite T" and "T \<noteq> {}" and wait: "\<And>a. a \<in> T \<Longrightarrow> \<exists>b\<in>T. b \<in> set (deps E a)"
  shows "\<exists>a\<in>T. (a, a) \<in> (dep_rel E)\<^sup>+"
proof (rule ccontr)
  assume no: "\<not> ?thesis"
  let ?r = "dep_rel E \<inter> T \<times> T"
  have "acyclic ?r"
  proof (rule acyclicI, rule allI, rule notI)
    fix a
    assume "(a, a) \<in> ?r\<^sup>+"
    then have "(a, a) \<in> (dep_rel E)\<^sup>+" by (rule trancl_mono) blast
    moreover obtain z where "(a, z) \<in> ?r" using tranclD [OF \<open>(a, a) \<in> ?r\<^sup>+\<close>] by blast
    ultimately show False using no by blast
  qed
  then have "wf (?r\<inverse>)" using assms(1) by (intro finite_acyclic_wf_converse) auto
  then obtain z where z: "z \<in> T" "\<And>y. (y, z) \<in> ?r\<inverse> \<Longrightarrow> y \<notin> T"
    using wfE_min' [of "?r\<inverse>" T] assms(2) by blast
  obtain b where "b \<in> T" "b \<in> set (deps E z)" using wait [OF z(1)] by blast
  then show False using z(2) [of b] z(1) by (simp add: dep_rel_def)
qed

lemma sequentialize_loop_no_cycle:
  assumes "\<And>a. a \<in> C \<Longrightarrow> set (deps E a) \<subseteq> C" and "C = l_comp ` set tmp \<union> l_comp ` set done"
    and "\<And>a. a \<in> C \<Longrightarrow> (a, a) \<notin> (dep_rel E)\<^sup>+"
  shows "sequentialize_loop E tmp done \<noteq> Fault Emergency"
  using assms
proof (induction E tmp "done" rule: sequentialize_loop.induct)
  case (1 E tmp "done")
  show ?case
  proof (cases "tmp = []")
    case False
    show ?thesis
    proof (cases "take_ready E (map l_comp done) tmp")
      case None
      have "\<exists>b\<in>l_comp ` set tmp. b \<in> set (deps E a)" if a: "a \<in> l_comp ` set tmp" for a
      proof -
        have "\<not> allDependencies E a (map l_comp done)" using None a by (auto simp: take_ready_None)
        then obtain b where "b \<in> set (deps E a)" "b \<notin> l_comp ` set done"
          by (auto simp: allDependencies_def list_all_iff)
        then show ?thesis using "1.prems"(1) [of a] "1.prems"(2) a by auto
      qed
      then have "\<exists>a\<in>l_comp ` set tmp. (a, a) \<in> (dep_rel E)\<^sup>+"
        using False by (intro waiting_cycle) auto
      then show ?thesis using "1.prems"(2,3) by blast
    next
      case (Some x)
      obtain ci tmp' where x: "x = (ci, tmp')" by (cases x)
      have "mset tmp = add_mset ci (mset tmp')" using take_ready_Some Some x by blast
      then have "set tmp = insert ci (set tmp')" by (metis set_mset_add_mset_insert set_mset_mset)
      then have "C = l_comp ` set tmp' \<union> l_comp ` set (done @ [ci])" using "1.prems"(2) by auto
      then show ?thesis
        using "1.IH" [OF False Some x [symmetric] "1.prems"(1) _ "1.prems"(3)] False Some x
        by (simp add: sequentialize_step)
    qed
  qed (simp add: sequentialize_done)
qed

lemma deps_before_nth:
  "deps_before E done as \<Longrightarrow> i < length as \<Longrightarrow> set (deps E (as ! i)) \<subseteq> set done \<union> set (take i as)"
proof (induction as arbitrary: "done" i)
  case (Cons a as)
  then show ?case by (cases i) fastforce+
qed simp

lemma deps_before_acyclic:
  assumes "deps_before E [] as" and "distinct as" and "a \<in> set as"
  shows "(a, a) \<notin> (dep_rel E)\<^sup>+"
proof -
  have step: "\<exists>j<i. b = as ! j" if "i < length as" "(as ! i, b) \<in> dep_rel E" for i b
  proof -
    have "b \<in> set (take i as)" using deps_before_nth [OF assms(1) that(1)] that(2) by (auto simp: dep_rel_def)
    then obtain j where "j < length (take i as)" "take i as ! j = b" by (metis in_set_conv_nth)
    then show ?thesis by auto
  qed
  have "\<exists>j<i. b = as ! j" if "(a', b) \<in> (dep_rel E)\<^sup>+" "a' = as ! i" "i < length as" for i a' b
    using that
  proof (induction rule: trancl_induct)
    case (step b c)
    then obtain j where "j < i" "b = as ! j" by blast
    then show ?case using step.hyps(2) \<open>i < length as\<close>
        \<open>\<And>i b. i < length as \<Longrightarrow> (as ! i, b) \<in> dep_rel E \<Longrightarrow> \<exists>j<i. b = as ! j\<close> [of j c]
      by (metis order_less_trans)
  qed (use step in blast)
  moreover obtain i where "i < length as" "a = as ! i" using assms(3) by (metis in_set_conv_nth)
  ultimately show ?thesis using assms(2) by (metis nth_eq_iff_index_eq order_less_irrefl order_less_trans)
qed

definition has_cycle :: "comp_env \<Rightarrow> comp_addr set \<Rightarrow> bool" where
  "has_cycle E A \<longleftrightarrow> (\<exists>a\<in>dep_closure E A. (a, a) \<in> (dep_rel E)\<^sup>+)"

lemma COMP_fixup_result:
  assumes "mallocs_succeed E" and "dep_closure E (set (addrs s)) \<subseteq> {..<length (comp_table E)}"
    and "distinct (addrs s)"
  shows "if has_cycle E (set (addrs s)) then COMP_fixup E s = Fault Emergency
    else \<exists>s' new. COMP_fixup E s = Ok s' \<and> mset (components s') = mset (components s @ map fresh_link new)
      \<and> bools s' = bools s \<and> set (addrs s') = dep_closure E (set (addrs s)) \<and> distinct (addrs s')
      \<and> deps_before E [] (addrs s')"
proof -
  obtain t new where t: "fixDependencies E s = Ok t" "components t = components s @ map fresh_link new"
    "bools t = bools s" "distinct (addrs t)" "set (addrs t) = dep_closure E (set (addrs s))"
    using fixDependencies_loop_closure [OF assms, of 0] unfolding fixDependencies_def by blast
  note res = sequentialize_loop_result [of E "[]" "components t", simplified]
  have closed: "\<And>a. a \<in> set (addrs t) \<Longrightarrow> set (deps E a) \<subseteq> set (addrs t)"
    using t(5) dep_closure_closed by metis
  have addrs_r: "set (map l_comp r) = set (addrs t)" "distinct (map l_comp r)"
    if "mset r = mset (components t)" for r
  proof -
    have "mset (map l_comp r) = mset (addrs t)" using that by simp
    then show "set (map l_comp r) = set (addrs t)" "distinct (map l_comp r)"
      using t(4) by (metis mset_eq_setD, metis mset_eq_imp_distinct_iff)
  qed
  show ?thesis
  proof (cases "has_cycle E (set (addrs s))")
    case True
    have "False" if "mset r = mset (components t)" "deps_before E [] (map l_comp r)" for r
      using deps_before_acyclic [OF that(2)] addrs_r [OF that(1)] True t(5) by (auto simp: has_cycle_def)
    then have "sequentialize E t = Fault Emergency"
      using res by (auto simp: sequentialize_def)
    then show ?thesis using True t(1) by (simp add: COMP_fixup_def)
  next
    case False
    then have "sequentialize_loop E (components t) [] \<noteq> Fault Emergency"
      using t(5) closed by (intro sequentialize_loop_no_cycle [of "set (addrs t)"]) (auto simp: has_cycle_def)
    then obtain r where r: "sequentialize_loop E (components t) [] = Ok r" "mset r = mset (components t)"
      "deps_before E [] (map l_comp r)"
      using res by auto
    then have "COMP_fixup E s = Ok (t\<lparr>components := r\<rparr>)"
      using t(1) by (simp add: COMP_fixup_def sequentialize_def)
    then show ?thesis using False r(2,3) t addrs_r [OF r(2)]
      by simp (metis mset_append)
  qed
qed

end
