(* ===== verification/Util_Component_Run.thy ===== *)
theory Util_Component_Run
  imports Util_Component_Props
begin

text \<open>
  The life of the components after \<open>COMP_fixup\<close>: what initialising, destructing, starting and
  stopping do to the states of the links and which callbacks they call in which order, on every
  branch, and the properties that follow.
\<close>

section \<open>Destructing and initialising\<close>

definition un_init :: "ComponentLink \<Rightarrow> ComponentLink" where
  "un_init ci = (if l_state ci = COMPONENT_STATE_INITIALIZED
     then ci\<lparr>l_state := COMPONENT_STATE_REGISTERED\<rparr> else ci)"

definition initialised :: "ComponentLink list \<Rightarrow> comp_addr list" where
  "initialised cs = map l_comp (filter (\<lambda>ci. l_state ci = COMPONENT_STATE_INITIALIZED) cs)"

lemma initialised_simps [simp]:
  "initialised [] = []" "initialised (xs @ ys) = initialised xs @ initialised ys"
  "initialised (ci # cs) =
    (if l_state ci = COMPONENT_STATE_INITIALIZED then [l_comp ci] else []) @ initialised cs"
  by (simp_all add: initialised_def)

text \<open>The callbacks of a list of components that exist.\<close>

definition construct_calls :: "comp_env \<Rightarrow> comp_addr list \<Rightarrow> comp_call list" where
  "construct_calls E as = map Call_onConstruct (filter (\<lambda>a. c_onConstruct (descr E a)) as)"

definition destruct_calls :: "comp_env \<Rightarrow> comp_addr list \<Rightarrow> comp_call list" where
  "destruct_calls E as = map Call_onDestruct (filter (\<lambda>a. c_onDestruct (descr E a)) as)"

lemma call_lists [simp]:
  "construct_calls E [] = []" "construct_calls E (xs @ ys) = construct_calls E xs @ construct_calls E ys"
  "construct_calls E (a # xs) = (if c_onConstruct (descr E a) then [Call_onConstruct a] else []) @ construct_calls E xs"
  "destruct_calls E [] = []" "destruct_calls E (xs @ ys) = destruct_calls E xs @ destruct_calls E ys"
  "destruct_calls E (a # xs) = (if c_onDestruct (descr E a) then [Call_onDestruct a] else []) @ destruct_calls E xs"
  by (simp_all add: construct_calls_def destruct_calls_def)

lemma components_set_state:
  "components (set_state i st s) = (components s)[i := (components s ! i)\<lparr>l_state := st\<rparr>]"
  by (simp add: set_state_def)

lemma take_nth_split: "i < length xs \<Longrightarrow> take (Suc i) xs = take i xs @ [xs ! i]"
  by (simp add: take_Suc_conv_app_nth)

lemma drop_nth_split: "i < length xs \<Longrightarrow> drop i xs = xs ! i # drop (Suc i) xs"
  by (simp add: Cons_nth_drop_Suc)

lemma destructUntil_effect:
  assumes "n \<le> length (components s)"
    and "\<And>ci. ci \<in> set (take n (components s)) \<Longrightarrow> l_state ci \<noteq> COMPONENT_STATE_STARTED"
  shows "\<exists>s'. destructUntil E n s = Ok s'
    \<and> components s' = map un_init (take n (components s)) @ drop n (components s)
    \<and> bools s' = bools s
    \<and> comp_log s' = comp_log s @ destruct_calls E (rev (initialised (take n (components s))))"
  using assms
proof (induction n arbitrary: s)
  case 0
  then show ?case by simp
next
  case (Suc n)
  let ?ci = "components s ! n"
  have n: "n < length (components s)" using Suc.prems(1) by simp
  have split: "take (Suc n) (components s) = take n (components s) @ [?ci]"
    "drop n (components s) = ?ci # drop (Suc n) (components s)"
    using take_nth_split [OF n] drop_nth_split [OF n] by simp_all
  have not_started: "l_state ?ci \<noteq> COMPONENT_STATE_STARTED" using Suc.prems(2) split(1) by simp
  define t where "t = (if l_state ?ci \<noteq> COMPONENT_STATE_INITIALIZED then s
    else set_state n COMPONENT_STATE_REGISTERED
      (call_if E (c_onDestruct (descr E (l_comp ?ci))) (Call_onDestruct (l_comp ?ci)) s))"
  have t: "destruct_comp E n s = Ok t"
    "components t = (components s)[n := un_init ?ci]" "bools t = bools s"
    "comp_log t = comp_log s @ destruct_calls E (initialised [?ci])"
    using not_started
    by (simp_all add: t_def destruct_comp_def Let_def un_init_def components_set_state)
  have parts: "take n (components t) = take n (components s)"
    "drop n (components t) = un_init ?ci # drop (Suc n) (components s)"
    using n by (simp_all add: t(2) drop_nth_split)
  obtain s' where "destructUntil E n t = Ok s'"
    "components s' = map un_init (take n (components t)) @ drop n (components t)"
    "bools s' = bools t" "comp_log s' = comp_log t @ destruct_calls E (rev (initialised (take n (components t))))"
    using Suc.IH [of t] Suc.prems split(1) t(2) parts(1) by auto
  then show ?case using t parts split by (intro exI [of _ s']) simp
qed

text \<open>Whether a component is enabled, given the values of the flags.\<close>

definition comp_on :: "comp_env \<Rightarrow> (bool_addr \<Rightarrow> bool) \<Rightarrow> comp_addr \<Rightarrow> bool" where
  "comp_on E bs a \<longleftrightarrow> (case c_enabled (descr E a) of None \<Rightarrow> True | Some b \<Rightarrow> bs b)"

lemma is_off_comp_on: "is_off s (c_enabled (descr E a)) \<longleftrightarrow> \<not> comp_on E (bools s) a"
  by (simp add: is_off_def comp_on_def split: option.splits)

definition mark_init :: "comp_env \<Rightarrow> (bool_addr \<Rightarrow> bool) \<Rightarrow> ComponentLink \<Rightarrow> ComponentLink" where
  "mark_init E bs ci = (if comp_on E bs (l_comp ci) then ci\<lparr>l_state := COMPONENT_STATE_INITIALIZED\<rparr> else ci)"

definition enabled_of :: "comp_env \<Rightarrow> (bool_addr \<Rightarrow> bool) \<Rightarrow> ComponentLink list \<Rightarrow> comp_addr list" where
  "enabled_of E bs cs = filter (comp_on E bs) (map l_comp cs)"

lemma enabled_of_simps [simp]:
  "enabled_of E bs [] = []"
  "enabled_of E bs (ci # cs) = (if comp_on E bs (l_comp ci) then [l_comp ci] else []) @ enabled_of E bs cs"
  by (simp_all add: enabled_of_def)

text \<open>What the rest of the initialisation does, from position \<open>i\<close> on.\<close>

definition init_result :: "comp_env \<Rightarrow> nat \<Rightarrow> comp_mgr \<Rightarrow> bool \<Rightarrow> comp_mgr \<Rightarrow> bool" where
  "init_result E i s b s' \<longleftrightarrow> bools s' = bools s \<and>
    (let todo = enabled_of E (bools s) (drop i (components s)) in
     if b then components s' = take i (components s) @ map (mark_init E (bools s)) (drop i (components s))
         \<and> comp_log s' = comp_log s @ construct_calls E todo
     else components s' = map un_init (take i (components s)) @ drop i (components s)
         \<and> (\<exists>xs a ys. todo = xs @ a # ys \<and> c_onConstruct (descr E a)
             \<and> \<not> answer E (comp_log s @ construct_calls E xs) (Call_onConstruct a)
             \<and> comp_log s' = comp_log s @ construct_calls E (xs @ [a])
                 @ destruct_calls E (rev (initialised (take i (components s)) @ xs))))"

lemma init_result_step:
  assumes "i < length (components s)" and "bools t = bools s"
    and "components t = (components s)[i := mark_init E (bools s) (components s ! i)]"
    and "l_state (components s ! i) = COMPONENT_STATE_REGISTERED"
    and "comp_log t = comp_log s @ construct_calls E (if comp_on E (bools s) (l_comp (components s ! i)) then [l_comp (components s ! i)] else [])"
    and "init_result E (Suc i) t b s'"
  shows "init_result E i s b s'"
proof -
  let ?ci = "components s ! i"
  have split: "take (Suc i) (components t) = take i (components s) @ [mark_init E (bools s) ?ci]"
    "drop (Suc i) (components t) = drop (Suc i) (components s)"
    "drop i (components s) = ?ci # drop (Suc i) (components s)"
    using assms(1) by (simp_all add: assms(3) take_nth_split drop_nth_split)
  have un: "un_init (mark_init E (bools s) ?ci) = ?ci" "initialised [mark_init E (bools s) ?ci] = (if comp_on E (bools s) (l_comp ?ci) then [l_comp ?ci] else [])"
    using assms(4) by (simp_all add: un_init_def mark_init_def)
  let ?p = "if comp_on E (bools s) (l_comp ?ci) then [l_comp ?ci] else []"
  have todo: "enabled_of E (bools s) (drop i (components s)) =
      ?p @ enabled_of E (bools t) (drop (Suc i) (components t))"
    by (simp add: split assms(2))
  show ?thesis
  proof (cases b)
    case True
    then show ?thesis
      using assms(2,5,6) split by (simp add: init_result_def Let_def)
  next
    case False
    then obtain xs a ys where r: "enabled_of E (bools t) (drop (Suc i) (components t)) = xs @ a # ys"
      "c_onConstruct (descr E a)" "\<not> answer E (comp_log t @ construct_calls E xs) (Call_onConstruct a)"
      "comp_log s' = comp_log t @ construct_calls E (xs @ [a])
         @ destruct_calls E (rev (initialised (take (Suc i) (components t)) @ xs))"
      "components s' = map un_init (take (Suc i) (components t)) @ drop (Suc i) (components t)" "bools s' = bools t"
      using assms(6) by (auto simp: init_result_def Let_def)
    have comps: "components s' = map un_init (take i (components s)) @ drop i (components s)"
      using r(5) split un(1) by simp
    have log: "comp_log s' = comp_log s @ construct_calls E ((?p @ xs) @ [a])
         @ destruct_calls E (rev (initialised (take i (components s)) @ ?p @ xs))"
      using r(4) assms(5) split(1) un(2) by (simp add: mark_init_def)
    have "\<not> answer E (comp_log s @ construct_calls E (?p @ xs)) (Call_onConstruct a)"
      using r(3) assms(5) by simp
    moreover have "enabled_of E (bools s) (drop i (components s)) = (?p @ xs) @ a # ys"
      using todo r(1) by simp
    ultimately have "\<exists>xs a ys. enabled_of E (bools s) (drop i (components s)) = xs @ a # ys
      \<and> c_onConstruct (descr E a) \<and> \<not> answer E (comp_log s @ construct_calls E xs) (Call_onConstruct a)
      \<and> comp_log s' = comp_log s @ construct_calls E (xs @ [a])
          @ destruct_calls E (rev (initialised (take i (components s)) @ xs))"
      using r(2) log by (intro exI [of _ "?p @ xs"] exI [of _ a] exI [of _ ys] conjI) assumption+
    then show ?thesis
      using r(6) assms(2) comps False unfolding init_result_def Let_def by simp
  qed
qed

lemma init_loop_effect:
  assumes "i \<le> length (components s)"
    and "\<And>ci. ci \<in> set (drop i (components s)) \<Longrightarrow> l_state ci = COMPONENT_STATE_REGISTERED"
    and "\<And>ci. ci \<in> set (take i (components s)) \<Longrightarrow> l_state ci \<noteq> COMPONENT_STATE_STARTED"
  shows "\<exists>b s'. init_loop E [i..<length (components s)] s = Ok (b, s') \<and> init_result E i s b s'"
  using assms
proof (induction "length (components s) - i" arbitrary: i s)
  case 0
  then show ?case by (intro exI [of _ True] exI [of _ s]) (simp add: init_result_def)
next
  case (Suc m)
  let ?ci = "components s ! i"
  let ?c = "descr E (l_comp ?ci)"
  have i: "i < length (components s)" using Suc.hyps(2) by simp
  have upt: "[i..<length (components s)] = i # [Suc i..<length (components s)]"
    using i by (rule upt_conv_Cons)
  have reg: "l_state ?ci = COMPONENT_STATE_REGISTERED"
    using Suc.prems(2) drop_nth_split [OF i] by simp
  have next_i: "\<exists>b s'. init_loop E [Suc i..<length (components s)] t = Ok (b, s') \<and> init_result E i s b s'"
    if t: "components t = (components s)[i := mark_init E (bools s) ?ci]" "bools t = bools s"
      "comp_log t = comp_log s @ construct_calls E (if comp_on E (bools s) (l_comp ?ci) then [l_comp ?ci] else [])" for t
  proof -
    have parts: "take (Suc i) (components t) = take i (components s) @ [mark_init E (bools s) ?ci]"
      "drop (Suc i) (components t) = drop (Suc i) (components s)"
      using i by (simp_all add: t(1) take_nth_split)
    have "l_state ci \<noteq> COMPONENT_STATE_STARTED" if "ci \<in> set (take (Suc i) (components t))" for ci
      using that parts(1) Suc.prems(3) reg by (auto simp: mark_init_def split: if_splits)
    moreover have "l_state ci = COMPONENT_STATE_REGISTERED" if "ci \<in> set (drop (Suc i) (components t))" for ci
      using that parts(2) Suc.prems(2) drop_nth_split [OF i] by simp
    ultimately obtain b s' where "init_loop E [Suc i..<length (components s)] t = Ok (b, s')"
      "init_result E (Suc i) t b s'"
      using Suc.hyps(1) [of t "Suc i"] Suc.hyps(2) i t(1) by fastforce
    then show ?thesis using init_result_step [OF i t(2,1) reg t(3)] by blast
  qed
  show ?case
  proof (cases "comp_on E (bools s) (l_comp ?ci)")
    case False
    then have "init_loop E [i..<length (components s)] s = init_loop E [Suc i..<length (components s)] s"
      using reg by (simp add: upt is_off_comp_on Let_def)
    then show ?thesis using next_i [of s] False by (simp add: mark_init_def)
  next
    case on: True
    show ?thesis
    proof (cases "c_onConstruct ?c \<and> \<not> answer E (comp_log s) (Call_onConstruct (l_comp ?ci))")
      case True
      define t where "t = snd (call E (Call_onConstruct (l_comp ?ci)) s)"
      have t: "components t = components s" "bools t = bools s"
        "comp_log t = comp_log s @ [Call_onConstruct (l_comp ?ci)]"
        by (simp_all add: t_def)
      obtain s' where s': "destructUntil E i t = Ok s'"
        "components s' = map un_init (take i (components s)) @ drop i (components s)" "bools s' = bools s"
        "comp_log s' = comp_log t @ destruct_calls E (rev (initialised (take i (components s))))"
        using destructUntil_effect [of i t E] Suc.prems(1,3) t(1,2) by auto
      have "call E (Call_onConstruct (l_comp ?ci)) s = (False, t)" using True by (simp add: t_def call_def)
      then have "init_loop E [i..<length (components s)] s = Ok (False, s')"
        using True on reg s'(1) by (simp add: upt is_off_comp_on Let_def)
      moreover have "init_result E i s False s'"
        using s' t(3) True on unfolding init_result_def Let_def
        by (simp add: drop_nth_split [OF i]) (intro exI [of _ "[]"] exI [of _ "l_comp ?ci"], simp)
      ultimately show ?thesis by blast
    next
      case False
      define t where "t = set_state i COMPONENT_STATE_INITIALIZED
        (call_if E (c_onConstruct ?c) (Call_onConstruct (l_comp ?ci)) s)"
      have "init_loop E [i..<length (components s)] s = init_loop E [Suc i..<length (components s)] t"
        using False on reg by (auto simp: upt is_off_comp_on Let_def t_def call_if_def call_def)
      moreover have "components t = (components s)[i := mark_init E (bools s) ?ci]" "bools t = bools s"
        "comp_log t = comp_log s @ construct_calls E [l_comp ?ci]"
        using on by (simp_all add: t_def components_set_state mark_init_def)
      ultimately show ?thesis using next_i [of t] on by simp
    qed
  qed
qed

text \<open>The order: the enabled components of a list in dependency order are in dependency order, when
  nothing enabled depends on something disabled.\<close>

definition enabled_deps_ok :: "comp_env \<Rightarrow> comp_mgr \<Rightarrow> bool" where
  "enabled_deps_ok E s \<longleftrightarrow> checkEnabledDependencies E s = Ok ()"

lemma enabled_deps_ok_iff:
  "enabled_deps_ok E s \<longleftrightarrow> (\<forall>a\<in>set (addrs s). comp_on E (bools s) a \<longrightarrow>
     (\<forall>d\<in>set (deps E a). comp_on E (bools s) d))"
  by (auto simp: enabled_deps_ok_def checkEnabledDependencies_def list_all_iff is_off_comp_on)

lemma deps_before_filter:
  assumes "deps_before E done as" and "\<And>a. a \<in> set as \<Longrightarrow> P a \<Longrightarrow> \<forall>d\<in>set (deps E a). P d"
  shows "deps_before E (filter P done) (filter P as)"
  using assms
proof (induction as arbitrary: "done")
  case (Cons a as)
  have "deps_before E (filter P (done @ [a])) (filter P as)"
    using Cons.prems by (intro Cons.IH) auto
  moreover have "P a \<Longrightarrow> set (deps E a) \<subseteq> set (filter P done)"
    using Cons.prems by auto
  ultimately show ?case by (cases "P a") simp_all
qed simp

section \<open>Starting\<close>

definition start_on :: "comp_env \<Rightarrow> (bool_addr \<Rightarrow> bool) \<Rightarrow> ComponentLink \<Rightarrow> bool" where
  "start_on E bs ci \<longleftrightarrow> l_state ci = COMPONENT_STATE_INITIALIZED \<and>
     (case c_start (descr E (l_comp ci)) of None \<Rightarrow> True | Some b \<Rightarrow> bs b)"

lemma is_off_start_on:
  "l_state ci = COMPONENT_STATE_INITIALIZED \<Longrightarrow>
    is_off s (c_start (descr E (l_comp ci))) \<longleftrightarrow> \<not> start_on E (bools s) ci"
  by (simp add: is_off_def start_on_def split: option.splits)

definition own_thread :: "comp_env \<Rightarrow> comp_addr \<Rightarrow> bool" where
  "own_thread E a \<longleftrightarrow> \<not> c_onStart (descr E a) \<and> c_main (descr E a)"

definition start_call :: "comp_env \<Rightarrow> comp_addr \<Rightarrow> comp_call list" where
  "start_call E a = (if own_thread E a then [Call_pthread_create a]
     else if c_onStart (descr E a) then [Call_onStart a] else [])"

definition mark_start :: "comp_env \<Rightarrow> (bool_addr \<Rightarrow> bool) \<Rightarrow> ComponentLink \<Rightarrow> ComponentLink" where
  "mark_start E bs ci = (if start_on E bs ci
     then ci\<lparr>l_thread := (if own_thread E (l_comp ci) then Thread_created else l_thread ci),
       l_state := COMPONENT_STATE_STARTED\<rparr> else ci)"

definition startable :: "comp_env \<Rightarrow> (bool_addr \<Rightarrow> bool) \<Rightarrow> ComponentLink list \<Rightarrow> comp_addr list" where
  "startable E bs cs = map l_comp (filter (start_on E bs) cs)"

lemma startable_simps [simp]:
  "startable E bs [] = []" "startable E bs (xs @ ys) = startable E bs xs @ startable E bs ys"
  "startable E bs (ci # cs) = (if start_on E bs ci then [l_comp ci] else []) @ startable E bs cs"
  by (simp_all add: startable_def)

definition start_calls :: "comp_env \<Rightarrow> comp_addr list \<Rightarrow> comp_call list" where
  "start_calls E as = concat (map (start_call E) as)"

lemma start_calls_simps [simp]:
  "start_calls E [] = []" "start_calls E (a # as) = start_call E a @ start_calls E as"
  "start_calls E (as @ bs) = start_calls E as @ start_calls E bs"
  by (simp_all add: start_calls_def)

text \<open>The outcome from position \<open>i\<close> on: all startable components are started, or the one at
  position \<open>k\<close> could not be started and the ones before it are stopped again.\<close>

definition start_outcome :: "comp_env \<Rightarrow> nat \<Rightarrow> comp_mgr \<Rightarrow> fault + (bool \<times> comp_mgr) \<Rightarrow> bool" where
  "start_outcome E i s r \<longleftrightarrow>
    (\<exists>s'. r = Ok (True, s') \<and> bools s' = bools s
      \<and> components s' = take i (components s) @ map (mark_start E (bools s)) (drop i (components s))
      \<and> comp_log s' = comp_log s @ start_calls E (startable E (bools s) (drop i (components s))))
    \<or> (\<exists>k t c. i \<le> k \<and> k < length (components s) \<and> bools t = bools s
      \<and> start_on E (bools s) (components s ! k) \<and> start_call E (l_comp (components s ! k)) = [c]
      \<and> components t = take i (components s) @ map (mark_start E (bools s)) (drop i (take k (components s)))
          @ drop k (components s)
      \<and> comp_log t = comp_log s @ start_calls E (startable E (bools s) (drop i (take k (components s)))) @ [c]
      \<and> \<not> answer E (comp_log s @ start_calls E (startable E (bools s) (drop i (take k (components s))))) c
      \<and> r = bind_ok (stopUntil E k t) (\<lambda>s. Ok (False, s)))"

lemma start_outcome_step:
  assumes i: "i < length (components s)" and bools: "bools t = bools s"
    and comps: "components t = (components s)[i := mark_start E (bools s) (components s ! i)]"
    and log: "comp_log t = comp_log s @ start_calls E (startable E (bools s) [components s ! i])"
    and outcome: "start_outcome E (Suc i) t r"
  shows "start_outcome E i s r"
proof -
  let ?ci = "components s ! i"
  have split: "take (Suc i) (components t) = take i (components s) @ [mark_start E (bools s) ?ci]"
    "drop (Suc i) (components t) = drop (Suc i) (components s)"
    "drop i (components s) = ?ci # drop (Suc i) (components s)"
    using i by (simp_all add: comps take_nth_split drop_nth_split)
  have later: "drop (Suc i) (take k (components t)) = drop (Suc i) (take k (components s))"
    "drop i (take k (components s)) = ?ci # drop (Suc i) (take k (components s))"
    "components t ! k = components s ! k" "drop k (components t) = drop k (components s)" if "Suc i \<le> k" for k
  proof -
    show "drop (Suc i) (take k (components t)) = drop (Suc i) (take k (components s))"
      by (simp add: drop_take split(2))
    have "k - i = Suc (k - Suc i)" using that by simp
    then show "drop i (take k (components s)) = ?ci # drop (Suc i) (take k (components s))"
      by (simp add: drop_take split(3))
    show "components t ! k = components s ! k" "drop k (components t) = drop k (components s)"
      using that by (simp_all add: comps)
  qed
  from outcome consider
    (all) s' where "r = Ok (True, s')" "bools s' = bools t"
      "components s' = take (Suc i) (components t) @ map (mark_start E (bools t)) (drop (Suc i) (components t))"
      "comp_log s' = comp_log t @ start_calls E (startable E (bools t) (drop (Suc i) (components t)))"
  | (failed) k u c where "Suc i \<le> k" "k < length (components t)" "bools u = bools t"
      "start_on E (bools t) (components t ! k)" "start_call E (l_comp (components t ! k)) = [c]"
      "components u = take (Suc i) (components t) @ map (mark_start E (bools t)) (drop (Suc i) (take k (components t)))
          @ drop k (components t)"
      "comp_log u = comp_log t @ start_calls E (startable E (bools t) (drop (Suc i) (take k (components t)))) @ [c]"
      "\<not> answer E (comp_log t @ start_calls E (startable E (bools t) (drop (Suc i) (take k (components t))))) c"
      "r = bind_ok (stopUntil E k u) (\<lambda>s. Ok (False, s))"
    unfolding start_outcome_def by blast
  then show ?thesis
  proof cases
    case all
    then show ?thesis unfolding start_outcome_def
      using bools log split by (intro disjI1 exI [of _ s']) simp
  next
    case (failed k u c)
    then show ?thesis unfolding start_outcome_def
      using bools log split later [OF failed(1)] comps
      by (intro disjI2 exI [of _ k] exI [of _ u] exI [of _ c]) (simp del: take_Suc_Cons)
  qed
qed

lemma components_set_thread:
  "components (set_thread i t s) = (components s)[i := (components s ! i)\<lparr>l_thread := t\<rparr>]"
  by (simp add: set_thread_def)

lemma start_loop_skip:
  assumes "\<not> start_on E (bools s) (components s ! i)"
  shows "start_loop E (i # is) s = start_loop E is s"
  using assms by (cases "l_state (components s ! i) = COMPONENT_STATE_INITIALIZED")
    (simp_all add: Let_def is_off_start_on)

text \<open>One component that is to be started.\<close>

lemma start_loop_start:
  assumes i: "i < length (components s)" and on: "start_on E (bools s) (components s ! i)"
  shows "(\<exists>c t. start_call E (l_comp (components s ! i)) = [c] \<and> \<not> answer E (comp_log s) c
      \<and> components t = components s \<and> bools t = bools s \<and> comp_log t = comp_log s @ [c]
      \<and> start_loop E (i # is) s = bind_ok (stopUntil E i t) (\<lambda>s. Ok (False, s)))
    \<or> (\<exists>t. components t = (components s)[i := mark_start E (bools s) (components s ! i)]
      \<and> bools t = bools s \<and> comp_log t = comp_log s @ start_call E (l_comp (components s ! i))
      \<and> start_loop E (i # is) s = start_loop E is t)"
proof -
  let ?a = "l_comp (components s ! i)"
  have init: "l_state (components s ! i) = COMPONENT_STATE_INITIALIZED"
    and not_off: "\<not> is_off s (c_start (descr E ?a))"
    using on by (auto simp: start_on_def is_off_def split: option.splits)
  consider (thread) "own_thread E ?a" | (managed) "c_onStart (descr E ?a)"
    | (none) "\<not> c_onStart (descr E ?a)" "\<not> c_main (descr E ?a)"
    by (auto simp: own_thread_def)
  then show ?thesis
  proof cases
    case thread
    let ?c = "Call_pthread_create ?a"
    let ?t = "set_state i COMPONENT_STATE_STARTED (set_thread i Thread_created (snd (call E ?c s)))"
    have cs: "components ?t = (components s)[i := mark_start E (bools s) (components s ! i)]"
      using i on thread by (simp add: components_set_state components_set_thread mark_start_def)
    show ?thesis
    proof (cases "answer E (comp_log s) ?c")
      case True
      then have "start_loop E (i # is) s = start_loop E is ?t"
        using init not_off thread by (simp add: Let_def startThreaded_def own_thread_def call_def)
      then show ?thesis using cs thread by (intro disjI2 exI [of _ ?t]) (simp add: start_call_def)
    next
      case False
      then have "start_loop E (i # is) s = bind_ok (stopUntil E i (snd (call E ?c s))) (\<lambda>s. Ok (False, s))"
        using init not_off thread by (simp add: Let_def startThreaded_def own_thread_def call_def)
      then show ?thesis using False thread
        by (intro disjI1 exI [of _ ?c] exI [of _ "snd (call E ?c s)"]) (simp add: start_call_def)
    qed
  next
    case managed
    let ?c = "Call_onStart ?a"
    let ?t = "set_state i COMPONENT_STATE_STARTED (snd (call E ?c s))"
    have no: "\<not> own_thread E ?a" using managed by (simp add: own_thread_def)
    have cs: "components ?t = (components s)[i := mark_start E (bools s) (components s ! i)]"
      using i on no by (simp add: components_set_state mark_start_def)
    show ?thesis
    proof (cases "answer E (comp_log s) ?c")
      case True
      then have "start_loop E (i # is) s = start_loop E is ?t"
        using init not_off managed by (simp add: Let_def call_def)
      then show ?thesis using cs managed no by (intro disjI2 exI [of _ ?t]) (simp add: start_call_def)
    next
      case False
      then have "start_loop E (i # is) s = bind_ok (stopUntil E i (snd (call E ?c s))) (\<lambda>s. Ok (False, s))"
        using init not_off managed by (simp add: Let_def call_def)
      then show ?thesis using False managed no
        by (intro disjI1 exI [of _ ?c] exI [of _ "snd (call E ?c s)"]) (simp add: start_call_def)
    qed
  next
    case none
    let ?t = "set_state i COMPONENT_STATE_STARTED s"
    have no: "\<not> own_thread E ?a" using none by (simp add: own_thread_def)
    have "start_loop E (i # is) s = start_loop E is ?t" using init not_off none by (simp add: Let_def)
    then show ?thesis using i on no none
      by (intro disjI2 exI [of _ ?t]) (simp add: components_set_state mark_start_def start_call_def)
  qed
qed

lemma start_loop_outcome:
  assumes "i \<le> length (components s)"
  shows "start_outcome E i s (start_loop E [i..<length (components s)] s)"
  using assms
proof (induction "length (components s) - i" arbitrary: i s)
  case 0
  then show ?case by (simp add: start_outcome_def)
next
  case (Suc m)
  let ?ci = "components s ! i"
  have i: "i < length (components s)" using Suc.hyps(2) by simp
  have upt: "[i..<length (components s)] = i # [Suc i..<length (components s)]"
    using i by (rule upt_conv_Cons)
  have next_i: "start_outcome E i s (start_loop E [Suc i..<length (components s)] t)"
    if t: "bools t = bools s" "components t = (components s)[i := mark_start E (bools s) ?ci]"
      "comp_log t = comp_log s @ start_calls E (startable E (bools s) [?ci])" for t
  proof -
    have "start_outcome E (Suc i) t (start_loop E [Suc i..<length (components t)] t)"
      by (rule Suc.hyps(1)) (use Suc.hyps(2) i t(2) in auto)
    then show ?thesis using start_outcome_step [OF i t] t(2) by simp
  qed
  show ?case
  proof (cases "start_on E (bools s) ?ci")
    case False
    then show ?thesis using next_i [of s] by (simp add: upt start_loop_skip mark_start_def del: start_loop.simps)
  next
    case True
    from start_loop_start [OF i True, of "[Suc i..<length (components s)]"] show ?thesis
    proof (elim disjE exE conjE)
      fix c t
      assume "start_call E (l_comp ?ci) = [c]" "\<not> answer E (comp_log s) c" "components t = components s"
        "bools t = bools s" "comp_log t = comp_log s @ [c]"
        "start_loop E (i # [Suc i..<length (components s)]) s = bind_ok (stopUntil E i t) (\<lambda>s. Ok (False, s))"
      then show ?thesis using True i unfolding start_outcome_def upt
        by (intro disjI2 exI [of _ i] exI [of _ t] exI [of _ c]) simp
    next
      fix t
      assume "components t = (components s)[i := mark_start E (bools s) ?ci]" "bools t = bools s"
        "comp_log t = comp_log s @ start_call E (l_comp ?ci)"
        "start_loop E (i # [Suc i..<length (components s)]) s = start_loop E [Suc i..<length (components s)] t"
      then show ?thesis using True next_i [of t] by (simp add: upt del: start_loop.simps)
    qed
  qed
qed

section \<open>Stopping\<close>

text \<open>Components whose thread the manager has to cancel and join; a started one has a thread.\<close>

definition joinable :: "comp_env \<Rightarrow> comp_addr \<Rightarrow> bool" where
  "joinable E a \<longleftrightarrow> \<not> c_onStop (descr E a) \<and> c_main (descr E a)"

definition thread_ok :: "comp_env \<Rightarrow> ComponentLink \<Rightarrow> bool" where
  "thread_ok E ci \<longleftrightarrow> (l_state ci = COMPONENT_STATE_STARTED \<and> joinable E (l_comp ci) \<longrightarrow>
     l_thread ci = Thread_created)"

definition stop_calls :: "comp_env \<Rightarrow> bool \<Rightarrow> comp_addr \<Rightarrow> comp_call list" where
  "stop_calls E deferred a =
    (if c_onStop (descr E a) then [Call_onStop a deferred]
     else if \<not> c_main (descr E a) then []
     else if deferred then (if has_timedjoin E then [Call_pthread_timedjoin a] else [Call_pthread_join a])
     else Call_pthread_cancel a # (if has_timedjoin E then [Call_pthread_timedjoin a] else []))"

definition stopped_link :: "ComponentLink \<Rightarrow> ComponentLink \<Rightarrow> bool" where
  "stopped_link ci ci' \<longleftrightarrow> l_comp ci' = l_comp ci \<and> (l_state ci' = l_state ci
     \<or> l_state ci = COMPONENT_STATE_STARTED \<and> l_state ci' = COMPONENT_STATE_INITIALIZED)"

lemma stopped_link_refl [simp]: "stopped_link ci ci"
  by (simp add: stopped_link_def)

lemma stopped_link_trans: "stopped_link a b \<Longrightarrow> stopped_link b c \<Longrightarrow> stopped_link a c"
  by (auto simp: stopped_link_def)

text \<open>Stopping links before position \<open>n\<close>.\<close>

definition stops_to :: "comp_env \<Rightarrow> nat \<Rightarrow> comp_mgr \<Rightarrow> comp_mgr \<Rightarrow> bool" where
  "stops_to E n s t \<longleftrightarrow> length (components t) = length (components s) \<and> bools t = bools s
     \<and> (\<forall>j. stopped_link (components s ! j) (components t ! j))
     \<and> (\<forall>j\<ge>n. components t ! j = components s ! j)
     \<and> (\<forall>j<length (components s). thread_ok E (components s ! j) \<longrightarrow> thread_ok E (components t ! j))"

lemma stops_to_refl [simp]: "stops_to E n s s"
  by (simp add: stops_to_def)

lemma stops_to_trans: "stops_to E m s t \<Longrightarrow> stops_to E n t u \<Longrightarrow> m \<le> n \<Longrightarrow> stops_to E n s u"
  using stopped_link_trans by (fastforce simp: stops_to_def)

lemma stops_to_trans': "stops_to E m s t \<Longrightarrow> stops_to E n t u \<Longrightarrow> n \<le> m \<Longrightarrow> stops_to E m s u"
  using stopped_link_trans by (fastforce simp: stops_to_def)

lemma stops_to_mono: "stops_to E m s t \<Longrightarrow> m \<le> n \<Longrightarrow> stops_to E n s t"
  by (simp add: stops_to_def)

lemma stops_to_started: "stops_to E n s t \<Longrightarrow> is_started j t \<Longrightarrow> is_started j s"
  unfolding stops_to_def is_started_def stopped_link_def by (metis COMPONENT_STATE.distinct(5))

lemma stops_to_comp: "stops_to E n s t \<Longrightarrow> l_comp (components t ! j) = l_comp (components s ! j)"
  by (simp add: stops_to_def stopped_link_def)

lemma stops_to_addrs: "stops_to E n s t \<Longrightarrow> addrs t = addrs s"
  by (auto simp: stops_to_def stopped_link_def list_eq_iff_nth_eq)

text \<open>A deferred stop of a component that is stopped through its thread joins it twice in a build
  with \<open>pthread_timedjoin_np\<close>. Where that cannot happen, stopping
  one component returns.\<close>

definition retriable :: "comp_env \<Rightarrow> comp_addr \<Rightarrow> bool" where
  "retriable E a \<longleftrightarrow> (has_timedjoin E \<longrightarrow> \<not> joinable E a)"

lemma is_started_set_state [simp]:
  "i < length (components s) \<Longrightarrow> is_started i (set_state i st s) \<longleftrightarrow> st = COMPONENT_STATE_STARTED"
  by (simp add: is_started_def components_set_state)

lemma stop_comp_started:
  assumes i: "i < length (components s)" and "is_started i s" and "thread_ok E (components s ! i)"
    and "deferred \<Longrightarrow> retriable E (l_comp (components s ! i))"
  shows "\<exists>t. stop_comp E i deferred s = Ok t \<and> stops_to E (Suc i) s t
    \<and> comp_log t = comp_log s @ stop_calls E deferred (l_comp (components s ! i))
    \<and> (is_started i t \<longrightarrow> components t = components s
        \<and> (deferred \<longrightarrow> c_onStop (descr E (l_comp (components s ! i))))
        \<and> (\<exists>cs c. stop_calls E deferred (l_comp (components s ! i)) = cs @ [c] \<and>
            (\<not> answer E (comp_log s @ cs) c \<or> \<not> has_timedjoin E \<and> c = Call_pthread_cancel (l_comp (components s ! i)))))"
proof -
  let ?ci = "components s ! i"
  let ?a = "l_comp ?ci"
  have st: "l_state ?ci = COMPONENT_STATE_STARTED" using assms(2) by (simp add: is_started_def)
  have to: "stops_to E (Suc i) s t"
    if "components t = (components s)[i := ci']" "bools t = bools s" "l_comp ci' = ?a"
      "l_state ci' = COMPONENT_STATE_INITIALIZED" for t ci'
    using that i st by (auto simp: stops_to_def stopped_link_def nth_list_update thread_ok_def)
  consider (on_stop) "c_onStop (descr E ?a)" | (thread) "joinable E ?a"
    | (none) "\<not> c_onStop (descr E ?a)" "\<not> c_main (descr E ?a)"
    by (auto simp: joinable_def)
  then show ?thesis
  proof cases
    case on_stop
    let ?u = "snd (call E (Call_onStop ?a deferred) s)"
    let ?t = "set_state i COMPONENT_STATE_INITIALIZED ?u"
    show ?thesis
    proof (cases "answer E (comp_log s) (Call_onStop ?a deferred)")
      case True
      then have "stop_comp E i deferred s = Ok ?t"
        using st on_stop by (simp add: stop_comp_def Let_def call_def)
      then show ?thesis using on_stop i to [of ?t "?ci\<lparr>l_state := COMPONENT_STATE_INITIALIZED\<rparr>"]
        by (intro exI [of _ ?t]) (simp add: stop_calls_def components_set_state)
    next
      case False
      then have "stop_comp E i deferred s = Ok ?u"
        using st on_stop by (simp add: stop_comp_def Let_def call_def)
      then show ?thesis using False on_stop
        by (intro exI [of _ ?u]) (simp add: stop_calls_def stops_to_def)
    qed
  next
    case none
    let ?t = "set_state i COMPONENT_STATE_INITIALIZED s"
    have "stop_comp E i deferred s = Ok ?t" using st none by (simp add: stop_comp_def Let_def)
    then show ?thesis using none i to [of ?t "?ci\<lparr>l_state := COMPONENT_STATE_INITIALIZED\<rparr>"]
      by (intro exI [of _ ?t]) (simp add: stop_calls_def components_set_state)
  next
    case thread
    then have th: "l_thread ?ci = Thread_created" "\<not> c_onStop (descr E ?a)" "c_main (descr E ?a)"
      using assms(3) st by (auto simp: thread_ok_def joinable_def)
    show ?thesis
    proof (cases deferred)
      case True
      then have no: "\<not> has_timedjoin E" using assms(4) thread by (auto simp: retriable_def)
      let ?t = "set_state i COMPONENT_STATE_INITIALIZED
        (set_thread i Thread_joined (snd (call E (Call_pthread_join ?a) s)))"
      let ?ci' = "?ci\<lparr>l_thread := Thread_joined, l_state := COMPONENT_STATE_INITIALIZED\<rparr>"
      have "stop_comp E i deferred s = Ok ?t"
        using st th True no by (simp add: stop_comp_def Let_def stopThreaded_def pthread_join_def needs_thread_def)
      then show ?thesis using th True no i to [of ?t ?ci']
        by (intro exI [of _ ?t]) (simp add: stop_calls_def components_set_state components_set_thread)
    next
      case first: False
      let ?u = "snd (call E (Call_pthread_cancel ?a) s)"
      show ?thesis
      proof (cases "has_timedjoin E")
        case False
        then have "stop_comp E i deferred s = Ok ?u"
          using st th first by (simp add: stop_comp_def Let_def stopThreaded_def needs_thread_def)
        then show ?thesis using False th first
          by (intro exI [of _ ?u]) (simp add: stop_calls_def stops_to_def)
      next
        case True
        let ?v = "snd (call E (Call_pthread_timedjoin ?a) ?u)"
        let ?t = "set_state i COMPONENT_STATE_INITIALIZED (set_thread i Thread_joined ?v)"
        let ?ci' = "?ci\<lparr>l_thread := Thread_joined, l_state := COMPONENT_STATE_INITIALIZED\<rparr>"
        show ?thesis
        proof (cases "answer E (comp_log ?u) (Call_pthread_timedjoin ?a)")
          case yes: True
          then have "stop_comp E i deferred s = Ok ?t"
            using st th first True
            by (simp add: stop_comp_def Let_def stopThreaded_def needs_thread_def tryJoin_def call_def)
          then show ?thesis using True th first i to [of ?t ?ci']
            by (intro exI [of _ ?t]) (simp add: stop_calls_def components_set_state components_set_thread)
        next
          case no: False
          then have "stop_comp E i deferred s = Ok ?v"
            using st th first True
            by (simp add: stop_comp_def Let_def stopThreaded_def needs_thread_def tryJoin_def call_def)
          then show ?thesis using True no th first
            by (intro exI [of _ ?v]) (simp add: stop_calls_def stops_to_def)
        qed
      qed
    qed
  qed
qed

definition threads_prompt :: "comp_env \<Rightarrow> bool" where
  "threads_prompt E \<longleftrightarrow> (has_timedjoin E \<longrightarrow> (\<forall>h a. answer E h (Call_pthread_timedjoin a)))"

definition all_thread_ok :: "comp_env \<Rightarrow> comp_mgr \<Rightarrow> bool" where
  "all_thread_ok E s \<longleftrightarrow> (\<forall>j<length (components s). thread_ok E (components s ! j))"

lemma stops_to_thread_ok: "stops_to E n s t \<Longrightarrow> all_thread_ok E s \<Longrightarrow> all_thread_ok E t"
  by (simp add: stops_to_def all_thread_ok_def)

text \<open>The calls that ask the components at the given positions to stop.\<close>

definition ask_stop :: "comp_env \<Rightarrow> bool \<Rightarrow> comp_mgr \<Rightarrow> nat list \<Rightarrow> comp_call list" where
  "ask_stop E deferred s is = concat (map (\<lambda>i. stop_calls E deferred (l_comp (components s ! i))) is)"

lemma ask_stop_simps [simp]:
  "ask_stop E d s [] = []"
  "ask_stop E d s (i # is) = stop_calls E d (l_comp (components s ! i)) @ ask_stop E d s is"
  by (simp_all add: ask_stop_def)

lemma ask_stop_cong:
  "(\<And>j. l_comp (components t ! j) = l_comp (components s ! j)) \<Longrightarrow> ask_stop E d t = ask_stop E d s"
  by (simp add: ask_stop_def fun_eq_iff)

fun all_refused :: "comp_env \<Rightarrow> comp_call list \<Rightarrow> comp_call list \<Rightarrow> bool" where
  "all_refused E h [] \<longleftrightarrow> True"
| "all_refused E h (c # cs) \<longleftrightarrow> \<not> answer E h c \<and> all_refused E (h @ [c]) cs"

lemma stop_calls_deferred: "stop_calls E True a = [] \<or> (\<exists>c. stop_calls E True a = [c] \<and> c \<noteq> Call_pthread_cancel a)"
  by (simp add: stop_calls_def)

lemma first_stop_retriable:
  assumes "threads_prompt E" and "stop_calls E False a = cs @ [c]"
    and "\<not> answer E h c \<or> \<not> has_timedjoin E \<and> c = Call_pthread_cancel a"
  shows "retriable E a"
  using assms by (auto simp: threads_prompt_def stop_calls_def retriable_def joinable_def split: if_splits)

lemma stop_pass_effect:
  assumes "n \<le> length (components s)" and "all_thread_ok E s"
  shows "\<exists>t. stop_pass E n df s = Ok (df \<or> started_before n t \<noteq> [], t) \<and> stops_to E n s t
    \<and> comp_log t = comp_log s @ ask_stop E False s (started_before n s)
    \<and> (threads_prompt E \<longrightarrow> (\<forall>i<n. is_started i t \<longrightarrow> retriable E (l_comp (components s ! i))))"
  using assms
proof (induction n arbitrary: df s)
  case 0
  then show ?case by (intro exI [of _ s]) simp
next
  case (Suc n)
  have n: "n < length (components s)" using Suc.prems(1) by simp
  obtain u where u: "stop_comp E n False s = Ok u" "stops_to E (Suc n) s u"
    "comp_log u = comp_log s @ (if is_started n s then stop_calls E False (l_comp (components s ! n)) else [])"
    "threads_prompt E \<Longrightarrow> is_started n u \<Longrightarrow> retriable E (l_comp (components s ! n))"
  proof (cases "is_started n s")
    case True
    from stop_comp_started [OF n True, of E False] Suc.prems(2) n obtain t where
      "stop_comp E n False s = Ok t" "stops_to E (Suc n) s t"
      "comp_log t = comp_log s @ stop_calls E False (l_comp (components s ! n))"
      "is_started n t \<longrightarrow> (\<exists>cs c. stop_calls E False (l_comp (components s ! n)) = cs @ [c] \<and>
        (\<not> answer E (comp_log s @ cs) c \<or> \<not> has_timedjoin E \<and> c = Call_pthread_cancel (l_comp (components s ! n))))"
      by (auto simp: all_thread_ok_def)
    moreover have "retriable E (l_comp (components s ! n))" if "threads_prompt E" "is_started n t"
      using first_stop_retriable [OF that(1)] calculation(4) that(2) by blast
    ultimately show ?thesis using that [of t] True by simp
  next
    case False
    then show ?thesis using that [of s] by (simp add: stop_comp_not_started)
  qed
  have link: "only_link n s u" by (rule stop_comp_only_link [OF u(1)])
  have comps: "\<And>j. l_comp (components u ! j) = l_comp (components s ! j)"
    by (rule stops_to_comp [OF u(2)])
  have before: "started_before n u = started_before n s" using started_before_other [OF link] by simp
  obtain t where t: "stop_pass E n (df \<or> is_started n u) u = Ok (df \<or> is_started n u \<or> started_before n t \<noteq> [], t)"
    "stops_to E n u t" "comp_log t = comp_log u @ ask_stop E False u (started_before n u)"
    "threads_prompt E \<Longrightarrow> \<forall>i<n. is_started i t \<longrightarrow> retriable E (l_comp (components u ! i))"
    using Suc.IH [of u "df \<or> is_started n u"] Suc.prems(1) link stops_to_thread_ok [OF u(2) Suc.prems(2)]
    by (auto simp: only_link_def)
  have nt: "is_started n t = is_started n u" using t(2) by (simp add: stops_to_def is_started_def)
  have "stop_pass E (Suc n) df s = Ok (df \<or> started_before (Suc n) t \<noteq> [], t)"
    using u(1) t(1) nt by simp
  moreover have "stops_to E (Suc n) s t" using stops_to_trans' [OF u(2) t(2)] by simp
  moreover have "comp_log t = comp_log s @ ask_stop E False s (started_before (Suc n) s)"
    using t(3) u(3) before ask_stop_cong [OF comps] by simp
  moreover have "retriable E (l_comp (components s ! i))"
    if "threads_prompt E" "i < Suc n" "is_started i t" for i
    using that t(4) u(4) nt comps by (cases "i = n") auto
  ultimately show ?case by blast
qed

lemma retry_pass_returns:
  assumes "n \<le> length (components s)" and "all_thread_ok E s"
    and "\<And>i. i < n \<Longrightarrow> is_started i s \<Longrightarrow> retriable E (l_comp (components s ! i))"
  shows "\<exists>p d t. retry_pass E n progress deferred s = Ok (p, d, t) \<and> stops_to E n s t
    \<and> (\<exists>rest. comp_log t = comp_log s @ rest)
    \<and> (\<not> p \<longrightarrow> \<not> progress \<and> components t = components s
        \<and> comp_log t = comp_log s @ ask_stop E True s (started_before n s)
        \<and> all_refused E (comp_log s) (ask_stop E True s (started_before n s))
        \<and> (\<forall>i\<in>set (started_before n s). c_onStop (descr E (l_comp (components s ! i)))))"
  using assms
proof (induction n arbitrary: progress deferred s)
  case 0
  then show ?case by simp
next
  case (Suc n)
  have n: "n < length (components s)" using Suc.prems(1) by simp
  show ?case
  proof (cases "is_started n s")
    case False
    obtain p d t where "retry_pass E n progress deferred s = Ok (p, d, t)" "stops_to E n s t"
      "\<exists>rest. comp_log t = comp_log s @ rest"
      "\<not> p \<longrightarrow> \<not> progress \<and> components t = components s
        \<and> comp_log t = comp_log s @ ask_stop E True s (started_before n s)
        \<and> all_refused E (comp_log s) (ask_stop E True s (started_before n s))
        \<and> (\<forall>i\<in>set (started_before n s). c_onStop (descr E (l_comp (components s ! i))))"
      using Suc.IH [of s progress deferred] Suc.prems by auto
    then show ?thesis using False stops_to_mono [of E n s t "Suc n"] by auto
  next
    case True
    obtain u where u: "stop_comp E n True s = Ok u" "stops_to E (Suc n) s u"
      "comp_log u = comp_log s @ stop_calls E True (l_comp (components s ! n))"
      "is_started n u \<longrightarrow> components u = components s \<and> c_onStop (descr E (l_comp (components s ! n)))
        \<and> (\<exists>cs c. stop_calls E True (l_comp (components s ! n)) = cs @ [c] \<and>
            (\<not> answer E (comp_log s @ cs) c \<or> \<not> has_timedjoin E \<and> c = Call_pthread_cancel (l_comp (components s ! n))))"
      using stop_comp_started [OF n True, of E True] Suc.prems(2,3) n True by (auto simp: all_thread_ok_def)
    have link: "only_link n s u" by (rule stop_comp_only_link [OF u(1)])
    have comps: "\<And>j. l_comp (components u ! j) = l_comp (components s ! j)"
      by (rule stops_to_comp [OF u(2)])
    obtain p d t where t:
      "retry_pass E n (progress \<or> \<not> is_started n u) (deferred \<or> is_started n u) u = Ok (p, d, t)"
      "stops_to E n u t" "\<exists>rest. comp_log t = comp_log u @ rest"
      "\<not> p \<Longrightarrow> \<not> (progress \<or> \<not> is_started n u) \<and> components t = components u
        \<and> comp_log t = comp_log u @ ask_stop E True u (started_before n u)
        \<and> all_refused E (comp_log u) (ask_stop E True u (started_before n u))
        \<and> (\<forall>i\<in>set (started_before n u). c_onStop (descr E (l_comp (components u ! i))))"
      using Suc.IH [of u "progress \<or> \<not> is_started n u" "deferred \<or> is_started n u"] Suc.prems(1,3) comps
        link stops_to_thread_ok [OF u(2) Suc.prems(2)] stops_to_started [OF u(2)]
      by (auto simp: only_link_def)
    have "retry_pass E (Suc n) progress deferred s = Ok (p, d, t)" using True u(1) t(1) by simp
    moreover have "stops_to E (Suc n) s t" using stops_to_trans' [OF u(2) t(2)] by simp
    moreover have "\<exists>rest. comp_log t = comp_log s @ rest" using t(3) u(3) by auto
    moreover have "\<not> progress \<and> components t = components s
        \<and> comp_log t = comp_log s @ ask_stop E True s (started_before (Suc n) s)
        \<and> all_refused E (comp_log s) (ask_stop E True s (started_before (Suc n) s))
        \<and> (\<forall>i\<in>set (started_before (Suc n) s). c_onStop (descr E (l_comp (components s ! i))))" if "\<not> p"
    proof -
      have st: "is_started n u" using t(4) [OF that] by simp
      then obtain c where c: "stop_calls E True (l_comp (components s ! n)) = [c]" "\<not> answer E (comp_log s) c"
        using u(4) stop_calls_deferred [of E "l_comp (components s ! n)"] by auto
      have "started_before n u = started_before n s" using started_before_other [OF link] by simp
      then show ?thesis using t(4) [OF that] u(3,4) st c True ask_stop_cong [OF comps] by simp
    qed
    ultimately show ?thesis by blast
  qed
qed

text \<open>The components that are still started have all refused in the last round.\<close>

definition gave_up :: "comp_env \<Rightarrow> nat \<Rightarrow> comp_mgr \<Rightarrow> bool" where
  "gave_up E n t \<longleftrightarrow> (\<exists>h. comp_log t = h @ ask_stop E True t (started_before n t)
     \<and> all_refused E h (ask_stop E True t (started_before n t)))
     \<and> (\<forall>i\<in>set (started_before n t). c_onStop (descr E (l_comp (components t ! i))))"

lemma stop_retry_returns:
  assumes "n \<le> length (components s)" and "all_thread_ok E s"
    and "\<And>i. i < n \<Longrightarrow> is_started i s \<Longrightarrow> retriable E (l_comp (components s ! i))"
  shows "\<exists>t rest. stop_retry E n s = Ok (started_before n t \<noteq> [], t) \<and> stops_to E n s t
    \<and> comp_log t = comp_log s @ rest \<and> gave_up E n t"
  using assms
proof (induction E n s rule: stop_retry.induct)
  case (1 E n s)
  obtain p d t where t: "retry_pass E n False False s = Ok (p, d, t)" "stops_to E n s t"
    "\<exists>rest. comp_log t = comp_log s @ rest"
    "\<not> p \<Longrightarrow> components t = components s \<and> comp_log t = comp_log s @ ask_stop E True s (started_before n s)
      \<and> all_refused E (comp_log s) (ask_stop E True s (started_before n s))
      \<and> (\<forall>i\<in>set (started_before n s). c_onStop (descr E (l_comp (components s ! i))))"
    using retry_pass_returns [OF "1.prems"] by blast
  have d: "d \<longleftrightarrow> started_before n t \<noteq> []" using retry_pass_effect [OF t(1)] by simp
  have unfold: "stop_retry E n s = (if d \<and> p then stop_retry E n t else Ok (d, t))"
    by (subst stop_retry.simps) (simp add: t(1))
  show ?case
  proof (cases "d \<and> p")
    case True
    have "\<exists>u rest. stop_retry E n t = Ok (started_before n u \<noteq> [], u) \<and> stops_to E n t u
      \<and> comp_log u = comp_log t @ rest \<and> gave_up E n u"
    proof (rule "1.IH" [OF t(1) refl refl True])
      show "n \<le> length (components t)" using "1.prems"(1) t(2) by (simp add: stops_to_def)
      show "all_thread_ok E t" using stops_to_thread_ok [OF t(2) "1.prems"(2)] .
      show "retriable E (l_comp (components t ! i))" if "i < n" "is_started i t" for i
        using "1.prems"(3) [OF that(1) stops_to_started [OF t(2) that(2)]] stops_to_comp [OF t(2)] by simp
    qed
    then show ?thesis using unfold True t(3) stops_to_trans [OF t(2)] by fastforce
  next
    case False
    have "gave_up E n t"
    proof (cases p)
      case True
      then have "started_before n t = []" using False d by simp
      then show ?thesis by (simp add: gave_up_def)
    next
      case False
      note same = t(4) [OF False]
      have "started_before n t = started_before n s"
        by (rule started_before_cong) (simp add: is_started_def same)
      moreover have "ask_stop E True t = ask_stop E True s"
        by (rule ask_stop_cong) (simp add: same)
      ultimately show ?thesis using same by (auto simp: gave_up_def)
    qed
    then show ?thesis using unfold False t d by auto
  qed
qed

text \<open>The message fits its buffer when the descriptions are short enough.\<close>

definition message_fits :: "comp_env \<Rightarrow> comp_mgr \<Rightarrow> bool" where
  "message_fits E s \<longleftrightarrow>
    (\<Sum>ci\<leftarrow>components s. length (c_description (descr E (l_comp ci))) + 1) \<le> 1000"

lemma report_loop_fits:
  assumes "n \<le> length (components s)"
    and "length buf + (\<Sum>ci\<leftarrow>take n (components s). length (c_description (descr E (l_comp ci))) + 1) \<le> 1000"
  shows "\<exists>msg. report_loop E n buf s = Ok msg"
  using assms
proof (induction n arbitrary: buf)
  case (Suc n)
  have n: "n < length (components s)" using Suc.prems(1) by simp
  show ?case
    using Suc.prems Suc.IH by (auto simp: take_nth_split [OF n] Let_def)
qed simp

lemma message_fits_take:
  assumes "message_fits E s"
  shows "(\<Sum>ci\<leftarrow>take n (components s). length (c_description (descr E (l_comp ci))) + 1) \<le> 1000"
proof -
  have "(\<Sum>ci\<leftarrow>components s. length (c_description (descr E (l_comp ci))) + 1) =
      (\<Sum>ci\<leftarrow>take n (components s). length (c_description (descr E (l_comp ci))) + 1) +
      (\<Sum>ci\<leftarrow>drop n (components s). length (c_description (descr E (l_comp ci))) + 1)"
    by (subst (1) append_take_drop_id [of n "components s", symmetric]) (simp only: map_append sum_list_append)
  then show ?thesis using assms by (simp only: message_fits_def)
qed

lemma message_fits_cong: "stops_to E n s t \<Longrightarrow> message_fits E t = message_fits E s"
proof -
  assume "stops_to E n s t"
  from stops_to_addrs [OF this] have "map (\<lambda>a. length (c_description (descr E a)) + 1) (map l_comp (components t)) =
      map (\<lambda>a. length (c_description (descr E a)) + 1) (map l_comp (components s))" by (rule arg_cong)
  then show ?thesis by (simp only: message_fits_def map_map comp_def)
qed

lemma stopUntil_returns:
  assumes n: "n \<le> length (components s)" and ok: "all_thread_ok E s" and "threads_prompt E"
    and fits: "message_fits E s"
  shows "\<exists>t rest. stopUntil E n s = Ok t \<and> stops_to E n s t
    \<and> comp_log t = comp_log s @ ask_stop E False s (started_before n s) @ rest \<and> gave_up E n t"
proof -
  obtain u where u: "stop_pass E n False s = Ok (started_before n u \<noteq> [], u)" "stops_to E n s u"
    "comp_log u = comp_log s @ ask_stop E False s (started_before n s)"
    "\<And>i. i < n \<Longrightarrow> is_started i u \<Longrightarrow> retriable E (l_comp (components u ! i))"
    using stop_pass_effect [OF n ok, of False] assms(3) stops_to_comp by fastforce
  show ?thesis
  proof (cases "started_before n u = []")
    case True
    then have "stopUntil E n s = Ok u" using u(1) by (simp add: stopUntil_def)
    moreover have "gave_up E n u" using True by (simp add: gave_up_def)
    ultimately show ?thesis using u(2,3) by (intro exI [of _ u] exI [of _ "[]"]) simp
  next
    case False
    have nu: "n \<le> length (components u)" using n u(2) by (simp add: stops_to_def)
    obtain t rest where t: "stop_retry E n u = Ok (started_before n t \<noteq> [], t)" "stops_to E n u t"
      "comp_log t = comp_log u @ rest" "gave_up E n t"
      using stop_retry_returns [OF nu stops_to_thread_ok [OF u(2) ok] u(4)] by blast
    have st: "stops_to E n s t" using stops_to_trans [OF u(2) t(2)] by simp
    have "message_fits E t" using message_fits_cong [OF st] fits by simp
    then obtain msg where "report_loop E n [] t = Ok msg"
      using report_loop_fits [of n t "[]" E] message_fits_take [of E t n] n st
      by (auto simp: stops_to_def)
    then have "stopUntil E n s = Ok t"
      using u(1) False t(1) by (cases "started_before n t = []") (simp_all add: stopUntil_def)
    then show ?thesis using st t(3,4) u(3) by (intro exI [of _ t] exI [of _ rest]) simp
  qed
qed

section \<open>Rolling back a start\<close>

lemma started_before_addrs:
  "n \<le> length (components t) \<Longrightarrow> map (\<lambda>i. l_comp (components t ! i)) (started_before n t) =
    rev (map l_comp (filter (\<lambda>ci. l_state ci = COMPONENT_STATE_STARTED) (take n (components t))))"
  by (induction n) (auto simp: take_nth_split is_started_def)

lemma ask_stop_started:
  "n \<le> length (components t) \<Longrightarrow> ask_stop E d t (started_before n t) =
    concat (map (stop_calls E d) (rev (map l_comp
      (filter (\<lambda>ci. l_state ci = COMPONENT_STATE_STARTED) (take n (components t))))))"
  by (simp add: ask_stop_def flip: started_before_addrs) (simp add: comp_def)

definition none_started :: "comp_mgr \<Rightarrow> bool" where
  "none_started s \<longleftrightarrow> (\<forall>ci\<in>set (components s). l_state ci \<noteq> COMPONENT_STATE_STARTED)"

text \<open>A thread the manager has to join is one it has created.\<close>

definition managed_ok :: "comp_env \<Rightarrow> comp_mgr \<Rightarrow> bool" where
  "managed_ok E s \<longleftrightarrow> (\<forall>a\<in>set (addrs s). joinable E a \<longrightarrow> own_thread E a)"

lemma mark_start_started:
  "\<forall>ci\<in>set cs. l_state ci \<noteq> COMPONENT_STATE_STARTED \<Longrightarrow>
    map l_comp (filter (\<lambda>ci. l_state ci = COMPONENT_STATE_STARTED) (map (mark_start E bs) cs)) = startable E bs cs"
  by (induction cs) (auto simp: mark_start_def)

lemma mark_start_thread_ok:
  "managed_ok E s \<Longrightarrow> ci \<in> set (components s) \<Longrightarrow> l_state ci \<noteq> COMPONENT_STATE_STARTED \<Longrightarrow>
    thread_ok E (mark_start E bs ci)"
  by (auto simp: mark_start_def thread_ok_def managed_ok_def)

lemma mark_start_comp [simp]: "l_comp (mark_start E bs ci) = l_comp ci"
  by (simp add: mark_start_def)

lemma COMP_startAll_cases:
  assumes managed: "managed_ok E s" and none: "none_started s" and prompt: "threads_prompt E"
    and fits: "message_fits E s"
  obtains
    (started) s' where "COMP_startAll E s = Ok (True, s')" "bools s' = bools s"
      "components s' = map (mark_start E (bools s)) (components s)"
      "comp_log s' = comp_log s @ start_calls E (startable E (bools s) (components s))"
  | (failed) s' k xs c ys rest where "COMP_startAll E s = Ok (False, s')" "k < length (components s')"
      "startable E (bools s) (components s) = xs @ l_comp (components s ! k) # ys"
      "start_call E (l_comp (components s ! k)) = [c]" "\<not> answer E (comp_log s @ start_calls E xs) c"
      "comp_log s' = comp_log s @ start_calls E xs @ [c] @ concat (map (stop_calls E False) (rev xs)) @ rest"
      "gave_up E k s'" "bools s' = bools s" "addrs s' = addrs s"
      "\<forall>ci\<in>set (drop k (components s')). l_state ci \<noteq> COMPONENT_STATE_STARTED"
proof -
  have "start_outcome E 0 s (COMP_startAll E s)"
    using start_loop_outcome [of 0 s E] by (simp add: COMP_startAll_def)
  then show thesis unfolding start_outcome_def
  proof (elim disjE exE conjE)
    fix k t c
    let ?xs = "startable E (bools s) (take k (components s))"
    assume k: "0 \<le> k" "k < length (components s)" and bools: "bools t = bools s"
      and on: "start_on E (bools s) (components s ! k)" and c: "start_call E (l_comp (components s ! k)) = [c]"
      and comps: "components t = take 0 (components s) @
        map (mark_start E (bools s)) (drop 0 (take k (components s))) @ drop k (components s)"
      and log: "comp_log t = comp_log s @ start_calls E (startable E (bools s) (drop 0 (take k (components s)))) @ [c]"
      and no: "\<not> answer E (comp_log s @ start_calls E (startable E (bools s) (drop 0 (take k (components s))))) c"
      and r: "COMP_startAll E s = bind_ok (stopUntil E k t) (\<lambda>s. Ok (False, s))"
    have len: "length (components t) = length (components s)" using k comps by simp
    have before: "l_state ci \<noteq> COMPONENT_STATE_STARTED" if "ci \<in> set (components s)" for ci
      using none that by (simp add: none_started_def)
    have ok: "all_thread_ok E t"
    proof -
      have "thread_ok E ci" if "ci \<in> set (components t)" for ci
        using that comps before mark_start_thread_ok [OF managed]
        by (auto simp: thread_ok_def dest: in_set_takeD in_set_dropD)
      then show ?thesis by (simp add: all_thread_ok_def)
    qed
    have addrs: "addrs t = addrs s"
      using comps by (simp add: comp_def) (metis append_take_drop_id map_append)
    have fits': "message_fits E t"
    proof -
      have "map (\<lambda>a. length (c_description (descr E a)) + 1) (addrs t) =
          map (\<lambda>a. length (c_description (descr E a)) + 1) (addrs s)" using addrs by simp
      then show ?thesis using fits by (simp only: message_fits_def map_map comp_def)
    qed
    obtain u rest where u: "stopUntil E k t = Ok u" "stops_to E k t u"
      "comp_log u = comp_log t @ ask_stop E False t (started_before k t) @ rest" "gave_up E k u"
      using stopUntil_returns [of k t E] k(2) len ok prompt fits' by auto
    have "take k (components t) = map (mark_start E (bools s)) (take k (components s))"
      using comps k(2) by simp
    moreover have "\<forall>ci\<in>set (take k (components s)). l_state ci \<noteq> COMPONENT_STATE_STARTED"
      using before in_set_takeD by metis
    ultimately have "map l_comp (filter (\<lambda>ci. l_state ci = COMPONENT_STATE_STARTED) (take k (components t))) = ?xs"
      by (simp only: mark_start_started)
    then have log_u: "comp_log u = comp_log s @ start_calls E ?xs @ [c] @ concat (map (stop_calls E False) (rev ?xs)) @ rest"
      using u(3) log k(2) len by (simp add: ask_stop_started)
    have todo: "startable E (bools s) (components s) =
        ?xs @ l_comp (components s ! k) # startable E (bools s) (drop (Suc k) (components s))"
      using on by (subst id_take_nth_drop [OF k(2)]) simp
    have tail: "drop k (components u) = drop k (components s)"
      using u(2) comps k(2) len by (intro nth_equalityI) (auto simp: stops_to_def nth_append)
    have addrs_u: "addrs u = addrs s" using stops_to_addrs [OF u(2)] addrs by simp
    have "k < length (components u)" "bools u = bools s" using u(2) k(2) len bools by (simp_all add: stops_to_def)
    moreover have "\<forall>ci\<in>set (drop k (components u)). l_state ci \<noteq> COMPONENT_STATE_STARTED"
      unfolding tail by (metis before in_set_dropD)
    moreover have "COMP_startAll E s = Ok (False, u)" using r u(1) by simp
    moreover have "\<not> answer E (comp_log s @ start_calls E ?xs) c" using no by simp
    ultimately show thesis using that(2) todo c log_u u(4) addrs_u by blast
  qed (use that(1) in auto)
qed

section \<open>Properties\<close>

text \<open>A small program for the witnesses: component 0 needs 1 and 2, and 1 needs 2; each has a thread.
  One call fails.\<close>

definition sample_component :: "comp_addr list \<Rightarrow> Component" where
  "sample_component ds = \<lparr>c_description = [67, 79, 77, 80], c_onRegister = False, c_onConstruct = True,
     c_onDestruct = True, c_main = True, c_onStart = False, c_onStop = False, c_onReset = False,
     c_enabled = None, c_start = None, c_config = False, c_dependencies = ds\<rparr>"

definition sample_env :: "comp_call \<Rightarrow> comp_env" where
  "sample_env bad = \<lparr>comp_table = [sample_component [1, 2], sample_component [2], sample_component []],
     answer = (\<lambda>_ c. c \<noteq> bad), has_timedjoin = True\<rparr>"

definition sample_mgr :: "COMPONENT_STATE \<Rightarrow> comp_thread \<Rightarrow> comp_addr list \<Rightarrow> comp_mgr" where
  "sample_mgr st th as = \<lparr>components = map (\<lambda>a. \<lparr>l_comp = a, l_state = st, l_thread = th\<rparr>) as,
     bools = (\<lambda>_. True), comp_log = []\<rparr>"

lemma sample_descr: "descr (sample_env bad) 0 = sample_component [1, 2]"
  "descr (sample_env bad) (Suc 0) = sample_component [2]" "descr (sample_env bad) 2 = sample_component []"
  by (simp_all add: descr_def sample_env_def)

lemma dep_closure_least:
  assumes "A \<subseteq> B" and "\<And>a. a \<in> B \<Longrightarrow> set (deps E a) \<subseteq> B"
  shows "dep_closure E A \<subseteq> B"
  using dep_closure_fixed [of B E] assms by (metis Image_mono dep_closure_def subset_refl)

text \<open>C8: \<open>COMP_fixup\<close> succeeds exactly when the dependencies of the registered components have no
  cycle, and then the list holds each registered component and everything it needs, directly or
  not, once, every component after all its dependencies.\<close>

theorem fixup_sorts_dependencies:
  assumes "mallocs_succeed E" and "dep_closure E (set (addrs s)) \<subseteq> {..<length (comp_table E)}"
    and "distinct (addrs s)"
  shows "if has_cycle E (set (addrs s)) then COMP_fixup E s = Fault Emergency
    else \<exists>s'. COMP_fixup E s = Ok s' \<and> set (addrs s') = dep_closure E (set (addrs s))
      \<and> distinct (addrs s') \<and> deps_before E [] (addrs s')"
  using COMP_fixup_result [OF assms] by auto

theorem fixup_sorts_dependencies_witness:
  "\<exists>s'. COMP_fixup (sample_env (Call_onStart 9)) (sample_mgr COMPONENT_STATE_REGISTERED Thread_none [0]) = Ok s'
    \<and> deps_before (sample_env (Call_onStart 9)) [] (addrs s')"
proof -
  let ?E = "sample_env (Call_onStart 9)" and ?s = "sample_mgr COMPONENT_STATE_REGISTERED Thread_none [0]"
  have "dep_closure ?E (set (addrs ?s)) \<subseteq> {0, 1, 2}"
    by (rule dep_closure_least)
      (auto simp: sample_mgr_def deps_def descr_def sample_env_def sample_component_def)
  then have valid: "dep_closure ?E (set (addrs ?s)) \<subseteq> {..<length (comp_table ?E)}"
    by (auto simp: sample_env_def)
  have "mallocs_succeed ?E" by (simp add: mallocs_succeed_def sample_env_def)
  note result = fixup_sorts_dependencies [OF this valid]
  have "\<not> isl (COMP_fixup ?E ?s)" by code_simp
  then show ?thesis using result by (auto simp: sample_mgr_def split: if_splits)
qed

text \<open>C25: \<open>COMP_initAll\<close> does not return when an enabled component needs a disabled one. Otherwise it
  constructs the enabled components, each after everything it needs; when one of them fails, it
  destructs the ones constructed so far in the opposite order and leaves every link as it was.\<close>

theorem init_in_order_with_rollback:
  assumes "\<forall>ci\<in>set (components s). l_state ci = COMPONENT_STATE_REGISTERED"
    and "deps_before E [] (addrs s)"
  shows "if \<not> enabled_deps_ok E s then COMP_initAll E s = Fault Emergency
    else let es = filter (comp_on E (bools s)) (addrs s) in deps_before E [] es \<and>
      (\<exists>s'. COMP_initAll E s = Ok (True, s') \<and> comp_log s' = comp_log s @ construct_calls E es
          \<and> components s' = map (mark_init E (bools s)) (components s)
       \<or> (\<exists>xs a ys. es = xs @ a # ys \<and> COMP_initAll E s = Ok (False, s')
          \<and> \<not> answer E (comp_log s @ construct_calls E xs) (Call_onConstruct a)
          \<and> comp_log s' = comp_log s @ construct_calls E (xs @ [a]) @ destruct_calls E (rev xs)
          \<and> components s' = components s))"
proof (cases "enabled_deps_ok E s")
  case False
  then show ?thesis
    by (auto simp: enabled_deps_ok_def COMP_initAll_def checkEnabledDependencies_def split: if_splits)
next
  case True
  then have "deps_before E [] (filter (comp_on E (bools s)) (addrs s))"
    using deps_before_filter [OF assms(2), of "comp_on E (bools s)"] by (auto simp: enabled_deps_ok_iff)
  moreover obtain b s' where "COMP_initAll E s = Ok (b, s')" "init_result E 0 s b s'"
    using init_loop_effect [of 0 s E] assms(1) True by (auto simp: COMP_initAll_def enabled_deps_ok_def)
  ultimately show ?thesis
    using True by (cases b) (auto simp: init_result_def enabled_of_def Let_def simp del: call_lists)
qed

theorem init_in_order_with_rollback_witness:
  "\<exists>s'. COMP_initAll (sample_env (Call_onConstruct 1)) (sample_mgr COMPONENT_STATE_REGISTERED Thread_none [2, 1, 0]) =
      Ok (False, s')
    \<and> components s' = components (sample_mgr COMPONENT_STATE_REGISTERED Thread_none [2, 1, 0])"
proof -
  let ?E = "sample_env (Call_onConstruct 1)" and ?s = "sample_mgr COMPONENT_STATE_REGISTERED Thread_none [2, 1, 0]"
  have pre: "\<forall>ci\<in>set (components ?s). l_state ci = COMPONENT_STATE_REGISTERED" "deps_before ?E [] (addrs ?s)"
    by (simp_all add: sample_mgr_def deps_def descr_def sample_env_def sample_component_def)
  have "enabled_deps_ok ?E ?s"
    by (simp add: enabled_deps_ok_iff comp_on_def sample_mgr_def deps_def descr_def sample_env_def sample_component_def)
  moreover have "map_sum (\<lambda>e. e) fst (COMP_initAll ?E ?s) = Ok False" by code_simp
  ultimately show ?thesis using init_in_order_with_rollback [OF pre] by (auto simp: Let_def)
qed

text \<open>\<open>COMP_startAll\<close> starts the initialised components whose start flag is not off, in the order
  of the list; when one cannot be started, the ones started before are asked to stop in the
  opposite order, and only components that refuse to stop remain started.\<close>

theorem start_in_order_with_rollback:
  assumes "managed_ok E s" and "none_started s" and "threads_prompt E" and "message_fits E s"
  shows "\<exists>s'. COMP_startAll E s = Ok (True, s')
        \<and> components s' = map (mark_start E (bools s)) (components s)
        \<and> comp_log s' = comp_log s @ start_calls E (startable E (bools s) (components s))
     \<or> (\<exists>k xs a c ys rest. COMP_startAll E s = Ok (False, s')
        \<and> startable E (bools s) (components s) = xs @ a # ys \<and> start_call E a = [c]
        \<and> \<not> answer E (comp_log s @ start_calls E xs) c
        \<and> comp_log s' = comp_log s @ start_calls E xs @ [c] @ concat (map (stop_calls E False) (rev xs)) @ rest
        \<and> gave_up E k s'
        \<and> (\<forall>ci\<in>set (drop k (components s')). l_state ci \<noteq> COMPONENT_STATE_STARTED))"
  using assms by (cases rule: COMP_startAll_cases) blast+

theorem start_in_order_with_rollback_witness:
  "\<exists>s' k xs rest. COMP_startAll (sample_env (Call_pthread_create 0))
      (sample_mgr COMPONENT_STATE_INITIALIZED Thread_none [2, 1, 0]) = Ok (False, s')
    \<and> comp_log s' = start_calls (sample_env (Call_pthread_create 0)) xs @ [Call_pthread_create 0]
        @ concat (map (stop_calls (sample_env (Call_pthread_create 0)) False) (rev xs)) @ rest
    \<and> gave_up (sample_env (Call_pthread_create 0)) k s'"
proof -
  let ?E = "sample_env (Call_pthread_create 0)" and ?s = "sample_mgr COMPONENT_STATE_INITIALIZED Thread_none [2, 1, 0]"
  have "managed_ok ?E ?s"
    by (simp add: managed_ok_def sample_mgr_def joinable_def own_thread_def sample_env_def descr_def sample_component_def)
  moreover have "none_started ?s" by (simp add: none_started_def sample_mgr_def)
  moreover have "threads_prompt ?E" by (simp add: threads_prompt_def sample_env_def)
  moreover have "message_fits ?E ?s"
    by (simp add: message_fits_def sample_mgr_def sample_env_def descr_def sample_component_def)
  moreover have "map_sum (\<lambda>e. e) fst (COMP_startAll ?E ?s) = Ok False" by code_simp
  ultimately show ?thesis
    using start_in_order_with_rollback [of ?E ?s] by (auto simp: sample_env_def sample_mgr_def)
qed

text \<open>\<open>COMP_stopAll\<close> returns: it asks the started components to stop in the opposite order, repeats
  that as long as one more component has stopped, and gives up only when every component that is
  still started has refused in the last round. Nothing else changes state.\<close>

theorem stop_repeats_until_refused:
  assumes "all_thread_ok E s" and "threads_prompt E" and "message_fits E s"
  shows "\<exists>t rest. COMP_stopAll E s = Ok t \<and> list_all2 stopped_link (components s) (components t)
    \<and> comp_log t = comp_log s @ ask_stop E False s (started_before (length (components s)) s) @ rest
    \<and> gave_up E (length (components s)) t"
proof -
  obtain t rest where "COMP_stopAll E s = Ok t" "stops_to E (length (components s)) s t"
    "comp_log t = comp_log s @ ask_stop E False s (started_before (length (components s)) s) @ rest"
    "gave_up E (length (components s)) t"
    using stopUntil_returns [OF le_refl assms] unfolding COMP_stopAll_def by blast
  then show ?thesis by (auto simp: stops_to_def list_all2_conv_all_nth)
qed

theorem stop_repeats_until_refused_witness:
  "\<exists>t rest. COMP_stopAll (sample_env (Call_onStart 0)) (sample_mgr COMPONENT_STATE_STARTED Thread_created [2, 1, 0]) = Ok t
    \<and> comp_log t = [Call_pthread_cancel 0, Call_pthread_timedjoin 0, Call_pthread_cancel 1,
         Call_pthread_timedjoin 1, Call_pthread_cancel 2, Call_pthread_timedjoin 2] @ rest"
proof -
  let ?E = "sample_env (Call_onStart 0)" and ?s = "sample_mgr COMPONENT_STATE_STARTED Thread_created [2, 1, 0]"
  have "all_thread_ok ?E ?s"
    by (auto simp: all_thread_ok_def thread_ok_def sample_mgr_def nth_Cons split: nat.splits)
  moreover have "threads_prompt ?E" by (simp add: threads_prompt_def sample_env_def)
  moreover have "message_fits ?E ?s"
    by (simp add: message_fits_def sample_mgr_def sample_env_def descr_def sample_component_def)
  moreover have "ask_stop ?E False ?s (started_before (length (components ?s)) ?s) =
      [Call_pthread_cancel 0, Call_pthread_timedjoin 0, Call_pthread_cancel 1,
         Call_pthread_timedjoin 1, Call_pthread_cancel 2, Call_pthread_timedjoin 2]"
    by code_simp
  moreover have "comp_log ?s = []" by (simp add: sample_mgr_def)
  ultimately show ?thesis using stop_repeats_until_refused [of ?E ?s] by (metis append_Nil)
qed

text \<open>In a build with \<open>pthread_timedjoin_np\<close> a component stopped through its thread cannot be
  stopped in a deferred attempt: either the thread still does not end, or it is joined a second
  time after it has been joined.\<close>

theorem deferred_stop_joins_twice:
  assumes "has_timedjoin E" and "joinable E (l_comp (components s ! i))" and "is_started i s"
    and "l_thread (components s ! i) = Thread_created" and "i < length (components s)"
  shows "stop_comp E i True s =
    (if answer E (comp_log s) (Call_pthread_timedjoin (l_comp (components s ! i)))
     then Fault Bad_thread
     else Ok (s\<lparr>comp_log := comp_log s @ [Call_pthread_timedjoin (l_comp (components s ! i))]\<rparr>))"
  using assms
  by (simp add: stop_comp_def Let_def is_started_def joinable_def stopThreaded_def tryJoin_def
      needs_thread_def call_def pthread_join_def set_thread_def)

theorem deferred_stop_joins_twice_witness:
  "stop_comp (sample_env (Call_onStart 0)) 1 True
     (sample_mgr COMPONENT_STATE_STARTED Thread_created [2, 1, 0]) = Fault Bad_thread"
  by (subst deferred_stop_joins_twice)
    (simp_all add: sample_env_def sample_mgr_def is_started_def joinable_def descr_def sample_component_def)

end
