(* ===== verification/Util_Cfg.thy ===== *)
theory Util_Cfg
  imports Util_Cstring Util_Endec
begin

text \<open>
  Configuration files (\<open>util/cfgfile.c\<close>): the table of sections and options, the parser of
  configuration files, default values, setting and writing options. The variables the options point
  to are a store of typed variables, strings being arrays of bytes; pointers into the mapped file are
  offsets. \<open>strtod\<close> and the \<open>%f\<close> conversion of \<open>fprintf\<close> are parameters. Log messages are left out,
  and with them the options that only switch warnings on.
\<close>

section \<open>Strings\<close>

definition to_lower :: "u8 \<Rightarrow> u8" where
  "to_lower c = (if 65 \<le> c \<and> c \<le> 90 then c + 32 else c)"

text \<open>\<open>strcasecmp\<close> on strings says equal.\<close>

definition strcaseeq :: "u8 list \<Rightarrow> u8 list \<Rightarrow> bool" where
  "strcaseeq s t \<longleftrightarrow> map to_lower s = map to_lower t"

text \<open>A string whose length is given; \<open>str2\<close> are the bytes from its start on.\<close>

definition isSame :: "u8 list \<Rightarrow> u8 list \<Rightarrow> size_t \<Rightarrow> bool" where
  "isSame str1 str2 str2len \<longleftrightarrow>
    of_nat (length str1) = str2len \<and> strcaseeq str1 (take (unat str2len) str2)"

text \<open>\<open>strncpy(dst, src, n)\<close> for a string \<open>src\<close>, \<open>None\<close> when it writes behind the array.\<close>

definition strncpy :: "u8 list \<Rightarrow> u8 list \<Rightarrow> nat \<Rightarrow> u8 list option" where
  "strncpy dst src n =
    (if n \<le> length dst then Some (take n (src @ replicate n 0) @ drop n dst) else None)"

text \<open>The digits of \<open>strtoul\<close> in a base up to 16.\<close>

definition digit_of :: "u8 \<Rightarrow> nat" where
  "digit_of c = (if 48 \<le> c \<and> c \<le> 57 then unat c - 48
     else if 97 \<le> c \<and> c \<le> 102 then unat c - 87
     else if 65 \<le> c \<and> c \<le> 70 then unat c - 55 else 16)"

definition number_value :: "nat \<Rightarrow> u8 list \<Rightarrow> nat" where
  "number_value base ds = foldl (\<lambda>v d. base * v + digit_of d) 0 ds"

text \<open>The value of \<open>strtoul(s, &end, 0)\<close>.\<close>

definition strtoul0 :: "u8 list \<Rightarrow> u64" where
  "strtoul0 s =
    (let t = dropWhile is_space s;
         neg = (t \<noteq> [] \<and> hd t = 45);
         t = (if t \<noteq> [] \<and> (hd t = 45 \<or> hd t = 43) then tl t else t);
         hex = (2 < length t \<and> hd t = 48 \<and> (t ! 1 = 120 \<or> t ! 1 = 88) \<and> digit_of (t ! 2) < 16);
         base = (if hex then 16 else if t \<noteq> [] \<and> hd t = 48 then 8 else 10);
         v = number_value base (takeWhile (\<lambda>c. digit_of c < base) (if hex then drop 2 t else t))
     in if v \<ge> 2 ^ 64 then - 1 else if neg then - of_nat v else of_nat v)"

section \<open>Options and sections\<close>

datatype CFG_VALUE_TYPE = CFG_VALUE_TYPE_STRING | CFG_VALUE_TYPE_INT | CFG_VALUE_TYPE_PORT
  | CFG_VALUE_TYPE_BOOL | CFG_VALUE_TYPE_DOUBLE

text \<open>A default value, by the member of the union that is set; a string may be NULL.\<close>

datatype CFG_Value = Def_string "u8 list option" | Def_integer u32 | Def_port u64 | Def_boolean bool
  | Def_dbl ieee_double

text \<open>The variables: \<open>opt_var\<close> and \<open>opt_given\<close> are names of variables.\<close>

datatype cfg_var = Var_string "u8 list" | Var_integer u32 | Var_port u64 | Var_boolean bool
  | Var_dbl ieee_double

record cfg_store =
  cfg_vars :: "nat \<Rightarrow> cfg_var"
  cfg_given :: "nat \<Rightarrow> bool"

record CFG_Option =
  opt_name :: "u8 list"
  opt_type :: CFG_VALUE_TYPE
  opt_var :: nat
  opt_given :: "nat option"
  opt_maxlen :: size_t
  opt_def :: CFG_Value
  defaultEmpty :: bool

record CFG_Section =
  sect_name :: "u8 list"
  sect_fix :: "(cfg_store \<Rightarrow> fault + cfg_store) option"
  sect_check :: "(cfg_store \<Rightarrow> fault + bool) option"
  sect_options :: "CFG_Option list"

fun var_type :: "cfg_var \<Rightarrow> CFG_VALUE_TYPE" where
  "var_type (Var_string s) = CFG_VALUE_TYPE_STRING"
| "var_type (Var_integer i) = CFG_VALUE_TYPE_INT"
| "var_type (Var_port p) = CFG_VALUE_TYPE_PORT"
| "var_type (Var_boolean b) = CFG_VALUE_TYPE_BOOL"
| "var_type (Var_dbl d) = CFG_VALUE_TYPE_DOUBLE"

text \<open>Writing through \<open>opt->var\<close> a value of type \<open>opt->type\<close>.\<close>

definition assign_var :: "CFG_Option \<Rightarrow> cfg_var \<Rightarrow> cfg_store \<Rightarrow> fault + cfg_store" where
  "assign_var opt v st =
    (if var_type v = opt_type opt \<and> var_type (cfg_vars st (opt_var opt)) = opt_type opt
     then Ok (st\<lparr>cfg_vars := (cfg_vars st)(opt_var opt := v)\<rparr>) else Fault Bad_type)"

definition string_var :: "CFG_Option \<Rightarrow> cfg_store \<Rightarrow> fault + u8 list" where
  "string_var opt st = (case cfg_vars st (opt_var opt) of Var_string a \<Rightarrow> Ok a | _ \<Rightarrow> Fault Bad_type)"

definition set_given :: "CFG_Option \<Rightarrow> bool \<Rightarrow> cfg_store \<Rightarrow> cfg_store" where
  "set_given opt b st =
    (case opt_given opt of None \<Rightarrow> st | Some g \<Rightarrow> st\<lparr>cfg_given := (cfg_given st)(g := b)\<rparr>)"

text \<open>\<open>strncpy\<close> into a string variable.\<close>

definition strncpy_var :: "CFG_Option \<Rightarrow> u8 list \<Rightarrow> cfg_store \<Rightarrow> fault + cfg_store" where
  "strncpy_var opt s st =
    bind_ok (string_var opt st) (\<lambda>a. case strncpy a s (unat (opt_maxlen opt)) of
        None \<Rightarrow> Fault Out_of_bounds
      | Some a \<Rightarrow> assign_var opt (Var_string a) st)"

definition assignOptionFromDefault :: "CFG_Option \<Rightarrow> cfg_store \<Rightarrow> fault + cfg_store" where
  "assignOptionFromDefault opt st =
    bind_ok (case (opt_type opt, opt_def opt) of
        (CFG_VALUE_TYPE_BOOL, Def_boolean b) \<Rightarrow> assign_var opt (Var_boolean b) st
      | (CFG_VALUE_TYPE_INT, Def_integer i) \<Rightarrow> assign_var opt (Var_integer i) st
      | (CFG_VALUE_TYPE_PORT, Def_port p) \<Rightarrow> assign_var opt (Var_port p) st
      | (CFG_VALUE_TYPE_STRING, Def_string (Some s)) \<Rightarrow> strncpy_var opt s st
      | (CFG_VALUE_TYPE_STRING, Def_string None) \<Rightarrow>
          bind_ok (string_var opt st) (\<lambda>a. if a = [] then Fault Out_of_bounds
            else assign_var opt (Var_string (a[0 := 0])) st)
      | (CFG_VALUE_TYPE_DOUBLE, Def_dbl d) \<Rightarrow> assign_var opt (Var_dbl d) st
      | _ \<Rightarrow> Fault Bad_type)
    (\<lambda>st. Ok (set_given opt False st))"

section \<open>Registration and defaults\<close>

definition CFG_registerSection :: "CFG_Section \<Rightarrow> CFG_Section list \<Rightarrow> CFG_Section list" where
  "CFG_registerSection sect ss = ss @ [sect]"

definition CFG_unregisterAll :: "CFG_Section list \<Rightarrow> CFG_Section list" where
  "CFG_unregisterAll ss = []"

fun load_options :: "CFG_Option list \<Rightarrow> cfg_store \<Rightarrow> fault + cfg_store" where
  "load_options [] st = Ok st"
| "load_options (opt # os) st = bind_ok (assignOptionFromDefault opt st) (load_options os)"

fun CFG_loadDefaults :: "CFG_Section list \<Rightarrow> cfg_store \<Rightarrow> fault + cfg_store" where
  "CFG_loadDefaults [] st = Ok st"
| "CFG_loadDefaults (s # ss) st = bind_ok (load_options (sect_options s) st) (CFG_loadDefaults ss)"

text \<open>The first option of that name in the sections of that name; the section and the key are the bytes
  from their start on with their lengths.\<close>

fun getOption :: "CFG_Section list \<Rightarrow> u8 list \<Rightarrow> size_t \<Rightarrow> u8 list \<Rightarrow> size_t \<Rightarrow> CFG_Option option" where
  "getOption [] sec sectionLen key keyLen = None"
| "getOption (sect # ss) sec sectionLen key keyLen =
    (if \<not> isSame (sect_name sect) sec sectionLen then getOption ss sec sectionLen key keyLen
     else case List.find (\<lambda>opt. isSame (opt_name opt) key keyLen) (sect_options sect) of
         Some opt \<Rightarrow> Some opt
       | None \<Rightarrow> getOption ss sec sectionLen key keyLen)"

section \<open>Values\<close>

text \<open>The common part of \<open>parseInt\<close> and \<open>parseDouble\<close>: the value copied into a buffer of \<open>cap\<close> bytes as a
  string; \<open>None\<close> for the message that a number is expected.\<close>

definition number_string :: "nat \<Rightarrow> u8 list \<Rightarrow> size_t \<Rightarrow> fault + u8 list option" where
  "number_string cap val valLen =
    (if valLen + 1 > of_nat cap \<or> valLen = 0 then Ok None
     else if unat valLen < cap \<and> unat valLen \<le> length val
     then Ok (Some (takeWhile (\<lambda>c. c \<noteq> 0) (take (unat valLen) val)))
     else Fault Out_of_bounds)"

definition parseInt :: "u8 list \<Rightarrow> size_t \<Rightarrow> fault + u32 option" where
  "parseInt val valLen =
    bind_ok (number_string 20 val valLen) (\<lambda>s. Ok (map_option (\<lambda>s. ucast (strtoul0 s)) s))"

definition parsePort :: "u8 list \<Rightarrow> size_t \<Rightarrow> fault + u64 option" where
  "parsePort val valLen =
    bind_ok (parseInt val valLen) (\<lambda>r. Ok (case r of
        None \<Rightarrow> None
      | Some n \<Rightarrow> if n > 0xffff then None else Some (ucast n)))"

definition str_true :: "u8 list" where "str_true = [116, 114, 117, 101]"
definition str_false :: "u8 list" where "str_false = [102, 97, 108, 115, 101]"

text \<open>The message about any other value prints it: with a length that is not that of the value (a
  negative \<open>int\<close>) it reads on behind the file.\<close>

definition parseBool :: "u8 list \<Rightarrow> size_t \<Rightarrow> fault + bool option" where
  "parseBool val valLen =
    (if isSame str_true val valLen \<or> isSame [49] val valLen then Ok (Some True)
     else if isSame str_false val valLen \<or> isSame [48] val valLen then Ok (Some False)
     else if unat valLen \<le> length val then Ok None else Fault Out_of_bounds)"

text \<open>The array is passed and returned.\<close>

definition parseString :: "u8 list \<Rightarrow> size_t \<Rightarrow> u8 list \<Rightarrow> size_t \<Rightarrow> fault + u8 list option" where
  "parseString val valLen str sz =
    (if valLen > sz - 1 then Ok None
     else if unat valLen < length str \<and> unat valLen \<le> length val
     then Ok (Some (take (unat valLen) val @ [0] @ drop (unat valLen + 1) str))
     else Fault Out_of_bounds)"

definition parseDouble :: "(u8 list \<Rightarrow> ieee_double) \<Rightarrow> u8 list \<Rightarrow> size_t \<Rightarrow> fault + ieee_double option" where
  "parseDouble strtod val valLen =
    bind_ok (number_string 60 val valLen) (\<lambda>s. Ok (map_option strtod s))"

text \<open>A parsed value is assigned, and whether there was one is the result.\<close>

definition assign_parsed :: "CFG_Option \<Rightarrow> ('a \<Rightarrow> cfg_var) \<Rightarrow> cfg_store \<Rightarrow> fault + 'a option \<Rightarrow> fault + (bool \<times> cfg_store)" where
  "assign_parsed opt con st r =
    bind_ok r (\<lambda>r. case r of
        None \<Rightarrow> Ok (False, st)
      | Some v \<Rightarrow> bind_ok (assign_var opt (con v) st) (\<lambda>st. Ok (True, st)))"

definition assignOptionFromString ::
    "(u8 list \<Rightarrow> ieee_double) \<Rightarrow> CFG_Option \<Rightarrow> u8 list \<Rightarrow> size_t \<Rightarrow> cfg_store \<Rightarrow> fault + (bool \<times> cfg_store)" where
  "assignOptionFromString strtod opt val valLen st =
    (case opt_type opt of
       CFG_VALUE_TYPE_STRING \<Rightarrow> bind_ok (string_var opt st)
         (\<lambda>a. assign_parsed opt Var_string st (parseString val valLen a (opt_maxlen opt)))
     | CFG_VALUE_TYPE_INT \<Rightarrow> assign_parsed opt Var_integer st (parseInt val valLen)
     | CFG_VALUE_TYPE_BOOL \<Rightarrow> assign_parsed opt Var_boolean st (parseBool val valLen)
     | CFG_VALUE_TYPE_PORT \<Rightarrow> assign_parsed opt Var_port st (parsePort val valLen)
     | CFG_VALUE_TYPE_DOUBLE \<Rightarrow> assign_parsed opt Var_dbl st (parseDouble strtod val valLen))"

end
