(* ===== verification/Util_Cfg_Read.thy ===== *)
theory Util_Cfg_Read
  imports Util_Cfg
begin

text \<open>
  The parser of configuration files (\<open>parseSection\<close>, \<open>skipComment\<close>, \<open>parseOption\<close> and \<open>readCfg\<close> of
  \<open>util/cfgfile.c\<close>), and reading files and directories.
\<close>

section \<open>Parser state\<close>

datatype SECTION_STATE = SECTION_STATE_NOSECTION | SECTION_STATE_UNKNOWN | SECTION_STATE_VALID
  | SECTION_STATE_UNRECOVERABLE

text \<open>\<open>bufferInput\<close> and \<open>sectionName\<close> are offsets in the file.\<close>

record cfg_parser =
  bufferInput :: nat
  bufferSize :: nat
  bufferLine :: u64
  sectionState :: SECTION_STATE
  sectionName :: nat
  sectionNameLen :: size_t

text \<open>\<open>memchr(bufferInput, c, bufferSize)\<close>, and the end of the line: a newline or the last byte.\<close>

definition cfg_find :: "u8 list \<Rightarrow> cfg_parser \<Rightarrow> u8 \<Rightarrow> nat option" where
  "cfg_find inp p c = map_option ((+) (bufferInput p)) (memchr c (take (bufferSize p) (drop (bufferInput p) inp)))"

definition cfg_line_end :: "u8 list \<Rightarrow> cfg_parser \<Rightarrow> nat" where
  "cfg_line_end inp p = (case cfg_find inp p 10 of Some n \<Rightarrow> n | None \<Rightarrow> bufferInput p + bufferSize p - 1)"

text \<open>Advancing to the byte after the end of the line.\<close>

definition cfg_advance :: "nat \<Rightarrow> cfg_parser \<Rightarrow> cfg_parser" where
  "cfg_advance n p = p\<lparr>bufferSize := bufferSize p - (n + 1 - bufferInput p), bufferInput := n + 1\<rparr>"

definition next_line :: "cfg_parser \<Rightarrow> cfg_parser" where
  "next_line p = p\<lparr>bufferLine := bufferLine p + 1\<rparr>"

definition parseSection :: "CFG_Section list \<Rightarrow> u8 list \<Rightarrow> cfg_parser \<Rightarrow> SECTION_STATE \<times> cfg_parser" where
  "parseSection ss inp p =
    (let n = cfg_line_end inp p
     in case cfg_find inp p 93 of
          None \<Rightarrow> (SECTION_STATE_UNRECOVERABLE, p)
        | Some c \<Rightarrow>
            if n < c then (SECTION_STATE_UNRECOVERABLE, p)
            else if c + 1 \<noteq> n \<and> (c + 2 \<noteq> n \<or> inp ! (n - 1) \<noteq> 13) then (SECTION_STATE_UNRECOVERABLE, p)
            else let len = of_nat (c - bufferInput p - 1);
                     buf = bufferInput p + 1;
                     p = next_line (cfg_advance n p)
                 in if \<not> list_ex (\<lambda>s. isSame (sect_name s) (drop buf inp) len) ss
                    then (SECTION_STATE_UNKNOWN, p)
                    else (SECTION_STATE_VALID, p\<lparr>sectionName := buf, sectionNameLen := len\<rparr>))"

definition skipComment :: "u8 list \<Rightarrow> cfg_parser \<Rightarrow> cfg_parser" where
  "skipComment inp p = next_line (cfg_advance (cfg_line_end inp p) p)"

section \<open>Option lines\<close>

text \<open>One past the end of the key, without trailing white space, for a key ending before \<open>e\<close>.\<close>

fun key_end :: "u8 list \<Rightarrow> nat \<Rightarrow> nat \<Rightarrow> nat" where
  "key_end inp key 0 = 0"
| "key_end inp key (Suc l) = (if l > key \<and> is_space (inp ! l) then key_end inp key l else Suc l)"

text \<open>The start of the value, behind white space before \<open>n\<close>.\<close>

function value_start :: "u8 list \<Rightarrow> nat \<Rightarrow> nat \<Rightarrow> nat" where
  "value_start inp n val = (if val < n \<and> is_space (inp ! val) then value_start inp n (val + 1) else val)"
  by pat_completeness auto
termination by (relation "measure (\<lambda>(inp, n, val). n - val)") auto

declare value_start.simps [simp del]

text \<open>The length of the value without a carriage return at its end, by pointer arithmetic modulo the
  size of the address space; \<open>None\<close> when the byte looked at is outside the file.\<close>

definition value_length :: "u8 list \<Rightarrow> nat \<Rightarrow> nat \<Rightarrow> size_t option" where
  "value_length inp n val =
    (let valLen = of_nat n - of_nat val :: size_t;
         lst = unat (of_nat val + (valLen - 1))
     in if lst < length inp then Some (if inp ! lst = 13 then valLen - 1 else valLen) else None)"

text \<open>Assigning the value of an option line: \<open>None\<close> stands for the failure of the line.\<close>

definition assign_line :: "(u8 list \<Rightarrow> ieee_double) \<Rightarrow> bool \<Rightarrow> CFG_Option \<Rightarrow> u8 list \<Rightarrow> size_t \<Rightarrow> cfg_store \<Rightarrow>
    fault + (bool \<times> cfg_store)" where
  "assign_line strtod optOnErrorUseDefault opt val valLen st =
    (if valLen = 0 then bind_ok (assignOptionFromDefault opt st) (\<lambda>st. Ok (True, st))
     else bind_ok (assignOptionFromString strtod opt val valLen st) (\<lambda>(ok, st).
       if \<not> ok
       then if optOnErrorUseDefault then bind_ok (assignOptionFromDefault opt st) (\<lambda>st. Ok (True, st))
            else Ok (False, st)
       else Ok (True, set_given opt True st)))"

definition parseOption :: "(u8 list \<Rightarrow> ieee_double) \<Rightarrow> bool \<Rightarrow> CFG_Section list \<Rightarrow> u8 list \<Rightarrow> cfg_parser \<Rightarrow>
    cfg_store \<Rightarrow> fault + (bool \<times> cfg_parser \<times> cfg_store)" where
  "parseOption strtod optOnErrorUseDefault ss inp p st =
    (let e = cfg_find inp p 61;
         n = cfg_line_end inp p;
         key = bufferInput p;
         p = cfg_advance n p
     in if (case e of None \<Rightarrow> False | Some e \<Rightarrow> n < e) then Ok (False, next_line p, st)
        else if sectionState p \<noteq> SECTION_STATE_VALID then Ok (True, next_line p, st)
        else case e of
            None \<Rightarrow> Fault Out_of_bounds
          | Some e \<Rightarrow>
              let keyLen = of_nat (key_end inp key e - key);
                  val = value_start inp n (e + 1)
              in case value_length inp n val of
                   None \<Rightarrow> Fault Out_of_bounds
                 | Some valLen \<Rightarrow>
                     (case getOption ss (drop (sectionName p) inp) (sectionNameLen p) (drop key inp) keyLen of
                        None \<Rightarrow> Ok (True, next_line p, st)
                      | Some opt \<Rightarrow>
                          bind_ok (assign_line strtod optOnErrorUseDefault opt (drop val inp) valLen st)
                            (\<lambda>(ok, st). Ok (ok, if ok then next_line p else p, st))))"

section \<open>Files\<close>

lemma parseSection_size:
  "parseSection ss inp p = (s, q) \<Longrightarrow> s \<noteq> SECTION_STATE_UNRECOVERABLE \<Longrightarrow> bufferSize p \<noteq> 0 \<Longrightarrow>
    bufferSize q < bufferSize p"
  by (auto simp: parseSection_def Let_def next_line_def cfg_advance_def cfg_find_def cfg_line_end_def
      split: option.splits if_splits dest: memchr_Some_less)

lemma skipComment_size: "bufferSize p \<noteq> 0 \<Longrightarrow> bufferSize (skipComment inp p) < bufferSize p"
  by (auto simp: skipComment_def next_line_def cfg_advance_def cfg_find_def cfg_line_end_def
      split: option.splits dest: memchr_Some_less)

lemma parseOption_size:
  assumes "parseOption strtod d ss inp p st = Ok (ok, q, st')" and "bufferSize p \<noteq> 0"
  shows "bufferSize q < bufferSize p"
proof -
  have "bufferSize q = bufferSize (cfg_advance (cfg_line_end inp p) p)"
    using assms(1) by (auto simp: parseOption_def Let_def next_line_def bind_ok_eq_Inr split: option.splits if_splits)
  then show ?thesis using assms(2)
    by (auto simp: cfg_advance_def cfg_find_def cfg_line_end_def split: option.splits dest: memchr_Some_less)
qed

text \<open>The main loop; the result of \<open>parseOption\<close> is ignored.\<close>

function read_loop :: "(u8 list \<Rightarrow> ieee_double) \<Rightarrow> bool \<Rightarrow> CFG_Section list \<Rightarrow> u8 list \<Rightarrow> cfg_parser \<Rightarrow>
    cfg_store \<Rightarrow> fault + (bool \<times> cfg_parser \<times> cfg_store)" where
  "read_loop strtod d ss inp p st =
    (if bufferSize p = 0 then Ok (True, p, st)
     else let c = inp ! bufferInput p
     in if c = 91
        then let (s, q) = parseSection ss inp p
             in if s = SECTION_STATE_UNRECOVERABLE then Ok (False, q\<lparr>sectionState := s\<rparr>, st)
                else read_loop strtod d ss inp (q\<lparr>sectionState := s\<rparr>) st
        else if c = 13
        then read_loop strtod d ss inp (p\<lparr>bufferInput := bufferInput p + 1, bufferSize := bufferSize p - 1\<rparr>) st
        else if c = 10
        then read_loop strtod d ss inp
               (next_line (p\<lparr>bufferInput := bufferInput p + 1, bufferSize := bufferSize p - 1\<rparr>)) st
        else if c = 59 \<or> c = 35
        then read_loop strtod d ss inp (skipComment inp p) st
        else case parseOption strtod d ss inp p st of
            Inl f \<Rightarrow> Inl f
          | Inr (ok, q, st) \<Rightarrow> read_loop strtod d ss inp q st)"
  by pat_completeness auto
termination
  by (relation "measure (\<lambda>(strtod, d, ss, inp, p, st). bufferSize p)")
    (auto simp: next_line_def skipComment_size dest: parseSection_size [OF sym] parseOption_size)

declare read_loop.simps [simp del]

definition readCfg :: "(u8 list \<Rightarrow> ieee_double) \<Rightarrow> bool \<Rightarrow> CFG_Section list \<Rightarrow> u8 list \<Rightarrow> cfg_parser \<Rightarrow>
    cfg_store \<Rightarrow> fault + (bool \<times> cfg_parser \<times> cfg_store)" where
  "readCfg strtod d ss inp p st = read_loop strtod d ss inp (p\<lparr>sectionState := SECTION_STATE_UNKNOWN\<rparr>) st"

text \<open>The callbacks of all sections.\<close>

fun fix_all :: "CFG_Section list \<Rightarrow> cfg_store \<Rightarrow> fault + cfg_store" where
  "fix_all [] st = Ok st"
| "fix_all (s # ss) st =
    bind_ok (case sect_fix s of None \<Rightarrow> Ok st | Some f \<Rightarrow> f st) (fix_all ss)"

fun CFG_check :: "CFG_Section list \<Rightarrow> cfg_store \<Rightarrow> fault + bool" where
  "CFG_check [] st = Ok True"
| "CFG_check (s # ss) st =
    bind_ok (case sect_check s of None \<Rightarrow> Ok True | Some f \<Rightarrow> f st)
      (\<lambda>ok. if ok then CFG_check ss st else Ok False)"

text \<open>\<open>inp\<close> is what mapping the file gives, \<open>None\<close> for a failure.\<close>

definition CFG_readFile :: "(u8 list \<Rightarrow> ieee_double) \<Rightarrow> bool \<Rightarrow> CFG_Section list \<Rightarrow> u8 list option \<Rightarrow> cfg_parser \<Rightarrow>
    cfg_store \<Rightarrow> fault + (bool \<times> cfg_parser \<times> cfg_store)" where
  "CFG_readFile strtod onErrorUseDefault ss inp p st =
    (case inp of
       None \<Rightarrow> Ok (False, p, st)
     | Some inp \<Rightarrow>
         bind_ok (readCfg strtod onErrorUseDefault ss inp
             (p\<lparr>bufferInput := 0, bufferSize := length inp, bufferLine := 1\<rparr>) st)
           (\<lambda>(success, p, st).
             if success then bind_ok (fix_all ss st) (\<lambda>st. Ok (True, p, st)) else Ok (False, p, st)))"

section \<open>Directories\<close>

definition dot_conf :: "u8 list" where "dot_conf = [46, 99, 111, 110, 102]"

text \<open>An entry is whether it is a file or a link, and its name.\<close>

definition filterDirectory :: "bool \<times> u8 list \<Rightarrow> bool" where
  "filterDirectory ent = (case ent of (is_file, name) \<Rightarrow>
     is_file \<and> name \<noteq> [] \<and> is_digit (hd name) \<and> 5 \<le> length name \<and> drop (length name - 5) name = dot_conf)"

definition compareDirectory :: "u8 list \<Rightarrow> u8 list \<Rightarrow> int" where
  "compareDirectory a b =
    (let idx_a = fst (strtoul10 a); idx_b = fst (strtoul10 b)
     in if idx_a < idx_b then - 1 else if idx_a = idx_b then 0 else 1)"

definition PATH_MAX :: nat where "PATH_MAX = 4096"

text \<open>Reading the files of the names that \<open>scandir\<close> has filtered and sorted; \<open>mmap_open\<close> gives the
  contents of a file. A name of exactly the remaining length leaves the file name unterminated.\<close>

fun read_files :: "(u8 list \<Rightarrow> ieee_double) \<Rightarrow> bool \<Rightarrow> bool \<Rightarrow> CFG_Section list \<Rightarrow> (u8 list \<Rightarrow> u8 list option) \<Rightarrow>
    u8 list \<Rightarrow> u8 list list \<Rightarrow> cfg_parser \<Rightarrow> cfg_store \<Rightarrow> fault + (bool \<times> cfg_parser \<times> cfg_store)" where
  "read_files strtod d stopOnFirstError ss mmap_open path [] p st = Ok (True, p, st)"
| "read_files strtod d stopOnFirstError ss mmap_open path (fname # fs) p st =
    (let len = PATH_MAX - (length path + 1)
     in if length fname > len
        then if stopOnFirstError then Ok (False, p, st)
             else read_files strtod d stopOnFirstError ss mmap_open path fs p st
        else if length fname = len then Fault Out_of_bounds
        else bind_ok (CFG_readFile strtod d ss (mmap_open (path @ [47] @ fname)) p st) (\<lambda>(ok, p, st).
          if \<not> ok \<and> stopOnFirstError then Ok (False, p, st)
          else read_files strtod d stopOnFirstError ss mmap_open path fs p st))"

definition CFG_readDirectory :: "(u8 list \<Rightarrow> ieee_double) \<Rightarrow> bool \<Rightarrow> bool \<Rightarrow> CFG_Section list \<Rightarrow>
    (u8 list \<Rightarrow> u8 list option) \<Rightarrow> u8 list \<Rightarrow> u8 list list option \<Rightarrow> cfg_parser \<Rightarrow> cfg_store \<Rightarrow>
    fault + (bool \<times> cfg_parser \<times> cfg_store)" where
  "CFG_readDirectory strtod onErrorUseDefault stopOnFirstError ss mmap_open path namelist p st =
    (case namelist of
       None \<Rightarrow> Ok (False, p, st)
     | Some names \<Rightarrow>
         if length path > PATH_MAX - 1 then Ok (False, p, st)
         else read_files strtod onErrorUseDefault stopOnFirstError ss mmap_open path names p st)"

end
