(* ===== verification/Util_Serial_Eth.thy ===== *)
theory Util_Serial_Eth
  imports Util_Endec Core_Login Util_Cfg_Read
begin

text \<open>
  The serial number taken from the address of a network card (\<open>util/serial_eth.c\<close>). Asking the
  operating system for the address, by a socket and by a file, are arguments: six bytes, or
  \<open>None\<close> when it could not be read.
\<close>

record serial_eth =
  cachedSerial :: bool
  serialNo :: u32

definition getMac :: "u8 list option \<Rightarrow> u8 list option \<Rightarrow> u8 list option" where
  "getMac by_socket by_sysfs = (case by_socket of None \<Rightarrow> by_sysfs | Some mac \<Rightarrow> Some mac)"

definition SERIAL_ETH_getSerial :: "byte_order \<Rightarrow> u8 list option \<Rightarrow> u8 list option \<Rightarrow> serial_eth \<Rightarrow>
    SERIAL_RETURN \<times> u32 option \<times> serial_eth" where
  "SERIAL_ETH_getSerial bo by_socket by_sysfs s =
    (if cachedSerial s then (SERIAL_RETURN_SUCCESS, Some (serialNo s), s)
     else case getMac by_socket by_sysfs of
       None \<Rightarrow> (SERIAL_RETURN_FAIL_PERM, None, s)
     | Some mac \<Rightarrow>
         let no = betoh bo 4 (the (load_host bo 4 (drop 2 mac))) AND 0x7fffffff
         in (SERIAL_RETURN_SUCCESS, Some no, s\<lparr>serialNo := no, cachedSerial := True\<rparr>))"

section \<open>Asking the system\<close>

text \<open>The answers of the system: what \<open>socket\<close> returns, for the name of a device whether it is an ethernet and
  its address (\<open>ioctl\<close>), and the contents of a file.\<close>

record eth_env =
  eth_socket :: int
  eth_ioctl :: "u8 list \<Rightarrow> (bool \<times> u8 list) option"
  eth_file :: "u8 list \<Rightarrow> u8 list option"

definition IFNAMSIZ :: nat where "IFNAMSIZ = 16"

text \<open>The open descriptors are kept: the function does not close its socket.\<close>

definition getMacBySocket :: "eth_env \<Rightarrow> u8 list \<Rightarrow> int list \<Rightarrow> u8 list option \<times> int list" where
  "getMacBySocket E dev fds =
    (if eth_socket E < 0 then (None, fds)
     else let fds = eth_socket E # fds
       in case eth_ioctl E (take IFNAMSIZ dev) of
           None \<Rightarrow> (None, fds)
         | Some (ether, mac) \<Rightarrow> if \<not> ether then (None, fds) else (Some mac, fds))"

text \<open>\<open>fscanf\<close> with \<open>%hhx\<close>: white space, a sign and \<open>0x\<close> may precede the digits, and the number is stored in a byte.\<close>

definition hex_digit :: "u8 \<Rightarrow> nat option" where
  "hex_digit c = (if 48 \<le> c \<and> c \<le> 57 then Some (unat c - 48)
     else if 97 \<le> c \<and> c \<le> 102 then Some (unat c - 87)
     else if 65 \<le> c \<and> c \<le> 70 then Some (unat c - 55) else None)"

fun scan_digits :: "nat \<Rightarrow> u8 list \<Rightarrow> nat \<times> u8 list" where
  "scan_digits n [] = (n, [])"
| "scan_digits n (c # cs) = (case hex_digit c of None \<Rightarrow> (n, c # cs) | Some d \<Rightarrow> scan_digits (16 * n + d) cs)"

definition skip_sign :: "u8 list \<Rightarrow> bool \<times> u8 list" where
  "skip_sign cs = (if cs \<noteq> [] \<and> hd cs = 45 then (True, tl cs) else if cs \<noteq> [] \<and> hd cs = 43 then (False, tl cs) else (False, cs))"

definition skip_prefix :: "u8 list \<Rightarrow> u8 list" where
  "skip_prefix cs = (if 2 \<le> length cs \<and> cs ! 0 = 48 \<and> (cs ! 1 = 120 \<or> cs ! 1 = 88) then drop 2 cs else cs)"

definition scan_hex :: "u8 list \<Rightarrow> (u8 \<times> u8 list) option" where
  "scan_hex cs =
    (let (neg, cs) = skip_sign (dropWhile is_space cs);
         cs = skip_prefix cs
     in if cs = [] \<or> hex_digit (hd cs) = None then None
        else let (n, rest) = scan_digits 0 cs in Some (if neg then - of_nat n else of_nat n, rest))"

fun scan_mac :: "nat \<Rightarrow> u8 list \<Rightarrow> u8 list option" where
  "scan_mac 0 cs = Some []"
| "scan_mac (Suc k) cs =
    (case scan_hex cs of
       None \<Rightarrow> None
     | Some (b, rest) \<Rightarrow>
         if k = 0 then Some [b]
         else if rest \<noteq> [] \<and> hd rest = 58 then map_option (Cons b) (scan_mac k (tl rest)) else None)"

definition getMacBySysfs :: "eth_env \<Rightarrow> u8 list \<Rightarrow> u8 list option" where
  "getMacBySysfs E dev =
    (let path = ascii ''/sys/class/net/'' @ dev @ ascii ''/address''
     in if length path \<ge> PATH_MAX then None
        else case eth_file E path of None \<Rightarrow> None | Some txt' \<Rightarrow> scan_mac 6 txt')"

text \<open>The address as the system prints it.\<close>

definition hex_char :: "nat \<Rightarrow> u8" where
  "hex_char n = (if n < 10 then of_nat (48 + n) else of_nat (87 + n))"

definition hex_byte :: "u8 \<Rightarrow> u8 list" where
  "hex_byte b = [hex_char (unat b div 16), hex_char (unat b mod 16)]"

fun mac_text :: "u8 list \<Rightarrow> u8 list" where
  "mac_text [] = []"
| "mac_text [b] = hex_byte b"
| "mac_text (b # bs) = hex_byte b @ 58 # mac_text bs"

lemma unat_u8_less: "unat (x :: u8) < 2 ^ 8"
  using unsigned_less [of x] by simp

lemma hex_char_facts:
  assumes "n < 16"
  shows "hex_digit (hex_char n) = Some n" "\<not> is_space (hex_char n)" "hex_char n \<notin> {43, 45, 58, 88, 120}"
proof -
  have u: "unat (hex_char n) = (if n < 10 then 48 + n else 87 + n)"
  proof (cases "n < 10")
    case True
    have "unat (of_nat (48 + n) :: u8) = 48 + n" by (rule unat_of_nat_small) (use True in simp)
    then show ?thesis unfolding hex_char_def if_P [OF True] .
  next
    case False
    have "unat (of_nat (87 + n) :: u8) = 87 + n" by (rule unat_of_nat_small) (use assms in simp)
    then show ?thesis unfolding hex_char_def if_not_P [OF False] .
  qed
  show "hex_digit (hex_char n) = Some n" using assms by (simp add: hex_digit_def word_le_nat_alt u)
  show "\<not> is_space (hex_char n)" by (simp add: is_space_def word_le_nat_alt word_unat_eq_iff u)
  show "hex_char n \<notin> {43, 45, 58, 88, 120}" using assms by (auto simp: word_unat_eq_iff u)
qed

lemma scan_hex_byte:
  assumes "rest = [] \<or> hex_digit (hd rest) = None"
  shows "scan_hex (hex_byte b @ rest) = Some (b, rest)"
proof -
  have n: "unat b div 16 < 16" "unat b mod 16 < 16" using unat_u8_less [of b] by auto
  have stop: "scan_digits m rest = (m, rest)" for m using assms by (cases rest) simp_all
  have "scan_digits 0 (hex_byte b @ rest) = (unat b, rest)"
    using hex_char_facts(1) [OF n(1)] hex_char_facts(1) [OF n(2)] by (simp add: hex_byte_def stop)
  then show ?thesis
    using hex_char_facts [OF n(1)] hex_char_facts(3) [OF n(2)]
    by (simp add: scan_hex_def skip_sign_def skip_prefix_def hex_byte_def)
qed

lemma scan_mac_text:
  assumes "bs \<noteq> []" "rest = [] \<or> hex_digit (hd rest) = None"
  shows "scan_mac (length bs) (mac_text bs @ rest) = Some bs"
  using assms
proof (induction bs rule: mac_text.induct)
  case (2 b)
  then show ?case by (simp add: scan_hex_byte)
next
  case (3 b c cs)
  have "scan_hex (hex_byte b @ 58 # mac_text (c # cs) @ rest) = Some (b, 58 # mac_text (c # cs) @ rest)"
    by (rule scan_hex_byte) (simp add: hex_digit_def)
  then show ?case using 3 by simp
qed simp

text \<open>The address the system prints in its file is the one that is read, six bytes for \<open>SERIAL_ETH_getSerial\<close>; and
  every attempt over a socket leaves the socket open, whether it succeeds or not.\<close>

theorem mac_read_from_file:
  assumes "length mac = 6" "length dev < 4000"
    and "eth_file E (ascii ''/sys/class/net/'' @ dev @ ascii ''/address'') = Some (mac_text mac @ [10])"
  shows "getMacBySysfs E dev = Some mac
    \<and> (0 \<le> eth_socket E \<longrightarrow> snd (getMacBySocket E dev fds) = eth_socket E # fds)"
proof -
  have "mac \<noteq> []" using assms(1) by auto
  then have "scan_mac (length mac) (mac_text mac @ [10]) = Some mac"
    by (rule scan_mac_text) (simp add: hex_digit_def)
  then show ?thesis
    using assms by (simp add: getMacBySysfs_def getMacBySocket_def PATH_MAX_def Let_def split: option.split)
qed

theorem mac_read_from_file_witness:
  "getMacBySysfs \<lparr>eth_socket = 3, eth_ioctl = (\<lambda>nm. None), eth_file = (\<lambda>path. Some (mac_text [0, 1, 0x82, 3, 0xab, 5] @ [10]))\<rparr>
      (ascii ''eth0'') = Some [0, 1, 0x82, 3, 0xab, 5]"
  using mac_read_from_file [of "[0, 1, 0x82, 3, 0xab, 5]" "ascii ''eth0''"
      "\<lparr>eth_socket = 3, eth_ioctl = (\<lambda>nm. None), eth_file = (\<lambda>path. Some (mac_text [0, 1, 0x82, 3, 0xab, 5] @ [10]))\<rparr>"]
  by simp

section \<open>The serial number\<close>

text \<open>When the address of the network card (six bytes) can be read, by the socket or else by the
  file, the serial number is the lower 31 bits of its last four bytes, on hosts of either byte
  order, so it fits a signed 32 bit integer; it is kept, and later calls return it without
  asking for the address again.\<close>

theorem serial_is_lower_mac_bits:
  assumes "getMac by_socket by_sysfs = Some mac" and "length mac = 6" and "\<not> cachedSerial s"
  shows "\<exists>s'. SERIAL_ETH_getSerial bo by_socket by_sysfs s =
      (SERIAL_RETURN_SUCCESS, Some (be_word (drop 2 mac) AND 0x7fffffff), s')
    \<and> SERIAL_ETH_getSerial bo b1 b2 s' = (SERIAL_RETURN_SUCCESS, Some (be_word (drop 2 mac) AND 0x7fffffff), s')
    \<and> unat (be_word (drop 2 mac) AND 0x7fffffff :: u32) < 2 ^ 31"
proof -
  have "map_option (betoh bo 4) (load_host bo 4 (drop 2 mac) :: u32 option) = Some (be_word (drop 2 mac))"
    using betoh_load_host [where 'a = 32, of 4 bo "drop 2 mac"] assms(2) by simp
  then obtain w :: u32 where w: "load_host bo 4 (drop 2 mac) = Some w" "betoh bo 4 w = be_word (drop 2 mac)"
    by auto
  have "unat (x AND 0x7fffffff :: u32) < 2 ^ 31" for x
  proof -
    have "(0x7fffffff :: u32) = mask 31" by (simp add: mask_eq_exp_minus_1)
    then have "x AND 0x7fffffff = take_bit 31 x" by (simp add: take_bit_eq_mask)
    then show ?thesis using take_bit_nat_less_exp [of 31 "unat x"] by (simp add: unsigned_take_bit_eq)
  qed
  then show ?thesis using assms(1,3) w
    by (intro exI [of _ "s\<lparr>serialNo := be_word (drop 2 mac) AND 0x7fffffff, cachedSerial := True\<rparr>"])
      (simp add: SERIAL_ETH_getSerial_def Let_def)
qed

theorem serial_is_lower_mac_bits_witness:
  "\<exists>s'. SERIAL_ETH_getSerial Little_endian None (Some [0, 1, 0x82, 3, 4, 5]) \<lparr>cachedSerial = False, serialNo = 0\<rparr> =
      (SERIAL_RETURN_SUCCESS, Some (be_word [0x82, 3, 4, 5] AND 0x7fffffff), s')"
  using serial_is_lower_mac_bits [of None "Some [0, 1, 0x82, 3, 4, 5]" "[0, 1, 0x82, 3, 4, 5]"
      "\<lparr>cachedSerial = False, serialNo = 0\<rparr>" Little_endian]
  by (auto simp: getMac_def)

end
