(* ===== verification/Rc_Main.thy ===== *)
theory Rc_Main
  imports Util_Component_Run Util_Serial_Eth
begin

text \<open>
  The Radarcape daemon as a whole (\<open>radarcape/main.c\<close>): the component descriptors of the program,
  and the life of the daemon from registering the components to unregistering them, on the
  component manager. Reading and checking the configuration is an argument (whether the check
  succeeded, and the values of the flags after it), as are the addresses of the network card and
  the callbacks of the components; waiting for the signal only separates starting and stopping.
\<close>

section \<open>The components of the daemon\<close>

text \<open>Addresses of the descriptors.\<close>

definition FPGA_comp :: comp_addr where "FPGA_comp = 0"
definition WD_comp :: comp_addr where "WD_comp = 1"
definition TB_comp :: comp_addr where "TB_comp = 2"
definition RELAY_comp :: comp_addr where "RELAY_comp = 3"
definition RECV_comp :: comp_addr where "RECV_comp = 4"
definition STAT_comp :: comp_addr where "STAT_comp = 5"
definition SERIAL_comp :: comp_addr where "SERIAL_comp = 6"
definition TRIMBLE_comp :: comp_addr where "TRIMBLE_comp = 7"
definition GPIO_comp :: comp_addr where "GPIO_comp = 8"
definition NET_comp :: comp_addr where "NET_comp = 9"
definition BUF_comp :: comp_addr where "BUF_comp = 10"
definition INPUT_comp :: comp_addr where "INPUT_comp = 11"
definition FILTER_comp :: comp_addr where "FILTER_comp = 12"

lemmas comp_addr_defs = FPGA_comp_def WD_comp_def TB_comp_def RELAY_comp_def RECV_comp_def
  STAT_comp_def SERIAL_comp_def TRIMBLE_comp_def GPIO_comp_def NET_comp_def BUF_comp_def
  INPUT_comp_def FILTER_comp_def

text \<open>The flags the descriptors point to: \<open>cfgConfigure\<close> of fpga.c, \<open>cfgEnabled\<close> of statistics.c and
  \<open>cfg.gc\<close> of buffer.c.\<close>

definition flag_cfgConfigure :: bool_addr where "flag_cfgConfigure = 0"
definition flag_cfgEnabled :: bool_addr where "flag_cfgEnabled = 1"
definition flag_cfg_gc :: bool_addr where "flag_cfg_gc = 2"

definition no_component :: Component where
  "no_component = \<lparr>c_description = [], c_onRegister = False, c_onConstruct = False, c_onDestruct = False,
     c_main = False, c_onStart = False, c_onStop = False, c_onReset = False, c_enabled = None,
     c_start = None, c_config = False, c_dependencies = []\<rparr>"

definition FPGA_descr :: Component where
  "FPGA_descr = no_component\<lparr>c_description := [70, 80, 71, 65], c_onConstruct := True, c_onStart := True,
     c_config := True, c_enabled := Some flag_cfgConfigure, c_dependencies := [GPIO_comp]\<rparr>"

definition WD_descr :: Component where
  "WD_descr = no_component\<lparr>c_description := [87, 68], c_onConstruct := True, c_main := True,
     c_dependencies := [GPIO_comp]\<rparr>"

definition TB_descr :: Component where
  "TB_descr = no_component\<lparr>c_description := [84, 66], c_main := True, c_dependencies := [NET_comp]\<rparr>"

definition RELAY_descr :: Component where
  "RELAY_descr = no_component\<lparr>c_description := [82, 69, 76, 65, 89], c_main := True, c_config := True,
     c_dependencies := [NET_comp, BUF_comp]\<rparr>"

definition RECV_descr :: Component where
  "RECV_descr = no_component\<lparr>c_description := [82, 69, 67, 86], c_main := True,
     c_dependencies := [BUF_comp, INPUT_comp, FILTER_comp]\<rparr>"

definition STAT_descr :: Component where
  "STAT_descr = no_component\<lparr>c_description := [83, 84, 65, 84], c_start := Some flag_cfgEnabled,
     c_onConstruct := True, c_main := True, c_config := True\<rparr>"

definition SERIAL_descr :: Component where
  "SERIAL_descr = no_component\<lparr>c_description := [83, 69, 82, 73, 65, 76], c_config := True\<rparr>"

definition TRIMBLE_descr :: Component where
  "TRIMBLE_descr = no_component\<lparr>c_description := [71, 80, 83], c_onRegister := True,
     c_onConstruct := True, c_main := True, c_dependencies := [NET_comp]\<rparr>"

definition GPIO_descr :: Component where
  "GPIO_descr = no_component\<lparr>c_description := [71, 80, 73, 79], c_onConstruct := True, c_onDestruct := True\<rparr>"

definition NET_descr :: Component where
  "NET_descr = no_component\<lparr>c_description := [78, 69, 84], c_main := True, c_config := True, c_onReset := True\<rparr>"

definition BUF_descr :: Component where
  "BUF_descr = no_component\<lparr>c_description := [66, 85, 70], c_start := Some flag_cfg_gc, c_onConstruct := True,
     c_onDestruct := True, c_main := True, c_config := True, c_onReset := True\<rparr>"

definition INPUT_descr :: Component where
  "INPUT_descr = no_component\<lparr>c_description := [82, 67], c_onRegister := True, c_onConstruct := True,
     c_config := True, c_onReset := True\<rparr>"

definition FILTER_descr :: Component where
  "FILTER_descr = no_component\<lparr>c_description := [70, 73, 76, 84, 69, 82], c_config := True,
     c_onConstruct := True, c_onReset := True\<rparr>"

lemmas descr_defs = FPGA_descr_def WD_descr_def TB_descr_def RELAY_descr_def RECV_descr_def
  STAT_descr_def SERIAL_descr_def TRIMBLE_descr_def GPIO_descr_def NET_descr_def BUF_descr_def
  INPUT_descr_def FILTER_descr_def no_component_def flag_cfgConfigure_def flag_cfgEnabled_def flag_cfg_gc_def

definition daemon_table :: "Component list" where
  "daemon_table = [FPGA_descr, WD_descr, TB_descr, RELAY_descr, RECV_descr, STAT_descr, SERIAL_descr,
     TRIMBLE_descr, GPIO_descr, NET_descr, BUF_descr, INPUT_descr, FILTER_descr]"

section \<open>The main function\<close>

fun register_all :: "comp_env \<Rightarrow> comp_addr list \<Rightarrow> comp_mgr \<Rightarrow> fault + comp_mgr" where
  "register_all E [] s = Ok s"
| "register_all E (a # as) s = bind_ok (COMP_register E a s) (register_all E as)"

definition registered_by_main :: "bool \<Rightarrow> comp_addr list" where
  "registered_by_main standalone = (if standalone then [FPGA_comp, WD_comp] else []) @
     [TB_comp, RELAY_comp, RECV_comp, STAT_comp, SERIAL_comp, TRIMBLE_comp]"

text \<open>What main gets from outside: whether \<open>CFG_check\<close> succeeded, the flags, whether the option
  \<open>save\<close> was given, and the addresses of the network card.\<close>

record daemon_args =
  standalone :: bool
  cfg_checked :: bool
  cfg_flags :: "bool_addr \<Rightarrow> bool"
  save_file :: bool
  by_socket :: "u8 list option"
  by_sysfs :: "u8 list option"

definition daemon_run :: "comp_env \<Rightarrow> comp_mgr \<Rightarrow> fault + comp_mgr" where
  "daemon_run E s =
    bind_ok (COMP_initAll E s) (\<lambda>(ok, s). if \<not> ok then Fault Emergency else
    bind_ok (COMP_startAll E s) (\<lambda>(ok, s). if \<not> ok then Fault Emergency else
    bind_ok (COMP_stopAll E s) (\<lambda>s.
    bind_ok (COMP_destructAll E s) COMP_unregisterAll)))"

definition daemon_main :: "byte_order \<Rightarrow> daemon_args \<Rightarrow> comp_env \<Rightarrow> serial_eth \<Rightarrow> comp_mgr \<Rightarrow> fault + comp_mgr" where
  "daemon_main bo A E ser s =
    bind_ok (register_all E (registered_by_main (standalone A)) s) (\<lambda>s.
    bind_ok (COMP_fixup E s) (\<lambda>s.
    let s = s\<lparr>bools := cfg_flags A\<rparr> in
    if \<not> cfg_checked A then Fault Emergency
    else if save_file A then COMP_unregisterAll s
    else if fst (SERIAL_ETH_getSerial bo (by_socket A) (by_sysfs A) ser) = SERIAL_RETURN_FAIL_TEMP
    then Fault Emergency
    else daemon_run E s))"

section \<open>Registering and ordering the components\<close>

definition daemon_env :: "comp_env \<Rightarrow> bool" where
  "daemon_env E \<longleftrightarrow> comp_table E = daemon_table \<and> mallocs_succeed E \<and> threads_prompt E"

text \<open>One order that respects all dependencies of the table; its existence excludes cycles.\<close>

definition daemon_order :: "comp_addr list" where
  "daemon_order = [GPIO_comp, NET_comp, BUF_comp, INPUT_comp, FILTER_comp, FPGA_comp, WD_comp, TB_comp,
     RELAY_comp, RECV_comp, STAT_comp, SERIAL_comp, TRIMBLE_comp]"

lemma daemon_descr:
  assumes "comp_table E = daemon_table"
  shows "descr E FPGA_comp = FPGA_descr" "descr E WD_comp = WD_descr" "descr E TB_comp = TB_descr"
    "descr E RELAY_comp = RELAY_descr" "descr E RECV_comp = RECV_descr" "descr E STAT_comp = STAT_descr"
    "descr E SERIAL_comp = SERIAL_descr" "descr E TRIMBLE_comp = TRIMBLE_descr" "descr E GPIO_comp = GPIO_descr"
    "descr E NET_comp = NET_descr" "descr E BUF_comp = BUF_descr" "descr E INPUT_comp = INPUT_descr"
    "descr E FILTER_comp = FILTER_descr"
  by (simp_all add: descr_def assms daemon_table_def comp_addr_defs)

lemma daemon_order_distinct: "distinct daemon_order" and daemon_order_set: "set daemon_order = {..<13}"
  by (code_simp, auto simp: daemon_order_def comp_addr_defs) presburger

lemma daemon_order_deps:
  assumes "comp_table E = daemon_table"
  shows "deps_before E [] daemon_order"
  by (simp add: daemon_order_def deps_def daemon_descr [OF assms] descr_defs)

lemma daemon_descr_cases:
  assumes "comp_table E = daemon_table" and "a < 13"
  shows "\<not> c_onStop (descr E a)" "joinable E a \<Longrightarrow> own_thread E a"
    "length (c_description (descr E a)) \<le> 6" "d \<in> set (deps E a) \<Longrightarrow> d < 13 \<and> c_enabled (descr E d) = None"
proof -
  have "a \<in> set daemon_order" using assms(2) by (simp add: daemon_order_set)
  then show "\<not> c_onStop (descr E a)" "joinable E a \<Longrightarrow> own_thread E a"
    "length (c_description (descr E a)) \<le> 6" "d \<in> set (deps E a) \<Longrightarrow> d < 13 \<and> c_enabled (descr E d) = None"
    by (auto simp: daemon_order_def daemon_descr [OF assms(1)] descr_defs deps_def joinable_def own_thread_def)
      (simp_all add: comp_addr_defs)
qed

lemma dep_closure_ordered:
  assumes "deps_before E [] as" and "A \<subseteq> set as"
  shows "dep_closure E A \<subseteq> set as"
proof (rule dep_closure_least [OF assms(2)])
  fix a
  assume "a \<in> set as"
  then obtain i where "i < length as" "a = as ! i" by (metis in_set_conv_nth)
  then show "set (deps E a) \<subseteq> set as" using deps_before_nth [OF assms(1)] by (fastforce dest: in_set_takeD)
qed

lemma ordered_no_cycle:
  assumes "deps_before E [] as" and "distinct as" and "A \<subseteq> set as"
  shows "\<not> has_cycle E A"
  using dep_closure_ordered [OF assms(1,3)] deps_before_acyclic [OF assms(1,2)] by (auto simp: has_cycle_def)

lemma register_all_new:
  assumes "mallocs_succeed E" and "distinct (addrs s @ as)" and "set as \<subseteq> {..<length (comp_table E)}"
  shows "\<exists>s'. register_all E as s = Ok s' \<and> components s' = components s @ map fresh_link as"
  using assms(2,3)
proof (induction as arbitrary: s)
  case (Cons a as)
  obtain t where t: "COMP_register E a s = Ok t" "components t = components s @ [fresh_link a]"
    using COMP_register_new [OF assms(1), of a s] Cons.prems by auto
  then show ?case using Cons.IH [of t] Cons.prems by auto
qed simp

text \<open>What main has before initialising.\<close>

definition daemon_ready :: "comp_env \<Rightarrow> comp_mgr \<Rightarrow> bool" where
  "daemon_ready E s \<longleftrightarrow> (\<forall>ci\<in>set (components s). l_state ci = COMPONENT_STATE_REGISTERED)
     \<and> deps_before E [] (addrs s) \<and> distinct (addrs s) \<and> set (addrs s) \<subseteq> {..<13}"

lemma registered_by_main_valid: "distinct (registered_by_main b)" "set (registered_by_main b) \<subseteq> {..<13}"
  by (auto simp: registered_by_main_def comp_addr_defs)

lemma daemon_fixup:
  assumes E: "daemon_env E" and "components s = []"
  shows "\<exists>s1 s2. register_all E (registered_by_main b) s = Ok s1 \<and> COMP_fixup E s1 = Ok s2
    \<and> daemon_ready E s2 \<and> set (addrs s2) = dep_closure E (set (registered_by_main b))"
proof -
  have table: "comp_table E = daemon_table" "length (comp_table E) = 13" and mem: "mallocs_succeed E"
    using E by (auto simp: daemon_env_def daemon_table_def)
  obtain s1 where s1: "register_all E (registered_by_main b) s = Ok s1"
    "components s1 = map fresh_link (registered_by_main b)"
    using register_all_new [OF mem, of s "registered_by_main b"] assms(2) registered_by_main_valid table(2) by auto
  have sub: "set (addrs s1) \<subseteq> set daemon_order"
    using s1(2) registered_by_main_valid(2) by (simp add: daemon_order_set)
  have closure: "dep_closure E (set (addrs s1)) \<subseteq> {..<13}"
    using dep_closure_ordered [OF daemon_order_deps [OF table(1)] sub] by (simp add: daemon_order_set)
  have no: "\<not> has_cycle E (set (addrs s1))"
    by (rule ordered_no_cycle [OF daemon_order_deps [OF table(1)] daemon_order_distinct sub])
  obtain s2 new where s2: "COMP_fixup E s1 = Ok s2" "mset (components s2) = mset (components s1 @ map fresh_link new)"
    "set (addrs s2) = dep_closure E (set (addrs s1))" "distinct (addrs s2)" "deps_before E [] (addrs s2)"
    using COMP_fixup_result [OF mem, of s1] closure table(2) no s1(2) registered_by_main_valid(1) by auto
  have "set (components s2) = set (components s1 @ map fresh_link new)" using s2(2) by (metis set_mset_mset)
  then have "daemon_ready E s2" using s2(3-) closure s1(2) by (auto simp: daemon_ready_def)
  then show ?thesis using s1 s2 by auto
qed

section \<open>The life of the daemon\<close>

lemma daemon_fits:
  assumes "comp_table E = daemon_table" and "distinct (addrs s)" and "set (addrs s) \<subseteq> {..<13}"
  shows "message_fits E s"
proof -
  let ?f = "\<lambda>a. length (c_description (descr E a)) + 1"
  have "(\<Sum>ci\<leftarrow>components s. ?f (l_comp ci)) = sum_list (map ?f (addrs s))"
    by (simp add: comp_def)
  also have "\<dots> = sum ?f (set (addrs s))" by (rule sum_list_distinct_conv_sum_set [OF assms(2)])
  also have "\<dots> \<le> sum (\<lambda>_. 7) (set (addrs s))"
    using assms(3) daemon_descr_cases(3) [OF assms(1)] by (intro sum_mono) force
  also have "\<dots> \<le> 7 * card {..<13::nat}" using card_mono [OF _ assms(3)] by simp
  finally show ?thesis by (simp add: message_fits_def)
qed

lemma un_init_registered: "l_state ci \<noteq> COMPONENT_STATE_STARTED \<Longrightarrow> l_state (un_init ci) = COMPONENT_STATE_REGISTERED"
  by (cases "l_state ci") (simp_all add: un_init_def)

lemma unregister_loop_ok:
  "\<forall>ci\<in>set cs. l_state ci = COMPONENT_STATE_REGISTERED \<Longrightarrow> unregister_loop cs = Ok ()"
  by (induction cs) auto

lemma mark_init_comp [simp]: "l_comp (mark_init E bs ci) = l_comp ci"
  by (simp add: mark_init_def)

lemma started_before_Nil:
  "started_before n s = [] \<Longrightarrow> i < n \<Longrightarrow> \<not> is_started i s"
  by (induction n) (auto simp: less_Suc_eq split: if_splits)

lemma daemon_run_outcome:
  assumes E: "daemon_env E" and ready: "daemon_ready E s"
  shows "daemon_run E s = Fault Emergency \<and> (\<exists>h c. \<not> answer E h c)
    \<or> (\<exists>t. daemon_run E s = Ok t \<and> components t = [])"
proof -
  have table: "comp_table E = daemon_table" and prompt: "threads_prompt E" using E by (auto simp: daemon_env_def)
  have reg: "\<forall>ci\<in>set (components s). l_state ci = COMPONENT_STATE_REGISTERED"
    and dist: "distinct (addrs s)" and sub: "set (addrs s) \<subseteq> {..<13}"
    using ready by (auto simp: daemon_ready_def)
  have "enabled_deps_ok E s"
    using sub daemon_descr_cases(4) [OF table] by (fastforce simp: enabled_deps_ok_iff comp_on_def)
  then obtain b s1 where s1: "COMP_initAll E s = Ok (b, s1)" "init_result E 0 s b s1"
    using init_loop_effect [of 0 s E] reg by (auto simp: COMP_initAll_def enabled_deps_ok_def)
  show ?thesis
  proof (cases b)
    case False
    then show ?thesis using s1 by (auto simp: daemon_run_def init_result_def Let_def)
  next
    case True
    then have cs1: "components s1 = map (mark_init E (bools s)) (components s)"
      using s1(2) by (simp add: init_result_def)
    have addrs1: "addrs s1 = addrs s" by (simp add: cs1 comp_def)
    have none: "none_started s1" using reg by (auto simp: none_started_def cs1 mark_init_def)
    have managed: "managed_ok E s1"
      using sub daemon_descr_cases(2) [OF table] by (auto simp: managed_ok_def addrs1)
    note fits = daemon_fits [OF table dist sub]
    have fits1: "message_fits E s1" by (rule daemon_fits [OF table]) (simp_all only: addrs1 dist sub)
    show ?thesis
    proof (cases rule: COMP_startAll_cases [OF managed none prompt fits1, case_names started failed])
      case (failed s' k xs c ys rest)
      then show ?thesis using s1(1) True by (auto simp: daemon_run_def)
    next
      case (started s2)
      have addrs2: "addrs s2 = addrs s" using started(3) addrs1 by (simp add: comp_def)
      have "thread_ok E ci" if "ci \<in> set (components s2)" for ci
        using that started(3) mark_start_thread_ok [OF managed] none by (auto simp: none_started_def)
      then have ok2: "all_thread_ok E s2" by (simp add: all_thread_ok_def)
      have fits2: "message_fits E s2" by (rule daemon_fits [OF table]) (simp_all only: addrs2 dist sub)
      obtain s3 where s3: "COMP_stopAll E s2 = Ok s3" "stops_to E (length (components s2)) s2 s3"
        "gave_up E (length (components s2)) s3"
        using stopUntil_returns [OF le_refl ok2 prompt fits2] by (auto simp: COMP_stopAll_def)
      have len: "length (components s3) = length (components s2)" using s3(2) by (simp add: stops_to_def)
      have "\<not> c_onStop (descr E (l_comp (components s3 ! i)))" if "i < length (components s3)" for i
      proof -
        have "addrs s3 ! i \<in> set (addrs s3)" using that by (intro nth_mem) simp
        then have "addrs s3 ! i < 13"
          using sub unfolding stops_to_addrs [OF s3(2)] addrs2 by auto
        then have "l_comp (components s3 ! i) < 13" using that by simp
        then show ?thesis by (rule daemon_descr_cases(1) [OF table])
      qed
      moreover have "i < length (components s3)" if "i \<in> set (started_before (length (components s2)) s3)" for i
      proof -
        have "set (started_before n s3) \<subseteq> {..<n}" for n by (induction n) auto
        then show ?thesis using that len by auto
      qed
      ultimately have "started_before (length (components s2)) s3 = []"
        using s3(3) by (cases "started_before (length (components s2)) s3") (auto simp: gave_up_def)
      then have none3: "\<forall>ci\<in>set (components s3). l_state ci \<noteq> COMPONENT_STATE_STARTED"
        using started_before_Nil len by (metis in_set_conv_nth is_started_def)
      obtain s4 where s4: "COMP_destructAll E s3 = Ok s4" "components s4 = map un_init (components s3)"
        using destructUntil_effect [of "length (components s3)" s3 E] none3 by (auto simp: COMP_destructAll_def)
      have "unregister_loop (components s4) = Ok ()"
        by (rule unregister_loop_ok) (use none3 s4(2) un_init_registered in auto)
      then have "COMP_unregisterAll s4 = Ok (s4\<lparr>components := []\<rparr>)" by (simp add: COMP_unregisterAll_def)
      then show ?thesis using s1(1) True started(1) s3(1) s4(1) by (simp add: daemon_run_def)
    qed
  qed
qed

section \<open>Properties\<close>


definition sample_args :: daemon_args where
  "sample_args = \<lparr>standalone = True, cfg_checked = True, cfg_flags = (\<lambda>_. True), save_file = False,
     by_socket = None, by_sysfs = None\<rparr>"

definition quiet_env :: comp_env where
  "quiet_env = \<lparr>comp_table = daemon_table, answer = (\<lambda>_ _. True), has_timedjoin = True\<rparr>"


end
