(* ===== verification/Util_Cfg_Types.thy ===== *)
theory Util_Cfg_Types
  imports Util_Cfg_Read
begin

text \<open>
  The type invariant of the configuration: every variable keeps the type of its option, strings stay
  terminated inside their arrays and ports below 65536, whatever the configuration file holds.
\<close>

section \<open>The invariant\<close>

definition all_options :: "CFG_Section list \<Rightarrow> CFG_Option list" where
  "all_options ss = concat (map sect_options ss)"

fun var_sane :: "cfg_var \<Rightarrow> bool" where
  "var_sane (Var_string a) = (0 \<in> set a)"
| "var_sane (Var_port p) = (p \<le> 0xffff)"
| "var_sane v = True"

fun array_length :: "cfg_var \<Rightarrow> nat" where
  "array_length (Var_string a) = length a"
| "array_length v = 0"

definition var_ok :: "CFG_Option \<Rightarrow> cfg_var \<Rightarrow> bool" where
  "var_ok opt v \<longleftrightarrow> var_type v = opt_type opt \<and> var_sane v
    \<and> (opt_type opt = CFG_VALUE_TYPE_STRING \<longrightarrow> unat (opt_maxlen opt) \<le> array_length v)"

definition store_ok :: "CFG_Option list \<Rightarrow> cfg_store \<Rightarrow> bool" where
  "store_ok os st \<longleftrightarrow> list_all (\<lambda>opt. var_ok opt (cfg_vars st (opt_var opt))) os"

definition default_ok :: "CFG_Option \<Rightarrow> bool" where
  "default_ok opt = (case (opt_type opt, opt_def opt) of
      (CFG_VALUE_TYPE_STRING, Def_string s) \<Rightarrow>
        opt_maxlen opt \<noteq> 0 \<and> (case s of None \<Rightarrow> True | Some s \<Rightarrow> length s < unat (opt_maxlen opt))
    | (CFG_VALUE_TYPE_INT, Def_integer i) \<Rightarrow> True
    | (CFG_VALUE_TYPE_PORT, Def_port p) \<Rightarrow> p \<le> 0xffff
    | (CFG_VALUE_TYPE_BOOL, Def_boolean b) \<Rightarrow> True
    | (CFG_VALUE_TYPE_DOUBLE, Def_dbl d) \<Rightarrow> True
    | _ \<Rightarrow> False)"

lemma store_ok_var: "store_ok os st \<Longrightarrow> opt \<in> set os \<Longrightarrow> var_ok opt (cfg_vars st (opt_var opt))"
  by (simp add: store_ok_def list_all_iff)

text \<open>A variable may be replaced by a value of the same type and array length.\<close>

lemma store_ok_update:
  assumes "store_ok os st" and "var_type v = var_type (cfg_vars st i)" and "var_sane v"
    and "array_length v = array_length (cfg_vars st i)"
  shows "store_ok os (st\<lparr>cfg_vars := (cfg_vars st)(i := v)\<rparr>)"
  using assms by (auto simp: store_ok_def list_all_iff var_ok_def)

lemma store_ok_given [simp]: "store_ok os (set_given opt b st) = store_ok os st"
  by (simp add: store_ok_def set_given_def split: option.split)

lemma assign_var_ok:
  assumes "store_ok os st" and "opt \<in> set os" and "var_type v = opt_type opt" and "var_sane v"
    and "array_length v = array_length (cfg_vars st (opt_var opt))"
  shows "\<exists>st'. assign_var opt v st = Ok st' \<and> store_ok os st'"
  using store_ok_var [OF assms(1,2)] store_ok_update [OF assms(1), of v "opt_var opt"] assms(3-5)
  by (simp add: assign_var_def var_ok_def)

text \<open>The type of an option's variable, so that it can be assigned.\<close>

lemma scalar_var:
  assumes "store_ok os st" "opt \<in> set os" "opt_type opt \<noteq> CFG_VALUE_TYPE_STRING"
  shows "array_length (cfg_vars st (opt_var opt)) = 0"
  using store_ok_var [OF assms(1,2)] assms(3) by (cases "cfg_vars st (opt_var opt)") (auto simp: var_ok_def)

lemma assign_scalar:
  assumes "store_ok os st" "opt \<in> set os" "opt_type opt \<noteq> CFG_VALUE_TYPE_STRING"
    and "var_type v = opt_type opt" "var_sane v"
  shows "\<exists>st'. assign_var opt v st = Ok st' \<and> store_ok os st'"
proof (rule assign_var_ok [OF assms(1,2,4,5)])
  have "array_length v = 0" using assms(3,4) by (cases v) simp_all
  then show "array_length v = array_length (cfg_vars st (opt_var opt))" using scalar_var [OF assms(1-3)] by simp
qed

lemma string_var_ok:
  assumes "store_ok os st" "opt \<in> set os" "opt_type opt = CFG_VALUE_TYPE_STRING"
  obtains a where "cfg_vars st (opt_var opt) = Var_string a" "string_var opt st = Ok a"
    "unat (opt_maxlen opt) \<le> length a" "0 \<in> set a"
  using store_ok_var [OF assms(1,2)] assms(3) by (cases "cfg_vars st (opt_var opt)") (auto simp: var_ok_def string_var_def)

section \<open>Assignments\<close>

lemma length_strncpy: "strncpy a s n = Some b \<Longrightarrow> length b = length a"
  by (auto simp: strncpy_def split: if_splits)

lemma strncpy_terminated:
  assumes "n \<le> length a" and "length s < n"
  shows "\<exists>b. strncpy a s n = Some b \<and> 0 \<in> set b \<and> length b = length a"
proof -
  have "take n (s @ replicate n 0) = s @ replicate (n - length s) 0" using assms(2) by simp
  then have "0 \<in> set (take n (s @ replicate n 0))" using assms(2) by simp
  then show ?thesis using assms(1) by (auto simp: strncpy_def)
qed

fun def_var :: "CFG_Value \<Rightarrow> cfg_var" where
  "def_var (Def_integer i) = Var_integer i"
| "def_var (Def_port p) = Var_port p"
| "def_var (Def_boolean b) = Var_boolean b"
| "def_var (Def_dbl d) = Var_dbl d"
| "def_var (Def_string s) = Var_string []"

lemma default_scalar:
  assumes "default_ok opt" "opt_type opt \<noteq> CFG_VALUE_TYPE_STRING"
  shows "var_type (def_var (opt_def opt)) = opt_type opt" "var_sane (def_var (opt_def opt))"
    "assignOptionFromDefault opt st = bind_ok (assign_var opt (def_var (opt_def opt)) st) (\<lambda>st. Ok (set_given opt False st))"
  using assms by (cases "opt_def opt"; cases "opt_type opt"; simp add: default_ok_def assignOptionFromDefault_def)+

lemma assignOptionFromDefault_ok:
  assumes "store_ok os st" "opt \<in> set os" "default_ok opt"
  shows "\<exists>st'. assignOptionFromDefault opt st = Ok st' \<and> store_ok os st'"
proof (cases "opt_type opt = CFG_VALUE_TYPE_STRING")
  case False
  show ?thesis
    using assign_scalar [OF assms(1,2) False default_scalar(1,2) [OF assms(3) False]]
      default_scalar(3) [OF assms(3) False, of st] by auto
next
  case True
  obtain a where a: "cfg_vars st (opt_var opt) = Var_string a" "string_var opt st = Ok a"
    "unat (opt_maxlen opt) \<le> length a" "0 \<in> set a" using string_var_ok [OF assms(1,2) True] by metis
  obtain s where s: "opt_def opt = Def_string s" "opt_maxlen opt \<noteq> 0" "\<forall>t. s = Some t \<longrightarrow> length t < unat (opt_maxlen opt)"
    using assms(3) True by (auto simp: default_ok_def split: CFG_Value.splits option.splits)
  show ?thesis
  proof (cases s)
    case None
    have "a \<noteq> []" using a(4) by auto
    then have "0 \<in> set (a[0 := 0])" by (cases a) simp_all
    then obtain st' where "assign_var opt (Var_string (a[0 := 0])) st = Ok st'" "store_ok os st'"
      using assign_var_ok [OF assms(1,2), of "Var_string (a[0 := 0])"] True a(1) by auto
    then show ?thesis using True s None a(2) \<open>a \<noteq> []\<close> by (simp add: assignOptionFromDefault_def)
  next
    case (Some t)
    obtain b where b: "strncpy a t (unat (opt_maxlen opt)) = Some b" "0 \<in> set b" "length b = length a"
      using strncpy_terminated [OF a(3)] s(3) Some by metis
    obtain st' where "assign_var opt (Var_string b) st = Ok st'" "store_ok os st'"
      using assign_var_ok [OF assms(1,2), of "Var_string b"] True a(1) b by auto
    then show ?thesis using True s Some a(2) b(1) by (simp add: assignOptionFromDefault_def strncpy_var_def)
  qed
qed

text \<open>A step that may end with an access out of bounds and else keeps the invariant.\<close>

definition keeps_ok :: "CFG_Option list \<Rightarrow> fault + ('a \<times> cfg_store) \<Rightarrow> bool" where
  "keeps_ok os r \<longleftrightarrow> (case r of Inl f \<Rightarrow> f = Out_of_bounds | Inr (a, st) \<Rightarrow> store_ok os st)"

lemma keeps_ok_simps [simp]: "keeps_ok os (Inl f) \<longleftrightarrow> f = Out_of_bounds" "keeps_ok os (Inr (a, st)) \<longleftrightarrow> store_ok os st"
  by (simp_all add: keeps_ok_def)

lemma number_string_fault: "number_string cap val valLen = Inl f \<Longrightarrow> f = Out_of_bounds"
  by (auto simp: number_string_def split: if_splits)

lemma assign_parsed_ok:
  assumes "store_ok os st" and "\<And>f. r = Inl f \<Longrightarrow> f = Out_of_bounds"
    and "\<And>v. r = Ok (Some v) \<Longrightarrow> \<exists>st'. assign_var opt (con v) st = Ok st' \<and> store_ok os st'"
  shows "keeps_ok os (assign_parsed opt con st r)"
proof (cases r)
  case (Inr x)
  then show ?thesis using assms by (cases x) (auto simp: assign_parsed_def)
qed (use assms(2) in \<open>auto simp: assign_parsed_def\<close>)

lemma parsePort_bound: "parsePort val valLen = Ok (Some p) \<Longrightarrow> p \<le> 0xffff"
proof -
  assume "parsePort val valLen = Ok (Some p)"
  then obtain r where "(case r of None \<Rightarrow> None | Some n \<Rightarrow> if n > 0xffff then None else Some (ucast (n :: u32))) = Some p"
    by (auto simp: parsePort_def bind_ok_eq_Inr)
  then obtain n :: u32 where "n \<le> 0xffff" "p = ucast n"
    by (cases r) (auto simp: not_less split: if_splits)
  then show ?thesis by (simp add: word_le_nat_alt)
qed

lemma parse_faults:
  "parseInt val valLen = Inl f \<Longrightarrow> f = Out_of_bounds"
  "parsePort val valLen = Inl f \<Longrightarrow> f = Out_of_bounds"
  "parseDouble strtod val valLen = Inl f \<Longrightarrow> f = Out_of_bounds"
  "parseBool val valLen = Inl f \<Longrightarrow> f = Out_of_bounds"
  "parseString val valLen str sz = Inl f \<Longrightarrow> f = Out_of_bounds"
  by (auto simp: parsePort_def parseInt_def parseDouble_def parseBool_def parseString_def bind_ok_def
      split: sum.splits if_splits dest: number_string_fault)

lemma parseString_terminated:
  "parseString val valLen str sz = Ok (Some b) \<Longrightarrow> 0 \<in> set b \<and> length b = length str"
  by (auto simp: parseString_def split: if_splits)

lemma assignOptionFromString_ok:
  assumes "store_ok os st" "opt \<in> set os"
  shows "keeps_ok os (assignOptionFromString strtod opt val valLen st)"
proof (cases "opt_type opt")
  case CFG_VALUE_TYPE_STRING
  obtain a where a: "cfg_vars st (opt_var opt) = Var_string a" "string_var opt st = Ok a"
    using string_var_ok [OF assms CFG_VALUE_TYPE_STRING] by metis
  show ?thesis
    unfolding assignOptionFromString_def CFG_VALUE_TYPE_STRING CFG_VALUE_TYPE.case a(2) bind_ok_simps
  proof (rule assign_parsed_ok [OF assms(1)])
    fix b
    assume "parseString val valLen a (opt_maxlen opt) = Ok (Some b)"
    note b = parseString_terminated [OF this]
    show "\<exists>st'. assign_var opt (Var_string b) st = Ok st' \<and> store_ok os st'"
      using assign_var_ok [OF assms, of "Var_string b"] CFG_VALUE_TYPE_STRING a(1) b by simp
  qed (erule parse_faults)
next
  case CFG_VALUE_TYPE_INT
  show ?thesis
    unfolding assignOptionFromString_def CFG_VALUE_TYPE_INT CFG_VALUE_TYPE.case
    by (rule assign_parsed_ok [OF assms(1)], erule parse_faults)
      (rule assign_scalar [OF assms], simp_all add: CFG_VALUE_TYPE_INT)
next
  case CFG_VALUE_TYPE_PORT
  show ?thesis
    unfolding assignOptionFromString_def CFG_VALUE_TYPE_PORT CFG_VALUE_TYPE.case
    by (rule assign_parsed_ok [OF assms(1)], erule parse_faults)
      (rule assign_scalar [OF assms], simp_all add: CFG_VALUE_TYPE_PORT parsePort_bound)
next
  case CFG_VALUE_TYPE_BOOL
  show ?thesis
    unfolding assignOptionFromString_def CFG_VALUE_TYPE_BOOL CFG_VALUE_TYPE.case
    by (rule assign_parsed_ok [OF assms(1)], erule parse_faults)
      (rule assign_scalar [OF assms], simp_all add: CFG_VALUE_TYPE_BOOL)
next
  case CFG_VALUE_TYPE_DOUBLE
  show ?thesis
    unfolding assignOptionFromString_def CFG_VALUE_TYPE_DOUBLE CFG_VALUE_TYPE.case
    by (rule assign_parsed_ok [OF assms(1)], erule parse_faults)
      (rule assign_scalar [OF assms], simp_all add: CFG_VALUE_TYPE_DOUBLE)
qed

section \<open>Reading\<close>

lemma getOption_member:
  "getOption ss sec sectionLen key keyLen = Some opt \<Longrightarrow> opt \<in> set (all_options ss)"
  by (induction ss) (auto simp: all_options_def find_Some_iff split: if_splits option.splits)

definition table_ok :: "CFG_Section list \<Rightarrow> bool" where
  "table_ok ss \<longleftrightarrow> list_all default_ok (all_options ss)"

lemma table_okD: "table_ok ss \<Longrightarrow> opt \<in> set (all_options ss) \<Longrightarrow> default_ok opt"
  by (simp add: table_ok_def list_all_iff)

lemma assign_line_ok:
  assumes "store_ok os st" "opt \<in> set os" "default_ok opt"
  shows "keeps_ok os (assign_line strtod d opt val valLen st)"
proof -
  have def: "keeps_ok os (bind_ok (assignOptionFromDefault opt st') (\<lambda>st. Ok (True, st)))" if "store_ok os st'" for st'
    using assignOptionFromDefault_ok [OF that assms(2,3)] by auto
  show ?thesis
  proof (cases "assignOptionFromString strtod opt val valLen st")
    case (Inl f)
    then show ?thesis using def [OF assms(1)] assignOptionFromString_ok [OF assms(1,2), of strtod val valLen]
      by (simp add: assign_line_def)
  next
    case (Inr r)
    obtain ok st' where r: "r = (ok, st')" by (cases r)
    have "store_ok os st'" using assignOptionFromString_ok [OF assms(1,2), of strtod val valLen] Inr r by simp
    then show ?thesis using Inr r def [OF assms(1)] def [of st'] by (simp add: assign_line_def)
  qed
qed

text \<open>The same for results with the parser in the middle.\<close>

abbreviation keeps_ok3 :: "CFG_Option list \<Rightarrow> fault + ('a \<times> 'b \<times> cfg_store) \<Rightarrow> bool" where
  "keeps_ok3 os r \<equiv> (case r of Inl f \<Rightarrow> f = Out_of_bounds | Inr (a, b, st) \<Rightarrow> store_ok os st)"

lemma parseOption_ok:
  assumes "store_ok (all_options ss) st" "table_ok ss"
  shows "keeps_ok3 (all_options ss) (parseOption strtod d ss inp p st)"
proof -
  have bind: "keeps_ok3 (all_options ss) (bind_ok r (\<lambda>(ok, st). Ok (ok, f ok, st)))" if "keeps_ok (all_options ss) r"
    for r and f :: "bool \<Rightarrow> cfg_parser" using that by (cases r) (auto simp: keeps_ok_def)
  have line: "keeps_ok (all_options ss) (assign_line strtod d opt val valLen st)"
    if "getOption ss sec sl key kl = Some opt" for opt val valLen sec sl key kl
    using assign_line_ok [OF assms(1) getOption_member [OF that] table_okD [OF assms(2) getOption_member [OF that]]] .
  show ?thesis
    unfolding parseOption_def Let_def
    using assms(1) by (auto split: option.split intro!: bind line)
qed

lemma read_loop_ok:
  assumes "table_ok ss" "store_ok (all_options ss) st"
  shows "keeps_ok3 (all_options ss) (read_loop strtod d ss inp p st)"
  using assms(2)
proof (induction "bufferSize p" arbitrary: p st rule: less_induct)
  case less
  have skip: "keeps_ok3 (all_options ss) (read_loop strtod d ss inp q st)" if "bufferSize q < bufferSize p" for q
    using less.hyps [OF that less.prems] .
  show ?case
  proof (cases "bufferSize p = 0")
    case True
    then show ?thesis using less.prems by (subst read_loop.simps) simp
  next
    case False
    obtain s q where sq: "parseSection ss inp p = (s, q)" by fastforce
    consider (sect) "inp ! bufferInput p = 91" | (simple) "inp ! bufferInput p \<in> {13, 10, 59, 35}"
      | (opt) "inp ! bufferInput p \<notin> {91, 13, 10, 59, 35}" by blast
    then show ?thesis
    proof cases
      case sect
      then show ?thesis
        using False sq less.prems skip [of "q\<lparr>sectionState := s\<rparr>"] parseSection_size [OF sq]
        by (subst read_loop.simps) (auto simp: Let_def)
    next
      case simple
      then show ?thesis
        using False skip [of "p\<lparr>bufferInput := bufferInput p + 1, bufferSize := bufferSize p - 1\<rparr>"]
          skip [of "next_line (p\<lparr>bufferInput := bufferInput p + 1, bufferSize := bufferSize p - 1\<rparr>)"]
          skip [of "skipComment inp p"] skipComment_size [of p inp]
        by (subst read_loop.simps) (auto simp: Let_def next_line_def)
    next
      case opt
      have step: "read_loop strtod d ss inp p st = (case parseOption strtod d ss inp p st of
          Inl f \<Rightarrow> Inl f | Inr (ok, q, st) \<Rightarrow> read_loop strtod d ss inp q st)"
        using opt False by (subst read_loop.simps) (auto simp: Let_def)
      show ?thesis
      proof (cases "parseOption strtod d ss inp p st")
        case (Inl f)
        then show ?thesis using parseOption_ok [OF less.prems assms(1), of strtod d inp p] step by simp
      next
        case (Inr r)
        obtain ok q st' where r: "r = (ok, q, st')" by (cases r)
        have "store_ok (all_options ss) st'"
          using parseOption_ok [OF less.prems assms(1), of strtod d inp p] Inr r by simp
        then show ?thesis using less.hyps [OF parseOption_size [OF _ False]] Inr r step by simp
      qed
    qed
  qed
qed

text \<open>The callbacks that fix a section keep the types.\<close>

definition fixes_ok :: "CFG_Option list \<Rightarrow> CFG_Section list \<Rightarrow> bool" where
  "fixes_ok os ss \<longleftrightarrow> (\<forall>s\<in>set ss. case sect_fix s of None \<Rightarrow> True
     | Some f \<Rightarrow> \<forall>st. store_ok os st \<longrightarrow> (\<exists>st'. f st = Ok st' \<and> store_ok os st'))"

lemma fix_all_ok: "fixes_ok os ss \<Longrightarrow> store_ok os st \<Longrightarrow> \<exists>st'. fix_all ss st = Ok st' \<and> store_ok os st'"
proof (induction ss arbitrary: st)
  case (Cons s ss)
  have "fixes_ok os ss" using Cons.prems(1) by (simp add: fixes_ok_def)
  moreover obtain st' where "(case sect_fix s of None \<Rightarrow> Ok st | Some f \<Rightarrow> f st) = Ok st'" "store_ok os st'"
    using Cons.prems by (cases "sect_fix s") (auto simp: fixes_ok_def)
  ultimately show ?case using Cons.IH by auto
qed simp

lemma load_options_ok:
  assumes "store_ok os st" "set opts \<subseteq> set os" "list_all default_ok opts"
  shows "\<exists>st'. load_options opts st = Ok st' \<and> store_ok os st'"
  using assms
proof (induction opts arbitrary: st)
  case (Cons opt opts)
  obtain st' where "assignOptionFromDefault opt st = Ok st'" "store_ok os st'"
    using assignOptionFromDefault_ok [OF Cons.prems(1), of opt] Cons.prems(2,3) by auto
  then show ?case using Cons.IH [of st'] Cons.prems by simp
qed simp

lemma CFG_loadDefaults_ok:
  assumes "store_ok os st" "set (all_options ss) \<subseteq> set os" "table_ok ss"
  shows "\<exists>st'. CFG_loadDefaults ss st = Ok st' \<and> store_ok os st'"
  using assms
proof (induction ss arbitrary: st)
  case (Cons s ss)
  obtain st' where "load_options (sect_options s) st = Ok st'" "store_ok os st'"
    using load_options_ok [OF Cons.prems(1), of "sect_options s"] Cons.prems(2,3)
    by (auto simp: all_options_def table_ok_def)
  then show ?case using Cons.IH [of st'] Cons.prems by (auto simp: all_options_def table_ok_def)
qed simp

section \<open>The defaults\<close>

text \<open>A string variable's contents.\<close>

definition cstr :: "u8 list \<Rightarrow> u8 list" where "cstr a = takeWhile (\<lambda>c. c \<noteq> 0) a"

definition is_default :: "CFG_Option \<Rightarrow> cfg_var \<Rightarrow> bool" where
  "is_default opt v \<longleftrightarrow>
    (case opt_def opt of
       Def_string s \<Rightarrow> (\<exists>a. v = Var_string a \<and> cstr a = (case s of None \<Rightarrow> [] | Some s \<Rightarrow> s))
     | df \<Rightarrow> v = def_var df)"

definition default_string_ok :: "CFG_Option \<Rightarrow> bool" where
  "default_string_ok opt = (case opt_def opt of Def_string (Some s) \<Rightarrow> 0 \<notin> set s | _ \<Rightarrow> True)"

lemma cstr_terminated: "0 \<notin> set s \<Longrightarrow> cstr (s @ 0 # r) = s"
  by (induction s) (auto simp: cstr_def)

lemma cstr_strncpy: "strncpy a s n = Some b \<Longrightarrow> length s < n \<Longrightarrow> 0 \<notin> set s \<Longrightarrow> cstr b = s"
  by (cases "n - length s") (auto simp: strncpy_def cstr_terminated split: if_splits)

lemma assign_var_value: "assign_var opt v st = Ok st' \<Longrightarrow> cfg_vars st' = (cfg_vars st)(opt_var opt := v)"
  by (auto simp: assign_var_def split: if_splits)

lemma set_given_vars [simp]: "cfg_vars (set_given opt b st) = cfg_vars st"
  by (simp add: set_given_def split: option.split)

lemma assignOptionFromDefault_value:
  assumes "assignOptionFromDefault opt st = Ok st'" "default_ok opt" "default_string_ok opt"
  shows "\<exists>v. cfg_vars st' = (cfg_vars st)(opt_var opt := v) \<and> is_default opt v"
proof (cases "opt_type opt = CFG_VALUE_TYPE_STRING")
  case False
  have "\<exists>t. assign_var opt (def_var (opt_def opt)) st = Ok t \<and> cfg_vars st' = cfg_vars t"
    using assms(1) default_scalar(3) [OF assms(2) False, of st] by (auto simp: bind_ok_eq_Inr)
  moreover have "is_default opt (def_var (opt_def opt))"
    using assms(2) False by (cases "opt_def opt"; cases "opt_type opt"; simp add: default_ok_def is_default_def)
  ultimately show ?thesis using assign_var_value by metis
next
  case True
  obtain s where s: "opt_def opt = Def_string s" "\<forall>t. s = Some t \<longrightarrow> length t < unat (opt_maxlen opt)"
    using assms(2) True by (auto simp: default_ok_def split: CFG_Value.splits option.splits)
  show ?thesis
  proof (cases s)
    case None
    then obtain a t where a: "a \<noteq> []" "assign_var opt (Var_string (a[0 := 0])) st = Ok t" "st' = set_given opt False t"
      using assms(1) True s(1) by (auto simp: assignOptionFromDefault_def bind_ok_eq_Inr split: if_splits)
    have "cstr (a[0 := 0]) = []" using a(1) by (cases a) (simp_all add: cstr_def)
    then show ?thesis using assign_var_value [OF a(2)] a(3) s(1) None by (auto simp: is_default_def)
  next
    case (Some d)
    then obtain a b t where a: "strncpy a d (unat (opt_maxlen opt)) = Some b" "assign_var opt (Var_string b) st = Ok t"
      "st' = set_given opt False t"
      using assms(1) True s(1) by (auto simp: assignOptionFromDefault_def strncpy_var_def bind_ok_eq_Inr split: option.splits)
    have "cstr b = d" using cstr_strncpy [OF a(1)] s Some assms(3) by (simp add: default_string_ok_def)
    then show ?thesis using assign_var_value [OF a(2)] a(3) s(1) Some by (auto simp: is_default_def)
  qed
qed

lemma load_options_values:
  assumes "load_options opts st = Ok st'" "list_all default_ok opts" "list_all default_string_ok opts"
    and "distinct (map opt_var opts)"
  shows "(\<forall>opt\<in>set opts. is_default opt (cfg_vars st' (opt_var opt)))
    \<and> (\<forall>i. i \<notin> opt_var ` set opts \<longrightarrow> cfg_vars st' i = cfg_vars st i)"
  using assms
proof (induction opts arbitrary: st)
  case (Cons opt opts)
  obtain t where t: "assignOptionFromDefault opt st = Ok t" "load_options opts t = Ok st'"
    using Cons.prems(1) by (auto simp: bind_ok_eq_Inr)
  obtain v where "cfg_vars t = (cfg_vars st)(opt_var opt := v)" "is_default opt v"
    using assignOptionFromDefault_value [OF t(1)] Cons.prems by auto
  then show ?case using Cons.IH [OF t(2)] Cons.prems by auto
qed simp

lemma CFG_loadDefaults_options: "CFG_loadDefaults ss st = load_options (all_options ss) st"
proof -
  have app: "load_options (os @ os') st = bind_ok (load_options os st) (load_options os')" for os os' st
  proof (induction os arbitrary: st)
    case (Cons opt os)
    then show ?case by (cases "assignOptionFromDefault opt st") simp_all
  qed simp
  show ?thesis
  proof (induction ss arbitrary: st)
    case (Cons s ss)
    have "CFG_loadDefaults ss = load_options (all_options ss)" using Cons by (rule ext)
    then show ?case by (simp add: all_options_def app)
  qed (simp add: all_options_def)
qed

section \<open>Properties\<close>

lemma cfg_read_types:
  assumes "table_ok ss" and "store_ok (all_options ss) st" and "fixes_ok (all_options ss) ss"
  shows "case CFG_readFile strtod d ss inp p st of
      Inl f \<Rightarrow> f = Out_of_bounds
    | Inr (ok, q, st') \<Rightarrow> store_ok (all_options ss) st'"
proof (cases inp)
  case None
  then show ?thesis using assms(2) by (simp add: CFG_readFile_def)
next
  case (Some i)
  let ?r = "readCfg strtod d ss i (p\<lparr>bufferInput := 0, bufferSize := length i, bufferLine := 1\<rparr>) st"
  have r: "keeps_ok3 (all_options ss) ?r" unfolding readCfg_def by (rule read_loop_ok [OF assms(1,2)])
  show ?thesis
  proof (cases ?r)
    case (Inl f)
    then show ?thesis using r Some by (simp add: CFG_readFile_def)
  next
    case (Inr x)
    obtain ok q st' where x: "x = (ok, q, st')" by (cases x)
    then have st': "store_ok (all_options ss) st'" using r Inr by simp
    obtain st'' where "fix_all ss st' = Ok st''" "store_ok (all_options ss) st''"
      using fix_all_ok [OF assms(3) st'] by auto
    then show ?thesis using st' Inr x Some by (auto simp: CFG_readFile_def)
  qed
qed

lemma read_files_types:
  assumes "table_ok ss" and "store_ok (all_options ss) st" and "fixes_ok (all_options ss) ss"
  shows "case read_files strtod d stop ss mmap_open path fs p st of
      Inl f \<Rightarrow> f = Out_of_bounds
    | Inr (ok, q, st') \<Rightarrow> store_ok (all_options ss) st'"
  using assms(2)
proof (induction fs arbitrary: p st)
  case (Cons fname fs)
  show ?case
    using cfg_read_types [OF assms(1) Cons.prems assms(3), of strtod d "mmap_open (path @ [47] @ fname)" p] Cons
    by (cases "CFG_readFile strtod d ss (mmap_open (path @ 47 # fname)) p st") (auto simp: Let_def)
qed simp

lemma read_directory_types:
  assumes "table_ok ss" and "store_ok (all_options ss) st" and "fixes_ok (all_options ss) ss"
  shows "case CFG_readDirectory strtod d stop ss mmap_open path names p st of
      Inl f \<Rightarrow> f = Out_of_bounds
    | Inr (ok, q, st') \<Rightarrow> store_ok (all_options ss) st'"
  using read_files_types [OF assms] assms(2) by (simp add: CFG_readDirectory_def split: option.split)

text \<open>C7: whatever bytes a configuration file holds, reading it either faults with an access out of
  bounds or ends, and then every variable has the type of its option, strings are terminated
  inside their arrays and ports are below 65536; no value is assigned to a variable of another
  type.\<close>

theorem cfg_read_keeps_types:
  assumes "table_ok ss" and "store_ok (all_options ss) st" and "fixes_ok (all_options ss) ss"
  shows "case CFG_readFile strtod d ss inp p st of
      Inl f \<Rightarrow> f = Out_of_bounds
    | Inr (ok, q, st') \<Rightarrow> store_ok (all_options ss) st'"
  by (rule cfg_read_types [OF assms])

text \<open>A string of at most three bytes and a port.\<close>

definition small_table :: "CFG_Section list" where
  "small_table = [\<lparr>sect_name = [83], sect_fix = None, sect_check = None, sect_options =
     [\<lparr>opt_name = [104], opt_type = CFG_VALUE_TYPE_STRING, opt_var = 0, opt_given = None, opt_maxlen = 4,
         opt_def = Def_string (Some [120]), defaultEmpty = False\<rparr>,
      \<lparr>opt_name = [112], opt_type = CFG_VALUE_TYPE_PORT, opt_var = 1, opt_given = None, opt_maxlen = 0,
         opt_def = Def_port 80, defaultEmpty = False\<rparr>]\<rparr>]"

definition small_store :: cfg_store where
  "small_store = \<lparr>cfg_vars = (\<lambda>i. if i = 0 then Var_string [0, 0, 0, 0] else Var_port 0), cfg_given = (\<lambda>g. False)\<rparr>"

theorem cfg_read_keeps_types_witness:
  "case CFG_readFile (\<lambda>t. Double_bits 0) True small_table
      (Some [91, 83, 93, 10, 104, 61, 97, 98, 99, 100, 101, 10, 112, 61, 55, 48, 48, 48, 48, 10, 255, 61])
      \<lparr>bufferInput = 0, bufferSize = 0, bufferLine = 0, sectionState = SECTION_STATE_UNKNOWN, sectionName = 0, sectionNameLen = 0\<rparr>
      small_store of
      Inl f \<Rightarrow> f = Out_of_bounds
    | Inr (ok, q, st') \<Rightarrow> store_ok (all_options small_table) st'"
  by (rule cfg_read_keeps_types)
    (simp_all add: table_ok_def store_ok_def all_options_def small_table_def small_store_def default_ok_def
      var_ok_def fixes_ok_def)

end
