(* ===== verification/Util_Cfg_Lines.thy ===== *)
theory Util_Cfg_Lines
  imports Util_Cfg_Read
begin

text \<open>
  What a configuration file means, line by line, and that the parser reads it so: blank lines,
  comments, section headers and settings with white space around the equal sign, each line ending
  with a newline or with carriage return and newline.
\<close>

section \<open>Lines\<close>

datatype cfg_line = Blank bool | Comment u8 "u8 list" | Header "u8 list" bool
  | Setting "u8 list" "u8 list" "u8 list" "u8 list" bool

definition eol :: "bool \<Rightarrow> u8 list" where "eol cr = (if cr then [13, 10] else [10])"

fun render :: "cfg_line \<Rightarrow> u8 list" where
  "render (Blank cr) = eol cr"
| "render (Comment c remark) = c # remark @ [10]"
| "render (Header name cr) = 91 # name @ 93 # eol cr"
| "render (Setting key sp1 sp2 val cr) = key @ sp1 @ 61 # sp2 @ val @ eol cr"

definition blanks :: "u8 list \<Rightarrow> bool" where
  "blanks sp \<longleftrightarrow> (\<forall>c\<in>set sp. is_space c \<and> c \<noteq> 10)"

text \<open>A value as it stands in a file: its white space at the start and a carriage return at its end
  would be taken away.\<close>

definition plain_value :: "u8 list \<Rightarrow> bool" where
  "plain_value val \<longleftrightarrow> 10 \<notin> set val \<and> (val = [] \<or> \<not> is_space (hd val) \<and> last val \<noteq> 13)"

definition plain_key :: "u8 list \<Rightarrow> bool" where
  "plain_key key \<longleftrightarrow> key \<noteq> [] \<and> hd key \<notin> {91, 13, 10, 59, 35} \<and> 10 \<notin> set key \<and> 61 \<notin> set key \<and> \<not> is_space (last key)"

fun line_ok :: "cfg_line \<Rightarrow> bool" where
  "line_ok (Blank cr) = True"
| "line_ok (Comment c remark) = (c \<in> {59, 35} \<and> 10 \<notin> set remark)"
| "line_ok (Header name cr) = (10 \<notin> set name \<and> 93 \<notin> set name)"
| "line_ok (Setting key sp1 sp2 val cr) =
    (plain_key key \<and> blanks sp1 \<and> blanks sp2 \<and> plain_value val \<and> (val = [] \<longrightarrow> \<not> cr \<and> 13 \<notin> set sp2))"

section \<open>Meaning\<close>

fun lookup_option :: "CFG_Section list \<Rightarrow> u8 list \<Rightarrow> u8 list \<Rightarrow> CFG_Option option" where
  "lookup_option [] sec key = None"
| "lookup_option (sect # ss) sec key =
    (if \<not> strcaseeq (sect_name sect) sec then lookup_option ss sec key
     else case List.find (\<lambda>opt. strcaseeq (opt_name opt) key) (sect_options sect) of
         Some opt \<Rightarrow> Some opt
       | None \<Rightarrow> lookup_option ss sec key)"

text \<open>The section a line belongs to (\<open>None\<close> in no section that exists) and the variables.\<close>

fun exec_line :: "(u8 list \<Rightarrow> ieee_double) \<Rightarrow> bool \<Rightarrow> CFG_Section list \<Rightarrow> cfg_line \<Rightarrow> u8 list option \<Rightarrow> cfg_store \<Rightarrow>
    fault + (u8 list option \<times> cfg_store)" where
  "exec_line strtod d ss (Header name cr) cur st =
    Ok (if list_ex (\<lambda>s. strcaseeq (sect_name s) name) ss then Some name else None, st)"
| "exec_line strtod d ss (Setting key sp1 sp2 val cr) cur st =
    (case cur of None \<Rightarrow> Ok (cur, st)
     | Some sec \<Rightarrow> (case lookup_option ss sec key of None \<Rightarrow> Ok (cur, st)
         | Some opt \<Rightarrow> bind_ok (assign_line strtod d opt val (of_nat (length val)) st) (\<lambda>(ok, st). Ok (cur, st))))"
| "exec_line strtod d ss line cur st = Ok (cur, st)"

fun exec_lines :: "(u8 list \<Rightarrow> ieee_double) \<Rightarrow> bool \<Rightarrow> CFG_Section list \<Rightarrow> cfg_line list \<Rightarrow> u8 list option \<Rightarrow> cfg_store \<Rightarrow>
    fault + (u8 list option \<times> cfg_store)" where
  "exec_lines strtod d ss [] cur st = Ok (cur, st)"
| "exec_lines strtod d ss (l # ls) cur st =
    bind_ok (exec_line strtod d ss l cur st) (\<lambda>(cur, st). exec_lines strtod d ss ls cur st)"

lemma exec_lines_append:
  "exec_lines strtod d ss (ls @ ls') cur st =
    bind_ok (exec_lines strtod d ss ls cur st) (\<lambda>(cur, st). exec_lines strtod d ss ls' cur st)"
proof (induction ls arbitrary: cur st)
  case (Cons l ls)
  then show ?case by (cases "exec_line strtod d ss l cur st") (simp_all add: case_prod_beta)
qed simp

section \<open>Strings with a length\<close>

lemma strcaseeq_length: "strcaseeq s t \<Longrightarrow> length s = length t"
  unfolding strcaseeq_def by (metis length_map)

lemma isSame_exact:
  "length t < 2 ^ 64 \<Longrightarrow> isSame s (t @ rest) (of_nat (length t)) \<longleftrightarrow> strcaseeq s t"
  using strcaseeq_length [of s t] by (auto simp: isSame_def unat_of_nat_small)

lemma number_string_exact:
  "length v < 2 ^ 64 \<Longrightarrow> number_string cap (v @ rest) (of_nat (length v)) = number_string cap v (of_nat (length v))"
  by (simp add: number_string_def unat_of_nat_small)

lemma parseBool_exact:
  "length v < 2 ^ 64 \<Longrightarrow> parseBool (v @ rest) (of_nat (length v)) = parseBool v (of_nat (length v))"
  using isSame_exact [of v _ rest] isSame_exact [of v _ "[]"] by (simp add: parseBool_def unat_of_nat_small)

lemma parseString_exact:
  "length v < 2 ^ 64 \<Longrightarrow> parseString (v @ rest) (of_nat (length v)) str sz = parseString v (of_nat (length v)) str sz"
  by (simp add: parseString_def unat_of_nat_small cong: if_cong)

lemma assignOptionFromString_exact:
  "length v < 2 ^ 64 \<Longrightarrow>
    assignOptionFromString strtod opt (v @ rest) (of_nat (length v)) st
    = assignOptionFromString strtod opt v (of_nat (length v)) st"
  by (simp add: assignOptionFromString_def parseInt_def parsePort_def parseDouble_def
      number_string_exact parseBool_exact parseString_exact split: CFG_VALUE_TYPE.split)

lemma assign_line_exact:
  "length v < 2 ^ 64 \<Longrightarrow>
    assign_line strtod d opt (v @ rest) (of_nat (length v)) st = assign_line strtod d opt v (of_nat (length v)) st"
  by (simp add: assign_line_def assignOptionFromString_exact)

lemma getOption_exact:
  assumes "length sec < 2 ^ 64" "length key < 2 ^ 64"
  shows "getOption ss (sec @ r1) (of_nat (length sec)) (key @ r2) (of_nat (length key)) = lookup_option ss sec key"
  by (induction ss) (simp_all add: isSame_exact [OF assms(1)] isSame_exact [OF assms(2)] split: option.split)

section \<open>The parser at a place of the file\<close>

definition cfg_at :: "u8 list \<Rightarrow> cfg_parser \<Rightarrow> u8 list \<Rightarrow> u8 list \<Rightarrow> bool" where
  "cfg_at inp p pre rest \<longleftrightarrow> inp = pre @ rest \<and> bufferInput p = length pre \<and> bufferSize p = length rest"

definition section_at :: "u8 list \<Rightarrow> cfg_parser \<Rightarrow> u8 list option \<Rightarrow> bool" where
  "section_at inp p cur \<longleftrightarrow>
    (case cur of None \<Rightarrow> sectionState p \<noteq> SECTION_STATE_VALID
     | Some sec \<Rightarrow> sectionState p = SECTION_STATE_VALID \<and> sectionNameLen p = of_nat (length sec)
         \<and> (\<exists>rest. drop (sectionName p) inp = sec @ rest))"

lemma cfg_find_at: "cfg_at inp p pre (a @ c # b) \<Longrightarrow> c \<notin> set a \<Longrightarrow> cfg_find inp p c = Some (length pre + length a)"
  by (simp add: cfg_at_def cfg_find_def memchr_append_hit)

lemma cfg_line_end_at:
  "cfg_at inp p pre (a @ 10 # b) \<Longrightarrow> 10 \<notin> set a \<Longrightarrow> cfg_line_end inp p = length pre + length a"
  by (simp add: cfg_line_end_def cfg_find_at)

lemma cfg_advance_at:
  "cfg_at inp p pre (a @ x # b) \<Longrightarrow> cfg_at inp (cfg_advance (length pre + length a) p) (pre @ a @ [x]) b"
  by (simp add: cfg_at_def cfg_advance_def)

lemma next_line_at [simp]: "cfg_at inp (next_line p) pre rest \<longleftrightarrow> cfg_at inp p pre rest"
  "section_at inp (next_line p) cur \<longleftrightarrow> section_at inp p cur"
  by (simp_all add: cfg_at_def section_at_def next_line_def split: option.split)

lemma cfg_advance_section [simp]: "section_at inp (cfg_advance n p) cur \<longleftrightarrow> section_at inp p cur"
  by (simp add: section_at_def cfg_advance_def split: option.split)

lemma cfg_advance_fields [simp]: "sectionState (cfg_advance n p) = sectionState p"
  "sectionName (cfg_advance n p) = sectionName p" "sectionNameLen (cfg_advance n p) = sectionNameLen p"
  by (simp_all add: cfg_advance_def)

lemma parseSection_at:
  assumes "cfg_at inp p pre (91 # name @ 93 # eol cr @ rest)" and "10 \<notin> set name" "93 \<notin> set name"
    and "length inp < 2 ^ 63" and "parseSection ss inp p = (s, q)"
  shows "s \<noteq> SECTION_STATE_UNRECOVERABLE \<and> cfg_at inp (q\<lparr>sectionState := s\<rparr>) (pre @ render (Header name cr)) rest
    \<and> section_at inp (q\<lparr>sectionState := s\<rparr>)
        (if list_ex (\<lambda>s. strcaseeq (sect_name s) name) ss then Some name else None)"
proof -
  define a where "a = 91 # name @ 93 # (if cr then [13] else [])"
  have at: "cfg_at inp p pre (a @ 10 # rest)" using assms(1) by (cases cr) (simp_all add: a_def eol_def)
  have n: "cfg_line_end inp p = length pre + length a" using cfg_line_end_at [OF at] assms(2) by (simp add: a_def)
  have c: "cfg_find inp p 93 = Some (length pre + length (91 # name))"
    by (rule cfg_find_at [where b = "eol cr @ rest"]) (use assms(1,3) in simp_all)
  have inp: "inp = pre @ a @ 10 # rest" and off: "bufferInput p = length pre" using at by (auto simp: cfg_at_def)
  have buf: "drop (bufferInput p + 1) inp = name @ 93 # eol cr @ rest" using assms(1) by (simp add: cfg_at_def)
  have len: "length name < 2 ^ 64" using assms(4) inp by (simp add: a_def)
  have cr: "cr \<Longrightarrow> inp ! (length pre + length a - 1) = 13" by (simp add: inp a_def nth_append)
  have same: "isSame (sect_name x) (drop (bufferInput p + 1) inp) (of_nat (length name)) = strcaseeq (sect_name x) name" for x
    unfolding buf by (rule isSame_exact [OF len])
  have nl: "cfg_at inp (next_line (cfg_advance (length pre + length a) p)) (pre @ a @ [10]) rest"
    using cfg_advance_at [OF at] by simp
  have pre: "pre @ a @ [10] = pre @ render (Header name cr)" by (simp add: a_def eol_def)
  have arith: "\<not> length pre + length a < length pre + length (91 # name)"
    "length pre + length (91 # name) - bufferInput p - 1 = length name"
    "(length pre + length (91 # name) + 1 \<noteq> length pre + length a) = cr"
    "(length pre + length (91 # name) + 2 \<noteq> length pre + length a) = (\<not> cr)"
    by (auto simp: a_def off)
  have "parseSection ss inp p =
    (let p' = next_line (cfg_advance (length pre + length a) p)
     in if \<not> list_ex (\<lambda>s. strcaseeq (sect_name s) name) ss then (SECTION_STATE_UNKNOWN, p')
        else (SECTION_STATE_VALID, p'\<lparr>sectionName := bufferInput p + 1, sectionNameLen := of_nat (length name)\<rparr>))"
    unfolding parseSection_def Let_def n c option.case arith same
    using cr arith(1) by (simp add: a_def)
  then show ?thesis
    using assms(5) nl buf unfolding pre [symmetric]
    by (cases "list_ex (\<lambda>s. strcaseeq (sect_name s) name) ss")
      (auto simp: Let_def cfg_at_def section_at_def)
qed

lemma skipComment_at:
  assumes "cfg_at inp p pre (render (Comment c remark) @ rest)" and "c \<in> {59, 35}" "10 \<notin> set remark"
  shows "cfg_at inp (skipComment inp p) (pre @ render (Comment c remark)) rest"
    and "section_at inp (skipComment inp p) cur = section_at inp p cur"
proof -
  have at: "cfg_at inp p pre ((c # remark) @ 10 # rest)" using assms(1) by simp
  have "cfg_line_end inp p = length pre + length (c # remark)" using cfg_line_end_at [OF at] assms(2,3) by auto
  then show "cfg_at inp (skipComment inp p) (pre @ render (Comment c remark)) rest"
    "section_at inp (skipComment inp p) cur = section_at inp p cur"
    using cfg_advance_at [OF at] by (simp_all add: skipComment_def)
qed

section \<open>Settings\<close>

lemma key_end_at:
  assumes "key \<noteq> []" and "\<not> is_space (last key)" and "\<forall>c\<in>set sp. is_space c"
  shows "key_end (pre @ key @ sp @ rest) (length pre) (length pre + length key + length sp) = length pre + length key"
  using assms(3)
proof (induction sp arbitrary: rest rule: rev_induct)
  case Nil
  obtain ks k where key: "key = ks @ [k]" using assms(1) by (cases key rule: rev_cases) auto
  have "(pre @ (ks @ [k]) @ rest) ! (length pre + length ks) = k" by (simp add: nth_append)
  then show ?case using assms(2) key by simp
next
  case (snoc c sp)
  have "(pre @ key @ (sp @ [c]) @ rest) ! (length pre + length key + length sp) = c"
    by (simp add: nth_append)
  moreover have "length pre < length pre + length key + length sp" using assms(1) by simp
  ultimately show ?case using snoc.IH [of "c # rest"] snoc.prems by simp
qed

lemma value_start_at:
  assumes "\<forall>c\<in>set sp. is_space c" and "length pre + length sp \<le> n"
    and "length pre + length sp < n \<Longrightarrow> rest \<noteq> [] \<and> \<not> is_space (hd rest)"
  shows "value_start (pre @ sp @ rest) n (length pre) = length pre + length sp"
  using assms
proof (induction sp arbitrary: pre)
  case Nil
  then show ?case by (subst value_start.simps) (auto simp: nth_append hd_conv_nth)
next
  case (Cons c sp)
  have "value_start (pre @ (c # sp) @ rest) n (length pre) = value_start ((pre @ [c]) @ sp @ rest) n (length (pre @ [c]))"
    using Cons.prems by (subst value_start.simps) simp
  then show ?case using Cons.IH [of "pre @ [c]"] Cons.prems by simp
qed

lemma value_length_at:
  assumes inp: "inp = a @ val @ eol cr @ rest" and len: "length inp < 2 ^ 63" and "a \<noteq> []"
    and "plain_value val" and "val = [] \<Longrightarrow> \<not> cr \<and> last a \<noteq> 13"
  shows "value_length inp (length a + length val + of_bool cr) (length a) = Some (of_nat (length val))"
proof -
  let ?k = "length val + of_bool cr"
  have k: "(of_nat (length a + length val + of_bool cr) :: size_t) - of_nat (length a) = of_nat ?k" by simp
  have bound: "length a + ?k < length inp" using inp by (cases cr) (simp_all add: eol_def)
  have "(of_nat (length a) :: size_t) + (of_nat ?k - 1) = of_nat (length a + ?k - 1)"
    using \<open>a \<noteq> []\<close> by (simp add: of_nat_diff Suc_le_eq)
  then have lst: "unat ((of_nat (length a) :: size_t) + (of_nat ?k - 1)) = length a + ?k - 1"
    using bound len unat_of_nat_small [of "length a + ?k - 1", where 'a = 64] by simp
  have at: "inp ! (length a + ?k - 1) = (if cr then 13 else if val = [] then last a else last val)"
  proof (cases cr)
    case True
    then show ?thesis by (simp add: inp eol_def nth_append)
  next
    case False
    then show ?thesis
      using \<open>a \<noteq> []\<close> by (cases val rule: rev_cases; cases a rule: rev_cases) (simp_all add: inp nth_append)
  qed
  have "inp ! (length a + ?k - 1) = 13 \<longleftrightarrow> cr" using at assms(4,5) by (auto simp: plain_value_def)
  moreover have "length a + ?k - 1 < length inp" using bound by linarith
  ultimately show ?thesis
    unfolding value_length_def Let_def k lst by auto
qed

lemma parseOption_at:
  assumes at: "cfg_at inp p pre (render (Setting key sp1 sp2 val cr) @ rest)" and ok: "line_ok (Setting key sp1 sp2 val cr)"
    and len: "length inp < 2 ^ 63" and cur: "section_at inp p cur"
  shows "(\<exists>f. parseOption strtod d ss inp p st = Fault f \<and> exec_line strtod d ss (Setting key sp1 sp2 val cr) cur st = Fault f)
    \<or> (\<exists>ok q st'. parseOption strtod d ss inp p st = Ok (ok, q, st')
        \<and> exec_line strtod d ss (Setting key sp1 sp2 val cr) cur st = Ok (cur, st')
        \<and> cfg_at inp q (pre @ render (Setting key sp1 sp2 val cr)) rest \<and> section_at inp q cur)"
proof -
  let ?line = "key @ sp1 @ 61 # sp2 @ val @ (if cr then [13] else [])"
  let ?a = "pre @ key @ sp1 @ 61 # sp2"
  define n where "n = length pre + length ?line"
  define q where "q = cfg_advance n p"
  have at': "cfg_at inp p pre (?line @ 10 # rest)" using at by (cases cr) (simp_all add: eol_def)
  have sp: "10 \<notin> set sp1" "10 \<notin> set sp2" "61 \<notin> set sp1" "\<forall>c\<in>set sp1. is_space c" "\<forall>c\<in>set sp2. is_space c"
    using ok by (auto simp: blanks_def is_space_def)
  have inp: "inp = ?a @ val @ eol cr @ rest" and key: "key \<noteq> []" "10 \<notin> set key" "61 \<notin> set key" "\<not> is_space (last key)"
    and off: "bufferInput p = length pre"
    using at ok by (auto simp: cfg_at_def plain_key_def)
  have e: "cfg_find inp p 61 = Some (length pre + length (key @ sp1))"
    by (rule cfg_find_at [where b = "sp2 @ val @ eol cr @ rest"]) (use at key(3) sp(3) in simp_all)
  have n: "cfg_line_end inp p = n"
    unfolding n_def by (rule cfg_line_end_at [OF at']) (use ok key(2) sp in \<open>auto simp: plain_value_def\<close>)
  have q: "cfg_at inp q (pre @ render (Setting key sp1 sp2 val cr)) rest"
    using cfg_advance_at [OF at'] by (cases cr) (simp_all add: q_def n_def eol_def)
  have qs: "section_at inp q cur" using cur by (simp add: q_def)
  have ne: "\<not> n < length pre + length (key @ sp1)" by (simp add: n_def)
  have n_alt: "n = length ?a + length val + of_bool cr" by (simp add: n_def)
  have ke: "key_end inp (length pre) (length pre + length (key @ sp1)) - length pre = length key"
    using key_end_at [OF key(1,4) sp(4), of pre "61 # sp2 @ val @ eol cr @ rest"] by (simp add: inp add.assoc)
  have vs: "value_start inp n (length pre + length (key @ sp1) + 1) = length ?a"
    using value_start_at [OF sp(5), of "pre @ key @ sp1 @ [61]" n "val @ eol cr @ rest"] ok
    by (cases cr) (auto simp: inp n_def eol_def plain_value_def hd_append split: if_splits)
  have last: "val = [] \<Longrightarrow> \<not> cr \<and> last ?a \<noteq> 13" and plain: "plain_value val"
    using ok by (cases sp2 rule: rev_cases; auto)+
  have vl: "value_length inp n (length ?a) = Some (of_nat (length val))"
    unfolding n_alt by (rule value_length_at [OF inp len _ plain last]) simp
  have bounds: "length key < 2 ^ 64" "length val < 2 ^ 64" using len by (simp_all add: inp)
  have dv: "drop (length ?a) inp = val @ eol cr @ rest" and dk: "drop (length pre) inp = key @ sp1 @ 61 # sp2 @ val @ eol cr @ rest"
    by (simp_all add: inp)
  note parse = parseOption_def [of strtod d ss inp p st, unfolded Let_def n e option.case, folded q_def,
      unfolded off ke vs vl option.case dv dk assign_line_exact [OF bounds(2)]]
  have qn: "cfg_at inp (next_line q) (pre @ render (Setting key sp1 sp2 val cr)) rest" "section_at inp (next_line q) cur"
    using q qs by simp_all
  show ?thesis
  proof (cases cur)
    case None
    then show ?thesis using qs ne qn by (auto simp: parse section_at_def)
  next
    case (Some sec)
    then obtain r where r: "sectionState q = SECTION_STATE_VALID" "sectionNameLen q = of_nat (length sec)"
      "drop (sectionName q) inp = sec @ r" using qs by (auto simp: section_at_def)
    have "length sec \<le> length inp" using r(3) by (metis length_append length_drop diff_le_self le_add1 le_trans)
    then have "length sec < 2 ^ 64" using len by simp
    note get = getOption_exact [OF this bounds(1), of ss r]
    show ?thesis
    proof (cases "lookup_option ss sec key")
      case None
      then show ?thesis using Some r ne qn by (auto simp: parse get)
    next
      case opt: (Some opt)
      show ?thesis
      proof (cases "assign_line strtod d opt val (of_nat (length val)) st")
        case (Inl f)
        then show ?thesis using Some r ne opt by (simp add: parse get)
      next
        case (Inr x)
        then show ?thesis using Some r ne opt q qs qn by (cases x) (auto simp: parse get)
      qed
    qed
  qed
qed

section \<open>Whole files\<close>

lemma read_loop_head:
  assumes "cfg_at inp p pre (c # rest)"
  shows "bufferSize p \<noteq> 0" "inp ! bufferInput p = c"
    "cfg_at inp (p\<lparr>bufferInput := bufferInput p + 1, bufferSize := bufferSize p - 1\<rparr>) (pre @ [c]) rest"
  using assms by (auto simp: cfg_at_def)

lemma section_at_move [simp]:
  "section_at inp (p\<lparr>bufferInput := i, bufferSize := k\<rparr>) cur \<longleftrightarrow> section_at inp p cur"
  by (simp add: section_at_def split: option.split)

lemma read_newline:
  assumes "cfg_at inp p pre (eol cr @ rest)" and "section_at inp p cur"
  shows "\<exists>q. read_loop strtod d ss inp p st = read_loop strtod d ss inp q st
    \<and> cfg_at inp q (pre @ eol cr) rest \<and> section_at inp q cur"
proof -
  have nl: "\<exists>q. read_loop strtod d ss inp p st = read_loop strtod d ss inp q st
      \<and> cfg_at inp q (pre @ [10]) rest \<and> section_at inp q cur"
    if "cfg_at inp p pre (10 # rest)" "section_at inp p cur" for p pre
    using read_loop_head [OF that(1)] that(2) by (subst read_loop.simps) (auto simp: Let_def)
  show ?thesis
  proof (cases cr)
    case False
    then show ?thesis using nl [of p pre] assms by (simp add: eol_def)
  next
    case True
    let ?q = "p\<lparr>bufferInput := bufferInput p + 1, bufferSize := bufferSize p - 1\<rparr>"
    have at: "cfg_at inp p pre (13 # 10 # rest)" using assms(1) True by (simp add: eol_def)
    have "read_loop strtod d ss inp p st = read_loop strtod d ss inp ?q st"
      using read_loop_head(1,2) [OF at] by (subst read_loop.simps) (simp add: Let_def)
    then show ?thesis using nl [of ?q "pre @ [13]"] read_loop_head(3) [OF at] assms(2) True by (simp add: eol_def)
  qed
qed

lemma read_step:
  assumes at: "cfg_at inp p pre (render l @ rest)" and ok: "line_ok l"
    and len: "length inp < 2 ^ 63" and cur: "section_at inp p cur"
  shows "(\<exists>f. read_loop strtod d ss inp p st = Fault f \<and> exec_line strtod d ss l cur st = Fault f)
    \<or> (\<exists>q cur' st'. read_loop strtod d ss inp p st = read_loop strtod d ss inp q st'
        \<and> exec_line strtod d ss l cur st = Ok (cur', st') \<and> cfg_at inp q (pre @ render l) rest \<and> section_at inp q cur')"
proof (cases l)
  case (Blank cr)
  then show ?thesis using read_newline [of inp p pre cr rest cur] at cur by auto
next
  case (Comment c remark)
  have c: "c \<in> {59, 35}" using ok Comment by simp
  have "cfg_at inp p pre (c # remark @ [10] @ rest)" using at Comment by simp
  note head = read_loop_head [OF this]
  have "read_loop strtod d ss inp p st = read_loop strtod d ss inp (skipComment inp p) st"
    using head(1,2) c by (subst read_loop.simps) (auto simp: Let_def)
  then show ?thesis using skipComment_at [of inp p pre c remark rest] at ok cur Comment by auto
next
  case (Header name cr)
  have at': "cfg_at inp p pre (91 # name @ 93 # eol cr @ rest)" using at Header by simp
  obtain s q where q: "parseSection ss inp p = (s, q)" by fastforce
  note pq = parseSection_at [OF at' _ _ len q]
  have "read_loop strtod d ss inp p st = read_loop strtod d ss inp (q\<lparr>sectionState := s\<rparr>) st"
    using read_loop_head(1,2) [OF at'] pq ok Header q by (subst read_loop.simps) (simp add: Let_def)
  then show ?thesis using pq ok Header by auto
next
  case (Setting key sp1 sp2 val cr)
  obtain k ks where k: "key = k # ks" "k \<noteq> 91" "k \<noteq> 13" "k \<noteq> 10" "k \<noteq> 59" "k \<noteq> 35"
    using ok Setting by (cases key) (auto simp: plain_key_def)
  have "cfg_at inp p pre (k # ks @ sp1 @ 61 # sp2 @ val @ eol cr @ rest)" using at Setting k by simp
  note head = read_loop_head [OF this]
  have step: "read_loop strtod d ss inp p st = (case parseOption strtod d ss inp p st of
      Inl f \<Rightarrow> Inl f | Inr (ok, q, st) \<Rightarrow> read_loop strtod d ss inp q st)"
    using head(1,2) k by (subst read_loop.simps) (simp add: Let_def)
  show ?thesis
    using parseOption_at [of inp p pre key sp1 sp2 val cr rest cur strtod d ss st] at ok len cur Setting
    by (auto simp: step)
qed

lemma read_lines:
  assumes "cfg_at inp p pre (concat (map render ls))" and "\<forall>l\<in>set ls. line_ok l"
    and len: "length inp < 2 ^ 63" and "section_at inp p cur"
  shows "(\<exists>f. read_loop strtod d ss inp p st = Fault f \<and> exec_lines strtod d ss ls cur st = Fault f)
    \<or> (\<exists>q cur' st'. read_loop strtod d ss inp p st = Ok (True, q, st') \<and> exec_lines strtod d ss ls cur st = Ok (cur', st'))"
  using assms(1,2,4)
proof (induction ls arbitrary: p pre cur st)
  case Nil
  then have "bufferSize p = 0" by (simp add: cfg_at_def)
  then show ?case by (simp add: read_loop.simps [of strtod d ss inp p])
next
  case (Cons l ls)
  have at: "cfg_at inp p pre (render l @ concat (map render ls))" and ok: "line_ok l" using Cons.prems by simp_all
  consider (fault) f where "read_loop strtod d ss inp p st = Fault f" "exec_line strtod d ss l cur st = Fault f"
    | (go) q cur' st' where "read_loop strtod d ss inp p st = read_loop strtod d ss inp q st'"
      "exec_line strtod d ss l cur st = Ok (cur', st')" "cfg_at inp q (pre @ render l) (concat (map render ls))"
      "section_at inp q cur'"
    using read_step [OF at ok len Cons.prems(3), of strtod d ss st] by blast
  then show ?case
  proof cases
    case fault
    then show ?thesis by simp
  next
    case go
    then show ?thesis using Cons.IH [OF go(3) _ go(4), of st'] Cons.prems(2) by simp
  qed
qed

lemma cfg_file_lines:
  assumes "\<forall>l\<in>set ls. line_ok l" and "length (concat (map render ls)) < 2 ^ 63"
  shows "bind_ok (CFG_readFile strtod d ss (Some (concat (map render ls))) p st) (\<lambda>(ok, p, st). Ok (ok, st))
    = bind_ok (exec_lines strtod d ss ls None st) (\<lambda>(cur, st). bind_ok (fix_all ss st) (\<lambda>st. Ok (True, st)))"
proof -
  let ?p = "p\<lparr>bufferInput := 0, bufferSize := length (concat (map render ls)), bufferLine := 1,
    sectionState := SECTION_STATE_UNKNOWN\<rparr>"
  have "cfg_at (concat (map render ls)) ?p [] (concat (map render ls))" "section_at (concat (map render ls)) ?p None"
    by (simp_all add: cfg_at_def section_at_def)
  from read_lines [OF this(1) assms this(2), of strtod d ss st] show ?thesis
    by (cases "fix_all ss (snd (projr (exec_lines strtod d ss ls None st)))")
      (auto simp: CFG_readFile_def readCfg_def)
qed

text \<open>Without the use of defaults a value that cannot be parsed should make the reading fail
  (the comment of \<open>CFG_readFile\<close>): the settings of known options that stand in the lines, each with the
  variables the lines before it leave, are parsed.\<close>

fun setting_parsed :: "(u8 list \<Rightarrow> ieee_double) \<Rightarrow> CFG_Section list \<Rightarrow> cfg_line \<Rightarrow> u8 list option \<Rightarrow> cfg_store \<Rightarrow> bool" where
  "setting_parsed strtod ss (Setting key sp1 sp2 val cr) (Some sec) st =
    (case lookup_option ss sec key of None \<Rightarrow> True
     | Some opt \<Rightarrow> (case assign_line strtod False opt val (of_nat (length val)) st of
         Inl f \<Rightarrow> True | Inr (ok, st') \<Rightarrow> ok))"
| "setting_parsed strtod ss l cur st = True"

fun all_parsed :: "(u8 list \<Rightarrow> ieee_double) \<Rightarrow> CFG_Section list \<Rightarrow> cfg_line list \<Rightarrow> u8 list option \<Rightarrow> cfg_store \<Rightarrow> bool" where
  "all_parsed strtod ss [] cur st = True"
| "all_parsed strtod ss (l # ls) cur st =
    (setting_parsed strtod ss l cur st \<and>
     (case exec_line strtod False ss l cur st of Inl f \<Rightarrow> True
      | Inr (cur', st') \<Rightarrow> all_parsed strtod ss ls cur' st'))"

text \<open>The comment of \<open>CFG_readFile\<close> promises a failure for a value that cannot be parsed when no default
  is to be used. The code reports success and leaves the variable as it was: \<open>readCfg\<close> drops the
  result of \<open>parseOption\<close>.\<close>

lemma assign_unparsed:
  "assignOptionFromString strtod opt val n st = Ok (False, st') \<Longrightarrow> st' = st"
  by (auto simp: assignOptionFromString_def assign_parsed_def bind_ok_def
      split: CFG_VALUE_TYPE.splits sum.splits option.splits)

lemma cfg_unparsed_value_ignored:
  assumes "line_ok (Header name cr)" "line_ok (Setting key sp1 sp2 val cr)" and "val \<noteq> []"
    and "length (concat (map render [Header name cr, Setting key sp1 sp2 val cr])) < 2 ^ 63"
    and "list_ex (\<lambda>s. strcaseeq (sect_name s) name) ss" and "lookup_option ss name key = Some opt"
    and bad: "assignOptionFromString strtod opt val (of_nat (length val)) st = Ok (False, st')"
  shows "bind_ok (CFG_readFile strtod False ss (Some (concat (map render [Header name cr, Setting key sp1 sp2 val cr]))) p st)
      (\<lambda>(ok, p, st). Ok (ok, st))
    = bind_ok (fix_all ss st) (\<lambda>st. Ok (True, st))"
proof -
  have "length val < 2 ^ 64" using assms(4) by simp
  then have "(of_nat (length val) :: size_t) \<noteq> 0"
    using assms(3) by (simp add: of_nat_eq_0_iff_small)
  then have "assign_line strtod False opt val (of_nat (length val)) st = Ok (False, st)"
    using bad assign_unparsed [OF bad] by (simp add: assign_line_def)
  then have "exec_lines strtod False ss [Header name cr, Setting key sp1 sp2 val cr] None st = Ok (Some name, st)"
    using assms(5,6) by simp
  moreover have "\<forall>l\<in>set [Header name cr, Setting key sp1 sp2 val cr]. line_ok l" using assms(1,2) by simp
  ultimately show ?thesis
    using cfg_file_lines [OF _ assms(4), of strtod False ss p st] by (simp del: exec_lines.simps)
qed

text \<open>C6: a configuration file of well-formed lines in which every value of a known option can be
  parsed (or defaults are used for those that cannot) is read line by line: its settings are assigned,
  in order, to the options of the sections they stand in, unknown sections and options are skipped,
  the callbacks of the sections run at the end, and the reading succeeds.\<close>

theorem cfg_reads_lines:
  assumes "\<forall>l\<in>set ls. line_ok l" and "length (concat (map render ls)) < 2 ^ 63"
    and "d \<or> all_parsed strtod ss ls None st"
  shows "bind_ok (CFG_readFile strtod d ss (Some (concat (map render ls))) p st) (\<lambda>(ok, p, st). Ok (ok, st))
    = bind_ok (exec_lines strtod d ss ls None st) (\<lambda>(cur, st). bind_ok (fix_all ss st) (\<lambda>st. Ok (True, st)))"
  by (rule cfg_file_lines [OF assms(1,2)])

text \<open>Two options in the section \<open>NET\<close>, and a file with a comment, a header in other case, a
  hexadecimal number, an unknown option, and the option's name again in an unknown section.\<close>

definition sample_options :: "CFG_Option list" where
  "sample_options =
    [\<lparr>opt_name = [97], opt_type = CFG_VALUE_TYPE_INT, opt_var = 0, opt_given = Some 0, opt_maxlen = 0,
       opt_def = Def_integer 7, defaultEmpty = False\<rparr>,
     \<lparr>opt_name = [98], opt_type = CFG_VALUE_TYPE_BOOL, opt_var = 1, opt_given = None, opt_maxlen = 0,
       opt_def = Def_boolean True, defaultEmpty = False\<rparr>]"

definition sample_sections :: "CFG_Section list" where
  "sample_sections = [\<lparr>sect_name = [78, 69, 84], sect_fix = None, sect_check = None, sect_options = sample_options\<rparr>]"

definition sample_store :: cfg_store where
  "sample_store = \<lparr>cfg_vars = (\<lambda>i. if i = 0 then Var_integer 0 else Var_boolean True), cfg_given = (\<lambda>g. False)\<rparr>"

definition start_parser :: cfg_parser where
  "start_parser = \<lparr>bufferInput = 0, bufferSize = 0, bufferLine = 0, sectionState = SECTION_STATE_UNKNOWN,
     sectionName = 0, sectionNameLen = 0\<rparr>"

definition sample_lines :: "cfg_line list" where
  "sample_lines = [Comment 35 [97, 61, 49], Header [110, 101, 116] True, Setting [65] [32] [32] [48, 120, 49, 48] True,
     Setting [113] [] [] [49] False, Setting [98] [] [9] [70, 65, 76, 83, 69] False, Header [122] False,
     Setting [97] [] [] [53] False]"

lemma sample_values:
  "parseInt [48, 120, 49, 48] 4 = Ok (Some 16)" "parseBool [70, 65, 76, 83, 69] 5 = Ok (Some False)"
  by (simp_all add: parseInt_def number_string_def strtoul0_def number_value_def digit_of_def is_space_def
      parseBool_def isSame_def strcaseeq_def to_lower_def str_true_def str_false_def)

theorem cfg_reads_lines_witness:
  "\<exists>st'. bind_ok (CFG_readFile (\<lambda>t. Double_bits 0) False sample_sections
      (Some [35, 97, 61, 49, 10, 91, 110, 101, 116, 93, 13, 10, 65, 32, 61, 32, 48, 120, 49, 48, 13, 10, 113, 61, 49, 10,
        98, 61, 9, 70, 65, 76, 83, 69, 10, 91, 122, 93, 10, 97, 61, 53, 10]) start_parser sample_store) (\<lambda>(ok, p, st). Ok (ok, st))
    = Ok (True, st') \<and> cfg_vars st' 0 = Var_integer 16 \<and> cfg_vars st' 1 = Var_boolean False \<and> cfg_given st' 0"
proof -
  have ok: "\<forall>l\<in>set sample_lines. line_ok l"
    by (simp add: sample_lines_def plain_key_def blanks_def plain_value_def is_space_def)
  have bytes: "concat (map render sample_lines) = [35, 97, 61, 49, 10, 91, 110, 101, 116, 93, 13, 10, 65, 32, 61, 32, 48, 120,
      49, 48, 13, 10, 113, 61, 49, 10, 98, 61, 9, 70, 65, 76, 83, 69, 10, 91, 122, 93, 10, 97, 61, 53, 10]"
    by (simp add: sample_lines_def eol_def)
  have run: "\<exists>cur st'. exec_lines (\<lambda>t. Double_bits 0) False sample_sections sample_lines None sample_store = Ok (cur, st')
      \<and> cfg_vars st' 0 = Var_integer 16 \<and> cfg_vars st' 1 = Var_boolean False \<and> cfg_given st' 0"
    by (simp add: sample_lines_def sample_sections_def sample_options_def sample_store_def strcaseeq_def to_lower_def
        assign_line_def assignOptionFromString_def assign_parsed_def assign_var_def set_given_def sample_values)
  have parsed: "all_parsed (\<lambda>t. Double_bits 0) sample_sections sample_lines None sample_store"
    by (simp add: sample_lines_def sample_sections_def sample_options_def sample_store_def strcaseeq_def to_lower_def
        assign_line_def assignOptionFromString_def assign_parsed_def assign_var_def set_given_def sample_values)
  show ?thesis
    using cfg_reads_lines [OF ok, of False "\<lambda>t. Double_bits 0" sample_sections sample_store start_parser] run parsed
    by (auto simp: bytes) (simp add: sample_sections_def)
qed

section \<open>Empty numbers\<close>

definition is_number :: "CFG_Option \<Rightarrow> bool" where
  "is_number opt \<longleftrightarrow> opt_type opt = CFG_VALUE_TYPE_INT \<or> opt_type opt = CFG_VALUE_TYPE_PORT
     \<or> opt_type opt = CFG_VALUE_TYPE_DOUBLE"

lemma assign_line_wrapped:
  assumes "is_number opt"
  shows "assign_line strtod d opt val (- 1) st = Fault Out_of_bounds"
proof -
  have "number_string cap val (- 1) = Fault Out_of_bounds" if "cap < 2 ^ 63" for cap
    using that by (simp add: number_string_def unsigned_minus_1_eq_mask mask_eq_exp_minus_1)
  from this [of 20] this [of 60] show ?thesis
    using assms by (auto simp: is_number_def assign_line_def assignOptionFromString_def assign_parsed_def parseInt_def
        parsePort_def parseDouble_def)
qed

lemma parseOption_empty:
  assumes at: "cfg_at inp p pre (key @ 61 # 13 # 10 # rest)" and key: "plain_key key"
    and len: "length inp < 2 ^ 63" and cur: "section_at inp p (Some sec)"
    and opt: "lookup_option ss sec key = Some opt" "is_number opt"
  shows "parseOption strtod d ss inp p st = Fault Out_of_bounds"
proof -
  let ?a = "pre @ key @ [61]"
  define n where "n = length pre + length (key @ [61, 13])"
  define q where "q = cfg_advance n p"
  have at': "cfg_at inp p pre ((key @ [61, 13]) @ 10 # rest)" using at by simp
  have inp: "inp = ?a @ [13] @ 10 # rest" and off: "bufferInput p = length pre" using at by (auto simp: cfg_at_def)
  have k: "key \<noteq> []" "10 \<notin> set key" "61 \<notin> set key" "\<not> is_space (last key)" using key by (simp_all add: plain_key_def)
  have e: "cfg_find inp p 61 = Some (length pre + length key)" by (rule cfg_find_at [OF at k(3)])
  have n: "cfg_line_end inp p = n" unfolding n_def by (rule cfg_line_end_at [OF at']) (use k in simp)
  have ke: "key_end inp (length pre) (length pre + length key) - length pre = length key"
    using key_end_at [OF k(1,4), of "[]" pre "61 # 13 # 10 # rest"] by (simp add: inp)
  have vs: "value_start inp n (length pre + length key + 1) = n"
    using value_start_at [of "[13]" ?a n "10 # rest"] by (simp add: inp n_def is_space_def)
  have nz: "0 < n" "n - 1 < length inp" "inp ! (n - 1) = 13"
    by (simp_all add: n_def inp nth_append)
  have "of_nat n + (of_nat n - of_nat n - 1 :: size_t) = of_nat (n - 1)" using nz(1) by (simp add: of_nat_diff Suc_le_eq)
  then have lst: "unat (of_nat n + (of_nat n - of_nat n - 1 :: size_t)) = n - 1"
    using nz(2) len unat_of_nat_small [of "n - 1", where 'a = 64] by simp
  have vl: "value_length inp n n = Some (- 1)" unfolding value_length_def Let_def lst using nz by simp
  have r: "sectionState q = SECTION_STATE_VALID" "sectionNameLen q = of_nat (length sec)" "\<exists>r. drop (sectionName q) inp = sec @ r"
    using cur by (auto simp: q_def section_at_def)
  then obtain r where r3: "drop (sectionName q) inp = sec @ r" by blast
  have "length sec \<le> length inp" using r3 by (metis length_append length_drop diff_le_self le_add1 le_trans)
  then have sec: "length sec < 2 ^ 64" using len by simp
  have kl: "length key < 2 ^ 64" using len by (simp add: inp)
  have dk: "drop (length pre) inp = key @ 61 # 13 # 10 # rest" by (simp add: inp)
  have ne: "\<not> n < length pre + length key" by (simp add: n_def)
  show ?thesis
    unfolding parseOption_def Let_def n e option.case q_def [symmetric] off ke vs vl r(2) r3 dk getOption_exact [OF sec kl] opt(1)
      assign_line_wrapped [OF opt(2)]
    using ne r(1) by simp
qed

text \<open>An empty number on a line that ends with a carriage return overruns the buffer of the number
  on the stack: the carriage return is skipped as white space of the value and then subtracted
  from its length again.\<close>

theorem cfg_empty_number_overflows:
  assumes "plain_key key" and "10 \<notin> set sec" "93 \<notin> set sec" and "list_ex (\<lambda>s. strcaseeq (sect_name s) sec) ss"
    and "lookup_option ss sec key = Some opt" "is_number opt"
    and "length (render (Header sec cr) @ key @ 61 # 13 # 10 # rest) < 2 ^ 63"
  shows "CFG_readFile strtod d ss (Some (render (Header sec cr) @ key @ 61 # 13 # 10 # rest)) p st = Fault Out_of_bounds"
proof -
  let ?inp = "render (Header sec cr) @ key @ 61 # 13 # 10 # rest"
  let ?p = "p\<lparr>bufferInput := 0, bufferSize := length ?inp, bufferLine := 1, sectionState := SECTION_STATE_UNKNOWN\<rparr>"
  have at: "cfg_at ?inp ?p [] ?inp" "section_at ?inp ?p None" by (simp_all add: cfg_at_def section_at_def)
  have hd: "line_ok (Header sec cr)" using assms(2,3) by simp
  obtain q where q: "read_loop strtod d ss ?inp ?p st = read_loop strtod d ss ?inp q st"
    "cfg_at ?inp q (render (Header sec cr)) (key @ 61 # 13 # 10 # rest)" "section_at ?inp q (Some sec)"
    using read_step [OF at(1) hd assms(7) at(2), of strtod d ss st] assms(4) by auto
  obtain k ks where k: "key = k # ks" "k \<noteq> 91" "k \<noteq> 13" "k \<noteq> 10" "k \<noteq> 59" "k \<noteq> 35"
    using assms(1) by (cases key) (auto simp: plain_key_def)
  have "cfg_at ?inp q (render (Header sec cr)) (k # ks @ 61 # 13 # 10 # rest)" using q(2) k(1) by simp
  note head = read_loop_head [OF this]
  have "read_loop strtod d ss ?inp q st = (case parseOption strtod d ss ?inp q st of
      Inl f \<Rightarrow> Inl f | Inr (ok, q, st) \<Rightarrow> read_loop strtod d ss ?inp q st)"
    using head(1,2) k by (subst read_loop.simps) (simp add: Let_def)
  then have "read_loop strtod d ss ?inp ?p st = Fault Out_of_bounds"
    using q(1) parseOption_empty [OF q(2) assms(1,7) q(3) assms(5,6), of strtod d st] by simp
  then show ?thesis by (simp add: CFG_readFile_def readCfg_def)
qed

theorem cfg_empty_number_overflows_witness:
  "CFG_readFile (\<lambda>t. Double_bits 0) True sample_sections (Some [91, 78, 69, 84, 93, 10, 97, 61, 13, 10, 98, 61, 49, 10]) start_parser
    sample_store = Fault Out_of_bounds"
  using cfg_empty_number_overflows [of "[97]" "[78, 69, 84]" sample_sections "hd sample_options" False "[98, 61, 49, 10]"]
  by (simp add: plain_key_def is_space_def sample_sections_def sample_options_def strcaseeq_def to_lower_def
      is_number_def eol_def)

end
