(* ===== verification/Util_Cfg_Write.thy ===== *)
theory Util_Cfg_Write
  imports Util_Cfg_Types Util_Cfg_Lines
begin

text \<open>
  Setting and writing the configuration (\<open>CFG_set...\<close>, \<open>writeOptions\<close>, \<open>writeSections\<close>, \<open>CFG_write\<close> and
  \<open>CFG_writeSection\<close> of \<open>util/cfgfile.c\<close>), and that a written configuration reads back. \<open>put\<close> stands
  for \<open>fprintf\<close> of a text (whether it succeeded, and the file after it), \<open>format_f\<close> for the \<open>%f\<close>
  conversion.
\<close>

section \<open>Setting options\<close>

definition getOptionByString :: "CFG_Section list \<Rightarrow> u8 list \<Rightarrow> u8 list \<Rightarrow> fault + CFG_Option" where
  "getOptionByString ss sec key =
    (case getOption ss sec (of_nat (length sec)) key (of_nat (length key)) of
       None \<Rightarrow> Fault Emergency | Some opt \<Rightarrow> Ok opt)"

definition set_scalar :: "CFG_VALUE_TYPE \<Rightarrow> cfg_var \<Rightarrow> CFG_Section list \<Rightarrow> u8 list \<Rightarrow> u8 list \<Rightarrow> cfg_store \<Rightarrow>
    fault + cfg_store" where
  "set_scalar ty v ss sec key st =
    bind_ok (getOptionByString ss sec key) (\<lambda>opt.
      if opt_type opt \<noteq> ty then Fault Assert_failed else assign_var opt v st)"

definition CFG_setBoolean where "CFG_setBoolean ss sec key b = set_scalar CFG_VALUE_TYPE_BOOL (Var_boolean b) ss sec key"
definition CFG_setInteger where "CFG_setInteger ss sec key i = set_scalar CFG_VALUE_TYPE_INT (Var_integer i) ss sec key"
definition CFG_setPort where "CFG_setPort ss sec key p = set_scalar CFG_VALUE_TYPE_PORT (Var_port p) ss sec key"
definition CFG_setDouble where "CFG_setDouble ss sec key d = set_scalar CFG_VALUE_TYPE_DOUBLE (Var_dbl d) ss sec key"

definition CFG_setString :: "CFG_Section list \<Rightarrow> u8 list \<Rightarrow> u8 list \<Rightarrow> u8 list \<Rightarrow> cfg_store \<Rightarrow> fault + cfg_store" where
  "CFG_setString ss sec key s st =
    bind_ok (getOptionByString ss sec key) (\<lambda>opt.
      if opt_type opt \<noteq> CFG_VALUE_TYPE_STRING then Fault Assert_failed else strncpy_var opt s st)"

section \<open>Writing\<close>

type_synonym 'f put = "u8 list \<Rightarrow> 'f \<Rightarrow> bool \<times> 'f"

text \<open>The text of an option's value; printing a string that is not terminated reads on behind it.\<close>

definition option_text :: "(ieee_double \<Rightarrow> u8 list) \<Rightarrow> CFG_Option \<Rightarrow> cfg_store \<Rightarrow> fault + u8 list" where
  "option_text format_f opt st =
    (case (opt_type opt, cfg_vars st (opt_var opt)) of
       (CFG_VALUE_TYPE_BOOL, Var_boolean b) \<Rightarrow> Ok (if b then str_true else str_false)
     | (CFG_VALUE_TYPE_INT, Var_integer i) \<Rightarrow> Ok (decimal (unat i))
     | (CFG_VALUE_TYPE_PORT, Var_port p) \<Rightarrow> Ok (decimal (unat p))
     | (CFG_VALUE_TYPE_STRING, Var_string a) \<Rightarrow> if 0 \<in> set a then Ok (cstr a) else Fault Out_of_bounds
     | (CFG_VALUE_TYPE_DOUBLE, Var_dbl d) \<Rightarrow> Ok (format_f d)
     | _ \<Rightarrow> Fault Bad_type)"

definition left_out :: "CFG_Option \<Rightarrow> cfg_store \<Rightarrow> bool" where
  "left_out opt st = (case opt_given opt of None \<Rightarrow> False | Some g \<Rightarrow> \<not> cfg_given st g \<and> defaultEmpty opt)"

fun writeOptions :: "'f put \<Rightarrow> (ieee_double \<Rightarrow> u8 list) \<Rightarrow> CFG_Option list \<Rightarrow> cfg_store \<Rightarrow> 'f \<Rightarrow> fault + (bool \<times> 'f)" where
  "writeOptions put format_f [] st f = Ok (True, f)"
| "writeOptions put format_f (opt # os) st f =
    (if left_out opt st
     then writeOptions put format_f os st (snd (put ([59, 32] @ opt_name opt @ [32, 61, 32, 10]) f))
     else let f = snd (put (opt_name opt @ [32, 61, 32]) f)
     in bind_ok (option_text format_f opt st) (\<lambda>t.
          let (ok, f) = put (t @ [10]) f
          in if ok then writeOptions put format_f os st f else Ok (False, f)))"

text \<open>The options of the following sections of the same name.\<close>

fun write_same :: "'f put \<Rightarrow> (ieee_double \<Rightarrow> u8 list) \<Rightarrow> u8 list \<Rightarrow> CFG_Section list \<Rightarrow> cfg_store \<Rightarrow> 'f \<Rightarrow>
    fault + (bool \<times> 'f)" where
  "write_same put format_f nm [] st f = Ok (True, f)"
| "write_same put format_f nm (nxt # ss) st f =
    (if strcaseeq nm (sect_name nxt)
     then bind_ok (writeOptions put format_f (sect_options nxt) st f) (\<lambda>(ok, f).
       if ok then write_same put format_f nm ss st f else Ok (False, f))
     else write_same put format_f nm ss st f)"

text \<open>The loop over the sections, \<open>prev\<close> being the sections before.\<close>

fun write_loop :: "'f put \<Rightarrow> (ieee_double \<Rightarrow> u8 list) \<Rightarrow> CFG_Section list \<Rightarrow> bool \<Rightarrow> CFG_Section list \<Rightarrow> cfg_store \<Rightarrow> 'f \<Rightarrow>
    fault + (bool \<times> 'f)" where
  "write_loop put format_f prev first [] st f = Ok (True, f)"
| "write_loop put format_f prev first (sect # ss) st f =
    (if list_ex (\<lambda>p. strcaseeq (sect_name sect) (sect_name p)) prev
     then write_loop put format_f (prev @ [sect]) first ss st f
     else let (ok, f) = (if first then (True, f) else put [10, 10] f)
     in if \<not> ok then Ok (False, f)
     else let (ok, f) = put (91 # sect_name sect @ [93, 10]) f
     in if \<not> ok then Ok (False, f)
     else bind_ok (writeOptions put format_f (sect_options sect) st f) (\<lambda>(ok, f).
       if \<not> ok then Ok (False, f)
       else bind_ok (write_same put format_f (sect_name sect) ss st f) (\<lambda>(ok, f).
         if \<not> ok then Ok (False, f)
         else write_loop put format_f (prev @ [sect]) False ss st f)))"

definition writeSections :: "'f put \<Rightarrow> (ieee_double \<Rightarrow> u8 list) \<Rightarrow> CFG_Section list \<Rightarrow> cfg_store \<Rightarrow> 'f \<Rightarrow>
    fault + (bool \<times> 'f)" where
  "writeSections put format_f ss st f = write_loop put format_f [] True ss st f"

text \<open>\<open>fopen\<close> gives a file or fails.\<close>

definition CFG_write :: "'f put \<Rightarrow> (ieee_double \<Rightarrow> u8 list) \<Rightarrow> CFG_Section list \<Rightarrow> cfg_store \<Rightarrow> 'f option \<Rightarrow>
    fault + (bool \<times> 'f option)" where
  "CFG_write put format_f ss st file =
    (case file of
       None \<Rightarrow> Ok (False, None)
     | Some f \<Rightarrow> bind_ok (writeSections put format_f ss st f) (\<lambda>(rc, f). Ok (rc, Some f)))"

definition CFG_writeSection :: "'f put \<Rightarrow> (ieee_double \<Rightarrow> u8 list) \<Rightarrow> CFG_Section \<Rightarrow> cfg_store \<Rightarrow> 'f option \<Rightarrow>
    fault + (bool \<times> 'f option)" where
  "CFG_writeSection put format_f sect st file =
    (case file of
       None \<Rightarrow> Ok (False, None)
     | Some f \<Rightarrow> let (ok, f) = put (91 # sect_name sect @ [93, 10]) f
         in if \<not> ok then Ok (False, Some f)
            else bind_ok (writeOptions put format_f (sect_options sect) st f) (\<lambda>(rc, f). Ok (rc, Some f)))"

section \<open>What is written, as lines\<close>

abbreviation put_all :: "u8 list put" where "put_all \<equiv> (\<lambda>t f. (True, f @ t))"

definition option_line :: "(ieee_double \<Rightarrow> u8 list) \<Rightarrow> cfg_store \<Rightarrow> CFG_Option \<Rightarrow> cfg_line" where
  "option_line format_f st opt =
    (if left_out opt st then Comment 59 ([32] @ opt_name opt @ [32, 61, 32])
     else Setting (opt_name opt) [32] [32] (projr (option_text format_f opt st)) False)"

definition same_named :: "u8 list \<Rightarrow> CFG_Section list \<Rightarrow> CFG_Section list" where
  "same_named nm ss = filter (\<lambda>s. strcaseeq nm (sect_name s)) ss"

fun section_lines :: "(ieee_double \<Rightarrow> u8 list) \<Rightarrow> cfg_store \<Rightarrow> CFG_Section list \<Rightarrow> bool \<Rightarrow> CFG_Section list \<Rightarrow> cfg_line list" where
  "section_lines format_f st prev first [] = []"
| "section_lines format_f st prev first (sect # ss) =
    (if list_ex (\<lambda>p. strcaseeq (sect_name sect) (sect_name p)) prev
     then section_lines format_f st (prev @ [sect]) first ss
     else (if first then [] else [Blank False, Blank False]) @ [Header (sect_name sect) False]
       @ map (option_line format_f st) (concat (map sect_options (sect # same_named (sect_name sect) ss)))
       @ section_lines format_f st (prev @ [sect]) False ss)"

definition texts_ok :: "(ieee_double \<Rightarrow> u8 list) \<Rightarrow> cfg_store \<Rightarrow> CFG_Option list \<Rightarrow> bool" where
  "texts_ok format_f st os \<longleftrightarrow> (\<forall>opt\<in>set os. left_out opt st \<or> (\<exists>t. option_text format_f opt st = Ok t))"

lemma writeOptions_lines:
  "texts_ok format_f st os \<Longrightarrow>
    writeOptions put_all format_f os st f = Ok (True, f @ concat (map (render \<circ> option_line format_f st) os))"
proof (induction os arbitrary: f)
  case (Cons opt os)
  have ok: "texts_ok format_f st os" using Cons.prems by (simp add: texts_ok_def)
  show ?case
  proof (cases "left_out opt st")
    case True
    then show ?thesis using Cons.IH [OF ok] by (simp add: option_line_def)
  next
    case False
    then obtain t where "option_text format_f opt st = Ok t" using Cons.prems by (auto simp: texts_ok_def)
    then show ?thesis using Cons.IH [OF ok] False by (simp add: option_line_def eol_def Let_def)
  qed
qed simp

lemma write_same_lines:
  "texts_ok format_f st (all_options ss) \<Longrightarrow> write_same put_all format_f nm ss st f
    = Ok (True, f @ concat (map (render \<circ> option_line format_f st) (all_options (same_named nm ss))))"
proof (induction ss arbitrary: f)
  case (Cons s ss)
  have "texts_ok format_f st (sect_options s)" "texts_ok format_f st (all_options ss)"
    using Cons.prems by (simp_all add: texts_ok_def all_options_def)
  then show ?case using Cons.IH by (simp add: writeOptions_lines same_named_def all_options_def comp_def)
qed (simp add: same_named_def all_options_def)

lemma write_loop_lines:
  "texts_ok format_f st (all_options ss) \<Longrightarrow> write_loop put_all format_f prev first ss st f
    = Ok (True, f @ concat (map render (section_lines format_f st prev first ss)))"
proof (induction ss arbitrary: prev first f)
  case (Cons s ss)
  have ok: "texts_ok format_f st (sect_options s)" "texts_ok format_f st (all_options ss)"
    using Cons.prems by (simp_all add: texts_ok_def all_options_def)
  note IH = Cons.IH [OF ok(2)]
  show ?case
  proof (cases "list_ex (\<lambda>p. strcaseeq (sect_name s) (sect_name p)) prev")
    case True
    then show ?thesis using IH by simp
  next
    case False
    then show ?thesis
      using IH [of "prev @ [s]" False] writeOptions_lines [OF ok(1)] write_same_lines [OF ok(2), of "sect_name s"]
      by (cases first) (simp_all add: eol_def all_options_def comp_def)
  qed
qed simp

section \<open>Reading numbers back\<close>

lemma digit_of_digit: "is_digit d \<Longrightarrow> digit_of d = unat d - 48 \<and> digit_of d < 10"
  by (auto simp: is_digit_def digit_of_def word_le_nat_alt)

lemma number_value_digits: "\<forall>d\<in>set ds. is_digit d \<Longrightarrow> number_value 10 ds = digits_value ds"
proof (induction ds rule: rev_induct)
  case (snoc d ds)
  then show ?case by (simp add: number_value_def digits_value_def digit_of_digit)
qed (simp add: number_value_def digits_value_def)

lemma hd_decimal: "0 < n \<Longrightarrow> hd (decimal n) \<noteq> 48"
proof (induction n rule: decimal.induct)
  case (1 n)
  show ?case
  proof (cases "n < 10")
    case True
    then have "unat (of_nat (48 + n) :: u8) \<noteq> unat (48 :: u8)" using unat_digit [OF True] "1.prems" by simp
    then show ?thesis using True by (subst decimal.simps) auto
  next
    case False
    then have "0 < n div 10" by simp
    then show ?thesis using "1.IH" False decimal_props [of "n div 10"] by (subst decimal.simps) simp
  qed
qed

lemma strtoul0_decimal:
  assumes "n < 2 ^ 64"
  shows "strtoul0 (decimal n) = of_nat n"
proof (cases "n = 0")
  case True
  have "decimal 0 = [48]" by (subst decimal.simps) simp
  moreover have "strtoul0 [48] = 0"
    by (simp add: strtoul0_def number_value_def digit_of_def is_space_def)
  ultimately show ?thesis using True by simp
next
  case False
  obtain d ds where dec: "decimal n = d # ds" using decimal_props [of n] by (cases "decimal n") auto
  have dig: "\<forall>d\<in>set (decimal n). is_digit d" using decimal_props by blast
  then have d: "\<not> is_space d" "d \<noteq> 45" "d \<noteq> 43" using dec not_space_digit by auto
  have d0: "d \<noteq> 48" using hd_decimal [of n] False dec by simp
  have tw: "takeWhile (\<lambda>c. digit_of c < 10) (d # ds) = d # ds"
    using dig dec digit_of_digit [THEN conjunct2] by (intro takeWhile_eq_all_conv [THEN iffD2]) auto
  have "number_value 10 (d # ds) = n" using number_value_digits [OF dig] decimal_props dec by metis
  then show ?thesis
    using assms d d0 tw unfolding strtoul0_def dec Let_def by simp
qed

lemma decimal_plain: "0 \<notin> set (decimal n)" "decimal n \<noteq> []" "plain_value (decimal n)"
proof -
  have dig: "\<forall>d\<in>set (decimal n). is_digit d" and ne: "decimal n \<noteq> []" using decimal_props by blast+
  show "0 \<notin> set (decimal n)" using dig by (auto simp: is_digit_def)
  show "decimal n \<noteq> []" by (rule ne)
  have "10 \<notin> set (decimal n)" using dig by (auto simp: is_digit_def word_le_nat_alt)
  moreover have "\<not> is_space (hd (decimal n))" using dig ne not_space_digit hd_in_set by blast
  moreover have "is_digit (last (decimal n))" using dig ne by simp
  ultimately show "plain_value (decimal n)" by (auto simp: plain_value_def is_digit_def word_le_nat_alt)
qed

lemma number_string_plain:
  assumes "0 \<notin> set t" "t \<noteq> []" "length t < cap" "cap < 2 ^ 64"
  shows "number_string cap t (of_nat (length t)) = Ok (Some t)"
proof -
  have len: "unat (of_nat (length t) :: size_t) = length t" using assms(3,4) by (simp add: unat_of_nat_small)
  have "(of_nat (length t) :: size_t) + 1 = of_nat (Suc (length t))" by simp
  then have "unat ((of_nat (length t) :: size_t) + 1) = Suc (length t)"
    using assms(3,4) by (simp only: unat_of_nat_small [of "Suc (length t)", where 'a = 64])
      (simp add: unat_of_nat_small del: of_nat_Suc)
  then have "\<not> (of_nat (length t) :: size_t) + 1 > of_nat cap"
    using assms(3,4) by (simp add: word_less_nat_alt unat_of_nat_small)
  moreover have "(of_nat (length t) :: size_t) \<noteq> 0" using len assms(2) by (metis length_0_conv unat_0)
  moreover have "takeWhile (\<lambda>c. c \<noteq> 0) t = t" using assms(1) by (auto simp: takeWhile_eq_all_conv)
  ultimately show ?thesis using assms(3) len by (simp add: number_string_def)
qed

lemma parseInt_decimal:
  assumes "n < 2 ^ 32"
  shows "parseInt (decimal n) (of_nat (length (decimal n))) = Ok (Some (of_nat n))"
proof -
  have "n < 10 ^ 10" using assms by (simp add: order_less_trans)
  then have "length (decimal n) < 20" using length_decimal [of n 10] by simp
  moreover have "ucast (of_nat n :: u64) = (of_nat n :: u32)"
    using assms by (simp add: unsigned_of_nat take_bit_nat_eq_self)
  ultimately show ?thesis
    using number_string_plain [OF decimal_plain(1,2), of n 20] strtoul0_decimal [of n] assms
    by (simp add: parseInt_def)
qed

section \<open>Reading options back\<close>

text \<open>A value whose text can stand in a line: a string without a newline, white space at its start or a
  carriage return at its end that is shorter than the array of the option; the text of a double
  that is one word shorter than the buffer of \<open>parseDouble\<close>.\<close>

definition line_text :: "(ieee_double \<Rightarrow> u8 list) \<Rightarrow> cfg_store \<Rightarrow> CFG_Option \<Rightarrow> bool" where
  "line_text format_f st opt = (case cfg_vars st (opt_var opt) of
      Var_string a \<Rightarrow> plain_value (cstr a) \<and> length (cstr a) < unat (opt_maxlen opt)
    | Var_dbl x \<Rightarrow> plain_value (format_f x) \<and> format_f x \<noteq> [] \<and> 0 \<notin> set (format_f x) \<and> length (format_f x) < 60
    | _ \<Rightarrow> True)"

text \<open>What reading makes of a written value \<open>v\<close>: booleans, integers, ports and strings come back as they
  were, an empty string as the default of the option, and a double as \<open>strtod\<close> reads its text.\<close>

definition reread_as :: "(u8 list \<Rightarrow> ieee_double) \<Rightarrow> (ieee_double \<Rightarrow> u8 list) \<Rightarrow> CFG_Option \<Rightarrow> cfg_var \<Rightarrow> cfg_var \<Rightarrow> bool" where
  "reread_as strtod format_f opt v u = (case v of
      Var_string a \<Rightarrow> if cstr a = [] then is_default opt u
        else (case u of Var_string b \<Rightarrow> cstr b = cstr a | _ \<Rightarrow> False)
    | Var_dbl x \<Rightarrow> u = Var_dbl (strtod (format_f x))
    | _ \<Rightarrow> u = v)"

lemma cstr_no_zero: "0 \<notin> set (cstr a)"
  by (auto simp: cstr_def dest: set_takeWhileD)

lemma parseBool_true_false: "parseBool str_true (of_nat (length str_true)) = Ok (Some True)"
  "parseBool str_false (of_nat (length str_false)) = Ok (Some False)"
  using isSame_exact [of str_true _ "[]"] isSame_exact [of str_false _ "[]"]
  by (simp_all add: parseBool_def) (simp_all add: str_true_def str_false_def strcaseeq_def to_lower_def)

text \<open>Assigning the text of a value gives the value.\<close>

lemma assign_line_simple:
  assumes "length t < 2 ^ 64" "t \<noteq> []" "assignOptionFromString strtod opt t (of_nat (length t)) st0 = Ok (True, st1)"
  shows "assign_line strtod d opt t (of_nat (length t)) st0 = Ok (True, set_given opt True st1)"
proof -
  have "(of_nat (length t) :: size_t) \<noteq> 0" using of_nat_eq_0_iff_small [of "length t", where 'a = 64] assms(1,2) by simp
  then show ?thesis using assms(3) by (simp add: assign_line_def)
qed

lemma assign_parsed_some:
  "assign_var opt (con v) st = Ok st1 \<Longrightarrow> assign_parsed opt con st (Ok (Some v)) = Ok (True, st1)"
  by (simp add: assign_parsed_def)

lemma assign_scalar_text:
  assumes "store_ok os st0" "opt \<in> set os" "opt_type opt \<noteq> CFG_VALUE_TYPE_STRING"
    and "var_type v = opt_type opt" "var_sane v" "length t < 2 ^ 64" "t \<noteq> []"
    and "\<And>st1. assign_var opt v st0 = Ok st1 \<Longrightarrow> assignOptionFromString strtod opt t (of_nat (length t)) st0 = Ok (True, st1)"
  shows "\<exists>st1. assign_line strtod d opt t (of_nat (length t)) st0 = Ok (True, st1) \<and> store_ok os st1
    \<and> cfg_vars st1 = (cfg_vars st0)(opt_var opt := v)"
proof -
  obtain st1 where st1: "assign_var opt v st0 = Ok st1" "store_ok os st1"
    using assign_scalar [OF assms(1-5)] by auto
  then show ?thesis
    using assign_line_simple [OF assms(6,7) assms(8) [OF st1(1)], of d] assign_var_value [OF st1(1)] by simp
qed

text \<open>A value that is not a string, as it is read back.\<close>

fun read_back :: "(u8 list \<Rightarrow> ieee_double) \<Rightarrow> (ieee_double \<Rightarrow> u8 list) \<Rightarrow> cfg_var \<Rightarrow> cfg_var" where
  "read_back strtod format_f (Var_dbl x) = Var_dbl (strtod (format_f x))"
| "read_back strtod format_f v = v"

lemma read_back_facts [simp]: "var_type (read_back strtod format_f v) = var_type v" "var_sane (read_back strtod format_f v) = var_sane v"
  by (cases v; simp)+

lemma reread_back: "var_type v \<noteq> CFG_VALUE_TYPE_STRING \<Longrightarrow> reread_as strtod format_f opt v (read_back strtod format_f v)"
  by (cases v) (simp_all add: reread_as_def)

lemma assign_text_scalar:
  assumes "store_ok os st0" "opt \<in> set os" "opt_type opt \<noteq> CFG_VALUE_TYPE_STRING"
    and "var_ok opt (cfg_vars st (opt_var opt))" "line_text format_f st opt" "option_text format_f opt st = Ok t"
  shows "\<exists>st1. assign_line strtod d opt t (of_nat (length t)) st0 = Ok (True, st1) \<and> store_ok os st1
    \<and> cfg_vars st1 = (cfg_vars st0)(opt_var opt := read_back strtod format_f (cfg_vars st (opt_var opt)))"
proof (rule assign_scalar_text [OF assms(1-3)])
  let ?v = "cfg_vars st (opt_var opt)"
  have v: "var_type ?v = opt_type opt" "var_sane ?v" using assms(4) by (simp_all add: var_ok_def)
  show "var_type (read_back strtod format_f ?v) = opt_type opt" "var_sane (read_back strtod format_f ?v)" using v by simp_all
  have dec: "decimal (unat (i :: u32)) \<noteq> []" "length (decimal (unat i)) < 20" "unat i < 2 ^ 32" for i
    using decimal_plain(2) length_decimal [of "unat i" 10] unat_u32_less [of i] by auto
  have port: "unat (p :: u64) < 2 ^ 32 \<and> length (decimal (unat p)) < 20" if "p \<le> 0xffff" for p
    using length_decimal [of "unat p" 10] that by (simp add: word_le_nat_alt)
  have "length t < 2 ^ 64 \<and> t \<noteq> []"
  proof (cases ?v)
    case (Var_string s)
    then show ?thesis using v(1) assms(3) by simp
  next
    case (Var_integer i)
    then have "t = decimal (unat i)" using v(1) assms(6) by (auto simp: option_text_def)
    then show ?thesis using dec(1,2) [of i] by simp
  next
    case (Var_port p)
    then have "t = decimal (unat p)" "p \<le> 0xffff" using v assms(6) by (auto simp: option_text_def)
    then show ?thesis using port [of p] decimal_plain(2) [of "unat p"] by simp
  next
    case (Var_boolean b)
    then have "t = str_true \<or> t = str_false" using v(1) assms(6) by (auto simp: option_text_def split: if_splits)
    then show ?thesis by (auto simp: str_true_def str_false_def)
  next
    case (Var_dbl x)
    then have "t = format_f x" using v(1) assms(6) by (auto simp: option_text_def)
    then show ?thesis using assms(5) Var_dbl by (simp add: line_text_def)
  qed
  then show "length t < 2 ^ 64" "t \<noteq> []" by simp_all
  fix st1
  assume a: "assign_var opt (read_back strtod format_f ?v) st0 = Ok st1"
  show "assignOptionFromString strtod opt t (of_nat (length t)) st0 = Ok (True, st1)"
  proof (cases ?v)
    case (Var_string s)
    then show ?thesis using v(1) assms(3) by simp
  next
    case (Var_integer i)
    then have "opt_type opt = CFG_VALUE_TYPE_INT" "t = decimal (unat i)" using v(1) assms(6) by (auto simp: option_text_def)
    then show ?thesis using parseInt_decimal [OF dec(3), of i] a Var_integer
      by (simp add: assignOptionFromString_def assign_parsed_some)
  next
    case (Var_port p)
    then have p: "p \<le> 0xffff" and t: "opt_type opt = CFG_VALUE_TYPE_PORT" "t = decimal (unat p)"
      using v assms(6) by (auto simp: option_text_def)
    have u: "unat p \<le> 0xffff" using p by (simp add: word_le_nat_alt)
    have n32: "unat (of_nat (unat p) :: u32) = unat p" by (rule unat_of_nat_small) (use u in simp)
    have "\<not> (of_nat (unat p) :: u32) > 0xffff" 
      unfolding word_less_nat_alt n32 using u by simp
    moreover have "ucast (of_nat (unat p) :: u32) = p"
      by (simp only: word_unat_eq_iff unat_ucast_u32 n32)
    ultimately have "parsePort t (of_nat (length t)) = Ok (Some p)"
      using parseInt_decimal [of "unat p"] port [OF p] t(2) by (simp add: parsePort_def)
    then show ?thesis using t a Var_port by (simp add: assignOptionFromString_def assign_parsed_some)
  next
    case (Var_boolean b)
    then have "opt_type opt = CFG_VALUE_TYPE_BOOL" "t = (if b then str_true else str_false)"
      using v(1) assms(6) by (auto simp: option_text_def)
    then show ?thesis using a Var_boolean parseBool_true_false
      by (cases b) (simp_all add: assignOptionFromString_def assign_parsed_some)
  next
    case (Var_dbl x)
    then have t: "opt_type opt = CFG_VALUE_TYPE_DOUBLE" "t = format_f x" using v(1) assms(6) by (auto simp: option_text_def)
    have "parseDouble strtod t (of_nat (length t)) = Ok (Some (strtod (format_f x)))"
      using number_string_plain [of t 60] assms(5) Var_dbl t(2) by (simp add: line_text_def parseDouble_def)
    then show ?thesis using t a Var_dbl by (simp add: assignOptionFromString_def assign_parsed_some)
  qed
qed

lemma option_text_ok: "var_ok opt (cfg_vars st (opt_var opt)) \<Longrightarrow> \<exists>t. option_text format_f opt st = Ok t"
  by (cases "cfg_vars st (opt_var opt)") (auto simp: var_ok_def option_text_def)

lemma option_text_plain:
  assumes "line_text format_f st opt" "option_text format_f opt st = Ok t"
  shows "plain_value t"
proof -
  have bools: "plain_value str_true" "plain_value str_false"
    by (simp_all add: plain_value_def str_true_def str_false_def is_space_def)
  show ?thesis
    using assms bools decimal_plain(3)
    by (cases "opt_type opt"; cases "cfg_vars st (opt_var opt)") (auto simp: option_text_def line_text_def split: if_splits)
qed

lemma parseString_text:
  assumes "length t < unat sz" "unat sz \<le> length a"
  shows "parseString t (of_nat (length t)) a sz = Ok (Some (t @ [0] @ drop (length t + 1) a))"
proof -
  have len: "unat (of_nat (length t) :: size_t) = length t"
    using assms(1) unat_u64_less [of sz] by (intro unat_of_nat_small) simp
  have "sz \<noteq> 0" using assms(1) by auto
  then have "unat (sz - 1) = unat sz - 1" by (simp add: unat_minus_one)
  then have "\<not> of_nat (length t) > sz - 1" using assms(1) len by (simp add: word_less_nat_alt)
  then show ?thesis using assms len by (simp add: parseString_def)
qed

lemma assign_text_string:
  assumes st0: "store_ok os st0" "opt \<in> set os" and ty: "opt_type opt = CFG_VALUE_TYPE_STRING" and "default_ok opt" "default_string_ok opt"
    and "var_ok opt (cfg_vars st (opt_var opt))" "line_text format_f st opt" "option_text format_f opt st = Ok t"
  shows "\<exists>st1 v. assign_line strtod d opt t (of_nat (length t)) st0 = Ok (True, st1) \<and> store_ok os st1
    \<and> cfg_vars st1 = (cfg_vars st0)(opt_var opt := v) \<and> reread_as strtod format_f opt (cfg_vars st (opt_var opt)) v"
proof -
  obtain b where b: "cfg_vars st (opt_var opt) = Var_string b" "t = cstr b" "length t < unat (opt_maxlen opt)"
    using assms(6-8) ty by (cases "cfg_vars st (opt_var opt)") (auto simp: var_ok_def option_text_def line_text_def split: if_splits)
  obtain a where a: "cfg_vars st0 (opt_var opt) = Var_string a" "string_var opt st0 = Ok a" "unat (opt_maxlen opt) \<le> length a"
    using string_var_ok [OF st0 ty] by metis
  show ?thesis
  proof (cases "t = []")
    case True
    obtain st1 where st1: "assignOptionFromDefault opt st0 = Ok st1" "store_ok os st1"
      using assignOptionFromDefault_ok [OF st0 assms(4)] by auto
    obtain v where v: "cfg_vars st1 = (cfg_vars st0)(opt_var opt := v)" "is_default opt v"
      using assignOptionFromDefault_value [OF st1(1) assms(4,5)] by auto
    have "reread_as strtod format_f opt (cfg_vars st (opt_var opt)) v"
      using v(2) b True by (simp add: reread_as_def)
    then show ?thesis using st1 v(1) True by (auto simp: assign_line_def)
  next
    case False
    let ?v = "t @ [0] @ drop (length t + 1) a"
    have p: "parseString t (of_nat (length t)) a (opt_maxlen opt) = Ok (Some ?v)"
      by (rule parseString_text [OF b(3) a(3)])
    have ln: "length ?v = length a" using b(3) a(3) by simp
    have "\<exists>st1. assign_var opt (Var_string ?v) st0 = Ok st1 \<and> store_ok os st1"
      by (rule assign_var_ok [OF st0]) (use ty a(1) ln in simp_all)
    then obtain st1 where st1: "assign_var opt (Var_string ?v) st0 = Ok st1" "store_ok os st1" by blast
    have "length t < 2 ^ 64" using b(3) unat_u64_less [of "opt_maxlen opt"] by simp
    moreover have "assignOptionFromString strtod opt t (of_nat (length t)) st0 = Ok (True, st1)"
      using p st1(1) a(2) ty by (simp add: assignOptionFromString_def assign_parsed_some)
    ultimately have "assign_line strtod d opt t (of_nat (length t)) st0 = Ok (True, set_given opt True st1)"
      using assign_line_simple False by blast
    moreover have "reread_as strtod format_f opt (cfg_vars st (opt_var opt)) (Var_string ?v)"
      using cstr_terminated [of t] cstr_no_zero [of b] b False by (simp add: reread_as_def)
    ultimately show ?thesis using st1(2) assign_var_value [OF st1(1)] by auto
  qed
qed

lemma assign_text:
  assumes "store_ok os st0" "opt \<in> set os" "default_ok opt" "default_string_ok opt" "store_ok os st"
    and "line_text format_f st opt" "option_text format_f opt st = Ok t"
  shows "\<exists>st1 v. assign_line strtod d opt t (of_nat (length t)) st0 = Ok (True, st1) \<and> store_ok os st1
    \<and> cfg_vars st1 = (cfg_vars st0)(opt_var opt := v) \<and> reread_as strtod format_f opt (cfg_vars st (opt_var opt)) v"
proof (cases "opt_type opt = CFG_VALUE_TYPE_STRING")
  case True
  then show ?thesis using assign_text_string [OF assms(1,2) True assms(3,4) store_ok_var [OF assms(5,2)] assms(6,7)] by blast
next
  case False
  then have "var_type (cfg_vars st (opt_var opt)) \<noteq> CFG_VALUE_TYPE_STRING"
    using store_ok_var [OF assms(5,2)] by (simp add: var_ok_def)
  then show ?thesis
    using assign_text_scalar [OF assms(1,2) False store_ok_var [OF assms(5,2)] assms(6,7), of strtod d]
      reread_back [of "cfg_vars st (opt_var opt)" strtod format_f opt] by metis
qed

section \<open>Reading a written configuration\<close>

text \<open>Every option is found by its own name, options have different variables, and every name can
  stand in a file.\<close>

definition names_ok :: "CFG_Section list \<Rightarrow> bool" where
  "names_ok ss \<longleftrightarrow>
    list_all (\<lambda>s. 10 \<notin> set (sect_name s) \<and> 93 \<notin> set (sect_name s)
      \<and> list_all (\<lambda>opt. plain_key (opt_name opt) \<and> lookup_option ss (sect_name s) (opt_name opt) = Some opt) (sect_options s)) ss
    \<and> distinct (map opt_var (all_options ss))"

lemma names_okD:
  assumes "names_ok ss" "s \<in> set ss"
  shows "10 \<notin> set (sect_name s)" "93 \<notin> set (sect_name s)"
    and "opt \<in> set (sect_options s) \<Longrightarrow> plain_key (opt_name opt)"
    and "opt \<in> set (sect_options s) \<Longrightarrow> lookup_option ss (sect_name s) (opt_name opt) = Some opt"
  using assms by (auto simp: names_ok_def list_all_iff)

lemma names_ok_vars:
  "names_ok ss \<Longrightarrow> o1 \<in> set (all_options ss) \<Longrightarrow> o2 \<in> set (all_options ss) \<Longrightarrow> opt_var o1 = opt_var o2 \<Longrightarrow> o1 = o2"
  by (auto simp: names_ok_def distinct_map dest: inj_onD)

lemma lookup_option_name: "strcaseeq nm nm' \<Longrightarrow> lookup_option ss nm key = lookup_option ss nm' key"
  by (induction ss) (simp_all add: strcaseeq_def split: option.split)

text \<open>After reading the lines of the options \<open>A\<close> of the store \<open>st\<close>, \<open>s0\<close> has become \<open>s1\<close>: a written
  option has its written value as it is read back, any other option the value it had.\<close>

definition reread_options :: "(u8 list \<Rightarrow> ieee_double) \<Rightarrow> (ieee_double \<Rightarrow> u8 list) \<Rightarrow> CFG_Section list \<Rightarrow> cfg_store \<Rightarrow> CFG_Option list \<Rightarrow> cfg_store \<Rightarrow> cfg_store \<Rightarrow> bool" where
  "reread_options strtod format_f ss st A s0 s1 \<longleftrightarrow> store_ok (all_options ss) s1 \<and>
    (\<forall>opt\<in>set (all_options ss). if opt \<in> set A \<and> \<not> left_out opt st
      then reread_as strtod format_f opt (cfg_vars st (opt_var opt)) (cfg_vars s1 (opt_var opt))
      else cfg_vars s1 (opt_var opt) = cfg_vars s0 (opt_var opt))"

lemma reread_nil: "store_ok (all_options ss) s0 \<Longrightarrow> reread_options strtod format_f ss st [] s0 s0"
  by (simp add: reread_options_def)

lemma reread_trans: "reread_options strtod format_f ss st A s0 s1 \<Longrightarrow> reread_options strtod format_f ss st B s1 s2 \<Longrightarrow> reread_options strtod format_f ss st (A @ B) s0 s2"
  unfolding reread_options_def by (metis Un_iff set_append)

lemma exec_option_line:
  assumes "names_ok ss" "table_ok ss" "store_ok (all_options ss) st" "store_ok (all_options ss) s0"
    and "opt \<in> set (all_options ss)" "default_string_ok opt" "lookup_option ss nm (opt_name opt) = Some opt"
    and "left_out opt st \<or> line_text format_f st opt"
  shows "\<exists>s1. exec_line strtod d ss (option_line format_f st opt) (Some nm) s0 = Ok (Some nm, s1) \<and> reread_options strtod format_f ss st [opt] s0 s1"
proof (cases "left_out opt st")
  case True
  then show ?thesis using assms(4) by (auto simp: option_line_def reread_options_def)
next
  case False
  obtain t where t: "option_text format_f opt st = Ok t"
    using option_text_ok [OF store_ok_var [OF assms(3,5)]] by blast
  obtain s1 v where s1: "assign_line strtod d opt t (of_nat (length t)) s0 = Ok (True, s1)" "store_ok (all_options ss) s1"
    "cfg_vars s1 = (cfg_vars s0)(opt_var opt := v)" "reread_as strtod format_f opt (cfg_vars st (opt_var opt)) v"
    using assign_text [OF assms(4,5) table_okD [OF assms(2,5)] assms(6,3) _ t] assms(8) False by blast
  have "reread_options strtod format_f ss st [opt] s0 s1"
    using s1(2-4) False names_ok_vars [OF assms(1) _ assms(5)] by (auto simp: reread_options_def)
  then show ?thesis using s1(1) t False assms(7) by (simp add: option_line_def)
qed

text \<open>The configuration that is written: a table whose options can be told apart in a file and whose
  default strings are strings of C, and values whose texts can stand in a line.\<close>

definition writable :: "(ieee_double \<Rightarrow> u8 list) \<Rightarrow> CFG_Section list \<Rightarrow> cfg_store \<Rightarrow> bool" where
  "writable format_f ss st \<longleftrightarrow> names_ok ss \<and> table_ok ss \<and> list_all default_string_ok (all_options ss)
     \<and> store_ok (all_options ss) st
     \<and> list_all (\<lambda>opt. left_out opt st \<or> line_text format_f st opt) (all_options ss)"

lemma writable_texts: "writable format_f ss st \<Longrightarrow> texts_ok format_f st (all_options ss)"
  using option_text_ok store_ok_var by (fastforce simp: writable_def texts_ok_def)

lemma exec_option_lines:
  assumes w: "writable format_f ss st" and "store_ok (all_options ss) s0"
    and "\<forall>opt\<in>set A. opt \<in> set (all_options ss) \<and> lookup_option ss nm (opt_name opt) = Some opt"
  shows "\<exists>s1. exec_lines strtod d ss (map (option_line format_f st) A) (Some nm) s0 = Ok (Some nm, s1)
    \<and> reread_options strtod format_f ss st A s0 s1"
  using assms(2,3)
proof (induction A arbitrary: s0)
  case Nil
  then show ?case by (simp add: reread_nil)
next
  case (Cons opt A)
  have "left_out opt st \<or> line_text format_f st opt" "default_string_ok opt" using w Cons.prems(2) by (auto simp: writable_def list_all_iff)
  then obtain s1 where s1: "exec_line strtod d ss (option_line format_f st opt) (Some nm) s0 = Ok (Some nm, s1)"
    "reread_options strtod format_f ss st [opt] s0 s1"
    using exec_option_line [of ss st s0 opt nm format_f strtod d] w Cons.prems by (auto simp: writable_def)
  then obtain s2 where "exec_lines strtod d ss (map (option_line format_f st) A) (Some nm) s1 = Ok (Some nm, s2)"
    "reread_options strtod format_f ss st A s1 s2"
    using Cons.IH [of s1] Cons.prems(2) by (auto simp: reread_options_def)
  then show ?case using s1 reread_trans [of strtod format_f ss st "[opt]" s0 s1 A s2] by auto
qed

text \<open>The options in the order of their lines.\<close>

fun written :: "CFG_Section list \<Rightarrow> CFG_Section list \<Rightarrow> CFG_Option list" where
  "written prev [] = []"
| "written prev (sect # ss) =
    (if list_ex (\<lambda>p. strcaseeq (sect_name sect) (sect_name p)) prev then []
     else concat (map sect_options (sect # same_named (sect_name sect) ss))) @ written (prev @ [sect]) ss"

lemma strcaseeq_equiv: "strcaseeq s s" "strcaseeq s t \<Longrightarrow> strcaseeq t s" "strcaseeq s t \<Longrightarrow> strcaseeq t u \<Longrightarrow> strcaseeq s u"
  by (simp_all add: strcaseeq_def)

lemma written_all:
  "s \<in> set ss \<Longrightarrow> list_ex (\<lambda>p. strcaseeq (sect_name s) (sect_name p)) prev \<or> set (sect_options s) \<subseteq> set (written prev ss)"
proof (induction ss arbitrary: prev)
  case (Cons x ss)
  show ?case
  proof (cases "s = x")
    case True
    then show ?thesis by auto
  next
    case False
    then have s: "s \<in> set ss" using Cons.prems by simp
    from Cons.IH [OF this, of "prev @ [x]"] show ?thesis
    proof
      assume "set (sect_options s) \<subseteq> set (written (prev @ [x]) ss)"
      then show ?thesis by auto
    next
      assume "list_ex (\<lambda>p. strcaseeq (sect_name s) (sect_name p)) (prev @ [x])"
      then consider "list_ex (\<lambda>p. strcaseeq (sect_name s) (sect_name p)) prev" | "strcaseeq (sect_name s) (sect_name x)"
        by auto
      then show ?thesis
      proof cases
        case 2
        show ?thesis
        proof (cases "list_ex (\<lambda>p. strcaseeq (sect_name x) (sect_name p)) prev")
          case True
          then have "list_ex (\<lambda>p. strcaseeq (sect_name s) (sect_name p)) prev"
            using 2 strcaseeq_equiv(3) by (auto simp: list_ex_iff)
          then show ?thesis ..
        next
          case False
          have "s \<in> set (same_named (sect_name x) ss)" using s 2 by (simp add: same_named_def strcaseeq_equiv(2))
          then show ?thesis using False by auto
        qed
      qed simp
    qed
  qed
qed simp

lemma exec_section_lines:
  assumes w: "writable format_f T st" and "store_ok (all_options T) s0" and "set ss \<subseteq> set T"
  shows "\<exists>cur' s1. exec_lines strtod d T (section_lines format_f st prev first ss) cur s0 = Ok (cur', s1)
    \<and> reread_options strtod format_f T st (written prev ss) s0 s1"
  using assms(2,3)
proof (induction ss arbitrary: prev first cur s0)
  case Nil
  then show ?case by (simp add: reread_nil)
next
  case (Cons s ss)
  have names: "names_ok T" using w by (simp add: writable_def)
  show ?case
  proof (cases "list_ex (\<lambda>p. strcaseeq (sect_name s) (sect_name p)) prev")
    case True
    then show ?thesis using Cons by simp
  next
    case False
    let ?A = "concat (map sect_options (s # same_named (sect_name s) ss))"
    have sub: "s' \<in> set T \<and> strcaseeq (sect_name s) (sect_name s')" if "s' \<in> set (s # same_named (sect_name s) ss)" for s'
      using that Cons.prems(2) by (auto simp: same_named_def strcaseeq_equiv(1))
    have A: "\<forall>opt\<in>set ?A. opt \<in> set (all_options T) \<and> lookup_option T (sect_name s) (opt_name opt) = Some opt"
    proof
      fix opt
      assume "opt \<in> set ?A"
      then obtain s' where s': "s' \<in> set (s # same_named (sect_name s) ss)" "opt \<in> set (sect_options s')" by auto
      show "opt \<in> set (all_options T) \<and> lookup_option T (sect_name s) (opt_name opt) = Some opt"
        using sub [OF s'(1)] s'(2) names_okD(4) [OF names, of s' opt] lookup_option_name [of "sect_name s" "sect_name s'" T]
        by (auto simp: all_options_def)
    qed
    obtain s1 where s1: "exec_lines strtod d T (map (option_line format_f st) ?A) (Some (sect_name s)) s0 = Ok (Some (sect_name s), s1)"
      "reread_options strtod format_f T st ?A s0 s1" using exec_option_lines [OF w Cons.prems(1) A] by blast
    have "store_ok (all_options T) s1" using s1(2) by (simp add: reread_options_def)
    then obtain cur' s2 where s2: "exec_lines strtod d T (section_lines format_f st (prev @ [s]) False ss) (Some (sect_name s)) s1 = Ok (cur', s2)"
      "reread_options strtod format_f T st (written (prev @ [s]) ss) s1 s2"
      using Cons.IH [of s1 "prev @ [s]" False "Some (sect_name s)"] Cons.prems(2) by auto
    have hd: "list_ex (\<lambda>s'. strcaseeq (sect_name s') (sect_name s)) T"
      using Cons.prems(2) strcaseeq_equiv(1) by (auto simp: list_ex_iff)
    have "exec_lines strtod d T (section_lines format_f st prev first (s # ss)) cur s0 = Ok (cur', s2)"
      using False hd s1(1) s2(1) by (cases first) (simp_all add: exec_lines_append del: map_append list.map concat.simps)
    then show ?thesis using reread_trans [OF s1(2) s2(2)] False by auto
  qed
qed

lemma section_lines_ok:
  assumes w: "writable format_f T st" and "set ss \<subseteq> set T"
  shows "\<forall>l\<in>set (section_lines format_f st prev first ss). line_ok l"
  using assms(2)
proof (induction ss arbitrary: prev first)
  case (Cons s ss)
  have names: "names_ok T" using w by (simp add: writable_def)
  have opt: "line_ok (option_line format_f st opt)" if "s' \<in> set T" "opt \<in> set (sect_options s')" for s' opt
  proof -
    have o: "opt \<in> set (all_options T)" using that by (auto simp: all_options_def)
    have key: "plain_key (opt_name opt)" by (rule names_okD(3) [OF names that])
    show ?thesis
    proof (cases "left_out opt st")
      case True
      then show ?thesis using key by (simp add: option_line_def plain_key_def)
    next
      case False
      obtain t where t: "option_text format_f opt st = Ok t" using writable_texts [OF w] o False by (auto simp: texts_ok_def)
      have "line_text format_f st opt" using w o False by (auto simp: writable_def list_all_iff)
      then have "plain_value t" using option_text_plain t by blast
      then show ?thesis using key t False by (simp add: option_line_def blanks_def is_space_def)
    qed
  qed
  have "s' \<in> set T" if "s' \<in> set (s # same_named (sect_name s) ss)" for s'
    using that Cons.prems by (auto simp: same_named_def)
  then have block: "line_ok (option_line format_f st opt)"
    if "opt \<in> set (sect_options s')" "s' = s \<or> s' \<in> set (same_named (sect_name s) ss)" for opt s'
    using opt [OF _ that(1)] that(2) by (metis list.set_intros)
  show ?case
    using Cons.IH [of "prev @ [s]" first] Cons.IH [of "prev @ [s]" False] Cons.prems names_okD(1,2) [OF names, of s]
    by (auto intro: block)
qed simp


text \<open>Two sections whose names differ in case only, around a third one, with a left out option, an
  empty string and a double.\<close>

definition written_table :: "CFG_Section list" where
  "written_table =
    [\<lparr>sect_name = [78], sect_fix = None, sect_check = None, sect_options =
       [\<lparr>opt_name = [104], opt_type = CFG_VALUE_TYPE_STRING, opt_var = 0, opt_given = None, opt_maxlen = 4,
           opt_def = Def_string (Some [68]), defaultEmpty = False\<rparr>,
        \<lparr>opt_name = [112], opt_type = CFG_VALUE_TYPE_PORT, opt_var = 1, opt_given = None, opt_maxlen = 0,
           opt_def = Def_port 80, defaultEmpty = False\<rparr>]\<rparr>,
     \<lparr>sect_name = [66], sect_fix = None, sect_check = None, sect_options =
       [\<lparr>opt_name = [120], opt_type = CFG_VALUE_TYPE_DOUBLE, opt_var = 2, opt_given = None, opt_maxlen = 0,
           opt_def = Def_dbl (Double_bits 0), defaultEmpty = False\<rparr>]\<rparr>,
     \<lparr>sect_name = [110], sect_fix = None, sect_check = None, sect_options =
       [\<lparr>opt_name = [115], opt_type = CFG_VALUE_TYPE_INT, opt_var = 3, opt_given = Some 0, opt_maxlen = 0,
           opt_def = Def_integer 5, defaultEmpty = True\<rparr>]\<rparr>]"

definition written_store :: cfg_store where
  "written_store = \<lparr>cfg_vars = (\<lambda>i. if i = 0 then Var_string [0, 1, 0, 0] else if i = 1 then Var_port 7
     else if i = 2 then Var_dbl (Double_bits 1) else Var_integer 9), cfg_given = (\<lambda>g. False)\<rparr>"

definition read_store :: cfg_store where
  "read_store = \<lparr>cfg_vars = (\<lambda>i. if i = 0 then Var_string [65, 66, 67, 0] else if i = 1 then Var_port 0
     else if i = 2 then Var_dbl (Double_bits 0) else Var_integer 0), cfg_given = (\<lambda>g. False)\<rparr>"

definition written_bytes :: "u8 list" where
  "written_bytes = [91, 78, 93, 10, 104, 32, 61, 32, 10, 112, 32, 61, 32, 55, 10, 59, 32, 115, 32, 61, 32, 10, 10, 10,
     91, 66, 93, 10, 120, 32, 61, 32, 49, 46, 48, 10]"

lemma decimal_7: "decimal 7 = [55]" by (subst decimal.simps) simp


end
