(* ===== verification/Rc_Config.thy ===== *)
theory Rc_Config
  imports Util_Cfg_Write Core_Buffer
begin

text \<open>
  The configuration of the Radarcape daemon (variant with network inputs): the configuration
  sections of its components with their variables, defaults, checks and fixes, and the part of
  \<open>radarcape/main.c\<close> that loads, reads and checks the configuration.
\<close>

section \<open>Variables\<close>

definition NI_MAXHOST :: nat where "NI_MAXHOST = 1025"

definition fpga_cfgFilename :: nat where "fpga_cfgFilename = 0"
definition fpga_cfgConfigure :: nat where "fpga_cfgConfigure = 1"
definition relay_cfgTimeout :: nat where "relay_cfgTimeout = 2"
definition stat_cfgEnabled :: nat where "stat_cfgEnabled = 3"
definition stat_cfgInterval :: nat where "stat_cfgInterval = 4"
definition serial_serialNo :: nat where "serial_serialNo = 5"
definition trimble_cfgHost :: nat where "trimble_cfgHost = 6"
definition trimble_cfgPort :: nat where "trimble_cfgPort = 7"
definition net_cfgHost :: nat where "net_cfgHost = 8"
definition net_cfgPort :: nat where "net_cfgPort = 9"
definition buf_statBacklog :: nat where "buf_statBacklog = 10"
definition buf_dynBacklog :: nat where "buf_dynBacklog = 11"
definition buf_dynIncrement :: nat where "buf_dynIncrement = 12"
definition buf_history :: nat where "buf_history = 13"
definition buf_gc :: nat where "buf_gc = 14"
definition buf_gcInterval :: nat where "buf_gcInterval = 15"
definition buf_gcLevel :: nat where "buf_gcLevel = 16"
definition rc_cfgFec :: nat where "rc_cfgFec = 17"
definition rc_cfgHost :: nat where "rc_cfgHost = 18"
definition rc_cfgPort :: nat where "rc_cfgPort = 19"
definition filter_crc :: nat where "filter_crc = 20"
definition filter_extSquitter :: nat where "filter_extSquitter = 21"
definition filter_sync :: nat where "filter_sync = 22"
definition serial_cachedSerial :: nat where "serial_cachedSerial = 0"

lemmas cfg_var_defs = fpga_cfgFilename_def fpga_cfgConfigure_def relay_cfgTimeout_def stat_cfgEnabled_def
  stat_cfgInterval_def serial_serialNo_def trimble_cfgHost_def trimble_cfgPort_def net_cfgHost_def
  net_cfgPort_def buf_statBacklog_def buf_dynBacklog_def buf_dynIncrement_def buf_history_def
  buf_gc_def buf_gcInterval_def buf_gcLevel_def rc_cfgFec_def rc_cfgHost_def rc_cfgPort_def
  filter_crc_def filter_extSquitter_def filter_sync_def

text \<open>An option of a descriptor; members not named there are zero.\<close>

definition option_of :: "u8 list \<Rightarrow> CFG_VALUE_TYPE \<Rightarrow> nat \<Rightarrow> CFG_Value \<Rightarrow> CFG_Option" where
  "option_of nm ty v df = \<lparr>opt_name = nm, opt_type = ty, opt_var = v, opt_given = None, opt_maxlen = 0,
     opt_def = df, defaultEmpty = False\<rparr>"

definition section_of :: "u8 list \<Rightarrow> CFG_Option list \<Rightarrow> CFG_Section" where
  "section_of nm opts = \<lparr>sect_name = nm, sect_fix = None, sect_check = None, sect_options = opts\<rparr>"

section \<open>Checks and fixes\<close>

text \<open>\<open>checkCfg\<close> of the network components: a host and a port.\<close>

definition check_host_port :: "nat \<Rightarrow> nat \<Rightarrow> cfg_store \<Rightarrow> fault + bool" where
  "check_host_port host port st =
    (case (cfg_vars st host, cfg_vars st port) of
       (Var_string (c # cs), Var_port p) \<Rightarrow> Ok (if c = 0 then False else if p = 0 then False else True)
     | _ \<Rightarrow> Fault Bad_type)"

definition fpga_checkCfg :: "cfg_store \<Rightarrow> fault + bool" where
  "fpga_checkCfg st =
    (case (cfg_vars st fpga_cfgConfigure, cfg_vars st fpga_cfgFilename) of
       (Var_boolean b, Var_string (c # cs)) \<Rightarrow> Ok (if b \<and> c = 0 then False else True)
     | _ \<Rightarrow> Fault Bad_type)"

text \<open>The structure \<open>cfg\<close> of the buffer, as its variables hold it.\<close>

definition buffer_config :: "cfg_store \<Rightarrow> buf_configuration option" where
  "buffer_config st =
    (case (cfg_vars st buf_statBacklog, cfg_vars st buf_dynBacklog, cfg_vars st buf_dynIncrement,
           cfg_vars st buf_history, cfg_vars st buf_gc, cfg_vars st buf_gcInterval, cfg_vars st buf_gcLevel) of
       (Var_integer sb, Var_integer db, Var_integer di, Var_boolean h, Var_boolean g, Var_integer gi, Var_integer gl) \<Rightarrow>
         Some \<lparr>statBacklog = sb, dynBacklog = db, dynIncrement = di, history = h, gc_enabled = g,
           gcInterval = gi, gcLevel = gl\<rparr>
     | _ \<Rightarrow> None)"

text \<open>\<open>cfgFix\<close> writes two of them.\<close>

definition buffer_cfgFix :: "cfg_store \<Rightarrow> fault + cfg_store" where
  "buffer_cfgFix st =
    (case buffer_config st of
       None \<Rightarrow> Fault Bad_type
     | Some c \<Rightarrow> let c = buf_cfgFix c
         in Ok (st\<lparr>cfg_vars := (cfg_vars st)(buf_statBacklog := Var_integer (statBacklog c),
              buf_gc := Var_boolean (gc_enabled c))\<rparr>))"

section \<open>Sections\<close>

definition fpga_cfgDesc :: CFG_Section where
  "fpga_cfgDesc = (section_of (ascii ''FPGA'')
     [(option_of (ascii ''File'') CFG_VALUE_TYPE_STRING fpga_cfgFilename (Def_string (Some (ascii ''openskyd.rbf''))))
        \<lparr>opt_maxlen := of_nat PATH_MAX\<rparr>,
      option_of (ascii ''Configure'') CFG_VALUE_TYPE_BOOL fpga_cfgConfigure (Def_boolean True)])
    \<lparr>sect_check := Some fpga_checkCfg\<rparr>"

definition relay_cfg :: CFG_Section where
  "relay_cfg = section_of (ascii ''NETWORK'')
     [option_of (ascii ''Timeout'') CFG_VALUE_TYPE_INT relay_cfgTimeout (Def_integer 1500)]"

definition stat_cfg :: CFG_Section where
  "stat_cfg = section_of (ascii ''STATISTICS'')
     [option_of (ascii ''Enabled'') CFG_VALUE_TYPE_BOOL stat_cfgEnabled (Def_boolean True),
      option_of (ascii ''Interval'') CFG_VALUE_TYPE_INT stat_cfgInterval (Def_integer 600)]"

definition serial_cfgDesc :: CFG_Section where
  "serial_cfgDesc = section_of (ascii ''DEVICE'')
     [(option_of (ascii ''serial'') CFG_VALUE_TYPE_INT serial_serialNo (Def_integer 0))
        \<lparr>opt_given := Some serial_cachedSerial, defaultEmpty := True\<rparr>]"

definition host_port :: "nat \<Rightarrow> nat \<Rightarrow> u8 list \<Rightarrow> u8 list \<Rightarrow> u8 list \<Rightarrow> u64 \<Rightarrow> CFG_Option list" where
  "host_port host port host_name port_name default_host default_port =
     [(option_of host_name CFG_VALUE_TYPE_STRING host (Def_string (Some default_host)))\<lparr>opt_maxlen := of_nat NI_MAXHOST\<rparr>,
      option_of port_name CFG_VALUE_TYPE_PORT port (Def_port default_port)]"

definition trimble_cfgDesc :: CFG_Section where
  "trimble_cfgDesc = (section_of (ascii ''GPS'')
     (host_port trimble_cfgHost trimble_cfgPort (ascii ''Host'') (ascii ''Port'') (ascii ''localhost'') 10685))
    \<lparr>sect_check := Some (check_host_port trimble_cfgHost trimble_cfgPort)\<rparr>"

definition net_cfgDesc :: CFG_Section where
  "net_cfgDesc = (section_of (ascii ''NETWORK'')
     (host_port net_cfgHost net_cfgPort (ascii ''Host'') (ascii ''Port'') (ascii ''collector.opensky-network.org'') 10004))
    \<lparr>sect_check := Some (check_host_port net_cfgHost net_cfgPort)\<rparr>"

definition buf_cfgDesc :: CFG_Section where
  "buf_cfgDesc = (section_of (ascii ''BUFFER'')
     [option_of (ascii ''StaticBacklog'') CFG_VALUE_TYPE_INT buf_statBacklog (Def_integer 200),
      option_of (ascii ''DynamicBacklog'') CFG_VALUE_TYPE_INT buf_dynBacklog (Def_integer 1000),
      option_of (ascii ''DynamicIncrements'') CFG_VALUE_TYPE_INT buf_dynIncrement (Def_integer 1080),
      option_of (ascii ''History'') CFG_VALUE_TYPE_BOOL buf_history (Def_boolean False),
      option_of (ascii ''GC'') CFG_VALUE_TYPE_BOOL buf_gc (Def_boolean False),
      option_of (ascii ''GCInterval'') CFG_VALUE_TYPE_INT buf_gcInterval (Def_integer 120),
      option_of (ascii ''GCLevel'') CFG_VALUE_TYPE_INT buf_gcLevel (Def_integer 2)])
    \<lparr>sect_fix := Some buffer_cfgFix\<rparr>"

definition rc_cfgDesc :: CFG_Section where
  "rc_cfgDesc = section_of (ascii ''INPUT'')
     [option_of (ascii ''fec'') CFG_VALUE_TYPE_BOOL rc_cfgFec (Def_boolean True)]"

definition rc_input_cfgDesc :: CFG_Section where
  "rc_input_cfgDesc = (section_of (ascii ''INPUT'')
     (host_port rc_cfgHost rc_cfgPort (ascii ''host'') (ascii ''port'') (ascii ''localhost'') 10003))
    \<lparr>sect_check := Some (check_host_port rc_cfgHost rc_cfgPort)\<rparr>"

definition filter_cfgDesc :: CFG_Section where
  "filter_cfgDesc = section_of (ascii ''FILTER'')
     [option_of (ascii ''CRC'') CFG_VALUE_TYPE_BOOL filter_crc (Def_boolean True),
      option_of (ascii ''ModeSExtSquitterOnly'') CFG_VALUE_TYPE_BOOL filter_extSquitter (Def_boolean True),
      option_of (ascii ''SyncFilter'') CFG_VALUE_TYPE_BOOL filter_sync (Def_boolean True)]"

definition daemon_sections :: "CFG_Section list" where
  "daemon_sections = [fpga_cfgDesc, relay_cfg, stat_cfg, serial_cfgDesc, trimble_cfgDesc, net_cfgDesc,
     buf_cfgDesc, rc_cfgDesc, rc_input_cfgDesc, filter_cfgDesc]"

lemmas cfg_desc_defs = fpga_cfgDesc_def relay_cfg_def stat_cfg_def serial_cfgDesc_def trimble_cfgDesc_def
  net_cfgDesc_def buf_cfgDesc_def rc_cfgDesc_def rc_input_cfgDesc_def filter_cfgDesc_def option_of_def
  section_of_def host_port_def

text \<open>Static variables start as zeros.\<close>

definition bss_var :: "CFG_Option \<Rightarrow> cfg_var" where
  "bss_var opt = (case opt_type opt of
      CFG_VALUE_TYPE_STRING \<Rightarrow> Var_string (replicate (unat (opt_maxlen opt)) 0)
    | CFG_VALUE_TYPE_INT \<Rightarrow> Var_integer 0
    | CFG_VALUE_TYPE_PORT \<Rightarrow> Var_port 0
    | CFG_VALUE_TYPE_BOOL \<Rightarrow> Var_boolean False
    | CFG_VALUE_TYPE_DOUBLE \<Rightarrow> Var_dbl (Double_bits 0))"

fun bss_vars :: "CFG_Option list \<Rightarrow> nat \<Rightarrow> cfg_var" where
  "bss_vars [] i = Var_boolean False"
| "bss_vars (opt # os) i = (if i = opt_var opt then bss_var opt else bss_vars os i)"

definition bss_store :: cfg_store where
  "bss_store = \<lparr>cfg_vars = bss_vars (all_options daemon_sections), cfg_given = (\<lambda>g. False)\<rparr>"

text \<open>The configuration part of \<open>main\<close>: the result of reading the file only decides about a warning.\<close>

definition daemon_configure :: "(u8 list \<Rightarrow> ieee_double) \<Rightarrow> u8 list option \<Rightarrow> cfg_parser \<Rightarrow> cfg_store \<Rightarrow>
    fault + (bool \<times> cfg_store)" where
  "daemon_configure strtod conf p st =
    bind_ok (CFG_loadDefaults daemon_sections st) (\<lambda>st.
    bind_ok (CFG_readFile strtod False daemon_sections conf p st) (\<lambda>(read, p, st).
    bind_ok (CFG_check daemon_sections st) (\<lambda>ok. if ok then Ok (read, st) else Fault Emergency)))"

section \<open>The table\<close>

lemma daemon_options_eq: "all_options daemon_sections = concat (map sect_options daemon_sections)"
  by (simp add: all_options_def)

lemma daemon_table_ok: "table_ok daemon_sections"
  by (simp add: table_ok_def all_options_def daemon_sections_def cfg_desc_defs default_ok_def PATH_MAX_def NI_MAXHOST_def)

lemma daemon_strings_ok: "list_all default_string_ok (all_options daemon_sections)"
  by (simp add: all_options_def daemon_sections_def cfg_desc_defs default_string_ok_def)

lemma daemon_vars_distinct: "distinct (map opt_var (all_options daemon_sections))"
  by (simp add: all_options_def daemon_sections_def cfg_desc_defs cfg_var_defs)

lemma buffer_types:
  assumes "store_ok os st" "set (sect_options buf_cfgDesc) \<subseteq> set os"
  shows "\<exists>sb db di h g gi gl. cfg_vars st buf_statBacklog = Var_integer sb \<and> cfg_vars st buf_dynBacklog = Var_integer db
      \<and> cfg_vars st buf_dynIncrement = Var_integer di \<and> cfg_vars st buf_history = Var_boolean h
      \<and> cfg_vars st buf_gc = Var_boolean g \<and> cfg_vars st buf_gcInterval = Var_integer gi
      \<and> cfg_vars st buf_gcLevel = Var_integer gl"
proof -
  have ints: "\<exists>i. v = Var_integer i" if "var_type v = CFG_VALUE_TYPE_INT" for v using that by (cases v) simp_all
  have bools: "\<exists>b. v = Var_boolean b" if "var_type v = CFG_VALUE_TYPE_BOOL" for v using that by (cases v) simp_all
  have "list_all (\<lambda>opt. var_ok opt (cfg_vars st (opt_var opt))) (sect_options buf_cfgDesc)"
    using assms by (auto simp: store_ok_def list_all_iff)
  then show ?thesis using ints bools
    by (simp add: buf_cfgDesc_def section_of_def option_of_def var_ok_def)
qed

lemma bss_ok: "store_ok (all_options daemon_sections) bss_store"
  by (simp add: store_ok_def bss_store_def all_options_def daemon_sections_def cfg_desc_defs cfg_var_defs
      bss_var_def var_ok_def PATH_MAX_def NI_MAXHOST_def)

lemma buffer_cfgFix_ok:
  assumes "store_ok os st" "set (sect_options buf_cfgDesc) \<subseteq> set os"
  shows "\<exists>st' c. buffer_cfgFix st = Ok st' \<and> store_ok os st' \<and> buffer_config st = Some c
    \<and> buffer_config st' = Some (buf_cfgFix c)"
proof -
  obtain sb db di h g gi gl where v: "cfg_vars st buf_statBacklog = Var_integer sb" "cfg_vars st buf_dynBacklog = Var_integer db"
    "cfg_vars st buf_dynIncrement = Var_integer di" "cfg_vars st buf_history = Var_boolean h"
    "cfg_vars st buf_gc = Var_boolean g" "cfg_vars st buf_gcInterval = Var_integer gi" "cfg_vars st buf_gcLevel = Var_integer gl"
    using buffer_types [OF assms] by blast
  let ?c = "\<lparr>statBacklog = sb, dynBacklog = db, dynIncrement = di, history = h, gc_enabled = g, gcInterval = gi, gcLevel = gl\<rparr>"
  let ?t = "st\<lparr>cfg_vars := (cfg_vars st)(buf_statBacklog := Var_integer (statBacklog (buf_cfgFix ?c)))\<rparr>"
  have c: "buffer_config st = Some ?c" using v by (simp add: buffer_config_def)
  have "store_ok os ?t" by (rule store_ok_update [OF assms(1)]) (simp_all add: v)
  then have "store_ok os
      (?t\<lparr>cfg_vars := (cfg_vars ?t)(buf_gc := Var_boolean (gc_enabled (buf_cfgFix ?c)))\<rparr>)"
    by (rule store_ok_update) (use v in \<open>simp_all add: cfg_var_defs\<close>)
  moreover have "buffer_cfgFix st = Ok (?t\<lparr>cfg_vars := (cfg_vars ?t)(buf_gc := Var_boolean (gc_enabled (buf_cfgFix ?c)))\<rparr>)"
    by (simp add: buffer_cfgFix_def c Let_def)
  moreover have "buffer_config (?t\<lparr>cfg_vars := (cfg_vars ?t)(buf_gc := Var_boolean (gc_enabled (buf_cfgFix ?c)))\<rparr>) = Some (buf_cfgFix ?c)"
    using v by (simp add: buffer_config_def cfg_var_defs buf_cfgFix_def Let_def)
  ultimately show ?thesis using c by blast
qed

lemma daemon_cfgFix_ok:
  "store_ok (all_options daemon_sections) st \<Longrightarrow> \<exists>st' c. buffer_cfgFix st = Ok st'
    \<and> store_ok (all_options daemon_sections) st' \<and> buffer_config st = Some c \<and> buffer_config st' = Some (buf_cfgFix c)"
  by (rule buffer_cfgFix_ok) (auto simp: all_options_def daemon_sections_def)

lemma daemon_fixes_ok: "fixes_ok (all_options daemon_sections) daemon_sections"
  using daemon_cfgFix_ok by (fastforce simp: fixes_ok_def daemon_sections_def cfg_desc_defs)

lemma fix_all_daemon: "fix_all daemon_sections = buffer_cfgFix"
  by (intro ext) (simp add: daemon_sections_def cfg_desc_defs split: sum.split, simp add: bind_ok_def split: sum.split)

section \<open>Loading, reading and checking\<close>

lemma option_types:
  assumes "store_ok (all_options daemon_sections) st"
  shows "\<exists>a. cfg_vars st fpga_cfgFilename = Var_string a \<and> a \<noteq> []" "\<exists>b. cfg_vars st fpga_cfgConfigure = Var_boolean b"
    "\<exists>a. cfg_vars st trimble_cfgHost = Var_string a \<and> a \<noteq> []" "\<exists>q. cfg_vars st trimble_cfgPort = Var_port q"
    "\<exists>a. cfg_vars st net_cfgHost = Var_string a \<and> a \<noteq> []" "\<exists>q. cfg_vars st net_cfgPort = Var_port q \<and> q \<le> 0xffff"
    "\<exists>a. cfg_vars st rc_cfgHost = Var_string a \<and> a \<noteq> []" "\<exists>q. cfg_vars st rc_cfgPort = Var_port q"
proof -
  have strings: "\<exists>a. v = Var_string a \<and> a \<noteq> []" if "var_type v = CFG_VALUE_TYPE_STRING" "var_sane v" for v
    using that by (cases v) auto
  have ports: "\<exists>q. v = Var_port q \<and> q \<le> 0xffff" if "var_type v = CFG_VALUE_TYPE_PORT" "var_sane v" for v
    using that by (cases v) auto
  have bools: "\<exists>b. v = Var_boolean b" if "var_type v = CFG_VALUE_TYPE_BOOL" for v using that by (cases v) simp_all
  have "list_all (\<lambda>opt. var_ok opt (cfg_vars st (opt_var opt)))
      (sect_options fpga_cfgDesc @ sect_options trimble_cfgDesc @ sect_options net_cfgDesc @ sect_options rc_input_cfgDesc)"
    using assms by (simp add: store_ok_def all_options_def daemon_sections_def)
  then show "\<exists>a. cfg_vars st fpga_cfgFilename = Var_string a \<and> a \<noteq> []" "\<exists>b. cfg_vars st fpga_cfgConfigure = Var_boolean b"
    "\<exists>a. cfg_vars st trimble_cfgHost = Var_string a \<and> a \<noteq> []" "\<exists>q. cfg_vars st trimble_cfgPort = Var_port q"
    "\<exists>a. cfg_vars st net_cfgHost = Var_string a \<and> a \<noteq> []" "\<exists>q. cfg_vars st net_cfgPort = Var_port q \<and> q \<le> 0xffff"
    "\<exists>a. cfg_vars st rc_cfgHost = Var_string a \<and> a \<noteq> []" "\<exists>q. cfg_vars st rc_cfgPort = Var_port q"
    using strings ports bools
    by (simp_all add: fpga_cfgDesc_def trimble_cfgDesc_def net_cfgDesc_def rc_input_cfgDesc_def host_port_def
        section_of_def option_of_def var_ok_def) blast+
qed

lemma check_host_port_cases:
  assumes "\<exists>a. cfg_vars st host = Var_string a \<and> a \<noteq> []" "\<exists>q. cfg_vars st port = Var_port q"
  shows "\<exists>b. check_host_port host port st = Ok b \<and>
    (b \<longleftrightarrow> (\<exists>a q. cfg_vars st host = Var_string a \<and> cstr a \<noteq> [] \<and> cfg_vars st port = Var_port q \<and> q \<noteq> 0))"
proof -
  obtain c cs q where "cfg_vars st host = Var_string (c # cs)" "cfg_vars st port = Var_port q"
    using assms by (metis neq_Nil_conv)
  then show ?thesis by (simp add: check_host_port_def cstr_def)
qed

text \<open>The network part of a checked configuration.\<close>

definition network_config_ok :: "cfg_store \<Rightarrow> bool" where
  "network_config_ok st = (case (cfg_vars st net_cfgHost, cfg_vars st net_cfgPort) of
      (Var_string a, Var_port q) \<Rightarrow> cstr a \<noteq> [] \<and> 0 < q \<and> q \<le> 0xffff | _ \<Rightarrow> False)"

lemma check_daemon:
  assumes "store_ok (all_options daemon_sections) st"
  shows "\<exists>b. CFG_check daemon_sections st = Ok b \<and> (b \<longrightarrow> network_config_ok st)"
proof -
  note types = option_types [OF assms]
  obtain b1 where fpga: "fpga_checkCfg st = Ok b1"
    using types(1,2) by (fastforce simp: fpga_checkCfg_def neq_Nil_conv)
  obtain b2 where trimble: "check_host_port trimble_cfgHost trimble_cfgPort st = Ok b2"
    using check_host_port_cases [OF types(3,4)] by auto
  obtain b3 where net: "check_host_port net_cfgHost net_cfgPort st = Ok b3"
    "b3 \<longleftrightarrow> (\<exists>a q. cfg_vars st net_cfgHost = Var_string a \<and> cstr a \<noteq> [] \<and> cfg_vars st net_cfgPort = Var_port q \<and> q \<noteq> 0)"
    using check_host_port_cases [OF types(5)] types(6) by blast
  obtain b4 where rc: "check_host_port rc_cfgHost rc_cfgPort st = Ok b4"
    using check_host_port_cases [OF types(7,8)] by auto
  have "b3 \<longrightarrow> network_config_ok st" using net(2) types(6) by (auto simp: network_config_ok_def word_greater_zero_iff)
  moreover have "CFG_check daemon_sections st = Ok (b1 \<and> b2 \<and> b3 \<and> b4)"
    by (simp add: daemon_sections_def cfg_desc_defs fpga trimble net(1) rc)
  ultimately show ?thesis by auto
qed

lemma readFile_fixed:
  assumes "CFG_readFile strtod d daemon_sections conf p st = Ok (True, q, st')"
    and "store_ok (all_options daemon_sections) st"
  shows "\<exists>st1. store_ok (all_options daemon_sections) st1 \<and> buffer_cfgFix st1 = Ok st'"
proof -
  obtain i q1 st1 where i: "conf = Some i" and r: "readCfg strtod d daemon_sections i
      (p\<lparr>bufferInput := 0, bufferSize := length i, bufferLine := 1\<rparr>) st = Ok (True, q1, st1)"
    and f: "fix_all daemon_sections st1 = Ok st'"
    using assms(1) by (auto simp: CFG_readFile_def bind_ok_eq_Inr split: option.splits if_splits)
  have "store_ok (all_options daemon_sections) st1"
    using read_loop_ok [OF daemon_table_ok assms(2)] r unfolding readCfg_def by (metis (no_types, lifting) sum.case(2) prod.case)
  then show ?thesis using f by (auto simp: fix_all_daemon)
qed

lemma buf_cfgFix_result: "2 \<le> statBacklog (buf_cfgFix c)" "gc_enabled (buf_cfgFix c) \<Longrightarrow> history (buf_cfgFix c)"
  by (cases "statBacklog c < 2"; cases "gc_enabled c"; cases "history c"; simp add: buf_cfgFix_def Let_def)+

text \<open>C5: whatever the configuration file holds, starting the daemon either ends in an access out of
  bounds of the parser or an emergency message, or it has a configuration of the right types with
  a host and a port to connect to; and if the file was read, the frame buffer gets what its
  construction asserts, at least two frames, and its garbage collector only with the history.\<close>

theorem daemon_config_safe:
  "case daemon_configure strtod conf p bss_store of
     Inl f \<Rightarrow> f = Out_of_bounds \<or> f = Emergency
   | Inr (read, st) \<Rightarrow> store_ok (all_options daemon_sections) st \<and> network_config_ok st
       \<and> (\<exists>c. buffer_config st = Some c \<and> (read \<longrightarrow> 2 \<le> statBacklog c \<and> (gc_enabled c \<longrightarrow> history c)))"
proof -
  let ?O = "all_options daemon_sections"
  obtain st0 where st0: "CFG_loadDefaults daemon_sections bss_store = Ok st0" "store_ok ?O st0"
    using CFG_loadDefaults_ok [OF bss_ok _ daemon_table_ok] by auto
  show ?thesis
  proof (cases "CFG_readFile strtod False daemon_sections conf p st0")
    case (Inl f)
    then show ?thesis using cfg_read_types [OF daemon_table_ok st0(2) daemon_fixes_ok, of strtod False conf p] st0(1)
      by (simp add: daemon_configure_def)
  next
    case (Inr x)
    obtain read q st where x: "x = (read, q, st)" by (cases x)
    have st: "store_ok ?O st"
      using cfg_read_types [OF daemon_table_ok st0(2) daemon_fixes_ok, of strtod False conf p] Inr x by simp
    obtain b where b: "CFG_check daemon_sections st = Ok b" "b \<longrightarrow> network_config_ok st" using check_daemon [OF st] by auto
    have "\<exists>c. buffer_config st = Some c \<and> (read \<longrightarrow> 2 \<le> statBacklog c \<and> (gc_enabled c \<longrightarrow> history c))"
    proof (cases read)
      case True
      then obtain st1 where st1: "store_ok ?O st1" "buffer_cfgFix st1 = Ok st"
        using readFile_fixed [OF _ st0(2), of strtod False conf p q st] Inr x by auto
      obtain c where "buffer_config st = Some (buf_cfgFix c)" using daemon_cfgFix_ok [OF st1(1)] st1(2) by auto
      then show ?thesis using buf_cfgFix_result by blast
    next
      case False
      then show ?thesis using daemon_cfgFix_ok [OF st] by auto
    qed
    then show ?thesis using st0(1) Inr x st b by (simp add: daemon_configure_def)
  qed
qed

section \<open>Two configuration files\<close>

text \<open>The variables after loading the defaults.\<close>

definition checked_vars :: "cfg_store \<Rightarrow> bool" where
  "checked_vars st \<longleftrightarrow> (\<exists>f h1 h2 h3 p1 p2 p3. cfg_vars st fpga_cfgFilename = Var_string f \<and> cstr f \<noteq> []
     \<and> cfg_vars st trimble_cfgHost = Var_string h1 \<and> cstr h1 \<noteq> [] \<and> cfg_vars st trimble_cfgPort = Var_port p1 \<and> p1 \<noteq> 0
     \<and> cfg_vars st net_cfgHost = Var_string h2 \<and> cstr h2 \<noteq> [] \<and> cfg_vars st net_cfgPort = Var_port p2 \<and> p2 \<noteq> 0
     \<and> cfg_vars st rc_cfgHost = Var_string h3 \<and> cstr h3 \<noteq> [] \<and> cfg_vars st rc_cfgPort = Var_port p3 \<and> p3 \<noteq> 0)"

lemma checked_vars_check:
  assumes "checked_vars st" and ok: "store_ok (all_options daemon_sections) st"
  shows "CFG_check daemon_sections st = Ok True"
proof -
  have host: "check_host_port host port st = Ok True"
    if "cfg_vars st host = Var_string h" "cstr h \<noteq> []" "cfg_vars st port = Var_port q" "q \<noteq> 0" for host port h q
    using that by (cases h) (auto simp: check_host_port_def cstr_def split: if_splits)
  have fpga: "fpga_checkCfg st = Ok True" if f: "cfg_vars st fpga_cfgFilename = Var_string f" "cstr f \<noteq> []" for f
  proof -
    obtain b where "cfg_vars st fpga_cfgConfigure = Var_boolean b" using option_types(2) [OF ok] by blast
    then show ?thesis using f by (cases f) (auto simp: fpga_checkCfg_def cstr_def split: if_splits)
  qed
  show ?thesis using assms(1) host fpga
    by (fastforce simp: checked_vars_def daemon_sections_def cfg_desc_defs)
qed

lemma defaults_checked:
  obtains st0 where "CFG_loadDefaults daemon_sections bss_store = Ok st0" "store_ok (all_options daemon_sections) st0"
    "checked_vars st0"
proof -
  obtain st0 where st0: "CFG_loadDefaults daemon_sections bss_store = Ok st0" "store_ok (all_options daemon_sections) st0"
    using CFG_loadDefaults_ok [OF bss_ok _ daemon_table_ok] by auto
  have "load_options (all_options daemon_sections) bss_store = Ok st0" using st0(1) by (simp add: CFG_loadDefaults_options)
  then have "\<forall>opt\<in>set (all_options daemon_sections). is_default opt (cfg_vars st0 (opt_var opt))"
    using load_options_values daemon_table_ok daemon_strings_ok daemon_vars_distinct by (simp add: table_ok_def)
  then have "\<forall>opt\<in>set (sect_options fpga_cfgDesc @ sect_options trimble_cfgDesc @ sect_options net_cfgDesc @ sect_options rc_input_cfgDesc).
      is_default opt (cfg_vars st0 (opt_var opt))"
    by (auto simp: all_options_def daemon_sections_def)
  then have "checked_vars st0"
    by (auto simp: fpga_cfgDesc_def trimble_cfgDesc_def net_cfgDesc_def rc_input_cfgDesc_def host_port_def section_of_def
        option_of_def is_default_def checked_vars_def)
  then show thesis using st0 that by blast
qed

lemma buffer_lookups:
  "lookup_option daemon_sections (ascii ''BUFFER'') (ascii ''StaticBacklog'') =
    Some (option_of (ascii ''StaticBacklog'') CFG_VALUE_TYPE_INT buf_statBacklog (Def_integer 200))"
  "lookup_option daemon_sections (ascii ''BUFFER'') (ascii ''GC'') =
    Some (option_of (ascii ''GC'') CFG_VALUE_TYPE_BOOL buf_gc (Def_boolean False))"
  "list_ex (\<lambda>s. strcaseeq (sect_name s) (ascii ''BUFFER'')) daemon_sections"
  by (simp_all add: daemon_sections_def cfg_desc_defs strcaseeq_def to_lower_def)

text \<open>The line that asks for a buffer of one frame.\<close>

definition backlog_line :: cfg_line where
  "backlog_line = Setting (ascii ''StaticBacklog'') [] [] [49] False"

lemma exec_backlog_line:
  assumes "store_ok (all_options daemon_sections) st"
  obtains st1 where "exec_line strtod d daemon_sections backlog_line (Some (ascii ''BUFFER'')) st = Ok (Some (ascii ''BUFFER''), st1)"
    "store_ok (all_options daemon_sections) st1" "cfg_vars st1 = (cfg_vars st)(buf_statBacklog := Var_integer 1)"
proof -
  let ?opt = "option_of (ascii ''StaticBacklog'') CFG_VALUE_TYPE_INT buf_statBacklog (Def_integer 200)"
  have opt: "?opt \<in> set (all_options daemon_sections)"
    by (simp add: all_options_def daemon_sections_def buf_cfgDesc_def section_of_def)
  have one: "parseInt [49] 1 = Ok (Some 1)"
    by (simp add: parseInt_def number_string_def strtoul0_def number_value_def digit_of_def is_space_def)
  have "\<exists>st1. assign_line strtod d ?opt [49] (of_nat (length [49 :: u8])) st = Ok (True, st1)
      \<and> store_ok (all_options daemon_sections) st1 \<and> cfg_vars st1 = (cfg_vars st)(opt_var ?opt := Var_integer 1)"
    by (rule assign_scalar_text [OF assms opt])
      (simp_all add: option_of_def assignOptionFromString_def one assign_parsed_some)
  then show thesis using that buffer_lookups(1) by (auto simp: backlog_line_def option_of_def)
qed

theorem daemon_config_safe_witness:
  "\<exists>st c. daemon_configure (\<lambda>t. Double_bits 0)
      (Some (ascii ''[BUFFER]'' @ [13, 10] @ ascii ''StaticBacklog=1'' @ [10]))
      \<lparr>bufferInput = 0, bufferSize = 0, bufferLine = 0, sectionState = SECTION_STATE_UNKNOWN, sectionName = 0, sectionNameLen = 0\<rparr>
      bss_store = Ok (True, st)
    \<and> buffer_config st = Some c \<and> 2 \<le> statBacklog c \<and> network_config_ok st"
proof -
  let ?conf = "ascii ''[BUFFER]'' @ [13, 10] @ ascii ''StaticBacklog=1'' @ [10]"
  let ?p = "\<lparr>bufferInput = 0, bufferSize = 0, bufferLine = 0, sectionState = SECTION_STATE_UNKNOWN, sectionName = 0, sectionNameLen = 0\<rparr>"
  let ?L = "[Header (ascii ''BUFFER'') True, backlog_line]"
  obtain st0 where st0: "CFG_loadDefaults daemon_sections bss_store = Ok st0" "store_ok (all_options daemon_sections) st0"
    "checked_vars st0" by (rule defaults_checked)
  obtain st1 where st1: "exec_line (\<lambda>t. Double_bits 0) False daemon_sections backlog_line (Some (ascii ''BUFFER'')) st0
      = Ok (Some (ascii ''BUFFER''), st1)" "store_ok (all_options daemon_sections) st1"
    "cfg_vars st1 = (cfg_vars st0)(buf_statBacklog := Var_integer 1)" by (rule exec_backlog_line [OF st0(2)])
  obtain st2 where st2: "buffer_cfgFix st1 = Ok st2" "store_ok (all_options daemon_sections) st2"
    using daemon_cfgFix_ok [OF st1(2)] by blast
  have bytes: "concat (map render ?L) = ?conf" by (simp add: backlog_line_def eol_def)
  have ok: "\<forall>l\<in>set ?L. line_ok l"
    by (simp add: backlog_line_def plain_key_def blanks_def plain_value_def is_space_def)
  have ex: "exec_lines (\<lambda>t. Double_bits 0) False daemon_sections ?L None st0 = Ok (Some (ascii ''BUFFER''), st1)"
    using st1(1) buffer_lookups(3) by simp
  have len: "length (concat (map render ?L)) < 2 ^ 63" unfolding bytes by simp
  have "bind_ok (CFG_readFile (\<lambda>t. Double_bits 0) False daemon_sections (Some ?conf) ?p st0) (\<lambda>(ok, p, st). Ok (ok, st)) = Ok (True, st2)"
    using cfg_file_lines [OF ok len, of "\<lambda>t. Double_bits 0" False daemon_sections ?p st0]
    unfolding bytes ex bind_ok_simps prod.case fix_all_daemon st2(1) .
  then obtain q where read: "CFG_readFile (\<lambda>t. Double_bits 0) False daemon_sections (Some ?conf) ?p st0 = Ok (True, q, st2)"
    by (auto simp: bind_ok_eq_Inr)
  have "checked_vars st2"
    using st0(3) st1(3) st2(1) by (auto simp: checked_vars_def buffer_cfgFix_def Let_def cfg_var_defs split: option.splits)
  then have "daemon_configure (\<lambda>t. Double_bits 0) (Some ?conf) ?p bss_store = Ok (True, st2)"
    using st0(1) read checked_vars_check [OF _ st2(2)] by (simp add: daemon_configure_def)
  then show ?thesis using daemon_config_safe [of "\<lambda>t. Double_bits 0" "Some ?conf" ?p] by auto
qed

text \<open>When the file cannot be read to its end, the values read so far stay although the daemon says
  it uses the defaults, and the sections are not fixed: a file that asks for a buffer of one
  frame and ends in an incomplete header passes the check, and constructing the buffer fails its
  assertion.\<close>

theorem unreadable_config_breaks_buffer:
  "\<exists>st c. daemon_configure strtod (Some (ascii ''[BUFFER]'' @ [10] @ ascii ''StaticBacklog=1'' @ [10] @ ascii ''['')) p bss_store
      = Ok (False, st)
    \<and> buffer_config st = Some c \<and> buf_construct malloc_ok (s\<lparr>buf_cfg := c\<rparr>) = Fault Assert_failed"
proof -
  let ?H = "render (Header (ascii ''BUFFER'') False)" and ?B = "render backlog_line"
  let ?inp = "?H @ ?B @ [91]"
  obtain st0 where st0: "CFG_loadDefaults daemon_sections bss_store = Ok st0" "store_ok (all_options daemon_sections) st0"
    "checked_vars st0" by (rule defaults_checked)
  obtain st1 where st1: "exec_line strtod False daemon_sections backlog_line (Some (ascii ''BUFFER'')) st0
      = Ok (Some (ascii ''BUFFER''), st1)" "store_ok (all_options daemon_sections) st1"
    "cfg_vars st1 = (cfg_vars st0)(buf_statBacklog := Var_integer 1)" by (rule exec_backlog_line [OF st0(2)])
  let ?p = "p\<lparr>bufferInput := 0, bufferSize := length ?inp, bufferLine := 1, sectionState := SECTION_STATE_UNKNOWN\<rparr>"
  have len: "length ?inp < 2 ^ 63" by (simp add: backlog_line_def eol_def)
  have at: "cfg_at ?inp ?p [] ?inp" "section_at ?inp ?p None" by (simp_all add: cfg_at_def section_at_def)
  have ok: "line_ok (Header (ascii ''BUFFER'') False)" "line_ok backlog_line"
    by (simp_all add: backlog_line_def plain_key_def blanks_def plain_value_def is_space_def)
  obtain q where q: "read_loop strtod False daemon_sections ?inp ?p st0 = read_loop strtod False daemon_sections ?inp q st0"
    "cfg_at ?inp q ?H (?B @ [91])" "section_at ?inp q (Some (ascii ''BUFFER''))"
    using read_step [OF at(1) ok(1) len at(2), of strtod False daemon_sections st0] buffer_lookups(3)
    by (auto simp del: render.simps)
  obtain r where r: "read_loop strtod False daemon_sections ?inp q st0 = read_loop strtod False daemon_sections ?inp r st1"
    "cfg_at ?inp r (?H @ ?B) [91]"
    using read_step [OF q(2) ok(2) len q(3), of strtod False daemon_sections st0] st1(1) by (auto simp del: render.simps)
  have "parseSection daemon_sections ?inp r = (SECTION_STATE_UNRECOVERABLE, r)"
    using r(2) by (simp add: parseSection_def cfg_find_def cfg_at_def Let_def del: render.simps)
  then have "read_loop strtod False daemon_sections ?inp r st1 = Ok (False, r\<lparr>sectionState := SECTION_STATE_UNRECOVERABLE\<rparr>, st1)"
    using read_loop_head(1,2) [OF r(2)] by (subst read_loop.simps) (simp add: Let_def del: render.simps)
  then have "CFG_readFile strtod False daemon_sections (Some ?inp) p st0 = Ok (False, r\<lparr>sectionState := SECTION_STATE_UNRECOVERABLE\<rparr>, st1)"
    using q(1) r(1) by (simp add: CFG_readFile_def readCfg_def del: render.simps)
  moreover have "checked_vars st1" using st0(3) st1(3) by (auto simp: checked_vars_def cfg_var_defs)
  ultimately have conf: "daemon_configure strtod (Some ?inp) p bss_store = Ok (False, st1)"
    using st0(1) checked_vars_check [OF _ st1(2)] by (simp add: daemon_configure_def del: render.simps)
  obtain c where c: "buffer_config st1 = Some c" using daemon_cfgFix_ok [OF st1(2)] by blast
  then have "statBacklog c = 1" using st1(3) by (auto simp: buffer_config_def split: cfg_var.splits)
  then have "buf_construct malloc_ok (s\<lparr>buf_cfg := c\<rparr>) = Fault Assert_failed"
    by (simp add: buf_construct_def word_le_nat_alt)
  moreover have bytes: "ascii ''[BUFFER]'' @ [10] @ ascii ''StaticBacklog=1'' @ [10] @ ascii ''['' = ?inp"
    by (simp add: backlog_line_def eol_def)
  ultimately show ?thesis unfolding bytes using conf c by blast
qed

end
