(* ===== verification/Trimble_Parser.thy ===== *)
theory Trimble_Parser
  imports Opensky_Prelude
begin

text \<open>
  The parser of the Trimble GPS receiver's packets (\<open>trimble/trimble_parser.c\<close>): a packet is BOM,
  its bytes with every BOM doubled, BOM, EOM. The receive buffer is the list of its bytes from
  \<open>bufCur\<close> to \<open>bufEnd\<close>; the input is the list of what the following \<open>TRIMBLE_INPUT_read\<close> calls
  return, an empty chunk or the end of the list being a failure.
\<close>

section \<open>State and reading\<close>

definition BOM :: u8 where "BOM = 0x10"
definition EOM :: u8 where "EOM = 0x03"

lemma BOM_EOM [simp]: "BOM \<noteq> EOM" "EOM \<noteq> BOM"
  by (simp_all add: BOM_def EOM_def)

datatype trimble_status = TP_OK | TP_RESYNC | TP_CONNFAIL | TP_BUFFER_FULL

record trimble =
  tp_buf :: "u8 list"
  tp_in :: "u8 list list"

definition tp_discardAndFill :: "trimble \<Rightarrow> bool \<times> trimble" where
  "tp_discardAndFill s =
    (case tp_in s of
       [] \<Rightarrow> (False, s)
     | c # cs \<Rightarrow> if c = [] then (False, s\<lparr>tp_in := cs\<rparr>) else (True, s\<lparr>tp_buf := c, tp_in := cs\<rparr>))"

definition tp_size :: "trimble \<Rightarrow> nat" where
  "tp_size s = length (tp_buf s) + sum_list (map (\<lambda>c. Suc (length c)) (tp_in s))"

abbreviation tp_filled :: "trimble \<Rightarrow> bool \<times> trimble" where
  "tp_filled s \<equiv> if tp_buf s = [] then tp_discardAndFill s else (True, s)"

lemma tp_fill_size: "tp_discardAndFill s = (True, s') \<Longrightarrow> tp_size s' < tp_size s \<and> tp_buf s' \<noteq> []"
  by (auto simp: tp_discardAndFill_def tp_size_def split: list.splits if_splits)

lemma tp_fill_size_le: "tp_discardAndFill s = (ok, s') \<Longrightarrow> tp_size s' \<le> tp_size s"
  by (auto simp: tp_discardAndFill_def tp_size_def split: list.splits if_splits)

lemma tp_filled_size: "tp_filled s = (ok, t) \<Longrightarrow> tp_size t \<le> tp_size s \<and> (ok \<longrightarrow> tp_buf t \<noteq> [])"
  using tp_fill_size [of s t] tp_fill_size_le [of s ok t] by (auto split: if_splits)

lemma tp_shorter: "length b < length (tp_buf s) \<Longrightarrow> tp_size (s\<lparr>tp_buf := b\<rparr>) < tp_size s"
  "length b \<le> length (tp_buf s) \<Longrightarrow> tp_size (s\<lparr>tp_buf := b\<rparr>) \<le> tp_size s"
  by (simp_all add: tp_size_def)

lemma tp_drop_size:
  "memchr c (tp_buf s) = Some i \<Longrightarrow> tp_size (s\<lparr>tp_buf := drop (i + 1) (tp_buf s)\<rparr>) < tp_size s"
  by (auto simp: tp_size_def dest: memchr_Some_less)

function tp_next :: "trimble \<Rightarrow> u8 option \<times> trimble" where
  "tp_next s =
    (case tp_buf s of
       ch # bs \<Rightarrow> (Some ch, s\<lparr>tp_buf := bs\<rparr>)
     | [] \<Rightarrow> (let (ok, s') = tp_discardAndFill s in if ok then tp_next s' else (None, s')))"
  by pat_completeness auto
termination by (relation "measure tp_size") (auto dest: tp_fill_size [OF sym])

section \<open>Synchronizing\<close>

text \<open>One search for BOM in the buffer: the state behind the byte after it, whether that byte ended
  the search, or what to do next. \<open>redo\<close> starts again in the same buffer.\<close>

function tp_synchronize :: "trimble \<Rightarrow> bool \<times> trimble" where
  "tp_synchronize s =
    (case memchr BOM (tp_buf s) of
       Some i \<Rightarrow>
         let s = s\<lparr>tp_buf := drop (i + 1) (tp_buf s)\<rparr>;
             (ok, s) = (if tp_buf s = [] then tp_discardAndFill s else (True, s))
         in if \<not> ok then (False, s)
            else if hd (tp_buf s) = BOM \<or> hd (tp_buf s) = EOM
            then let s = s\<lparr>tp_buf := tl (tp_buf s)\<rparr>
                 in if tp_buf s \<noteq> [] then tp_synchronize s
                    else let (ok, s) = tp_discardAndFill s in if ok then tp_synchronize s else (False, s)
            else (True, s)
     | None \<Rightarrow> let (ok, s) = tp_discardAndFill s in if ok then tp_synchronize s else (False, s))"
  by pat_completeness auto
termination
proof (relation "measure tp_size", goal_cases)
  case 1
  then show ?case by simp
next
  case (2 s r ok s')
  then show ?case using tp_fill_size by auto
next
  case (3 s i s1 r ok s2 s3)
  show ?case
    using 3 tp_drop_size [of BOM s i] tp_filled_size [of s1 True s2] tp_shorter(2) [of "tl (tp_buf s2)" s2] by (auto split: if_splits)
next
  case (4 s i s1 r ok s2 s3 r' ok' s4)
  show ?case
    using 4 tp_drop_size [of BOM s i] tp_filled_size [of s1 True s2] tp_shorter(2) [of "tl (tp_buf s2)" s2] tp_fill_size [of s3 s4] by (auto split: if_splits)
qed

declare tp_next.simps [simp del] tp_synchronize.simps [simp del]

section \<open>Decoding\<close>

text \<open>\<open>n\<close> is the room left in the destination buffer (\<open>dstLen\<close>), \<open>dst\<close> what has been decoded.\<close>

function tp_decode :: "nat \<Rightarrow> u8 list \<Rightarrow> trimble \<Rightarrow> trimble_status \<times> u8 list \<times> trimble" where
  "tp_decode n dst s =
    (let (ok, s) = (if tp_buf s = [] then tp_discardAndFill s else (True, s))
     in if \<not> ok then (TP_CONNFAIL, dst, s)
        else let mlen = (if length (tp_buf s) \<le> n then length (tp_buf s) else n)
     in case memchr BOM (take mlen (tp_buf s)) of
          Some i \<Rightarrow>
            let dst = (if i \<noteq> 0 then dst @ take i (tp_buf s) else dst);
                n = (if i \<noteq> 0 then n - i else n);
                s = s\<lparr>tp_buf := drop (i + 1) (tp_buf s)\<rparr>;
                (ok, s) = (if tp_buf s = [] then tp_discardAndFill s else (True, s))
            in if \<not> ok then (TP_CONNFAIL, dst, s)
               else if hd (tp_buf s) = EOM then (TP_OK, dst, s\<lparr>tp_buf := tl (tp_buf s)\<rparr>)
               else if hd (tp_buf s) = BOM
               then if n = 0 then (TP_BUFFER_FULL, dst, s)
                    else let s = s\<lparr>tp_buf := tl (tp_buf s)\<rparr>
                    in if n - 1 \<noteq> 0 then tp_decode (n - 1) (dst @ [BOM]) s
                       else (TP_BUFFER_FULL, dst @ [BOM], s)
               else (TP_RESYNC, dst, s)
        | None \<Rightarrow>
            let dst = dst @ take mlen (tp_buf s);
                s = s\<lparr>tp_buf := drop mlen (tp_buf s)\<rparr>
            in if n - mlen \<noteq> 0 then tp_decode (n - mlen) dst s else (TP_BUFFER_FULL, dst, s))"
  by pat_completeness auto
termination
  by (relation "measure (\<lambda>(n, dst, s). n)") (auto split: if_splits dest: tp_fill_size [OF sym])

declare tp_decode.simps [simp del]

section \<open>The stream behind the chunks\<close>

definition tp_flat :: "trimble \<Rightarrow> u8 list" where
  "tp_flat s = tp_buf s @ concat (tp_in s)"

definition tp_chunks_ok :: "trimble \<Rightarrow> bool" where
  "tp_chunks_ok s \<longleftrightarrow> [] \<notin> set (tp_in s)"

text \<open>Decoding a stream byte by byte, into \<open>n\<close> bytes of room.\<close>

datatype trimble_stream = Tp_packet "u8 list" "u8 list" | Tp_resync "u8 list" | Tp_full "u8 list" | Tp_end

fun tp_cons :: "u8 list \<Rightarrow> trimble_stream \<Rightarrow> trimble_stream" where
  "tp_cons d (Tp_packet ds rest) = Tp_packet (d @ ds) rest"
| "tp_cons d x = x"

fun st_packet :: "nat \<Rightarrow> u8 list \<Rightarrow> trimble_stream" where
  "st_packet 0 xs = Tp_full xs"
| "st_packet (Suc n) [] = Tp_end"
| "st_packet (Suc n) (x # xs) =
    (if x \<noteq> BOM then tp_cons [x] (st_packet n xs)
     else case xs of [] \<Rightarrow> Tp_end
       | y # ys \<Rightarrow> if y = EOM then Tp_packet [] ys
                   else if y = BOM then tp_cons [BOM] (st_packet n ys) else Tp_resync xs)"

fun st_find :: "u8 list \<Rightarrow> u8 list option" where
  "st_find [] = None"
| "st_find (x # xs) =
    (if x \<noteq> BOM then st_find xs
     else case xs of [] \<Rightarrow> None | y # ys \<Rightarrow> if y = BOM \<or> y = EOM then st_find ys else Some (y # ys))"

lemma tp_cons_tp_cons [simp]: "tp_cons d (tp_cons d' x) = tp_cons (d @ d') x"
  by (cases x) simp_all

lemma st_packet_plain:
  "BOM \<notin> set xs \<Longrightarrow> length xs \<le> n \<Longrightarrow> st_packet n (xs @ ys) = tp_cons xs (st_packet (n - length xs) ys)"
proof (induction xs arbitrary: n)
  case Nil
  then show ?case by (cases "st_packet n ys") simp_all
next
  case (Cons x xs)
  then show ?case by (cases n) auto
qed

lemma st_find_plain: "BOM \<notin> set xs \<Longrightarrow> st_find (xs @ ys) = st_find ys"
  by (induction xs) auto

lemma tp_filled_cases:
  assumes "tp_chunks_ok s" "tp_filled s = (ok, t)"
  shows "if ok then tp_flat t = tp_flat s \<and> tp_chunks_ok t \<and> tp_buf t \<noteq> [] else tp_flat s = []"
proof (cases "tp_buf s")
  case Nil
  then show ?thesis
    using assms by (cases "tp_in s") (auto simp: tp_discardAndFill_def tp_flat_def tp_chunks_ok_def split: if_splits)
next
  case (Cons b bs)
  then show ?thesis using assms by auto
qed

lemma tp_fill_chunks:
  assumes "tp_chunks_ok s"
  shows "tp_discardAndFill s = (True, t) \<Longrightarrow> tp_flat t = concat (tp_in s) \<and> tp_chunks_ok t"
    and "tp_discardAndFill s = (False, t) \<Longrightarrow> tp_in s = []"
  using assms by (auto simp: tp_discardAndFill_def tp_flat_def tp_chunks_ok_def split: list.splits if_splits)

lemma tp_drop_flat:
  "tp_chunks_ok s \<Longrightarrow> tp_flat (s\<lparr>tp_buf := b\<rparr>) = b @ concat (tp_in s) \<and> tp_chunks_ok (s\<lparr>tp_buf := b\<rparr>)"
  by (simp add: tp_flat_def tp_chunks_ok_def)

text \<open>One turn of the decoding loop.\<close>

lemma tp_decode_fail: "tp_filled s = (False, t) \<Longrightarrow> tp_decode n dst s = (TP_CONNFAIL, dst, t)"
  by (subst tp_decode.simps) (simp only: Let_def prod.case simp_thms if_True)

lemma tp_decode_miss:
  assumes "tp_filled s = (True, t)" "m = min (length (tp_buf t)) n" "memchr BOM (take m (tp_buf t)) = None"
  shows "tp_decode n dst s =
    (if n - m \<noteq> 0 then tp_decode (n - m) (dst @ take m (tp_buf t)) (t\<lparr>tp_buf := drop m (tp_buf t)\<rparr>)
     else (TP_BUFFER_FULL, dst @ take m (tp_buf t), t\<lparr>tp_buf := drop m (tp_buf t)\<rparr>))"
proof -
  have m: "(if length (tp_buf t) \<le> n then length (tp_buf t) else n) = m" using assms(2) by simp
  show ?thesis
    using assms by (subst tp_decode.simps) (simp only: Let_def prod.case simp_thms if_False m option.case)
qed

lemma tp_decode_hit:
  assumes "tp_filled s = (True, t)" "m = min (length (tp_buf t)) n" "memchr BOM (take m (tp_buf t)) = Some i"
    and "tp_filled (t\<lparr>tp_buf := drop (i + 1) (tp_buf t)\<rparr>) = (ok, u)"
  shows "tp_decode n dst s =
    (if \<not> ok then (TP_CONNFAIL, dst @ take i (tp_buf t), u)
     else if hd (tp_buf u) = EOM then (TP_OK, dst @ take i (tp_buf t), u\<lparr>tp_buf := tl (tp_buf u)\<rparr>)
     else if hd (tp_buf u) = BOM
     then if n - i = 0 then (TP_BUFFER_FULL, dst @ take i (tp_buf t), u)
          else if n - i - 1 \<noteq> 0
          then tp_decode (n - i - 1) (dst @ take i (tp_buf t) @ [BOM]) (u\<lparr>tp_buf := tl (tp_buf u)\<rparr>)
          else (TP_BUFFER_FULL, dst @ take i (tp_buf t) @ [BOM], u\<lparr>tp_buf := tl (tp_buf u)\<rparr>)
     else (TP_RESYNC, dst @ take i (tp_buf t), u))"
proof -
  have m: "(if length (tp_buf t) \<le> n then length (tp_buf t) else n) = m" using assms(2) by simp
  have d: "(if i \<noteq> 0 then dst @ take i (tp_buf t) else dst) = dst @ take i (tp_buf t)"
    "(if i \<noteq> 0 then n - i else n) = n - i" by simp_all
  show ?thesis
    using assms(1,3,4)
    by (subst tp_decode.simps) (simp only: Let_def prod.case simp_thms if_False m option.case d append_assoc)
qed

definition tp_agrees :: "u8 list \<Rightarrow> trimble_stream \<Rightarrow> trimble_status \<times> u8 list \<times> trimble \<Rightarrow> bool" where
  "tp_agrees dst x res \<longleftrightarrow>
    (case (x, res) of
       (Tp_packet ds rest, (TP_OK, d, s')) \<Rightarrow> d = dst @ ds \<and> tp_flat s' = rest \<and> tp_chunks_ok s'
     | (Tp_resync rest, (TP_RESYNC, d, s')) \<Rightarrow> tp_flat s' = rest \<and> tp_chunks_ok s'
     | (Tp_full rest, (TP_BUFFER_FULL, d, s')) \<Rightarrow> tp_flat s' = rest \<and> tp_chunks_ok s'
     | (Tp_end, (TP_CONNFAIL, _)) \<Rightarrow> True
     | _ \<Rightarrow> False)"

lemma tp_agrees_cons: "tp_agrees (dst @ d) x res \<Longrightarrow> tp_agrees dst (tp_cons d x) res"
  by (cases x; cases res) (auto simp: tp_agrees_def split: trimble_status.splits)

lemma tp_decode_stream:
  assumes "tp_chunks_ok s" "n \<noteq> 0"
  shows "tp_agrees dst (st_packet n (tp_flat s)) (tp_decode n dst s)"
  using assms
proof (induction n arbitrary: dst s rule: less_induct)
  case (less n)
  obtain ok t where ft: "tp_filled s = (ok, t)" by fastforce
  note fc = tp_filled_cases [OF less.prems(1) ft]
  show ?case
  proof (cases ok)
    case False
    then have "tp_flat s = []" using fc by simp
    then have "st_packet n (tp_flat s) = Tp_end" using less.prems(2) by (cases n) simp_all
    then show ?thesis using tp_decode_fail [of s t n dst] ft False by (simp add: tp_agrees_def)
  next
    case True
    let ?B = "tp_buf t" and ?C = "concat (tp_in t)"
    have t: "tp_flat s = ?B @ ?C" "tp_chunks_ok t" "?B \<noteq> []" using fc True by (simp_all add: tp_flat_def)
    define m where "m = min (length ?B) n"
    have m: "m \<noteq> 0" "m \<le> n" "m \<le> length ?B" using t(3) less.prems(2) by (simp_all add: m_def)
    have ft': "tp_filled s = (True, t)" using ft True by simp
    show ?thesis
    proof (cases "memchr BOM (take m ?B)")
      case None
      define u where "u = t\<lparr>tp_buf := drop m ?B\<rparr>"
      have u: "tp_flat u = drop m ?B @ ?C" "tp_chunks_ok u" using tp_drop_flat [OF t(2)] by (simp_all add: u_def)
      have "BOM \<notin> set (take m ?B)" using None by (simp add: memchr_None_iff)
      then have "st_packet n (take m ?B @ tp_flat u) = tp_cons (take m ?B) (st_packet (n - m) (tp_flat u))"
        using st_packet_plain [of "take m ?B" n] m by simp
      moreover have "tp_flat s = take m ?B @ tp_flat u" using t(1) u(1) by simp
      ultimately have st: "st_packet n (tp_flat s) = tp_cons (take m ?B) (st_packet (n - m) (tp_flat u))" by simp
      show ?thesis
      proof (cases "n - m = 0")
        case True
        then show ?thesis
          using tp_decode_miss [OF ft' m_def None, of dst] st u by (simp add: tp_agrees_def u_def [symmetric])
      next
        case False
        have "tp_agrees (dst @ take m ?B) (st_packet (n - m) (tp_flat u)) (tp_decode (n - m) (dst @ take m ?B) u)"
          using less.IH [of "n - m" u] u m False by simp
        from tp_agrees_cons [OF this] show ?thesis
          using tp_decode_miss [OF ft' m_def None, of dst] st False by (simp add: u_def [symmetric])
      qed
    next
      case (Some i)
      have i: "i < m" "BOM \<notin> set (take i ?B)" "?B = take i ?B @ BOM # drop (i + 1) ?B"
      proof -
        have len: "length (take m ?B) = m" using m(3) by simp
        show im: "i < m" using memchr_Some_less [OF Some] unfolding len .
        have "take i (take m ?B) = take i ?B" using im by (simp add: min_def)
        then show "BOM \<notin> set (take i ?B)" using memchr_SomeD [OF Some] by metis
        have "?B ! i = BOM" using memchr_SomeD [OF Some] im by simp
        then show "?B = take i ?B @ BOM # drop (i + 1) ?B"
          using id_take_nth_drop [of i ?B] im m(3) by simp
      qed
      define t1 where "t1 = t\<lparr>tp_buf := drop (i + 1) ?B\<rparr>"
      have t1: "tp_flat t1 = drop (i + 1) ?B @ ?C" "tp_chunks_ok t1"
        using tp_drop_flat [OF t(2)] by (simp_all add: t1_def)
      obtain ok2 u where fu: "tp_filled t1 = (ok2, u)" by fastforce
      note fcu = tp_filled_cases [OF t1(2) fu]
      note dh = tp_decode_hit [OF ft' m_def Some fu [unfolded t1_def], of dst]
      obtain k where k: "n - i = Suc k" using i(1) m(2) by (metis Suc_diff_Suc less_le_trans)
      have "tp_flat s = take i ?B @ BOM # tp_flat t1" using t(1) t1(1) i(3) by (metis append_Cons append_assoc)
      then have st: "st_packet n (tp_flat s) = tp_cons (take i ?B) (st_packet (Suc k) (BOM # tp_flat t1))"
        using st_packet_plain [OF i(2), of n "BOM # tp_flat t1"] i(1) m k by simp
      show ?thesis
      proof (cases ok2)
        case False
        then have "tp_flat t1 = []" using fcu by simp
        then show ?thesis using dh False st by (simp add: tp_agrees_def)
      next
        case True
        then obtain y ys where y: "tp_buf u = y # ys" using fcu by (cases "tp_buf u") auto
        define v where "v = u\<lparr>tp_buf := ys\<rparr>"
        have u: "tp_flat t1 = tp_flat u" "tp_chunks_ok u" using fcu True by simp_all
        have v: "tp_flat u = y # tp_flat v" "tp_chunks_ok v"
          using tp_drop_flat [OF u(2), of ys] y by (simp_all add: v_def tp_flat_def)
        consider (eom) "y = EOM" | (bom) "y = BOM" | (other) "y \<noteq> EOM" "y \<noteq> BOM" by blast
        then show ?thesis
        proof cases
          case eom
          then show ?thesis using dh True st y u v by (simp add: tp_agrees_def v_def [symmetric])
        next
          case other
          then show ?thesis using dh True st y u v by (simp add: tp_agrees_def)
        next
          case bom
          have st2: "st_packet n (tp_flat s) = tp_cons (take i ?B @ [BOM]) (st_packet k (tp_flat v))"
            using st u v bom by simp
          show ?thesis
          proof (cases "k = 0")
            case True
            then show ?thesis
              using dh \<open>ok2\<close> st2 y bom k v by (simp add: tp_agrees_def v_def [symmetric])
          next
            case False
            have "k < n" using k by simp
            have "tp_agrees (dst @ take i ?B @ [BOM]) (st_packet k (tp_flat v))
                (tp_decode k (dst @ take i ?B @ [BOM]) v)"
              by (rule less.IH [OF \<open>k < n\<close> v(2) False])
            from tp_agrees_cons [OF this] show ?thesis
              using dh \<open>ok2\<close> st2 y bom k False by (simp add: v_def [symmetric])
          qed
        qed
      qed
    qed
  qed
qed

lemma tp_next_stream:
  assumes "tp_chunks_ok s"
  shows "case tp_flat s of
      [] \<Rightarrow> fst (tp_next s) = None
    | x # xs \<Rightarrow> \<exists>s'. tp_next s = (Some x, s') \<and> tp_flat s' = xs \<and> tp_chunks_ok s'"
proof (cases "tp_buf s")
  case (Cons b bs)
  then show ?thesis using assms by (simp add: tp_next.simps tp_flat_def tp_chunks_ok_def)
next
  case Nil
  obtain ok t where t: "tp_discardAndFill s = (ok, t)" by fastforce
  have "tp_filled s = (ok, t)" using t Nil by simp
  note fc = tp_filled_cases [OF assms this]
  show ?thesis
  proof (cases ok)
    case False
    then show ?thesis using fc t Nil by (simp add: tp_next.simps [of s])
  next
    case True
    then obtain b bs where b: "tp_buf t = b # bs" using fc by (cases "tp_buf t") auto
    have "tp_next s = tp_next t" using True t Nil by (simp add: tp_next.simps [of s])
    moreover have "tp_flat s = b # (bs @ concat (tp_in t))" using fc True b by (simp add: tp_flat_def)
    ultimately show ?thesis
      using b fc True by (simp add: tp_next.simps [of t] tp_flat_def tp_chunks_ok_def)
  qed
qed

lemma tp_next_size: "tp_next s = (r, s') \<Longrightarrow> tp_size s' \<le> tp_size s \<and> (r \<noteq> None \<longrightarrow> tp_size s' < tp_size s)"
proof (induction s rule: tp_next.induct)
  case (1 s)
  show ?case
  proof (cases "tp_buf s")
    case (Cons b bs)
    then show ?thesis using "1.prems" by (auto simp: tp_next.simps tp_size_def)
  next
    case Nil
    obtain ok t where t: "tp_discardAndFill s = (ok, t)" by fastforce
    show ?thesis
    proof (cases ok)
      case False
      then show ?thesis using "1.prems" Nil t tp_fill_size_le [OF t] by (simp add: tp_next.simps [of s])
    next
      case True
      then have "tp_next t = (r, s')" using "1.prems" Nil t by (simp add: tp_next.simps [of s])
      then show ?thesis
        using "1.IH" [OF Nil t [symmetric] refl True] tp_fill_size [of s t] t True by auto
    qed
  qed
qed

lemma tp_synchronize_Some:
  assumes "memchr BOM (tp_buf s) = Some i" "s1 = s\<lparr>tp_buf := drop (i + 1) (tp_buf s)\<rparr>"
    and "tp_filled s1 = (ok, s2)" and "s3 = s2\<lparr>tp_buf := tl (tp_buf s2)\<rparr>"
  shows "tp_synchronize s = (if \<not> ok then (False, s2)
      else if hd (tp_buf s2) = BOM \<or> hd (tp_buf s2) = EOM
      then (if tp_buf s3 \<noteq> [] then tp_synchronize s3
            else let (ok, s) = tp_discardAndFill s3 in if ok then tp_synchronize s else (False, s))
      else (True, s2))"
  using assms by (subst tp_synchronize.simps) (simp only: option.case Let_def prod.case)

lemma tp_synchronize_None:
  "memchr BOM (tp_buf s) = None \<Longrightarrow> tp_synchronize s
    = (let (ok, s) = tp_discardAndFill s in if ok then tp_synchronize s else (False, s))"
  by (subst tp_synchronize.simps) simp

text \<open>Refilling before going on, as the loop of \<open>synchronize\<close> does, changes nothing for an empty
  buffer.\<close>

lemma tp_synchronize_refill:
  assumes "tp_buf s = []"
  shows "(let (ok, t) = tp_discardAndFill s in if ok then tp_synchronize t else (False, t)) = tp_synchronize s"
  using tp_synchronize_None [of s] assms by simp

lemma tp_synchronize_size:
  "tp_synchronize s = (ok, s') \<Longrightarrow> tp_size s' \<le> tp_size s \<and> (ok \<longrightarrow> tp_size s' < tp_size s)"
proof (induction "tp_size s" arbitrary: s rule: less_induct)
  case less
  have IH: "tp_size s' \<le> tp_size t \<and> (ok \<longrightarrow> tp_size s' < tp_size t)"
    if "tp_size t < tp_size s" "tp_synchronize t = (ok, s')" for t
    using less.hyps that by blast
  show ?case
  proof (cases "memchr BOM (tp_buf s)")
    case None
    obtain r t where t: "tp_discardAndFill s = (r, t)" by fastforce
    show ?thesis
      using less.prems tp_synchronize_None [OF None] t IH [of t] tp_fill_size [of s t] tp_fill_size_le [OF t]
      by (cases r) auto
  next
    case (Some i)
    define s1 where "s1 = s\<lparr>tp_buf := drop (i + 1) (tp_buf s)\<rparr>"
    have s1: "tp_size s1 < tp_size s" unfolding s1_def by (rule tp_drop_size [OF Some])
    obtain r s2 where s2: "tp_filled s1 = (r, s2)" by fastforce
    define s3 where "s3 = s2\<lparr>tp_buf := tl (tp_buf s2)\<rparr>"
    have sz: "tp_size s2 < tp_size s" "tp_size s3 < tp_size s"
      using tp_filled_size [OF s2] s1 tp_shorter(2) [of "tl (tp_buf s2)" s2] by (auto simp: s3_def)
    note eq = tp_synchronize_Some [OF Some s1_def s2 s3_def, unfolded tp_synchronize_refill]
    show ?thesis
    proof (cases "r \<and> (hd (tp_buf s2) = BOM \<or> hd (tp_buf s2) = EOM)")
      case True
      then have "tp_synchronize s = tp_synchronize s3"
        using eq tp_synchronize_refill [of s3] by (cases "tp_buf s3 = []") auto
      then show ?thesis using less.prems IH [OF sz(2)] sz by auto
    next
      case False
      then show ?thesis using less.prems eq sz by (auto split: if_splits)
    qed
  qed
qed

lemma tp_synchronize_stream:
  assumes "tp_chunks_ok s"
  shows "case st_find (tp_flat s) of
      None \<Rightarrow> fst (tp_synchronize s) = False
    | Some xs \<Rightarrow> \<exists>s'. tp_synchronize s = (True, s') \<and> tp_flat s' = xs \<and> tp_chunks_ok s'"
  using assms
proof (induction "tp_size s" arbitrary: s rule: less_induct)
  case less
  show ?case
  proof (cases "memchr BOM (tp_buf s)")
    case None
    then have fl: "st_find (tp_flat s) = st_find (concat (tp_in s))"
      by (simp add: tp_flat_def st_find_plain memchr_None_iff)
    obtain ok t where t: "tp_discardAndFill s = (ok, t)" by fastforce
    show ?thesis
    proof (cases ok)
      case False
      then show ?thesis
        using tp_synchronize_None [OF None] t tp_fill_chunks(2) [OF less.prems] fl by simp
    next
      case True
      then have "tp_flat t = concat (tp_in s)" "tp_chunks_ok t" "tp_size t < tp_size s"
        using tp_fill_chunks(1) [OF less.prems] t tp_fill_size [of s t] by auto
      then show ?thesis using less.hyps [of t] fl tp_synchronize_None [OF None] t True
        by (auto split: option.splits)
    qed
  next
    case (Some i)
    define s1 where "s1 = s\<lparr>tp_buf := drop (i + 1) (tp_buf s)\<rparr>"
    have s1: "tp_chunks_ok s1" "tp_flat s1 = drop (i + 1) (tp_buf s) @ concat (tp_in s)" "tp_size s1 < tp_size s"
      using tp_drop_flat [OF less.prems] tp_drop_size [OF Some] by (simp_all add: s1_def)
    have "tp_buf s = take i (tp_buf s) @ BOM # drop (i + 1) (tp_buf s)" "BOM \<notin> set (take i (tp_buf s))"
      using memchr_Some_split [OF Some] by simp_all
    then have fl: "st_find (tp_flat s) = st_find (BOM # tp_flat s1)"
      using st_find_plain [of "take i (tp_buf s)" "BOM # tp_flat s1"] s1(2)
      by (metis append_Cons append_assoc tp_flat_def)
    obtain ok s2 where s2: "tp_filled s1 = (ok, s2)" by fastforce
    note f2 = tp_filled_cases [OF s1(1) s2]
    define s3 where "s3 = s2\<lparr>tp_buf := tl (tp_buf s2)\<rparr>"
    note eq = tp_synchronize_Some [OF Some s1_def s2 s3_def]
    show ?thesis
    proof (cases ok)
      case False
      then show ?thesis using eq f2 fl by simp
    next
      case ok: True
      then obtain y ys where y: "tp_buf s2 = y # ys" using f2 by (cases "tp_buf s2") auto
      have s3: "tp_flat s1 = y # tp_flat s3" "tp_chunks_ok s3" "tp_size s3 < tp_size s"
        using f2 ok y tp_drop_flat [of s2 ys] tp_filled_size [OF s2] s1(3) tp_shorter(2) [of ys s2]
        by (auto simp: s3_def tp_flat_def)
      show ?thesis
      proof (cases "y = BOM \<or> y = EOM")
        case False
        then show ?thesis using eq ok y fl f2 s3 by auto
      next
        case True
        then have "tp_synchronize s = tp_synchronize s3"
          using eq ok y tp_synchronize_refill [of s3] by (cases "tp_buf s3 = []") auto
        moreover have "st_find (tp_flat s) = st_find (tp_flat s3)" using fl s3(1) True by simp
        ultimately show ?thesis using less.hyps [OF s3(3) s3(2)] by (auto split: option.splits)
      qed
    qed
  qed
qed

lemma tp_decode_size: "tp_decode n dst s = (st, d, s') \<Longrightarrow> tp_size s' \<le> tp_size s"
proof (induction n arbitrary: dst s rule: less_induct)
  case (less n)
  obtain ok t where ft: "tp_filled s = (ok, t)" by fastforce
  note t = tp_filled_size [OF ft]
  show ?case
  proof (cases ok)
    case False
    then show ?thesis using less.prems tp_decode_fail [of s t n dst] ft t by simp
  next
    case True
    then have ft': "tp_filled s = (True, t)" using ft by simp
    let ?B = "tp_buf t"
    define m where "m = min (length ?B) n"
    show ?thesis
    proof (cases "memchr BOM (take m ?B)")
      case None
      have u: "tp_size (t\<lparr>tp_buf := drop m ?B\<rparr>) \<le> tp_size s" using tp_shorter(2) [of "drop m ?B" t] t by simp
      show ?thesis
      proof (cases "n - m = 0")
        case True
        then show ?thesis using tp_decode_miss [OF ft' m_def None, of dst] less.prems u by simp
      next
        case False
        then have "n - m < n" using t \<open>ok\<close> by (simp add: m_def)
        from less.IH [OF this] show ?thesis
          using tp_decode_miss [OF ft' m_def None, of dst] less.prems False u by fastforce
      qed
    next
      case (Some i)
      obtain ok2 u where fu: "tp_filled (t\<lparr>tp_buf := drop (i + 1) ?B\<rparr>) = (ok2, u)" by fastforce
      have u: "tp_size u \<le> tp_size s"
        using tp_filled_size [OF fu] tp_shorter(2) [of "drop (i + 1) ?B" t] t by simp
      have v: "tp_size (u\<lparr>tp_buf := tl (tp_buf u)\<rparr>) \<le> tp_size s"
        using tp_shorter(2) [of "tl (tp_buf u)" u] u by simp
      note dh = tp_decode_hit [OF ft' m_def Some fu, of dst]
      show ?thesis
      proof (cases "ok2 \<and> hd (tp_buf u) = BOM \<and> n - i - 1 \<noteq> 0")
        case True
        then have "n - i - 1 < n" by simp
        from less.IH [OF this] show ?thesis using dh less.prems True v by fastforce
      next
        case False
        then show ?thesis using dh less.prems u v by (auto split: if_splits)
      qed
    qed
  qed
qed

section \<open>Packets\<close>

datatype trimble_label = Tp_top | Tp_synchronize | Tp_decode_frame

text \<open>The loop of \<open>TRIMBLE_PARSER_getFrame\<close> with its jumps; \<open>cap\<close> is \<open>bufLen\<close>. No bytes stand for the
  result 0.\<close>

function tp_getFrame :: "nat \<Rightarrow> trimble_label \<Rightarrow> trimble \<Rightarrow> u8 list \<times> trimble" where
  "tp_getFrame cap lab s =
    (case lab of
       Tp_top \<Rightarrow>
         (case tp_next s of
            (None, s) \<Rightarrow> ([], s)
          | (Some bom, s) \<Rightarrow> if bom \<noteq> BOM then tp_getFrame cap Tp_synchronize s
                            else tp_getFrame cap Tp_decode_frame s)
     | Tp_synchronize \<Rightarrow>
         (case tp_synchronize s of
            (False, s) \<Rightarrow> ([], s)
          | (True, s) \<Rightarrow> tp_getFrame cap Tp_decode_frame s)
     | Tp_decode_frame \<Rightarrow>
         (case tp_next s of
            (None, s) \<Rightarrow> ([], s)
          | (Some type, s) \<Rightarrow>
              if type = EOM then tp_getFrame cap Tp_synchronize s
              else case tp_decode (cap - 1) [] s of
                  (TP_OK, dst, s) \<Rightarrow> (type # dst, s)
                | (TP_RESYNC, dst, s) \<Rightarrow> tp_getFrame cap Tp_decode_frame s
                | (TP_CONNFAIL, dst, s) \<Rightarrow> ([], s)
                | (TP_BUFFER_FULL, dst, s) \<Rightarrow> tp_getFrame cap Tp_synchronize s))"
  by pat_completeness auto
termination
  by (relation "measure (\<lambda>(cap, lab, s). tp_size s)")
    (auto dest!: sym [of "(_, _)" "tp_next _"] sym [of "(_, _)" "tp_synchronize _"]
      sym [of "(_, _)" "tp_decode _ _ _"] tp_next_size tp_synchronize_size tp_decode_size)

declare tp_getFrame.simps [simp del]

definition TRIMBLE_PARSER_getFrame :: "nat \<Rightarrow> trimble \<Rightarrow> fault + (u8 list \<times> trimble)" where
  "TRIMBLE_PARSER_getFrame cap s =
    (if \<not> 1 < cap then Fault Assert_failed else Ok (tp_getFrame cap Tp_top s))"

text \<open>Connecting and configuring, until the configuration has been written; \<open>None\<close> when the turns run
  out. \<open>TRIMBLE_INPUT_connect\<close> and \<open>TRIMBLE_INPUT_write\<close> belong to the input.\<close>

definition tp_configure :: "(u8 list \<Rightarrow> 'n \<Rightarrow> nat \<times> 'n) \<Rightarrow> 'n \<Rightarrow> bool \<times> 'n" where
  "tp_configure write n =
    (let (k, n) = write [BOM, 0x35, 0x04, 0x00, 0x01, 0x08, BOM, EOM] n in (k = 8, n))"

fun TRIMBLE_PARSER_connect :: "nat \<Rightarrow> ('n \<Rightarrow> 'n) \<Rightarrow> (u8 list \<Rightarrow> 'n \<Rightarrow> nat \<times> 'n) \<Rightarrow> trimble \<Rightarrow> 'n \<Rightarrow>
    (trimble \<times> 'n) option" where
  "TRIMBLE_PARSER_connect 0 connect write s n = None"
| "TRIMBLE_PARSER_connect (Suc k) connect write s n =
    (let (ok, n) = tp_configure write (connect n)
     in if ok then Some (s\<lparr>tp_buf := []\<rparr>, n) else TRIMBLE_PARSER_connect k connect write s n)"

section \<open>The specification on streams\<close>

text \<open>What the parser makes of a stream, however it is cut into chunks: the next packet and the rest
  of the stream.\<close>

lemma length_st_find: "st_find xs = Some ys \<Longrightarrow> length ys < length xs"
  by (induction xs rule: st_find.induct) (fastforce split: if_splits list.splits)+

lemma tp_cons_resync [simp]: "tp_cons d x = Tp_resync ys \<longleftrightarrow> x = Tp_resync ys" "tp_cons d x = Tp_full ys \<longleftrightarrow> x = Tp_full ys"
  by (cases x; simp)+

lemma length_st_packet:
  "st_packet n xs = Tp_resync ys \<or> st_packet n xs = Tp_full ys \<Longrightarrow> length ys \<le> length xs"
proof (induction n xs rule: st_packet.induct)
  case (3 n x xs)
  show ?case
  proof (cases "x = BOM")
    case False
    then show ?thesis using "3.IH"(1) "3.prems" by auto
  next
    case True
    then show ?thesis using "3.IH"(2) "3.prems" by (cases xs) (fastforce split: if_splits)+
  qed
qed simp_all

function st_frame :: "nat \<Rightarrow> trimble_label \<Rightarrow> u8 list \<Rightarrow> (u8 list \<times> u8 list) option" where
  "st_frame cap lab xs =
    (case lab of
       Tp_top \<Rightarrow> (case xs of [] \<Rightarrow> None
          | x # ys \<Rightarrow> if x \<noteq> BOM then st_frame cap Tp_synchronize ys else st_frame cap Tp_decode_frame ys)
     | Tp_synchronize \<Rightarrow> (case st_find xs of None \<Rightarrow> None | Some ys \<Rightarrow> st_frame cap Tp_decode_frame ys)
     | Tp_decode_frame \<Rightarrow> (case xs of [] \<Rightarrow> None
          | type # ys \<Rightarrow> if type = EOM then st_frame cap Tp_synchronize ys
              else case st_packet (cap - 1) ys of
                  Tp_packet ds rest \<Rightarrow> Some (type # ds, rest)
                | Tp_resync rest \<Rightarrow> st_frame cap Tp_decode_frame rest
                | Tp_full rest \<Rightarrow> st_frame cap Tp_synchronize rest
                | Tp_end \<Rightarrow> None))"
  by pat_completeness auto
termination
  by (relation "measure (\<lambda>(cap, lab, xs). length xs)")
    (auto dest: length_st_find length_st_packet [OF disjI1] length_st_packet [OF disjI2] simp: less_Suc_eq_le)

declare st_frame.simps [simp del]

text \<open>One step of both loops at each of the three places.\<close>

lemma tp_getFrame_at:
  "tp_getFrame cap Tp_top s = (case tp_next s of (None, s) \<Rightarrow> ([], s)
     | (Some bom, s) \<Rightarrow> if bom \<noteq> BOM then tp_getFrame cap Tp_synchronize s else tp_getFrame cap Tp_decode_frame s)"
  "tp_getFrame cap Tp_synchronize s = (case tp_synchronize s of (False, s) \<Rightarrow> ([], s)
     | (True, s) \<Rightarrow> tp_getFrame cap Tp_decode_frame s)"
  "tp_getFrame cap Tp_decode_frame s = (case tp_next s of (None, s) \<Rightarrow> ([], s)
     | (Some type, s) \<Rightarrow> if type = EOM then tp_getFrame cap Tp_synchronize s
         else case tp_decode (cap - 1) [] s of
             (TP_OK, dst, s) \<Rightarrow> (type # dst, s)
           | (TP_RESYNC, dst, s) \<Rightarrow> tp_getFrame cap Tp_decode_frame s
           | (TP_CONNFAIL, dst, s) \<Rightarrow> ([], s)
           | (TP_BUFFER_FULL, dst, s) \<Rightarrow> tp_getFrame cap Tp_synchronize s)"
  by (subst tp_getFrame.simps, simp)+

lemma st_frame_at:
  "st_frame cap Tp_top xs = (case xs of [] \<Rightarrow> None
     | x # ys \<Rightarrow> if x \<noteq> BOM then st_frame cap Tp_synchronize ys else st_frame cap Tp_decode_frame ys)"
  "st_frame cap Tp_synchronize xs = (case st_find xs of None \<Rightarrow> None | Some ys \<Rightarrow> st_frame cap Tp_decode_frame ys)"
  "st_frame cap Tp_decode_frame xs = (case xs of [] \<Rightarrow> None
     | type # ys \<Rightarrow> if type = EOM then st_frame cap Tp_synchronize ys
         else case st_packet (cap - 1) ys of
             Tp_packet ds rest \<Rightarrow> Some (type # ds, rest)
           | Tp_resync rest \<Rightarrow> st_frame cap Tp_decode_frame rest
           | Tp_full rest \<Rightarrow> st_frame cap Tp_synchronize rest
           | Tp_end \<Rightarrow> None)"
  by (subst st_frame.simps, simp)+

lemma st_frame_list:
  "st_frame cap lab [] = None"
  "st_frame cap Tp_top (x # ys) =
    (if x \<noteq> BOM then st_frame cap Tp_synchronize ys else st_frame cap Tp_decode_frame ys)"
  "st_frame cap Tp_decode_frame (x # ys) = (if x = EOM then st_frame cap Tp_synchronize ys
     else case st_packet (cap - 1) ys of
         Tp_packet ds rest \<Rightarrow> Some (x # ds, rest)
       | Tp_resync rest \<Rightarrow> st_frame cap Tp_decode_frame rest
       | Tp_full rest \<Rightarrow> st_frame cap Tp_synchronize rest
       | Tp_end \<Rightarrow> None)"
  by (cases lab) (simp_all add: st_frame_at)

definition frame_agrees :: "(u8 list \<times> u8 list) option \<Rightarrow> u8 list \<times> trimble \<Rightarrow> bool" where
  "frame_agrees x r \<longleftrightarrow> (case x of None \<Rightarrow> fst r = []
     | Some (p, rest) \<Rightarrow> fst r = p \<and> p \<noteq> [] \<and> tp_flat (snd r) = rest \<and> tp_chunks_ok (snd r))"

lemma tp_getFrame_refines:
  assumes "tp_chunks_ok s" and "1 < cap"
  shows "frame_agrees (st_frame cap lab (tp_flat s)) (tp_getFrame cap lab s)"
  using assms(1)
proof (induction "tp_size s" arbitrary: lab s rule: less_induct)
  case less
  have IH: "tp_chunks_ok t \<Longrightarrow> tp_size t < tp_size s \<Longrightarrow>
      frame_agrees (st_frame cap l (tp_flat t)) (tp_getFrame cap l t)" for t l
    using less.hyps by blast
  show ?case
  proof (cases lab)
    case Tp_synchronize
    show ?thesis
    proof (cases "st_find (tp_flat s)")
      case None
      then have "fst (tp_synchronize s) = False" using tp_synchronize_stream [OF less.prems] by simp
      then show ?thesis using None Tp_synchronize
        by (cases "tp_synchronize s") (simp add: st_frame_at [of cap "tp_flat s"] tp_getFrame_at [of cap s] frame_agrees_def)
    next
      case (Some ys)
      then obtain t where t: "tp_synchronize s = (True, t)" "tp_flat t = ys" "tp_chunks_ok t"
        using tp_synchronize_stream [OF less.prems] by auto
      show ?thesis using IH [OF t(3), of Tp_decode_frame] tp_synchronize_size [OF t(1)] t Some Tp_synchronize
        by (simp add: st_frame_at [of cap "tp_flat s"] tp_getFrame_at [of cap s])
    qed
  next
    case Tp_top
    show ?thesis
    proof (cases "tp_flat s")
      case Nil
      then have "fst (tp_next s) = None" using tp_next_stream [OF less.prems] by simp
      then show ?thesis using Nil Tp_top
        by (cases "tp_next s") (simp add: st_frame_list tp_getFrame_at [of cap s] frame_agrees_def)
    next
      case (Cons x ys)
      then obtain t where t: "tp_next s = (Some x, t)" "tp_flat t = ys" "tp_chunks_ok t"
        using tp_next_stream [OF less.prems] by auto
      show ?thesis using IH [OF t(3)] tp_next_size [OF t(1)] t Cons Tp_top
        by (simp add: st_frame_list tp_getFrame_at [of cap s])
    qed
  next
    case Tp_decode_frame
    show ?thesis
    proof (cases "tp_flat s")
      case Nil
      then have "fst (tp_next s) = None" using tp_next_stream [OF less.prems] by simp
      then show ?thesis using Nil Tp_decode_frame
        by (cases "tp_next s") (simp add: st_frame_list tp_getFrame_at [of cap s] frame_agrees_def)
    next
      case (Cons x ys)
      then obtain t where t: "tp_next s = (Some x, t)" "tp_flat t = ys" "tp_chunks_ok t"
        using tp_next_stream [OF less.prems] by auto
      have sz: "tp_size t < tp_size s" using tp_next_size [OF t(1)] by simp
      show ?thesis
      proof (cases "x = EOM")
        case True
        then show ?thesis using IH [OF t(3) sz] t Cons Tp_decode_frame
          by (simp add: st_frame_list tp_getFrame_at [of cap s])
      next
        case False
        obtain st d u where u: "tp_decode (cap - 1) [] t = (st, d, u)" by (metis prod_cases3)
        have agrees: "tp_agrees [] (st_packet (cap - 1) ys) (st, d, u)"
          using tp_decode_stream [OF t(3), of "cap - 1" "[]"] assms(2) t(2) u by simp
        have "tp_size u < tp_size s" using tp_decode_size [OF u] sz by simp
        note IHu = IH [OF _ this]
        show ?thesis
          using agrees IHu u t Cons Tp_decode_frame False
          by (cases "st_packet (cap - 1) ys"; cases st)
            (simp_all add: st_frame_list tp_getFrame_at [of cap s] tp_agrees_def frame_agrees_def)
      qed
    qed
  qed
qed

end
