(* ===== verification/Trimble_Recv.thy ===== *)
theory Trimble_Recv
  imports Trimble_Parser Core_Gps
begin

text \<open>
  The GPS receiver thread (\<open>trimble/trimble_recv.c\<close>): packets of the Trimble receiver are parsed,
  position reports are checked, and positions are handed to the GPS component (Core\_Gps). The
  product of two doubles is a parameter (\<open>to_degrees\<close>, the multiplication with \<open>R2D\<close>), doubles
  being bit patterns.
\<close>

section \<open>Packets\<close>

definition escape_bom :: "u8 list \<Rightarrow> u8 list" where
  "escape_bom bs = concat (map (\<lambda>b. if b = BOM then [BOM, BOM] else [b]) bs)"

lemma escape_bom_simps [simp]:
  "escape_bom [] = []" "escape_bom (b # bs) = (if b = BOM then [BOM, BOM] else [b]) @ escape_bom bs"
  by (simp_all add: escape_bom_def)

text \<open>What the receiver sends for a packet.\<close>

definition tsip_encode :: "u8 list \<Rightarrow> u8 list" where
  "tsip_encode p = BOM # hd p # escape_bom (tl p) @ [BOM, EOM]"

definition tsip_ok :: "nat \<Rightarrow> u8 list \<Rightarrow> bool" where
  "tsip_ok cap p \<longleftrightarrow> p \<noteq> [] \<and> hd p \<noteq> BOM \<and> hd p \<noteq> EOM \<and> length p < cap"

lemma st_packet_escape:
  "length ds < n \<Longrightarrow> st_packet n (escape_bom ds @ BOM # EOM # rest) = Tp_packet ds rest"
proof (induction ds arbitrary: n)
  case Nil
  then show ?case by (cases n) simp_all
next
  case (Cons d ds)
  then show ?case by (cases n) auto
qed

lemma st_frame_packet:
  assumes "tsip_ok cap p"
  shows "st_frame cap Tp_decode_frame (hd p # escape_bom (tl p) @ BOM # EOM # rest) = Some (p, rest)"
  using assms st_packet_escape [of "tl p" "cap - 1" rest] by (cases p) (auto simp: tsip_ok_def st_frame_list)

lemma st_find_packet:
  "BOM \<notin> set g \<Longrightarrow> p \<noteq> [] \<Longrightarrow> hd p \<noteq> BOM \<Longrightarrow> hd p \<noteq> EOM \<Longrightarrow>
    st_find (g @ tsip_encode p @ rest) = Some (hd p # escape_bom (tl p) @ BOM # EOM # rest)"
  by (simp add: st_find_plain tsip_encode_def)

text \<open>Bytes that are not BOM in front of a packet are skipped.\<close>

lemma st_frame_encode:
  assumes "tsip_ok cap p" and "BOM \<notin> set g"
  shows "st_frame cap Tp_top (g @ tsip_encode p @ rest) = Some (p, rest)"
proof (cases g)
  case Nil
  then show ?thesis using st_frame_packet [OF assms(1)] by (simp add: tsip_encode_def st_frame_list)
next
  case (Cons x g')
  then have "st_frame cap Tp_top (g @ tsip_encode p @ rest) = st_frame cap Tp_synchronize (g' @ tsip_encode p @ rest)"
    using assms(2) by (auto simp: st_frame_list)
  then show ?thesis
    using st_find_packet [of g' p rest] assms Cons st_frame_packet [OF assms(1)]
    by (simp add: st_frame_at(2) tsip_ok_def)
qed

section \<open>Position reports\<close>

definition TRIMBLE_GPS_RECV_MODE_ODT_CLK :: u8 where "TRIMBLE_GPS_RECV_MODE_ODT_CLK = 7"
definition TRIMBLE_GPS_DISC_MODE_LOCKED :: u8 where "TRIMBLE_GPS_DISC_MODE_LOCKED = 0"
definition TRIMBLE_GPS_DECODE_STATUS_DOING_FIXES :: u8 where "TRIMBLE_GPS_DECODE_STATUS_DOING_FIXES = 0"
definition TRIMBLE_GPS_MIN_ALARM_SURVEY_IN_PROGRESS :: u16 where
  "TRIMBLE_GPS_MIN_ALARM_SURVEY_IN_PROGRESS = push_bit 5 1"
definition TRIMBLE_GPS_MIN_ALARM_IN_TEST_MODE :: u16 where
  "TRIMBLE_GPS_MIN_ALARM_IN_TEST_MODE = push_bit 8 1"

text \<open>\<open>buf\<close> is the packet without its first byte; every index is inside a packet of 69 bytes.\<close>

definition posFrame :: "byte_order \<Rightarrow> (ieee_double \<Rightarrow> ieee_double) \<Rightarrow> 'n net_send \<Rightarrow> u8 list \<Rightarrow> gps \<Rightarrow> 'n \<Rightarrow>
    fault + (gps \<times> 'n)" where
  "posFrame bo to_degrees send buf g n =
    (let recvMode = buf ! 1; discMode = buf ! 2; decodingStatus = buf ! 12 in
     case (ENDEC_tou16 bo (drop 8 buf), ENDEC_tou16 bo (drop 10 buf), ENDEC_todouble bo (drop 36 buf),
           ENDEC_todouble bo (drop 44 buf), ENDEC_todouble bo (drop 52 buf)) of
       (Some critAlarms, Some minorAlarms, Some lat, Some lon, Some alt) \<Rightarrow>
         let selfSurvey = (minorAlarms AND TRIMBLE_GPS_MIN_ALARM_SURVEY_IN_PROGRESS \<noteq> 0);
             inTestMode = (minorAlarms AND TRIMBLE_GPS_MIN_ALARM_IN_TEST_MODE \<noteq> 0)
         in if critAlarms \<noteq> 0 \<or> inTestMode \<or> recvMode \<noteq> TRIMBLE_GPS_RECV_MODE_ODT_CLK
               \<or> discMode \<noteq> TRIMBLE_GPS_DISC_MODE_LOCKED
            then Ok (g, n)
            else if selfSurvey \<or> decodingStatus \<noteq> TRIMBLE_GPS_DECODE_STATUS_DOING_FIXES
               \<or> discMode \<noteq> TRIMBLE_GPS_DISC_MODE_LOCKED
            then Ok (g, n)
            else GPS_setPositionWithFix bo send (to_degrees lat) (to_degrees lon) alt g n
     | _ \<Rightarrow> Fault Out_of_bounds)"

text \<open>The switch of the main loop.\<close>

definition trimble_packet :: "byte_order \<Rightarrow> (ieee_double \<Rightarrow> ieee_double) \<Rightarrow> 'n net_send \<Rightarrow> u8 list \<Rightarrow> gps \<Rightarrow> 'n \<Rightarrow>
    fault + (gps \<times> 'n)" where
  "trimble_packet bo to_degrees send p g n =
    (if p ! 0 = 0x8f
     then if length p < 2 then Ok (g, n)
          else if p ! 1 = 0xac then (if length p = 69 then posFrame bo to_degrees send (drop 1 p) g n else Ok (g, n))
          else Ok (g, n)
     else Ok (g, n))"

section \<open>The main loop\<close>

lemma tp_getFrame_size:
  "tp_getFrame cap lab s = (p, t) \<Longrightarrow> tp_size t \<le> tp_size s \<and> (p \<noteq> [] \<longrightarrow> tp_size t < tp_size s)"
proof (induction cap lab s rule: tp_getFrame.induct)
  case (1 cap lab s)
  show ?case
  proof (cases lab)
    case Tp_top
    obtain r u where u: "tp_next s = (r, u)" by fastforce
    show ?thesis
    proof (cases r)
      case None
      then show ?thesis using "1.prems" Tp_top u tp_next_size [OF u] by (simp add: tp_getFrame_at [of cap s])
    next
      case (Some x)
      then show ?thesis
        using "1.prems" "1.IH"(1,2) [OF Tp_top u [symmetric] Some] Tp_top u tp_next_size [OF u]
        by (cases "x = BOM") (fastforce simp: tp_getFrame_at [of cap s])+
    qed
  next
    case Tp_synchronize
    obtain r u where u: "tp_synchronize s = (r, u)" by fastforce
    show ?thesis
      using "1.prems" "1.IH"(3) [OF Tp_synchronize u [symmetric]] Tp_synchronize u tp_synchronize_size [OF u]
      by (cases r) (fastforce simp: tp_getFrame_at [of cap s])+
  next
    case Tp_decode_frame
    obtain r u where u: "tp_next s = (r, u)" by fastforce
    note sz = tp_next_size [OF u]
    show ?thesis
    proof (cases r)
      case None
      then show ?thesis using "1.prems" Tp_decode_frame u sz by (simp add: tp_getFrame_at [of cap s])
    next
      case (Some type)
      show ?thesis
      proof (cases "type = EOM")
        case True
        then show ?thesis using "1.prems" "1.IH"(4) [OF Tp_decode_frame u [symmetric] Some] Some Tp_decode_frame u sz
          by (fastforce simp: tp_getFrame_at [of cap s])
      next
        case False
        obtain st d v where v: "tp_decode (cap - 1) [] u = (st, d, v)" by (metis prod_cases3)
        show ?thesis
          using "1.prems" "1.IH"(5,6) [OF Tp_decode_frame u [symmetric] Some False v [symmetric] _ refl] Some Tp_decode_frame u sz
            tp_decode_size [OF v] False v
          by (cases st) (fastforce simp: tp_getFrame_at [of cap s])+
      qed
    qed
  qed
qed

function trimble_loop :: "byte_order \<Rightarrow> (ieee_double \<Rightarrow> ieee_double) \<Rightarrow> 'n net_send \<Rightarrow> trimble \<Rightarrow> gps \<Rightarrow> 'n \<Rightarrow>
    fault + (trimble \<times> gps \<times> 'n)" where
  "trimble_loop bo to_degrees send s g n =
    (case TRIMBLE_PARSER_getFrame 1024 s of
       Inl e \<Rightarrow> Inl e
     | Inr (p, s) \<Rightarrow> if p = [] then Ok (s, g, n)
         else (case trimble_packet bo to_degrees send p g n of
             Inl e \<Rightarrow> Inl e
           | Inr (g, n) \<Rightarrow> trimble_loop bo to_degrees send s g n))"
  by pat_completeness auto
termination
  by (relation "measure (\<lambda>(bo, to_degrees, send, s, g, n). tp_size s)")
    (auto simp: TRIMBLE_PARSER_getFrame_def dest: tp_getFrame_size)

declare trimble_loop.simps [simp del]

text \<open>One connection with the receiver.\<close>

definition trimble_session :: "byte_order \<Rightarrow> (ieee_double \<Rightarrow> ieee_double) \<Rightarrow> 'n net_send \<Rightarrow> trimble \<Rightarrow> gps \<Rightarrow> 'n \<Rightarrow>
    fault + (trimble \<times> gps \<times> 'n)" where
  "trimble_session bo to_degrees send s g n = trimble_loop bo to_degrees send s (GPS_reset g) n"

section \<open>Properties\<close>

text \<open>A packet, with bytes other than BOM in front of it, is read back exactly, however the input
  cuts the stream, when it is shorter than the buffer, and what follows it is left in the
  stream.\<close>

theorem trimble_roundtrip:
  assumes "tp_chunks_ok s" and "tp_flat s = g @ tsip_encode p @ rest" and "BOM \<notin> set g"
    and "tsip_ok cap p"
  shows "\<exists>s'. TRIMBLE_PARSER_getFrame cap s = Ok (p, s') \<and> tp_flat s' = rest \<and> tp_chunks_ok s'"
proof -
  have "1 < cap" using assms(4) by (cases p) (auto simp: tsip_ok_def)
  then show ?thesis
    using tp_getFrame_refines [OF assms(1), of cap Tp_top] st_frame_encode [OF assms(4,3), of rest] assms(2)
    by (cases "tp_getFrame cap Tp_top s") (simp add: frame_agrees_def TRIMBLE_PARSER_getFrame_def)
qed

theorem trimble_roundtrip_witness:
  "\<exists>s'. TRIMBLE_PARSER_getFrame 10 \<lparr>tp_buf = [1, 2], tp_in = [[BOM, 7], [1, BOM], [BOM, BOM], [EOM, 9]]\<rparr> =
      Ok ([7, 1, BOM], s') \<and> tp_flat s' = [9] \<and> tp_chunks_ok s'"
  by (rule trimble_roundtrip [where g = "[1, 2]"])
    (simp_all add: tp_chunks_ok_def tp_flat_def tsip_encode_def tsip_ok_def BOM_def EOM_def)

text \<open>C29: whatever the bytes, the packet the parser returns and what it leaves in the stream are
  those of the stream parser \<open>st_frame\<close>; so they do not depend on how the input cuts the stream.\<close>

theorem trimble_parser_refines_stream:
  assumes "tp_chunks_ok s" and "1 < cap"
  shows "\<exists>p s'. TRIMBLE_PARSER_getFrame cap s = Ok (p, s') \<and>
    (case st_frame cap Tp_top (tp_flat s) of
       None \<Rightarrow> p = [] | Some (q, rest) \<Rightarrow> p = q \<and> p \<noteq> [] \<and> tp_flat s' = rest \<and> tp_chunks_ok s')"
  using tp_getFrame_refines [OF assms, of Tp_top]
  by (cases "tp_getFrame cap Tp_top s") (use assms(2) in \<open>auto simp: frame_agrees_def TRIMBLE_PARSER_getFrame_def split: option.splits\<close>)

theorem trimble_parser_refines_stream_witness:
  "\<exists>s'. TRIMBLE_PARSER_getFrame 4 \<lparr>tp_buf = [BOM, 7, 1], tp_in = [[2, 3, BOM, EOM, BOM], [8, BOM], [EOM]]\<rparr> = Ok ([8], s')"
proof -
  have "st_frame 4 Tp_top [BOM, 7, 1, 2, 3, BOM, EOM, BOM, 8, BOM, EOM] = Some ([8], [])" by code_simp
  then show ?thesis
    using trimble_parser_refines_stream [of "\<lparr>tp_buf = [BOM, 7, 1], tp_in = [[2, 3, BOM, EOM, BOM], [8, BOM], [EOM]]\<rparr>" 4]
    by (auto simp: tp_chunks_ok_def tp_flat_def)
qed

fun handle_packets :: "byte_order \<Rightarrow> (ieee_double \<Rightarrow> ieee_double) \<Rightarrow> 'n net_send \<Rightarrow> u8 list list \<Rightarrow> gps \<Rightarrow> 'n \<Rightarrow>
    fault + (gps \<times> 'n)" where
  "handle_packets bo to_degrees send [] g n = Ok (g, n)"
| "handle_packets bo to_degrees send (p # ps) g n =
    bind_ok (trimble_packet bo to_degrees send p g n) (\<lambda>(g, n). handle_packets bo to_degrees send ps g n)"

lemma trimble_loop_packets:
  assumes "tp_chunks_ok s" and "tp_flat s = concat (map tsip_encode ps)" and "\<forall>p\<in>set ps. tsip_ok 1024 p"
  shows "\<exists>s'. trimble_loop bo to_degrees send s g n =
    bind_ok (handle_packets bo to_degrees send ps g n) (\<lambda>(g, n). Ok (s', g, n))"
  using assms
proof (induction ps arbitrary: s g n)
  case Nil
  then have "fst (tp_getFrame 1024 Tp_top s) = []"
    using tp_getFrame_refines [of s 1024 Tp_top] by (simp add: frame_agrees_def st_frame_list)
  then show ?case by (cases "tp_getFrame 1024 Tp_top s")
    (auto simp: trimble_loop.simps [of bo to_degrees send s] TRIMBLE_PARSER_getFrame_def)
next
  case (Cons p ps)
  have ok: "tsip_ok 1024 p" and ne: "p \<noteq> []" using Cons.prems(3) by (auto simp: tsip_ok_def)
  have "frame_agrees (Some (p, concat (map tsip_encode ps))) (tp_getFrame 1024 Tp_top s)"
    using tp_getFrame_refines [OF Cons.prems(1), of 1024 Tp_top] Cons.prems(2) st_frame_encode [OF ok, of "[]"] by simp
  then obtain t where t: "TRIMBLE_PARSER_getFrame 1024 s = Ok (p, t)" "tp_flat t = concat (map tsip_encode ps)" "tp_chunks_ok t"
    by (cases "tp_getFrame 1024 Tp_top s") (auto simp: frame_agrees_def TRIMBLE_PARSER_getFrame_def)
  note unfold = trimble_loop.simps [of bo to_degrees send s g n]
  show ?case
  proof (cases "trimble_packet bo to_degrees send p g n")
    case (Inl e)
    then show ?thesis using t(1) ne by (simp add: unfold)
  next
    case (Inr r)
    obtain g' n' where "r = (g', n')" by (cases r)
    then show ?thesis using t ne Inr Cons.IH [OF t(3,2), of g' n'] Cons.prems(3) by (simp add: unfold)
  qed
qed

text \<open>The position a packet reports.\<close>

definition reported_position :: "(ieee_double \<Rightarrow> ieee_double) \<Rightarrow> u8 list \<Rightarrow> GPS_Position option" where
  "reported_position to_degrees p =
    (if length p = 69 \<and> p ! 0 = 0x8f \<and> p ! 1 = 0xac \<and> p ! 2 = 7 \<and> p ! 3 = 0 \<and> p ! 13 = 0
        \<and> p ! 9 = 0 \<and> p ! 10 = 0 \<and> \<not> bit (p ! 11) 0 \<and> \<not> bit (p ! 12) 5
     then Some \<lparr>latitude = to_degrees (Double_bits (be_word (take 8 (drop 37 p)))),
            longitute = to_degrees (Double_bits (be_word (take 8 (drop 45 p)))),
            altitude = Double_bits (be_word (take 8 (drop 53 p)))\<rparr>
     else None)"

lemma be_word_2:
  "bit (be_word [a, b] :: u16) 8 = bit a 0" "bit (be_word [a, b] :: u16) 5 = bit b 5"
  by (simp_all add: be_word_def bit_le_word del: le_word.simps)

lemma be_word_2_zero: "(be_word [a, b] :: u16) = 0 \<longleftrightarrow> a = 0 \<and> b = 0"
proof
  assume "(be_word [a, b] :: u16) = 0"
  then have "be_bytes 2 (be_word [a, b] :: u16) = be_bytes 2 (0 :: u16)" by simp
  moreover have "be_bytes 2 (be_word [a, b] :: u16) = [a, b]" using be_bytes_be_word [of "[a, b]", where 'a = 16] by (simp add: numeral_2_eq_2)
  moreover have "be_bytes 2 (0 :: u16) = [0, 0]" by code_simp
  ultimately show "a = 0 \<and> b = 0" by simp
qed (code_simp, simp add: be_word_def)

lemma take_2_drop: "Suc k < length xs \<Longrightarrow> take 2 (drop k xs) = [xs ! k, xs ! Suc k]"
  by (simp add: numeral_2_eq_2 take_Suc_conv_app_nth)

lemma posFrame_reported:
  assumes "length p = 69" and "p ! 0 = 0x8f" and "p ! 1 = 0xac"
  shows "posFrame bo to_degrees send (drop 1 p) g n =
    (case reported_position to_degrees p of
       None \<Rightarrow> Ok (g, n)
     | Some pos \<Rightarrow> GPS_setPositionWithFix bo send (latitude pos) (longitute pos) (altitude pos) g n)"
proof -
  have u16: "ENDEC_tou16 bo (drop 8 (drop 1 p)) = Some (be_word [p ! 9, p ! 10])"
    "ENDEC_tou16 bo (drop 10 (drop 1 p)) = Some (be_word [p ! 11, p ! 12])"
    using assms(1) take_2_drop [of 9 p] take_2_drop [of 11 p] by (simp_all add: ENDEC_tou16_be)
  have double: "ENDEC_todouble bo (drop 36 (drop 1 p)) = Some (Double_bits (be_word (take 8 (drop 37 p))))"
    "ENDEC_todouble bo (drop 44 (drop 1 p)) = Some (Double_bits (be_word (take 8 (drop 45 p))))"
    "ENDEC_todouble bo (drop 52 (drop 1 p)) = Some (Double_bits (be_word (take 8 (drop 53 p))))"
    using assms(1) by (simp_all add: ENDEC_todouble_def ENDEC_tou64_be)
  have idx: "drop 1 p ! 1 = p ! 2" "drop 1 p ! 2 = p ! 3" "drop 1 p ! 12 = p ! 13"
    using assms(1) by (simp_all add: numeral_eq_Suc)
  have alarms: "be_word [p ! 9, p ! 10] \<noteq> (0 :: u16) \<longleftrightarrow> \<not> (p ! 9 = 0 \<and> p ! 10 = 0)"
    "be_word [p ! 11, p ! 12] AND TRIMBLE_GPS_MIN_ALARM_IN_TEST_MODE \<noteq> (0 :: u16) \<longleftrightarrow> bit (p ! 11) 0"
    "be_word [p ! 11, p ! 12] AND TRIMBLE_GPS_MIN_ALARM_SURVEY_IN_PROGRESS \<noteq> (0 :: u16) \<longleftrightarrow> bit (p ! 12) 5"
    unfolding TRIMBLE_GPS_MIN_ALARM_IN_TEST_MODE_def TRIMBLE_GPS_MIN_ALARM_SURVEY_IN_PROGRESS_def
    by (simp_all only: be_word_2_zero be_word_2 flip: bit_iff_and_push_bit_not_eq_0)
  show ?thesis
    unfolding posFrame_def Let_def u16 double idx option.case prod.case alarms reported_position_def
      TRIMBLE_GPS_RECV_MODE_ODT_CLK_def TRIMBLE_GPS_DISC_MODE_LOCKED_def TRIMBLE_GPS_DECODE_STATUS_DOING_FIXES_def
    using assms by simp
qed

lemma trimble_packet_reported:
  assumes "p \<noteq> []"
  shows "trimble_packet bo to_degrees send p g n =
    (case reported_position to_degrees p of
       None \<Rightarrow> Ok (g, n)
     | Some pos \<Rightarrow> GPS_setPositionWithFix bo send (latitude pos) (longitute pos) (altitude pos) g n)"
proof (cases "length p = 69 \<and> p ! 0 = 0x8f \<and> p ! 1 = 0xac")
  case True
  then show ?thesis using posFrame_reported [of p bo to_degrees send g n] by (simp add: trimble_packet_def)
next
  case False
  then show ?thesis by (auto simp: trimble_packet_def reported_position_def)
qed

text \<open>The updates of the GPS component that a sequence of packets stands for.\<close>

definition position_updates :: "(ieee_double \<Rightarrow> ieee_double) \<Rightarrow> u8 list list \<Rightarrow> gps_op list" where
  "position_updates to_degrees ps = map Set_with_fix (List.map_filter (reported_position to_degrees) ps)"

lemma position_updates_simps [simp]:
  "position_updates to_degrees [] = []"
  "position_updates to_degrees (p # ps) =
    (case reported_position to_degrees p of None \<Rightarrow> [] | Some pos \<Rightarrow> [Set_with_fix pos])
      @ position_updates to_degrees ps"
  by (simp_all add: position_updates_def map_filter_simps split: option.split)

lemma handle_packets_reported:
  assumes "\<forall>p\<in>set ps. p \<noteq> []"
  shows "handle_packets bo to_degrees send ps g n = gps_run bo send (position_updates to_degrees ps) g n"
  using assms
proof (induction ps arbitrary: g n)
  case (Cons p ps)
  have step: "trimble_packet bo to_degrees send p g n = (case reported_position to_degrees p of
      None \<Rightarrow> Ok (g, n) | Some pos \<Rightarrow> gps_exec bo send (Set_with_fix pos) g n)"
    using Cons.prems trimble_packet_reported [of p bo to_degrees send g n]
    by (cases "reported_position to_degrees p") simp_all
  have IH: "handle_packets bo to_degrees send ps = gps_run bo send (position_updates to_degrees ps)"
    using Cons by (intro ext) simp
  show ?case by (simp only: handle_packets.simps step position_updates_simps IH) (simp split: option.split)
qed simp

text \<open>C28: a connection over which the receiver sends packets of any kind updates the GPS component
  with exactly the positions that the packets report as usable, in order, starting from a
  component without a position, and then ends.\<close>

theorem trimble_session_updates:
  assumes "tp_chunks_ok s" and "tp_flat s = concat (map tsip_encode ps)" and "\<forall>p\<in>set ps. tsip_ok 1024 p"
  shows "\<exists>s'. trimble_session bo to_degrees send s g n =
    bind_ok (gps_run bo send (position_updates to_degrees ps) (GPS_reset g) n) (\<lambda>(g, n). Ok (s', g, n))"
proof -
  have "\<forall>p\<in>set ps. p \<noteq> []" using assms(3) by (auto simp: tsip_ok_def)
  then show ?thesis
    using trimble_loop_packets [OF assms, of bo to_degrees send "GPS_reset g" n]
    by (simp add: trimble_session_def handle_packets_reported)
qed

text \<open>A position report with a BOM in it, between other packets, cut inside the report.\<close>

definition sample_report :: "u8 list" where
  "sample_report = [0x8f, 0xac, 7, 0] @ replicate 33 0 @ [0x40, BOM, 0, 0, 0, 0, 0, 0] @ replicate 8 0
     @ [0x40, 0x79, 0, 0, 0, 0, 0, 0] @ replicate 8 0"

definition sample_input :: trimble where
  "sample_input = \<lparr>tp_buf = tsip_encode [0x46, 1] @ take 40 (tsip_encode sample_report),
     tp_in = [drop 40 (tsip_encode sample_report), tsip_encode [0x8f]]\<rparr>"

theorem trimble_session_updates_witness:
  "\<exists>s'. trimble_session Little_endian (\<lambda>x. x) log_send sample_input sample_gps \<lparr>answers = [True], sent = []\<rparr> =
    Ok (s', \<lparr>position = \<lparr>latitude = Double_bits 0x4010000000000000, longitute = Double_bits 0,
        altitude = Double_bits 0x4079000000000000\<rparr>, hasPosition = True, hasFix = True, needPosition = False\<rparr>,
      \<lparr>answers = [True], sent = []\<rparr>)"
proof -
  have ok: "tp_chunks_ok sample_input" "tp_flat sample_input = concat (map tsip_encode [[0x46, 1], sample_report, [0x8f]])"
    "\<forall>p\<in>set [[0x46, 1], sample_report, [0x8f]]. tsip_ok 1024 p"
    by (code_simp, code_simp, simp add: tsip_ok_def sample_report_def BOM_def EOM_def)
  have run: "gps_run Little_endian log_send (position_updates (\<lambda>x. x) [[0x46, 1], sample_report, [0x8f]])
      (GPS_reset sample_gps) \<lparr>answers = [True], sent = []\<rparr> =
    Ok (\<lparr>position = \<lparr>latitude = Double_bits 0x4010000000000000, longitute = Double_bits 0,
        altitude = Double_bits 0x4079000000000000\<rparr>, hasPosition = True, hasFix = True, needPosition = False\<rparr>,
      \<lparr>answers = [True], sent = []\<rparr>)"
    by code_simp
  show ?thesis 
    using trimble_session_updates [OF ok, of Little_endian "\<lambda>x. x" log_send sample_gps "\<lparr>answers = [True], sent = []\<rparr>"]
    unfolding run bind_ok_simps prod.case .
qed

end
