(* ===== verification/Gp_Feeder.thy ===== *)
theory Gp_Feeder
  imports Rc_Main Rc_Config Core_Relay Rc_Parser_Props
begin

text \<open>
  The feeder library (\<open>gplib/opensky.cc\<close>): the functions an application calls to initialise and
  configure the feeder, to enable and disable it, to report its position, and to submit frames,
  over the component manager, the configuration, the filter, the buffer and the GPS position of
  the other theories. The threads the components start are not run here: what they do to the
  buffer is Core\_Buffer\_Run and Core\_Relay.
\<close>

section \<open>State\<close>

record feeder =
  fd_serial :: u32
  fd_configured :: bool
  fd_running :: bool
  fd_login :: login
  fd_gps :: gps
  fd_filter :: frame_filter
  fd_buf :: buffer
  fd_cfg :: cfg_store
  fd_comp :: comp_mgr

text \<open>The sections that the components of the library register.\<close>

definition lib_sections :: "CFG_Section list" where
  "lib_sections = [relay_cfg, filter_cfgDesc, net_cfgDesc, buf_cfgDesc]"

text \<open>The configuration variables are the members of the configurations the components read.\<close>

definition filter_config :: "cfg_store \<Rightarrow> FILTER_Configuration option" where
  "filter_config st =
    (case (cfg_vars st filter_crc, cfg_vars st filter_sync, cfg_vars st filter_extSquitter) of
       (Var_boolean c, Var_boolean y, Var_boolean x) \<Rightarrow> Some \<lparr>crc = c, sync_filter = y, extSquitter = x\<rparr>
     | _ \<Rightarrow> None)"

definition load_config :: "cfg_store \<Rightarrow> 'a feeder_scheme \<Rightarrow> fault + 'a feeder_scheme" where
  "load_config st s =
    (case (buffer_config st, filter_config st) of
       (Some b, Some f) \<Rightarrow> Ok (s\<lparr>fd_cfg := st, fd_buf := (fd_buf s)\<lparr>buf_cfg := b\<rparr>,
          fd_filter := (fd_filter s)\<lparr>FILTER_cfg := f\<rparr>,
          fd_comp := (fd_comp s)\<lparr>bools := (bools (fd_comp s))(flag_cfg_gc := gc_enabled b)\<rparr>\<rparr>)
     | _ \<Rightarrow> Fault Bad_type)"

text \<open>What the constructors among the callbacks do to the buffer and the filter.\<close>

fun run_constructors :: "bool \<Rightarrow> comp_call list \<Rightarrow> 'a feeder_scheme \<Rightarrow> fault + 'a feeder_scheme" where
  "run_constructors malloc_ok [] s = Ok s"
| "run_constructors malloc_ok (c # cs) s =
    (if c = Call_onConstruct BUF_comp
     then bind_ok (buf_construct malloc_ok (fd_buf s)) (\<lambda>(ok, b). run_constructors malloc_ok cs (s\<lparr>fd_buf := b\<rparr>))
     else if c = Call_onConstruct FILTER_comp
     then run_constructors malloc_ok cs (s\<lparr>fd_filter := snd (filter_construct (fd_filter s))\<rparr>)
     else run_constructors malloc_ok cs s)"

section \<open>Operations\<close>

definition register_components :: "comp_env \<Rightarrow> 'a feeder_scheme \<Rightarrow> fault + 'a feeder_scheme" where
  "register_components E s =
    bind_ok (register_all E [TB_comp, RELAY_comp, FILTER_comp] (fd_comp s)) (\<lambda>c.
    bind_ok (COMP_fixup E c) (\<lambda>c. Ok (s\<lparr>fd_comp := c\<rparr>)))"

definition load_defaults :: "'a feeder_scheme \<Rightarrow> fault + 'a feeder_scheme" where
  "load_defaults s = bind_ok (CFG_loadDefaults lib_sections (fd_cfg s)) (\<lambda>st. load_config st s)"

text \<open>The result of \<open>COMP_initAll\<close> is ignored.\<close>

definition init_components :: "comp_env \<Rightarrow> bool \<Rightarrow> 'a feeder_scheme \<Rightarrow> fault + 'a feeder_scheme" where
  "init_components E malloc_ok s =
    bind_ok (COMP_initAll E (fd_comp s)) (\<lambda>(ok, c).
      run_constructors malloc_ok (drop (length (comp_log (fd_comp s))) (comp_log c)) (s\<lparr>fd_comp := c\<rparr>))"

definition gp_init :: "comp_env \<Rightarrow> bool \<Rightarrow> 'a feeder_scheme \<Rightarrow> fault + 'a feeder_scheme" where
  "gp_init E malloc_ok s =
    bind_ok (register_components E s) (\<lambda>s.
    bind_ok (load_defaults s) (\<lambda>s.
    init_components E malloc_ok (s\<lparr>fd_gps := GPS_reset (fd_gps s)\<rparr>)))"

definition gp_configure :: "u32 \<Rightarrow> u32 \<Rightarrow> 'a feeder_scheme \<Rightarrow> fault + 'a feeder_scheme" where
  "gp_configure dev serialNumber s =
    bind_ok (LOGIN_setDeviceType dev (fd_login s)) (\<lambda>l.
      Ok (s\<lparr>fd_login := l, fd_serial := serialNumber, fd_configured := True\<rparr>))"

definition gp_getSerial :: "'a feeder_scheme \<Rightarrow> 'n get_serial" where
  "gp_getSerial s n = (SERIAL_RETURN_SUCCESS, fd_serial s, n)"

text \<open>\<open>enable\<close>, with the synchronization state it sets; whether the components could be started is
  ignored.\<close>

definition enable_feeder :: "bool \<Rightarrow> comp_env \<Rightarrow> 'a feeder_scheme \<Rightarrow> fault + 'a feeder_scheme" where
  "enable_feeder synced E s =
    (if \<not> fd_configured s then Fault Emergency
     else let s = s\<lparr>fd_filter := FILTER_setSynchronized synced (FILTER_reset (fd_filter s)),
            fd_gps := GPS_resetNeedFlag (fd_gps s), fd_buf := BUF_flush (fd_buf s)\<rparr>
     in bind_ok (COMP_startAll E (fd_comp s)) (\<lambda>(ok, c). Ok (s\<lparr>fd_comp := c, fd_running := True\<rparr>)))"

definition gp_enable :: "comp_env \<Rightarrow> 'a feeder_scheme \<Rightarrow> fault + 'a feeder_scheme" where
  "gp_enable E s = enable_feeder True E s"

definition feeder_disable :: "comp_env \<Rightarrow> 'a feeder_scheme \<Rightarrow> fault + 'a feeder_scheme" where
  "feeder_disable E s =
    (if fd_running s
     then bind_ok (COMP_stopAll E (fd_comp s)) (\<lambda>c. Ok (s\<lparr>fd_comp := c, fd_running := False\<rparr>))
     else Ok s)"

definition gp_setGpsPosition :: "byte_order \<Rightarrow> 'n net_send \<Rightarrow> ieee_double \<Rightarrow> ieee_double \<Rightarrow> ieee_double \<Rightarrow>
    'a feeder_scheme \<Rightarrow> 'n \<Rightarrow> fault + ('a feeder_scheme \<times> 'n)" where
  "gp_setGpsPosition bo send lat lon alt s n =
    bind_ok (GPS_setPosition bo send lat lon alt (fd_gps s) n) (\<lambda>(g, n).
    bind_ok (GPS_setHasFix bo send True g n) (\<lambda>(g, n). Ok (s\<lparr>fd_gps := g\<rparr>, n)))"

definition gp_unsetGpsPosition :: "byte_order \<Rightarrow> 'n net_send \<Rightarrow> 'a feeder_scheme \<Rightarrow> 'n \<Rightarrow>
    fault + ('a feeder_scheme \<times> 'n)" where
  "gp_unsetGpsPosition bo send s n =
    bind_ok (GPS_setHasFix bo send False (fd_gps s) n) (\<lambda>(g, n). Ok (s\<lparr>fd_gps := g\<rparr>, n))"

section \<open>Submitting a frame\<close>

definition seconds_of_day :: "u64 \<Rightarrow> u64" where
  "seconds_of_day ts = (ts div 1000000000) mod (24 * 3600)"

definition mlat_stamp :: "u64 \<Rightarrow> u64" where
  "mlat_stamp ts = push_bit 30 (seconds_of_day ts) OR (ts mod 1000000000)"

text \<open>\<open>htobe64(stamp) >> 16\<close>, and the first six bytes of that variable in memory.\<close>

definition mlat_bytes :: "byte_order \<Rightarrow> u64 \<Rightarrow> u8 list" where
  "mlat_bytes bo ts = take 6 (the (store_host bo 8 (drop_bit 16 (htobe bo 8 (mlat_stamp ts))) (replicate 8 0)))"

definition submit_type :: "size_t \<Rightarrow> u8 option" where
  "submit_type len = (if len = 7 then Some OPENSKY_FRAME_TYPE_MODE_S_SHORT
     else if len = 14 then Some OPENSKY_FRAME_TYPE_MODE_S_LONG else None)"

text \<open>The frame is written into \<open>raw\<close>, which has \<open>RAW_SIZE\<close> bytes, and committed.\<close>

definition commit_raw :: "frame_link \<Rightarrow> u8 list \<Rightarrow> buffer \<Rightarrow> fault + buffer" where
  "commit_raw f rw b = BUF_commitFrame f (write_frame f \<lparr>rawLen = of_nat (length rw), raw = rw\<rparr> b)"

definition first_bytes :: "size_t \<Rightarrow> u8 list \<Rightarrow> fault + u8 list" where
  "first_bytes len mem = (if length mem < unat len then Fault Out_of_bounds else Ok (take (unat len) mem))"

definition submitFrame :: "bool \<times> bool \<Rightarrow> byte_order \<Rightarrow> u64 \<Rightarrow> bool \<Rightarrow> u8 \<Rightarrow> u8 list \<Rightarrow> size_t \<Rightarrow>
    'a feeder_scheme \<Rightarrow> fault + 'a feeder_scheme" where
  "submitFrame m bo ts timingUTC rssi mem len s =
    (if \<not> fd_configured s \<or> \<not> fd_running s then Ok s
     else case submit_type len of
       None \<Rightarrow> Ok s
     | Some ft \<Rightarrow>
         if \<not> timingUTC then Ok s
         else if mem = [] then Fault Out_of_bounds
         else bind_ok (FILTER_filter ft (mem ! 0) (fd_filter s)) (\<lambda>(pass, fl).
           let s = s\<lparr>fd_filter := fl\<rparr>
           in if \<not> pass then Ok s
              else bind_ok (BUF_newFrame m (fd_buf s)) (\<lambda>(out, b).
                bind_ok (append_encoded RAW_SIZE [BEAST_SYNC, ft] (mlat_bytes bo ts)) (\<lambda>rw.
                bind_ok (append_encoded RAW_SIZE rw [rssi]) (\<lambda>rw.
                bind_ok (first_bytes len mem) (\<lambda>pl.
                bind_ok (append_encoded RAW_SIZE rw pl) (\<lambda>rw.
                bind_ok (commit_raw out rw b) (\<lambda>b. Ok (s\<lparr>fd_buf := b\<rparr>)))))))))"

section \<open>The time stamp\<close>

lemma length_mlat_bytes [simp]: "length (mlat_bytes bo ts) = 6"
  by (simp add: mlat_bytes_def store_host_def split: byte_order.split)

lemma nth_le_bytes: "i < n \<Longrightarrow> le_bytes n w ! i = ucast (drop_bit (8 * i) w)"
  by (simp add: le_bytes_def)

lemma mlat_bytes_le: "mlat_bytes Little_endian ts = be_bytes 6 (mlat_stamp ts)"
proof (rule nth_equalityI)
  fix i assume "i < length (mlat_bytes Little_endian ts)"
  then have i: "i < 6" by simp
  let ?x = "mlat_stamp ts"
  let ?y = "bswap 8 ?x"
  have "mlat_bytes Little_endian ts ! i = le_bytes 8 (drop_bit 16 ?y) ! i"
    using i by (simp add: mlat_bytes_def store_host_def htobe_def)
  also have "\<dots> = le_bytes 8 ?y ! (i + 2)"
    using i by (simp add: nth_le_bytes add.commute)
  also have "le_bytes 8 ?y = rev (le_bytes 8 ?x)"
    using le_bytes_le_word [where 'a = 64, of "rev (le_bytes 8 ?x)"] by (simp add: bswap_def)
  also have "rev (le_bytes 8 ?x) ! (i + 2) = le_bytes 8 ?x ! (5 - i)"
    using i by (simp add: rev_nth)
  also have "\<dots> = be_bytes 6 ?x ! i"
    using i by (simp add: be_bytes_def rev_nth nth_le_bytes)
  finally show "mlat_bytes Little_endian ts ! i = be_bytes 6 ?x ! i" .
qed simp

lemma be_word_be_bytes_6:
  assumes "unat (w :: u64) < 2 ^ 48"
  shows "be_word (be_bytes 6 w) = w"
proof (rule bit_word_eqI)
  fix k assume k: "k < LENGTH(64)"
  have "unat (take_bit 48 w) = unat w"
    using assms by (simp add: unsigned_take_bit_eq take_bit_nat_eq_self)
  then have "w = take_bit 48 w" by (metis unsigned_word_eqI)
  then have hi: "bit w k \<Longrightarrow> k < 48" by (metis bit_take_bit_iff)
  have "8 * (k div 8) + k mod 8 = k" by simp
  then show "bit (be_word (be_bytes 6 w) :: u64) k \<longleftrightarrow> bit w k"
    using k hi by (auto simp: be_word_def be_bytes_def bit_le_word nth_le_bytes bit_ucast_iff bit_drop_bit_eq)
qed

text \<open>The stamp is the second of the day times two to the 30 plus the nanoseconds.\<close>

lemma nat_push_or:
  assumes "y < 2 ^ n"
  shows "push_bit n x OR y = x * 2 ^ n + (y :: nat)"
proof -
  have y: "take_bit n y = y" using assms by (simp add: take_bit_nat_eq_self)
  have hi: "bit y k \<Longrightarrow> k < n" for k using y by (metis bit_take_bit_iff)
  have "push_bit n x AND y = 0"
    using hi by (fastforce simp: bit_eq_iff bit_and_iff bit_push_bit_iff)
  then show ?thesis by (simp add: disjunctive_add_eq_or [symmetric] push_bit_eq_mult)
qed

lemma unat_mlat_stamp:
  "unat (mlat_stamp ts) = (unat ts div 1000000000) mod 86400 * 2 ^ 30 + unat ts mod 1000000000"
proof -
  let ?s = "(unat ts div 1000000000) mod 86400" and ?n = "unat ts mod 1000000000"
  have n: "?n < 2 ^ 30" by (rule less_le_trans [OF mod_less_divisor]) simp_all
  have s: "unat (seconds_of_day ts) = ?s" by (simp add: seconds_of_day_def unat_div unat_mod)
  have "?s < 86400" by simp
  then have "push_bit 30 ?s < 2 ^ 64" by (simp add: push_bit_eq_mult)
  then have "unat (push_bit 30 (seconds_of_day ts)) = push_bit 30 ?s"
    by (simp add: unsigned_push_bit_eq s take_bit_nat_eq_self)
  then show ?thesis
    by (simp add: mlat_stamp_def unsigned_or_eq unat_mod nat_push_or [OF n])
qed

lemma mlat_stamp_small: "unat (mlat_stamp ts) < 2 ^ 48"
proof -
  have "(unat ts div 1000000000) mod 86400 \<le> 86399" "unat ts mod 1000000000 \<le> 999999999"
    by (simp_all add: less_Suc_eq_le [symmetric])
  then show ?thesis by (simp add: unat_mlat_stamp)
qed

section \<open>What a submitted frame becomes\<close>

type_synonym submission = "u64 \<times> bool \<times> u8 \<times> u8 list \<times> size_t"

definition submitted_frame :: "u8 \<Rightarrow> u8 list \<Rightarrow> u8 list \<Rightarrow> raw_frame" where
  "submitted_frame ft hdr pl = (let rw = BEAST_SYNC # ft # BEAST_encode (hdr @ pl)
     in \<lparr>rawLen = of_nat (length rw), raw = rw\<rparr>)"

definition sub_frame :: "submission \<Rightarrow> raw_frame" where
  "sub_frame x = (case x of (ts, utc, rssi, mem, len) \<Rightarrow>
     submitted_frame (the (submit_type len)) (be_bytes 6 (mlat_stamp ts) @ [rssi]) (take (unat len) mem))"

definition sub_accepted :: "FILTER_Configuration \<Rightarrow> bool \<Rightarrow> submission \<Rightarrow> bool" where
  "sub_accepted c synced x = (case x of (ts, utc, rssi, mem, len) \<Rightarrow>
     (case submit_type len of None \<Rightarrow> False | Some ft \<Rightarrow> utc \<and> passes c synced ft (mem ! 0)))"

text \<open>The caller hands over as many bytes as it says.\<close>

definition sub_valid :: "submission \<Rightarrow> bool" where
  "sub_valid x = (case x of (ts, utc, rssi, mem, len) \<Rightarrow> unat len \<le> length mem)"

definition submit :: "submission \<Rightarrow> 'a feeder_scheme \<Rightarrow> fault + 'a feeder_scheme" where
  "submit x s = (case x of (ts, utc, rssi, mem, len) \<Rightarrow> submitFrame (True, True) Little_endian ts utc rssi mem len s)"

fun submit_all :: "submission list \<Rightarrow> 'a feeder_scheme \<Rightarrow> fault + 'a feeder_scheme" where
  "submit_all [] s = Ok s"
| "submit_all (x # xs) s = bind_ok (submit x s) (submit_all xs)"

definition feeder_ready :: "'a feeder_scheme \<Rightarrow> bool" where
  "feeder_ready s \<longleftrightarrow> fd_configured s \<and> fd_running s \<and> buf_good (fd_buf s) \<and> newFrame (fd_buf s) = None
    \<and> pools_not_empty (buf_cfg (fd_buf s)) \<and> filter_inv (fd_filter s)"

lemma submit_type_cases:
  assumes "submit_type len = Some ft"
  shows "len = 7 \<and> ft = OPENSKY_FRAME_TYPE_MODE_S_SHORT \<or> len = 14 \<and> ft = OPENSKY_FRAME_TYPE_MODE_S_LONG"
    and "frame_payload_len ft = Some (unat len)" and "beast_type ft" and "unat len \<le> 14" and "0 < unat len"
  using assms
  by (auto simp: submit_type_def frame_payload_len_def beast_type_def frame_type_defs split: if_splits)

text \<open>The three encoding steps never leave \<open>raw\<close>.\<close>

lemma encode_steps:
  assumes "unat len \<le> 14" "unat len \<le> length mem"
  shows "bind_ok (append_encoded RAW_SIZE [BEAST_SYNC, ft] (mlat_bytes bo ts)) (\<lambda>rw.
      bind_ok (append_encoded RAW_SIZE rw [rssi]) (\<lambda>rw.
      bind_ok (first_bytes len mem) (\<lambda>pl.
      bind_ok (append_encoded RAW_SIZE rw pl) K)))
    = K (BEAST_SYNC # ft # BEAST_encode ((mlat_bytes bo ts @ [rssi]) @ take (unat len) mem))"
proof -
  have l: "length (escape xs) \<le> 2 * length xs" for xs
    using length_BEAST_encode_le [of xs] by (simp add: BEAST_encode_eq_escape)
  have 1: "append_encoded RAW_SIZE [BEAST_SYNC, ft] (mlat_bytes bo ts) = Ok ([BEAST_SYNC, ft] @ escape (mlat_bytes bo ts))"
    by (rule append_encoded_ok) (simp add: RAW_SIZE_def)
  have 2: "append_encoded RAW_SIZE ([BEAST_SYNC, ft] @ escape (mlat_bytes bo ts)) [rssi]
      = Ok (([BEAST_SYNC, ft] @ escape (mlat_bytes bo ts)) @ escape [rssi])"
    by (rule append_encoded_ok) (use l [of "mlat_bytes bo ts"] in \<open>simp add: RAW_SIZE_def\<close>)
  have 3: "append_encoded RAW_SIZE (([BEAST_SYNC, ft] @ escape (mlat_bytes bo ts)) @ escape [rssi]) (take (unat len) mem)
      = Ok ((([BEAST_SYNC, ft] @ escape (mlat_bytes bo ts)) @ escape [rssi]) @ escape (take (unat len) mem))"
    by (rule append_encoded_ok) (use l [of "mlat_bytes bo ts"] l [of "[rssi]"] assms(1) in \<open>simp add: RAW_SIZE_def\<close>)
  have 4: "first_bytes len mem = Ok (take (unat len) mem)" using assms(2) by (simp add: first_bytes_def)
  show ?thesis
    by (simp only: 1 2 3 4 bind_ok_simps) (simp add: BEAST_encode_eq_escape)
qed

text \<open>A frame taken from the pool, filled and committed is the last one in the queue; the oldest one makes
  room for it if there is none.\<close>

lemma capacity_held: "buf_good b \<Longrightarrow> Suc (capacity b - 1 - length (held b)) = capacity b - length (held b)"
proof -
  assume "buf_good b"
  then have "2 \<le> capacity b" by (simp add: buf_good_def buf_inv_def capacity_def word_le_nat_alt)
  then show ?thesis using length_held [of b] by simp
qed

definition pushed :: "raw_frame \<Rightarrow> buffer \<Rightarrow> buffer \<Rightarrow> bool" where
  "pushed r b b' \<longleftrightarrow> queued b' = keep_last (capacity b - length (held b)) (queued b @ [r])
     \<and> held b' = held b \<and> capacity b' = capacity b"

lemma fill_and_commit:
  assumes "buf_good b" "newFrame b = None" "pools_not_empty (buf_cfg b)"
  obtains f b1 where "BUF_newFrame (True, True) b = Ok (f, b1)"
    "\<And>r. \<exists>b'. BUF_commitFrame f (write_frame f r b1) = Ok b' \<and> buf_good b' \<and> newFrame b' = None
       \<and> pools_not_empty (buf_cfg b') \<and> pushed r b b'"
proof -
  obtain f b1 where b1: "BUF_newFrame (True, True) b = Ok (f, b1)" "buf_good b1" "newFrame b1 = Some f"
    "queued b1 = keep_last (capacity b - 1 - length (held b)) (queued b)" "held b1 = held b" "capacity b1 = capacity b"
    "buf_cfg b1 = buf_cfg b"
    using newFrame_push [OF assms] by blast
  have "\<exists>b'. BUF_commitFrame f (write_frame f r b1) = Ok b' \<and> buf_good b' \<and> newFrame b' = None
       \<and> pools_not_empty (buf_cfg b') \<and> pushed r b b'" for r
    using commit_ok [OF write_frame_ok(1,5) [OF b1(2,3)], of r] write_frame_ok [OF b1(2,3), of r] b1 assms(3)
    by (auto simp: pushed_def keep_last_snoc capacity_held [OF assms(1), simplified])
  then show thesis using that b1(1) by blast
qed

lemma submit_step:
  assumes "feeder_ready s" "sub_valid x"
  shows "\<exists>s'. submit x s = Ok s' \<and> feeder_ready s'
    \<and> FILTER_cfg (fd_filter s') = FILTER_cfg (fd_filter s) \<and> isSynchronized (fd_filter s') = isSynchronized (fd_filter s)
    \<and> (if sub_accepted (FILTER_cfg (fd_filter s)) (isSynchronized (fd_filter s)) x
       then pushed (sub_frame x) (fd_buf s) (fd_buf s') else fd_buf s' = fd_buf s)"
proof -
  obtain ts utc rssi mem len where x: "x = (ts, utc, rssi, mem, len)" by (cases x) auto
  have len: "unat len \<le> length mem" using assms(2) by (simp add: sub_valid_def x)
  have r: "fd_configured s" "fd_running s" "buf_good (fd_buf s)" "newFrame (fd_buf s) = None"
    "pools_not_empty (buf_cfg (fd_buf s))" "filter_inv (fd_filter s)"
    using assms(1) by (simp_all add: feeder_ready_def)
  show ?thesis
  proof (cases "\<exists>ft. submit_type len = Some ft \<and> utc")
    case False
    then have "submit x s = Ok s" "\<not> sub_accepted (FILTER_cfg (fd_filter s)) (isSynchronized (fd_filter s)) x"
      using r by (auto simp: submit_def x submitFrame_def sub_accepted_def split: option.split)
    then show ?thesis using assms(1) by simp
  next
    case True
    then obtain ft where ft: "submit_type len = Some ft" "utc" by blast
    note tc = submit_type_cases [OF ft(1)]
    have mem: "mem \<noteq> []" using tc(5) len by auto
    let ?p = "passes (FILTER_cfg (fd_filter s)) (isSynchronized (fd_filter s)) ft (mem ! 0)"
    obtain fl where fl: "FILTER_filter ft (mem ! 0) (fd_filter s) = Ok (?p, fl)" "filter_inv fl"
      "FILTER_cfg fl = FILTER_cfg (fd_filter s)" "isSynchronized fl = isSynchronized (fd_filter s)"
      using FILTER_filter_spec [OF r(6) tc(3)] by blast
    have acc: "sub_accepted (FILTER_cfg (fd_filter s)) (isSynchronized (fd_filter s)) x = ?p"
      using ft by (simp add: sub_accepted_def x)
    show ?thesis
    proof (cases ?p)
      case False
      have "submit x s = Ok (s\<lparr>fd_filter := fl\<rparr>)"
        using r ft mem fl(1) False by (simp add: submit_def x submitFrame_def Let_def)
      then show ?thesis using r fl False acc by (simp add: feeder_ready_def)
    next
      case True
      obtain f b where b: "BUF_newFrame (True, True) (fd_buf s) = Ok (f, b)"
        "\<And>r. \<exists>b'. BUF_commitFrame f (write_frame f r b) = Ok b' \<and> buf_good b' \<and> newFrame b' = None
           \<and> pools_not_empty (buf_cfg b') \<and> pushed r (fd_buf s) b'"
        using fill_and_commit [OF r(3-5)] by metis
      define W where "W = BEAST_SYNC # ft # BEAST_encode ((mlat_bytes Little_endian ts @ [rssi]) @ take (unat len) mem)"
      have rw: "\<lparr>rawLen = of_nat (length W), raw = W\<rparr> = sub_frame x"
        by (simp add: sub_frame_def x submitted_frame_def Let_def ft mlat_bytes_le W_def)
      obtain b' where b': "BUF_commitFrame f (write_frame f (sub_frame x) b) = Ok b'" "buf_good b'" "newFrame b' = None"
        "pools_not_empty (buf_cfg b')" "pushed (sub_frame x) (fd_buf s) b'"
        using b(2) by blast
      have "commit_raw f W b = Ok b'" using b'(1) by (simp only: commit_raw_def rw)
      then have "submit x s = Ok (s\<lparr>fd_filter := fl, fd_buf := b'\<rparr>)"
        using r ft mem fl(1) True b(1)
        by (simp add: submit_def x submitFrame_def Let_def
            encode_steps [OF tc(4) len, where ft = ft and bo = Little_endian and ts = ts and rssi = rssi, folded W_def])
      then show ?thesis using r fl acc True b' by (simp add: feeder_ready_def)
    qed
  qed
qed

lemma submit_all_exact:
  assumes "feeder_ready s" "\<forall>x\<in>set xs. sub_valid x"
    and "length (queued (fd_buf s)) \<le> capacity (fd_buf s) - length (held (fd_buf s))"
  shows "\<exists>s'. submit_all xs s = Ok s' \<and> feeder_ready s' \<and> held (fd_buf s') = held (fd_buf s)
    \<and> queued (fd_buf s') = keep_last (capacity (fd_buf s) - length (held (fd_buf s))) (queued (fd_buf s)
        @ map sub_frame (filter (sub_accepted (FILTER_cfg (fd_filter s)) (isSynchronized (fd_filter s))) xs))"
  using assms
proof (induction xs arbitrary: s)
  case (Cons x xs)
  let ?a = "sub_accepted (FILTER_cfg (fd_filter s)) (isSynchronized (fd_filter s))"
  have "sub_valid x" using Cons.prems(2) by simp
  from submit_step [OF Cons.prems(1) this] obtain s1 where s1: "submit x s = Ok s1" "feeder_ready s1"
    "FILTER_cfg (fd_filter s1) = FILTER_cfg (fd_filter s)"
    "isSynchronized (fd_filter s1) = isSynchronized (fd_filter s)"
    "if ?a x then pushed (sub_frame x) (fd_buf s) (fd_buf s1) else fd_buf s1 = fd_buf s"
    by blast
  have valid: "\<forall>x\<in>set xs. sub_valid x" using Cons.prems(2) by simp
  show ?case
  proof (cases "?a x")
    case True
    then have p: "queued (fd_buf s1) = keep_last (capacity (fd_buf s) - length (held (fd_buf s))) (queued (fd_buf s) @ [sub_frame x])"
      "held (fd_buf s1) = held (fd_buf s)" "capacity (fd_buf s1) = capacity (fd_buf s)"
      using s1(5) by (simp_all add: pushed_def)
    then have "length (queued (fd_buf s1)) \<le> capacity (fd_buf s1) - length (held (fd_buf s1))" by simp
    from Cons.IH [OF s1(2) valid this] show ?thesis using s1 p True by (simp add: keep_last_append)
  next
    case False
    then show ?thesis using Cons.IH [OF s1(2) valid] s1 Cons.prems(3) by simp
  qed
qed simp

text \<open>A receiver that reads the frame with the parser gets back what was submitted.\<close>

lemma wire_sub_frame:
  assumes "submit_type len = Some ft" "unat len \<le> length mem"
  shows "wire_bytes (sub_frame (ts, utc, rssi, mem, len))
      = BEAST_SYNC # ft # BEAST_encode ((be_bytes 6 (mlat_stamp ts) @ [rssi]) @ take (unat len) mem)"
    and "unat (of_nat (length (BEAST_SYNC # ft # BEAST_encode ((be_bytes 6 (mlat_stamp ts) @ [rssi]) @ take (unat len) mem))) :: u64)
      = length (BEAST_SYNC # ft # BEAST_encode ((be_bytes 6 (mlat_stamp ts) @ [rssi]) @ take (unat len) mem))"
proof -
  let ?x = "(be_bytes 6 (mlat_stamp ts) @ [rssi]) @ take (unat len) mem"
  let ?rw = "BEAST_SYNC # ft # BEAST_encode ?x"
  have "length (BEAST_encode ?x) \<le> 2 * length ?x" by (rule length_BEAST_encode_le)
  then have "length ?rw \<le> 44" using submit_type_cases(4) [OF assms(1)] assms(2) by simp
  then show "unat (of_nat (length ?rw) :: u64) = length ?rw" by (intro unat_of_nat_small) simp
  then show "wire_bytes (sub_frame (ts, utc, rssi, mem, len)) = ?rw"
    by (simp add: wire_bytes_def sub_frame_def submitted_frame_def Let_def assms(1))
qed

lemma sub_frame_parsed:
  assumes "chunks_ok p" "flat p = wire_bytes (sub_frame (ts, utc, rssi, mem, len)) @ rest"
    and "submit_type len = Some ft" "unat len \<le> length mem"
  shows "\<exists>r d p'. INPUT_getFrame bo junk p = (Some (r, d), p') \<and> wire_bytes r = wire_bytes (sub_frame (ts, utc, rssi, mem, len))
    \<and> frameType d = ft \<and> unat (mlat d) = (unat ts div 1000000000) mod 86400 * 2 ^ 30 + unat ts mod 1000000000
    \<and> siglevel d = rssi \<and> payload d = take (unat len) mem \<and> flat p' = rest"
proof -
  let ?hdr = "be_bytes 6 (mlat_stamp ts) @ [rssi]" and ?pl = "take (unat len) mem"
  let ?rw = "BEAST_SYNC # ft # BEAST_encode (?hdr @ ?pl)"
  note tc = submit_type_cases [OF assms(3)]
  have hdr: "length ?hdr = 7" by simp
  have pl: "frame_payload_len ft = Some (length ?pl)" using tc(2) assms(4) by simp
  note wire = wire_sub_frame [OF assms(3,4)]
  have flat: "flat p = BEAST_SYNC # ft # BEAST_encode (?hdr @ ?pl) @ rest"
    using assms(2) unfolding wire(1) by simp
  obtain r d p' where r: "INPUT_getFrame bo junk p = (Some (r, d), p')" "raw r = ?rw" "rawLen r = of_nat (length (raw r))"
    "frameType d = ft" "mlat d = be_word (take 6 ?hdr)" "siglevel d = ?hdr ! 6" "payload d = ?pl" "flat p' = rest"
    using getFrame_roundtrip [OF assms(1) flat pl, of bo junk] hdr by blast
  have "wire_bytes r = ?rw"
    using r(2,3) wire(2) by (simp add: wire_bytes_def)
  moreover have "mlat d = mlat_stamp ts" using r(5) be_word_be_bytes_6 [OF mlat_stamp_small] by simp
  ultimately show ?thesis using r wire(1) by (simp add: unat_mlat_stamp nth_append)
qed

section \<open>The life of the library\<close>

definition zero_bytes :: "nat \<Rightarrow> u8 list" where "zero_bytes n = replicate n 0"

text \<open>The state before \<open>init\<close>: static variables are zero.\<close>

definition feeder_bss :: feeder where
  "feeder_bss = \<lparr>fd_serial = 0, fd_configured = False, fd_running = False,
     fd_login = \<lparr>deviceType = OPENSKY_DEVICE_TYPE_INVALID, user = zero_bytes (OPENSKY_MAX_USERNAME + 1), cachedVer = None\<rparr>,
     fd_gps = \<lparr>position = \<lparr>latitude = Double_bits 0, longitute = Double_bits 0, altitude = Double_bits 0\<rparr>,
       hasPosition = False, hasFix = False, needPosition = False\<rparr>,
     fd_filter = \<lparr>FILTER_cfg = \<lparr>crc = False, sync_filter = False, extSquitter = False\<rparr>, modeSFilter = 0,
       isSynchronized = False, filter_stats = filter_zero_stats, reconfigured = []\<rparr>,
     fd_buf = \<lparr>buf_cfg = \<lparr>statBacklog = 0, dynBacklog = 0, dynIncrement = 0, history = False, gc_enabled = False,
         gcInterval = 0, gcLevel = 0\<rparr>,
       staticPool = \<lparr>p_addr = Static_pool, p_size = 0, p_collect = []\<rparr>, dynMaxPools = 0, dynPools = [], free_pool = [],
       queue = [], newFrame = None, currentFrame = None, buf_stats = zero_stats,
       contents = (\<lambda>_. \<lparr>rawLen = 0, raw = zero_bytes RAW_SIZE\<rparr>), next_addr = 0\<rparr>,
     fd_cfg = bss_store, fd_comp = \<lparr>components = [], bools = (\<lambda>_. False), comp_log = []\<rparr>\<rparr>"

definition feeder_run :: "comp_env \<Rightarrow> u32 \<Rightarrow> u32 \<Rightarrow> submission list \<Rightarrow> fault + feeder" where
  "feeder_run E dev serialNumber xs =
    bind_ok (gp_init E True feeder_bss) (\<lambda>s. bind_ok (gp_configure dev serialNumber s) (\<lambda>s.
    bind_ok (gp_enable E s) (submit_all xs)))"

definition lib_order :: "comp_addr list" where
  "lib_order = [FILTER_comp, NET_comp, TB_comp, BUF_comp, RELAY_comp]"

definition link_in :: "COMPONENT_STATE \<Rightarrow> comp_addr \<Rightarrow> ComponentLink" where
  "link_in st a = \<lparr>l_comp = a, l_state = st, l_thread = Thread_none\<rparr>"

definition lib_log :: "comp_call list" where
  "lib_log = [Call_malloc TB_comp, Call_malloc RELAY_comp, Call_registerSection RELAY_comp, Call_malloc FILTER_comp,
     Call_registerSection FILTER_comp, Call_malloc NET_comp, Call_registerSection NET_comp,
     Call_malloc BUF_comp, Call_registerSection BUF_comp]"

definition lib_constructs :: "comp_call list" where
  "lib_constructs = [Call_onConstruct FILTER_comp, Call_onConstruct BUF_comp]"

lemma lib_registered:
  "map_sum (\<lambda>x. x) (\<lambda>c. (components c, comp_log c))
     (bind_ok (register_all quiet_env [TB_comp, RELAY_comp, FILTER_comp] \<lparr>components = [], bools = f, comp_log = []\<rparr>)
       (COMP_fixup quiet_env))
   = Ok (map (link_in COMPONENT_STATE_REGISTERED) lib_order, lib_log)"
  by code_simp

lemma lib_initialised:
  "map_sum (\<lambda>x. x) (\<lambda>(ok, c). (ok, components c, bools c flag_cfg_gc, comp_log c))
     (COMP_initAll quiet_env \<lparr>components = map (link_in COMPONENT_STATE_REGISTERED) lib_order,
        bools = f(flag_cfg_gc := False), comp_log = lib_log\<rparr>)
   = Ok (True, map (link_in COMPONENT_STATE_INITIALIZED) lib_order, False, lib_log @ lib_constructs)"
  by code_simp

lemma lib_started:
  "map_sum (\<lambda>x. x) fst
     (COMP_startAll quiet_env \<lparr>components = map (link_in COMPONENT_STATE_INITIALIZED) lib_order,
        bools = f(flag_cfg_gc := False), comp_log = h\<rparr>)
   = Ok True"
  by code_simp

definition default_buf_cfg :: buf_configuration where
  "default_buf_cfg = \<lparr>statBacklog = 200, dynBacklog = 1000, dynIncrement = 1080, history = False, gc_enabled = False,
     gcInterval = 120, gcLevel = 2\<rparr>"

definition default_filter_cfg :: FILTER_Configuration where
  "default_filter_cfg = \<lparr>crc = True, sync_filter = True, extSquitter = True\<rparr>"

lemma lib_defaults:
  obtains st where "CFG_loadDefaults lib_sections bss_store = Ok st" "buffer_config st = Some default_buf_cfg"
    "filter_config st = Some default_filter_cfg"
proof -
  have sub: "set (all_options lib_sections) \<subseteq> set (all_options daemon_sections)"
    by (auto simp: all_options_def lib_sections_def daemon_sections_def)
  have ok: "table_ok lib_sections" "list_all default_string_ok (all_options lib_sections)"
    "distinct (map opt_var (all_options lib_sections))"
    by (simp_all add: table_ok_def all_options_def lib_sections_def cfg_desc_defs default_ok_def default_string_ok_def
        NI_MAXHOST_def cfg_var_defs)
  obtain st where st: "CFG_loadDefaults lib_sections bss_store = Ok st"
    using CFG_loadDefaults_ok [OF bss_ok sub ok(1)] by blast
  then have "load_options (all_options lib_sections) bss_store = Ok st" by (simp add: CFG_loadDefaults_options)
  then have "\<forall>opt\<in>set (all_options lib_sections). is_default opt (cfg_vars st (opt_var opt))"
    using load_options_values ok by (simp add: table_ok_def)
  then have "buffer_config st = Some default_buf_cfg" "filter_config st = Some default_filter_cfg"
    by (simp_all add: all_options_def lib_sections_def cfg_desc_defs is_default_def buffer_config_def filter_config_def
        default_buf_cfg_def default_filter_cfg_def)
  then show thesis using that st by blast
qed

lemma map_sum_OkD: "map_sum (\<lambda>x. x) g r = Ok y \<Longrightarrow> \<exists>x. r = Ok x \<and> g x = y"
  by (cases r) simp_all

lemma buf_constructed:
  assumes "p_addr (staticPool b) = Static_pool"
  obtains b' where "buf_construct True (b\<lparr>buf_cfg := default_buf_cfg\<rparr>) = Ok (True, b')" "buf_good b'" "outstanding b' = []"
    "newFrame b' = None" "in_use b' = 0" "capacity b' = 200" "buf_cfg b' = default_buf_cfg"
proof -
  let ?b = "b\<lparr>buf_cfg := default_buf_cfg\<rparr>"
  have a: "p_addr (staticPool ?b) = Static_pool" using assms by simp
  obtain b' where b': "buf_construct True ?b = Ok (True, b')" "newFrame b' = None" "in_use b' = 0" "capacity b' = 200"
    "buf_cfg b' = default_buf_cfg"
    by (simp add: buf_construct_def deployPool_def Let_def default_buf_cfg_def in_use_def capacity_def)
  then show thesis using that buf_good_construct [OF a b'(1)] by blast
qed

lemma feeder_started:
  assumes "dev \<noteq> OPENSKY_DEVICE_TYPE_INVALID"
  obtains s where "bind_ok (gp_init quiet_env True feeder_bss) (\<lambda>s. bind_ok (gp_configure dev serialNumber s) (gp_enable quiet_env)) = Ok s"
    "feeder_ready s" "FILTER_cfg (fd_filter s) = default_filter_cfg" "isSynchronized (fd_filter s)"
    "outstanding (fd_buf s) = []" "in_use (fd_buf s) = 0" "capacity (fd_buf s) = 200"
proof -
  obtain c1 where c1: "register_components quiet_env feeder_bss = Ok (feeder_bss\<lparr>fd_comp := c1\<rparr>)"
    "components c1 = map (link_in COMPONENT_STATE_REGISTERED) lib_order" "comp_log c1 = lib_log"
    using map_sum_OkD [OF lib_registered [of "\<lambda>_. False"]]
    by (auto simp: register_components_def feeder_bss_def bind_ok_eq_Inr)
  obtain st where st: "CFG_loadDefaults lib_sections bss_store = Ok st" "buffer_config st = Some default_buf_cfg"
    "filter_config st = Some default_filter_cfg" by (rule lib_defaults)
  define f where "f = (bools c1)(flag_cfg_gc := False)"
  define c1' where "c1' = \<lparr>components = map (link_in COMPONENT_STATE_REGISTERED) lib_order, bools = f, comp_log = lib_log\<rparr>"
  have c1': "c1\<lparr>bools := f\<rparr> = c1'" using c1(2,3) by (simp add: c1'_def)
  obtain c2 where c2: "COMP_initAll quiet_env c1' = Ok (True, c2)" "components c2 = map (link_in COMPONENT_STATE_INITIALIZED) lib_order"
    "\<not> bools c2 flag_cfg_gc" "comp_log c2 = lib_log @ lib_constructs"
    using map_sum_OkD [OF lib_initialised [of "bools c1"]] by (auto simp: c1'_def f_def)
  have "c2 = \<lparr>components = map (link_in COMPONENT_STATE_INITIALIZED) lib_order,
      bools = (bools c2)(flag_cfg_gc := False), comp_log = comp_log c2\<rparr>"
    using c2(2,3) by (simp add: fun_upd_idem)
  then obtain c3 where c3: "COMP_startAll quiet_env c2 = Ok (True, c3)"
    using map_sum_OkD [OF lib_started [of "bools c2" "comp_log c2"]] by (metis prod.collapse)
  let ?s1 = "feeder_bss\<lparr>fd_comp := c1', fd_cfg := st, fd_buf := (fd_buf feeder_bss)\<lparr>buf_cfg := default_buf_cfg\<rparr>,
    fd_filter := (fd_filter feeder_bss)\<lparr>FILTER_cfg := default_filter_cfg\<rparr>\<rparr>"
  have load: "load_defaults (feeder_bss\<lparr>fd_comp := c1\<rparr>) = Ok ?s1"
    using st c1' by (simp add: load_defaults_def load_config_def feeder_bss_def f_def default_buf_cfg_def)
  obtain b where b: "buf_construct True ((fd_buf feeder_bss)\<lparr>buf_cfg := default_buf_cfg\<rparr>) = Ok (True, b)" "buf_good b"
    "outstanding b = []" "newFrame b = None" "in_use b = 0" "capacity b = 200" "buf_cfg b = default_buf_cfg"
    using buf_constructed [of "fd_buf feeder_bss"] by (auto simp: feeder_bss_def)
  define fl where "fl = snd (filter_construct ((fd_filter feeder_bss)\<lparr>FILTER_cfg := default_filter_cfg\<rparr>))"
  have fl: "filter_inv fl" "FILTER_cfg fl = default_filter_cfg"
    unfolding fl_def by (simp_all add: filter_inv_def feeder_bss_def filter_zero_stats_def filter_construct_def FILTER_reset_def)
  let ?s2 = "?s1\<lparr>fd_gps := GPS_reset (fd_gps feeder_bss), fd_comp := c2, fd_filter := fl, fd_buf := b\<rparr>"
  have init: "gp_init quiet_env True feeder_bss = Ok ?s2"
    using c1(1) load c2 b(1)
    by (simp add: gp_init_def init_components_def lib_constructs_def c1'_def comp_addr_defs fl_def feeder_bss_def)
  let ?s3 = "?s2\<lparr>fd_login := (fd_login feeder_bss)\<lparr>deviceType := dev\<rparr>, fd_serial := serialNumber, fd_configured := True\<rparr>"
  have conf: "gp_configure dev serialNumber ?s2 = Ok ?s3"
    using assms by (simp add: gp_configure_def LOGIN_setDeviceType_def feeder_bss_def)
  let ?s4 = "?s3\<lparr>fd_filter := FILTER_setSynchronized True (FILTER_reset fl), fd_gps := GPS_resetNeedFlag (GPS_reset (fd_gps feeder_bss)),
    fd_buf := BUF_flush b, fd_comp := c3, fd_running := True\<rparr>"
  have en: "gp_enable quiet_env ?s3 = Ok ?s4" using c3 by (simp add: gp_enable_def enable_feeder_def Let_def)
  have q: "queue b = []" "currentFrame b = None" using b(3) by (auto simp: outstanding_def opt_list_def split: option.splits)
  have "buf_good (BUF_flush b)" using step_okD [OF b(2), of Flush] by simp
  moreover have "pools_not_empty (buf_cfg (BUF_flush b))" using b(7) by (simp add: BUF_flush_def pools_not_empty_def default_buf_cfg_def)
  ultimately have "feeder_ready ?s4" using b(4) fl(1) filter_inv_ops(1,5)
    by (simp add: feeder_ready_def BUF_flush_def)
  then show thesis
    by (rule that [rotated]) (use init conf en fl(2) b q in
      \<open>simp_all add: FILTER_setSynchronized_def FILTER_reset_def BUF_flush_def outstanding_def in_use_def capacity_def\<close>)
qed

section \<open>Properties\<close>


definition sample_submissions :: "submission list" where
  "sample_submissions = [(1500000000000000000, True, 0xf6, [0x8d, 1, 2, 3, 4, 5, 0x1a, 7, 8, 9, 10, 11, 12, 13], 14),
     (7, False, 0, [0x8d, 1, 2, 3, 4, 5, 6, 7, 8, 9, 10, 11, 12, 13], 14), (9, True, 0, [0x5d, 1, 2, 3, 4, 5, 6], 7), (1, True, 0, [], 3)]"

lemma sample_accepted:
  "map (sub_accepted default_filter_cfg True) sample_submissions = [True, False, False, False]"
  by (simp add: sample_submissions_def sub_accepted_def submit_type_def passes_def default_filter_cfg_def frame_type_defs
      downlink_format_def)


text \<open>C35: on a little endian host, with memory available, a submitted frame that the filter lets pass is
  the last one in the buffer, and a receiver that reads the bytes the relay sends for it gets back what
  was submitted: the type for the length, the second of the day and the nanoseconds of the time
  stamp, the signal level, and the payload.\<close>

theorem feeder_frame_roundtrip:
  assumes "feeder_ready s" "submit_type len = Some ft" "unat len \<le> length mem"
    and "passes (FILTER_cfg (fd_filter s)) (isSynchronized (fd_filter s)) ft (mem ! 0)"
  shows "\<exists>s' r0. submitFrame (True, True) Little_endian ts True rssi mem len s = Ok s'
    \<and> held (fd_buf s') = held (fd_buf s)
    \<and> queued (fd_buf s') = keep_last (capacity (fd_buf s) - length (held (fd_buf s))) (queued (fd_buf s) @ [r0])
    \<and> sendFrame_bytes r0 = Ok (wire_bytes r0)
    \<and> (\<forall>bo junk p rest. chunks_ok p \<longrightarrow> flat p = wire_bytes r0 @ rest \<longrightarrow>
        (\<exists>r d p'. INPUT_getFrame bo junk p = (Some (r, d), p') \<and> wire_bytes r = wire_bytes r0
          \<and> frameType d = ft \<and> unat (mlat d) = (unat ts div 1000000000) mod 86400 * 2 ^ 30 + unat ts mod 1000000000
          \<and> siglevel d = rssi \<and> payload d = take (unat len) mem \<and> flat p' = rest))"
proof -
  let ?x = "(ts, True, rssi, mem, len)"
  have "sub_valid ?x" "sub_accepted (FILTER_cfg (fd_filter s)) (isSynchronized (fd_filter s)) ?x"
    using assms by (simp_all add: sub_valid_def sub_accepted_def)
  then obtain s' where s': "submit ?x s = Ok s'" "pushed (sub_frame ?x) (fd_buf s) (fd_buf s')"
    using submit_step [OF assms(1)] by metis
  have "frame_fits (sub_frame ?x)"
    using wire_sub_frame(2) [OF assms(2,3), of ts rssi] assms(2)
    by (simp add: frame_fits_def sub_frame_def submitted_frame_def Let_def)
  then have "sendFrame_bytes (sub_frame ?x) = Ok (wire_bytes (sub_frame ?x))" by (rule sendFrame_bytes_ok)
  then show ?thesis
    using s' sub_frame_parsed [OF _ _ assms(2,3), of _ ts True rssi]
    by (intro exI [of _ s'] exI [of _ "sub_frame ?x"]) (simp add: submit_def pushed_def)
qed

theorem feeder_frame_roundtrip_witness:
  "\<exists>s s' r0 r d p'. submitFrame (True, True) Little_endian 1500000000000000000 True 0xf6
        [0x8d, 1, 2, 3, 4, 5, 0x1a, 7, 8, 9, 10, 11, 12, 13] 14 (s :: feeder) = Ok s'
    \<and> outstanding (fd_buf s') = [r0]
    \<and> INPUT_getFrame Little_endian 0 (sample_rc [wire_bytes r0 @ [7]]) = (Some (r, d), p')
    \<and> unat (mlat d) = 9600 * 2 ^ 30 \<and> siglevel d = 0xf6 \<and> payload d ! 6 = 0x1a"
proof -
  obtain s :: feeder where s: "feeder_ready s" "FILTER_cfg (fd_filter s) = default_filter_cfg" "isSynchronized (fd_filter s)"
    "outstanding (fd_buf s) = []" "in_use (fd_buf s) = 0" "capacity (fd_buf s) = 200"
    by (rule feeder_started [of 1 0]) (auto simp: OPENSKY_DEVICE_TYPE_INVALID_def)
  let ?mem = "[0x8d, 1, 2, 3, 4, 5, 0x1a, 7, 8, 9, 10, 11, 12, 13] :: u8 list"
  have ty: "submit_type 14 = Some OPENSKY_FRAME_TYPE_MODE_S_LONG" by (simp add: submit_type_def)
  have len: "unat (14 :: size_t) \<le> length ?mem" by simp
  have "passes (FILTER_cfg (fd_filter s)) (isSynchronized (fd_filter s)) OPENSKY_FRAME_TYPE_MODE_S_LONG (?mem ! 0)"
    using s by (simp add: passes_def default_filter_cfg_def frame_type_defs downlink_format_def)
  from feeder_frame_roundtrip [OF s(1) ty len this, of "1500000000000000000" "0xf6"] obtain s' r0 where
    s': "submitFrame (True, True) Little_endian 1500000000000000000 True 0xf6 ?mem 14 s = Ok s'"
    "held (fd_buf s') = held (fd_buf s)"
    "queued (fd_buf s') = keep_last (capacity (fd_buf s) - length (held (fd_buf s))) (queued (fd_buf s) @ [r0])"
    and parsed: "\<And>bo junk p rest. chunks_ok p \<Longrightarrow> flat p = wire_bytes r0 @ rest \<Longrightarrow>
        \<exists>r d p'. INPUT_getFrame bo junk p = (Some (r, d), p') \<and> wire_bytes r = wire_bytes r0
          \<and> unat (mlat d) = (unat (1500000000000000000 :: u64) div 1000000000) mod 86400 * 2 ^ 30 + unat (1500000000000000000 :: u64) mod 1000000000
          \<and> siglevel d = 0xf6 \<and> payload d = take (unat (14 :: size_t)) ?mem \<and> flat p' = rest"
    by blast
  have o: "outstanding (fd_buf s') = [r0]"
    using s' s(4,6) by (simp add: outstanding_held keep_last_def)
  have "chunks_ok (sample_rc [wire_bytes r0 @ [7]])" "flat (sample_rc [wire_bytes r0 @ [7]]) = wire_bytes r0 @ [7]"
    by (simp_all add: sample_rc_facts)
  from parsed [OF this, of Little_endian 0] obtain r d p' where
    "INPUT_getFrame Little_endian 0 (sample_rc [wire_bytes r0 @ [7]]) = (Some (r, d), p')"
    "unat (mlat d) = 9600 * 2 ^ 30" "siglevel d = 0xf6" "payload d ! 6 = 0x1a" by auto
  then show ?thesis using s'(1) o
    by (intro exI [of _ s] exI [of _ s'] exI [of _ r0] exI [of _ r] exI [of _ d] exI [of _ p'] conjI)
qed

end
