(* ===== verification/Rc_Lib.thy ===== *)
theory Rc_Lib
  imports Gp_Feeder
begin

text \<open>
  The older feeder library, of the Radarcape (\<open>radarcape/lib/opensky.cc\<close>): it differs from the one
  in Gp\_Feeder in what configures it (the address of the network card), in the GPS time status,
  and in taking messages that already hold time stamp, signal level and payload.
\<close>

section \<open>State and operations\<close>

datatype GpsTimeStatus = GpsTimeInvalid | UsingCpuTime | UsingGpsTime

record rc_feeder = feeder +
  fd_timeStatus :: GpsTimeStatus
  fd_eth :: serial_eth

definition OPENSKY_DEVICE_TYPE_RADARCAPE_LIB :: u32 where "OPENSKY_DEVICE_TYPE_RADARCAPE_LIB = 4"

text \<open>The result is compared with zero, the value of \<open>SERIAL_RETURN_FAIL_TEMP\<close>.\<close>

definition rl_configure :: "byte_order \<Rightarrow> u8 list option \<Rightarrow> u8 list option \<Rightarrow> rc_feeder \<Rightarrow> fault + rc_feeder" where
  "rl_configure bo mac_socket mac_sysfs s =
    (let (rc, serial, e) = SERIAL_ETH_getSerial bo mac_socket mac_sysfs (fd_eth s); s = s\<lparr>fd_eth := e\<rparr>
     in if rc = SERIAL_RETURN_FAIL_TEMP then Fault Emergency else Ok (s\<lparr>fd_configured := True\<rparr>))"

definition rl_init :: "comp_env \<Rightarrow> bool \<Rightarrow> byte_order \<Rightarrow> u8 list option \<Rightarrow> u8 list option \<Rightarrow> rc_feeder \<Rightarrow>
    fault + rc_feeder" where
  "rl_init E malloc_ok bo mac_socket mac_sysfs s =
    bind_ok (register_components E s) (\<lambda>s.
    bind_ok (LOGIN_setDeviceType OPENSKY_DEVICE_TYPE_RADARCAPE_LIB (fd_login s)) (\<lambda>l.
    bind_ok (load_defaults (s\<lparr>fd_login := l\<rparr>)) (\<lambda>s.
    bind_ok (rl_configure bo mac_socket mac_sysfs (s\<lparr>fd_gps := GPS_reset (fd_gps s)\<rparr>)) (\<lambda>s.
    init_components E malloc_ok s))))"

definition rl_enable :: "comp_env \<Rightarrow> rc_feeder \<Rightarrow> fault + rc_feeder" where
  "rl_enable E s = enable_feeder (fd_timeStatus s \<noteq> GpsTimeInvalid) E s"

definition rl_setGpsTimeStatus :: "byte_order \<Rightarrow> 'n net_send \<Rightarrow> GpsTimeStatus \<Rightarrow> rc_feeder \<Rightarrow> 'n \<Rightarrow>
    fault + (rc_feeder \<times> 'n)" where
  "rl_setGpsTimeStatus bo send st s n =
    (let s = s\<lparr>fd_timeStatus := st, fd_filter := FILTER_setSynchronized (st \<noteq> GpsTimeInvalid) (fd_filter s)\<rparr>
     in bind_ok (GPS_setHasFix bo send (st = UsingGpsTime) (fd_gps s) n) (\<lambda>(g, n). Ok (s\<lparr>fd_gps := g\<rparr>, n)))"

definition rl_setGpsPosition :: "byte_order \<Rightarrow> 'n net_send \<Rightarrow> ieee_double \<Rightarrow> ieee_double \<Rightarrow> ieee_double \<Rightarrow>
    rc_feeder \<Rightarrow> 'n \<Rightarrow> fault + (rc_feeder \<times> 'n)" where
  "rl_setGpsPosition bo send lat lon alt s n =
    bind_ok (GPS_setPosition bo send lat lon alt (fd_gps s) n) (\<lambda>(g, n). Ok (s\<lparr>fd_gps := g\<rparr>, n))"

text \<open>The message types of \<open>MessageTypes.h\<close> that are sent on; \<open>msgLen\<close> of each.\<close>

definition MessageType_ModeAC :: u32 where "MessageType_ModeAC = 0x31"
definition MessageType_ModeSShort :: u32 where "MessageType_ModeSShort = 0x32"
definition MessageType_ModeSLong :: u32 where "MessageType_ModeSLong = 0x33"

definition message_len :: "u32 \<Rightarrow> nat option" where
  "message_len ty = (if ty = MessageType_ModeAC then Some (7 + 2) else if ty = MessageType_ModeSShort then Some (7 + 7)
     else if ty = MessageType_ModeSLong then Some (7 + 14) else None)"

definition output_message :: "bool \<times> bool \<Rightarrow> u8 list \<Rightarrow> u32 \<Rightarrow> 'a feeder_scheme \<Rightarrow> fault + 'a feeder_scheme" where
  "output_message m msg ty s =
    (if \<not> fd_configured s \<or> \<not> fd_running s then Ok s
     else case message_len ty of
       None \<Rightarrow> Ok s
     | Some n \<Rightarrow>
         if length msg \<le> 7 then Fault Out_of_bounds
         else bind_ok (FILTER_filter (ucast ty) (msg ! 7) (fd_filter s)) (\<lambda>(pass, fl).
           let s = s\<lparr>fd_filter := fl\<rparr>
           in if \<not> pass then Ok s
              else bind_ok (BUF_newFrame m (fd_buf s)) (\<lambda>(out, b).
                bind_ok (first_bytes (of_nat n) msg) (\<lambda>pl.
                bind_ok (append_encoded RAW_SIZE [BEAST_SYNC, ucast ty] pl) (\<lambda>rw.
                bind_ok (commit_raw out rw b) (\<lambda>b. Ok (s\<lparr>fd_buf := b\<rparr>)))))))"

section \<open>What a message becomes\<close>

lemma message_len_cases:
  assumes "message_len ty = Some n"
  shows "beast_type (ucast ty)" "frame_payload_len (ucast ty) = Some (n - 7)" "7 < n" "n \<le> 21"
  using assms
  by (auto simp: message_len_def beast_type_def frame_payload_len_def MessageType_ModeAC_def MessageType_ModeSShort_def
      MessageType_ModeSLong_def frame_type_defs split: if_splits)

definition message_bytes :: "u32 \<Rightarrow> u8 list \<Rightarrow> nat \<Rightarrow> u8 list" where
  "message_bytes ty msg n = BEAST_SYNC # ucast ty # BEAST_encode (take n msg)"

lemma length_message_bytes:
  assumes "n \<le> 21"
  shows "length (message_bytes ty msg n) \<le> 44"
proof -
  have "length (BEAST_encode (take n msg)) \<le> 2 * length (take n msg)" by (rule length_BEAST_encode_le)
  then show ?thesis using assms by (simp add: message_bytes_def)
qed

lemma output_message_step:
  assumes "feeder_ready s" "message_len ty = Some n" "n \<le> length msg" "in_use (fd_buf s) < capacity (fd_buf s)"
  defines "p \<equiv> passes (FILTER_cfg (fd_filter s)) (isSynchronized (fd_filter s)) (ucast ty) (msg ! 7)"
  shows "\<exists>s'. output_message (True, True) msg ty s = Ok s' \<and> feeder_ready s'
    \<and> outstanding (fd_buf s') = outstanding (fd_buf s)
        @ (if p then [\<lparr>rawLen = of_nat (length (message_bytes ty msg n)), raw = message_bytes ty msg n\<rparr>] else [])"
proof -
  note mc = message_len_cases [OF assms(2)]
  have r: "fd_configured s" "fd_running s" "buf_good (fd_buf s)" "newFrame (fd_buf s) = None" "filter_inv (fd_filter s)"
    "pools_not_empty (buf_cfg (fd_buf s))"
    using assms(1) by (simp_all add: feeder_ready_def)
  have len: "\<not> length msg \<le> 7" using mc(3) assms(3) by simp
  obtain fl where fl: "FILTER_filter (ucast ty) (msg ! 7) (fd_filter s) = Ok (p, fl)" "filter_inv fl"
    unfolding p_def using FILTER_filter_spec [OF r(5) mc(1)] by blast
  show ?thesis
  proof (cases p)
    case False
    then have "output_message (True, True) msg ty s = Ok (s\<lparr>fd_filter := fl\<rparr>)"
      using r fl(1) len assms(2) by (simp add: output_message_def Let_def)
    then show ?thesis using r fl False by (simp add: feeder_ready_def)
  next
    case True
    let ?r = "\<lparr>rawLen = of_nat (length (message_bytes ty msg n)), raw = message_bytes ty msg n\<rparr>"
    obtain f b where b: "BUF_newFrame (True, True) (fd_buf s) = Ok (f, b)"
      "\<And>r. \<exists>b'. BUF_commitFrame f (write_frame f r b) = Ok b' \<and> buf_good b' \<and> newFrame b' = None
         \<and> pools_not_empty (buf_cfg b') \<and> pushed r (fd_buf s) b'"
      using fill_and_commit [OF r(3,4,6)] by metis
    obtain b' where b': "BUF_commitFrame f (write_frame f ?r b) = Ok b'" "buf_good b'" "newFrame b' = None"
      "pools_not_empty (buf_cfg b')" "pushed ?r (fd_buf s) b'" using b(2) by blast
    have o: "outstanding b' = outstanding (fd_buf s) @ [?r]"
      using b'(5) assms(4) by (simp add: pushed_def outstanding_held in_use_held)
    have n: "unat (of_nat n :: u64) = n" using mc(4) by (intro unat_of_nat_small) simp
    have take: "first_bytes (of_nat n) msg = Ok (take n msg)" using assms(3) by (simp add: first_bytes_def n)
    have "append_encoded RAW_SIZE [BEAST_SYNC, ucast ty] (take n msg) = Ok ([BEAST_SYNC, ucast ty] @ escape (take n msg))"
      by (rule append_encoded_ok) (use mc(4) in \<open>simp add: RAW_SIZE_def\<close>)
    then have enc: "append_encoded RAW_SIZE [BEAST_SYNC, ucast ty] (take n msg) = Ok (message_bytes ty msg n)"
      by (simp add: message_bytes_def BEAST_encode_eq_escape)
    have "commit_raw f (message_bytes ty msg n) b = Ok b'" using b'(1) by (simp only: commit_raw_def)
    then have "output_message (True, True) msg ty s = Ok (s\<lparr>fd_filter := fl, fd_buf := b'\<rparr>)"
      using r fl(1) len assms(2) True b(1) take enc by (simp add: output_message_def Let_def)
    then show ?thesis using r fl True b' o by (simp add: feeder_ready_def)
  qed
qed

section \<open>Property\<close>

text \<open>C34: a message the application outputs and the filter lets pass is committed behind the queued
  frames, and a receiver of its bytes reads the type, the six bytes of time stamp, the signal
  level and the payload of the message; its escaped form always fits the frame.\<close>

theorem library_message_arrives:
  assumes "feeder_ready s" "message_len ty = Some n" "n \<le> length msg" "in_use (fd_buf s) < capacity (fd_buf s)"
    and "passes (FILTER_cfg (fd_filter s)) (isSynchronized (fd_filter s)) (ucast ty) (msg ! 7)"
  shows "\<exists>s' r. output_message (True, True) msg ty s = Ok s' \<and> feeder_ready s'
    \<and> outstanding (fd_buf s') = outstanding (fd_buf s) @ [r] \<and> length (raw r) \<le> RAW_SIZE
    \<and> (\<forall>bo junk p rest. chunks_ok p \<longrightarrow> flat p = wire_bytes r @ rest \<longrightarrow>
        (\<exists>r' d p'. INPUT_getFrame bo junk p = (Some (r', d), p') \<and> frameType d = ucast ty
          \<and> mlat d = be_word (take 6 msg) \<and> siglevel d = msg ! 6 \<and> payload d = take (n - 7) (drop 7 msg)
          \<and> flat p' = rest))"
proof -
  note mc = message_len_cases [OF assms(2)]
  let ?rw = "message_bytes ty msg n"
  let ?r = "\<lparr>rawLen = of_nat (length ?rw), raw = ?rw\<rparr> :: raw_frame"
  obtain s' where s': "output_message (True, True) msg ty s = Ok s'" "feeder_ready s'"
    "outstanding (fd_buf s') = outstanding (fd_buf s) @ [?r]"
    using output_message_step [OF assms(1-4)] assms(5) by auto
  have "unat (of_nat (length ?rw) :: u64) = length ?rw"
    using length_message_bytes [OF mc(4), of ty msg] by (intro unat_of_nat_small) simp
  then have wire: "wire_bytes ?r = ?rw" by (simp add: wire_bytes_def)
  have hp: "take n msg = take 7 msg @ take (n - 7) (drop 7 msg)"
    using mc(3) by (metis add_diff_inverse_nat less_imp_le_nat linorder_not_less take_add)
  have pl: "frame_payload_len (ucast ty) = Some (length (take (n - 7) (drop 7 msg)))" "length (take 7 msg) = 7"
    using mc(2,3) assms(3) by simp_all
  have parsed: "\<exists>r' d p'. INPUT_getFrame bo junk p = (Some (r', d), p') \<and> frameType d = ucast ty
      \<and> mlat d = be_word (take 6 msg) \<and> siglevel d = msg ! 6 \<and> payload d = take (n - 7) (drop 7 msg) \<and> flat p' = rest"
    if p: "chunks_ok p" "flat p = wire_bytes ?r @ rest" for bo junk p rest
  proof -
    have "flat p = BEAST_SYNC # ucast ty # BEAST_encode (take 7 msg @ take (n - 7) (drop 7 msg)) @ rest"
      using p(2) unfolding wire by (simp add: message_bytes_def hp)
    from getFrame_roundtrip [OF p(1) this pl, of bo junk] show ?thesis
      by (auto simp: min_def)
  qed
  have "length (raw ?r) \<le> RAW_SIZE" using length_message_bytes [OF mc(4), of ty msg] by (simp add: RAW_SIZE_def)
  then show ?thesis using s' parsed by (intro exI [of _ s'] exI [of _ ?r]) blast
qed

theorem library_message_arrives_witness:
  "\<exists>s s'. output_message (True, True) [1, 2, 3, 4, 5, 6, 7, 0x8d, 0x1a, 0, 0, 0, 0, 0, 0, 0, 0, 0, 0, 0, 0] MessageType_ModeSLong s = Ok s'
    \<and> feeder_ready (s :: feeder) \<and> length (outstanding (fd_buf s')) = length (outstanding (fd_buf s)) + 1"
proof -
  obtain s :: feeder where s: "feeder_ready s" "FILTER_cfg (fd_filter s) = default_filter_cfg" "isSynchronized (fd_filter s)"
    "outstanding (fd_buf s) = []" "in_use (fd_buf s) = 0" "capacity (fd_buf s) = 200"
    by (rule feeder_started [of 1 0]) (auto simp: OPENSKY_DEVICE_TYPE_INVALID_def)
  let ?msg = "[1, 2, 3, 4, 5, 6, 7, 0x8d, 0x1a, 0, 0, 0, 0, 0, 0, 0, 0, 0, 0, 0, 0] :: u8 list"
  have "message_len MessageType_ModeSLong = Some 21"
    by (simp add: message_len_def MessageType_ModeAC_def MessageType_ModeSShort_def MessageType_ModeSLong_def)
  moreover have "passes (FILTER_cfg (fd_filter s)) (isSynchronized (fd_filter s)) (ucast MessageType_ModeSLong) (?msg ! 7)"
    using s by (simp add: passes_def default_filter_cfg_def frame_type_defs downlink_format_def MessageType_ModeSLong_def)
  ultimately obtain s' r where "output_message (True, True) ?msg MessageType_ModeSLong s = Ok s'"
    "outstanding (fd_buf s') = outstanding (fd_buf s) @ [r]"
    using library_message_arrives [OF s(1), of MessageType_ModeSLong 21 ?msg] s(5,6) by auto
  then show ?thesis using s(1) by (intro exI [of _ s] exI [of _ s']) simp
qed

end
