(* ===== verification/Rc_Gpio.thy ===== *)
theory Rc_Gpio
  imports Opensky_Prelude
begin

text \<open>
  The general purpose inputs and outputs of the board (\<open>radarcape/gpio.c\<close>) and the watchdog that is
  fed by one of them (\<open>radarcape/watchdog.c\<close>). The four controllers are memory mapped; what the
  hardware answers to a read of a register may depend on all accesses before, and is a parameter:
  every access of the code, and every pause between accesses, is recorded in \<open>gp_bus\<close>.
\<close>

section \<open>State\<close>

datatype bus_event = Write_reg u32 u32 | Read_reg u32 u32 | Usleep nat

type_synonym device = "bus_event list \<Rightarrow> u32 \<Rightarrow> u32"

text \<open>\<open>struct Controller\<close>: the base address, and whether it is mapped (and the register pointers set).\<close>

record gpio_controller =
  ct_base :: u32
  ct_mapped :: bool

record gpio =
  gp_ctrls :: "gpio_controller list"
  gp_devmem :: bool
  gp_bus :: "bus_event list"

definition controller_bases :: "u32 list" where
  "controller_bases = [0x44e07000, 0x4804c000, 0x481ac000, 0x481ae000]"

definition gpio_bss :: gpio where
  "gpio_bss = \<lparr>gp_ctrls = map (\<lambda>b. \<lparr>ct_base = b, ct_mapped = False\<rparr>) controller_bases, gp_devmem = False, gp_bus = []\<rparr>"

definition SETDATAOUT :: u32 where "SETDATAOUT = 0x194"
definition CLEARDATAOUT :: u32 where "CLEARDATAOUT = 0x190"
definition OE :: u32 where "OE = 0x134"
definition DATAIN :: u32 where "DATAIN = 0x138"

lemmas register_defs = SETDATAOUT_def CLEARDATAOUT_def OE_def DATAIN_def

section \<open>Construction\<close>

definition set_mapped :: "nat \<Rightarrow> bool \<Rightarrow> gpio \<Rightarrow> gpio" where
  "set_mapped i b s = s\<lparr>gp_ctrls := (gp_ctrls s)[i := (gp_ctrls s ! i)\<lparr>ct_mapped := b\<rparr>]\<rparr>"

definition controllerInit :: "bool \<Rightarrow> nat \<Rightarrow> gpio \<Rightarrow> bool \<times> gpio" where
  "controllerInit mmap_ok i s = (if \<not> mmap_ok then (False, s) else (True, set_mapped i True s))"

text \<open>Unmapping what is not mapped is a fault.\<close>

definition controllerDestruct :: "nat \<Rightarrow> gpio \<Rightarrow> fault + gpio" where
  "controllerDestruct i s =
    (if i < length (gp_ctrls s) \<and> ct_mapped (gp_ctrls s ! i) then Ok (set_mapped i False s) else Fault Bad_descriptor)"

fun destruct_controllers :: "nat list \<Rightarrow> gpio \<Rightarrow> fault + gpio" where
  "destruct_controllers [] s = Ok s"
| "destruct_controllers (i # is) s = bind_ok (controllerDestruct i s) (destruct_controllers is)"

text \<open>The loop over the controllers, with the answers of \<open>mmap\<close>.\<close>

fun init_controllers :: "(nat \<Rightarrow> bool) \<Rightarrow> nat list \<Rightarrow> gpio \<Rightarrow> fault + (bool \<times> gpio)" where
  "init_controllers mmap_ok [] s = Ok (True, s)"
| "init_controllers mmap_ok (i # is) s =
    (let (ok, s) = controllerInit (mmap_ok i) i s
     in if \<not> ok then bind_ok (destruct_controllers [0..<i] s) (\<lambda>s. Ok (False, s))
        else init_controllers mmap_ok is s)"

definition gpio_construct :: "bool \<Rightarrow> (nat \<Rightarrow> bool) \<Rightarrow> gpio \<Rightarrow> fault + (bool \<times> gpio)" where
  "gpio_construct open_ok mmap_ok s =
    (if \<not> open_ok then Ok (False, s)
     else bind_ok (init_controllers mmap_ok [0..<length (gp_ctrls s)] (s\<lparr>gp_devmem := True\<rparr>)) (\<lambda>(ok, s).
       Ok (ok, s\<lparr>gp_devmem := False\<rparr>)))"

definition gpio_destruct :: "gpio \<Rightarrow> fault + gpio" where
  "gpio_destruct s = destruct_controllers [0..<length (gp_ctrls s)] s"

section \<open>Access\<close>

datatype GPIO_DIRECTION = GPIO_DIRECTION_IN | GPIO_DIRECTION_OUT

definition getController :: "u32 \<Rightarrow> gpio \<Rightarrow> fault + gpio_controller" where
  "getController pin s =
    (let i = unat (drop_bit 5 pin)
     in if \<not> i < length (gp_ctrls s) then Fault Out_of_bounds
        else if \<not> ct_mapped (gp_ctrls s ! i) then Fault Bad_descriptor
        else Ok (gp_ctrls s ! i))"

definition getBit :: "u32 \<Rightarrow> u32" where
  "getBit pin = push_bit (unat (pin AND 31)) 1"

definition write_reg :: "u32 \<Rightarrow> u32 \<Rightarrow> gpio \<Rightarrow> gpio" where
  "write_reg a v s = s\<lparr>gp_bus := gp_bus s @ [Write_reg a v]\<rparr>"

definition read_reg :: "device \<Rightarrow> u32 \<Rightarrow> gpio \<Rightarrow> u32 \<times> gpio" where
  "read_reg dev a s = (let v = dev (gp_bus s) a in (v, s\<lparr>gp_bus := gp_bus s @ [Read_reg a v]\<rparr>))"

definition usleep :: "nat \<Rightarrow> gpio \<Rightarrow> gpio" where
  "usleep us s = s\<lparr>gp_bus := gp_bus s @ [Usleep us]\<rparr>"

definition GPIO_setDirection :: "device \<Rightarrow> u32 \<Rightarrow> GPIO_DIRECTION \<Rightarrow> gpio \<Rightarrow> fault + gpio" where
  "GPIO_setDirection dev pin dir s =
    bind_ok (getController pin s) (\<lambda>c.
      let (oe, s) = read_reg dev (ct_base c + OE) s;
          s = write_reg (ct_base c + OE) (if dir = GPIO_DIRECTION_OUT then oe AND NOT (getBit pin) else oe OR getBit pin) s;
          (oe, s) = read_reg dev (ct_base c + OE) s
      in Ok s)"

definition GPIO_set :: "device \<Rightarrow> u32 \<Rightarrow> gpio \<Rightarrow> fault + gpio" where
  "GPIO_set dev pin s =
    bind_ok (getController pin s) (\<lambda>c.
      let s = write_reg (ct_base c + SETDATAOUT) (getBit pin) s;
          (v, s) = read_reg dev (ct_base c + DATAIN) s
      in Ok s)"

definition GPIO_clear :: "device \<Rightarrow> u32 \<Rightarrow> gpio \<Rightarrow> fault + gpio" where
  "GPIO_clear dev pin s =
    bind_ok (getController pin s) (\<lambda>c.
      let s = write_reg (ct_base c + CLEARDATAOUT) (getBit pin) s;
          (v, s) = read_reg dev (ct_base c + DATAIN) s
      in Ok s)"

definition GPIO_read :: "device \<Rightarrow> u32 \<Rightarrow> gpio \<Rightarrow> fault + (bool \<times> gpio)" where
  "GPIO_read dev pin s =
    bind_ok (getController pin s) (\<lambda>c.
      let (v, s) = read_reg dev (ct_base c + DATAIN) s in Ok (v AND getBit pin \<noteq> 0, s))"

section \<open>The watchdog\<close>

definition wd_gpio :: u32 where "wd_gpio = 60"
definition wd_interval :: nat where "wd_interval = 30"

definition wd_construct :: "device \<Rightarrow> gpio \<Rightarrow> fault + (bool \<times> gpio)" where
  "wd_construct dev s =
    bind_ok (GPIO_setDirection dev wd_gpio GPIO_DIRECTION_OUT s) (\<lambda>s.
    bind_ok (GPIO_clear dev wd_gpio s) (\<lambda>s. Ok (True, s)))"

text \<open>The first turns of the endless main loop; the pause is in seconds there.\<close>

fun wd_mainloop :: "device \<Rightarrow> nat \<Rightarrow> gpio \<Rightarrow> fault + gpio" where
  "wd_mainloop dev 0 s = Ok s"
| "wd_mainloop dev (Suc turns) s =
    bind_ok (GPIO_set dev wd_gpio s) (\<lambda>s.
    bind_ok (GPIO_clear dev wd_gpio s) (\<lambda>s.
    wd_mainloop dev turns (usleep (wd_interval * 1000000) s)))"

section \<open>Mapping and unmapping\<close>

text \<open>The controllers, the first \<open>n\<close> of them mapped.\<close>

definition ctrls_upto :: "nat \<Rightarrow> gpio_controller list" where
  "ctrls_upto n = map (\<lambda>i. \<lparr>ct_base = controller_bases ! i, ct_mapped = (i < n)\<rparr>) [0..<4]"

lemma length_ctrls_upto [simp]: "length (ctrls_upto n) = 4"
  by (simp add: ctrls_upto_def)

lemma ctrls_upto_Suc:
  "n < 4 \<Longrightarrow> (ctrls_upto n)[n := (ctrls_upto n ! n)\<lparr>ct_mapped := True\<rparr>] = ctrls_upto (Suc n)"
  by (rule nth_equalityI) (auto simp: ctrls_upto_def nth_list_update less_Suc_eq)

text \<open>Unmapping goes through the controllers from the first one on.\<close>

definition ctrls_between :: "nat \<Rightarrow> nat \<Rightarrow> gpio_controller list" where
  "ctrls_between m n = map (\<lambda>i. \<lparr>ct_base = controller_bases ! i, ct_mapped = (m \<le> i \<and> i < n)\<rparr>) [0..<4]"

lemma ctrls_between_upto: "ctrls_between 0 n = ctrls_upto n"
  by (simp add: ctrls_between_def ctrls_upto_def)

lemma destruct_from:
  assumes "m \<le> n" "n \<le> 4" "gp_ctrls s = ctrls_between m n"
  shows "destruct_controllers [m..<n] s = Ok (s\<lparr>gp_ctrls := ctrls_upto 0\<rparr>)"
  using assms
proof (induction "n - m" arbitrary: m s)
  case 0
  then have "ctrls_between m n = ctrls_upto 0" by (auto simp: ctrls_between_def ctrls_upto_def)
  then have "gp_ctrls s = ctrls_upto 0" using 0 by simp
  then have "s\<lparr>gp_ctrls := ctrls_upto 0\<rparr> = s" by (cases s) simp
  then show ?case using 0 by simp
next
  case (Suc k)
  then have m: "m < n" "m < 4" by simp_all
  have "(ctrls_between m n)[m := (ctrls_between m n ! m)\<lparr>ct_mapped := False\<rparr>] = ctrls_between (Suc m) n"
    by (rule nth_equalityI) (use m in \<open>auto simp: ctrls_between_def nth_list_update\<close>)
  then have "controllerDestruct m s = Ok (s\<lparr>gp_ctrls := ctrls_between (Suc m) n\<rparr>)"
    using Suc.prems(3) m by (simp add: controllerDestruct_def set_mapped_def) (simp add: ctrls_between_def)
  then show ?case
    using Suc.hyps(1) [of "Suc m" "s\<lparr>gp_ctrls := ctrls_between (Suc m) n\<rparr>"] Suc.hyps(2) Suc.prems m
    by (simp add: upt_conv_Cons)
qed

lemma init_from:
  assumes "m \<le> 4" "gp_ctrls s = ctrls_upto m"
  shows "init_controllers mmap_ok [m..<4] s =
    Ok (if list_all mmap_ok [m..<4] then (True, s\<lparr>gp_ctrls := ctrls_upto 4\<rparr>) else (False, s\<lparr>gp_ctrls := ctrls_upto 0\<rparr>))"
  using assms
proof (induction "4 - m" arbitrary: m s)
  case 0
  then show ?case by simp
next
  case (Suc k)
  then have m: "m < 4" by simp
  show ?case
  proof (cases "mmap_ok m")
    case True
    have "set_mapped m True s = s\<lparr>gp_ctrls := ctrls_upto (Suc m)\<rparr>"
      using Suc.prems(2) ctrls_upto_Suc [OF m] by (simp add: set_mapped_def)
    then show ?thesis
      using Suc.hyps(1) [of "Suc m" "s\<lparr>gp_ctrls := ctrls_upto (Suc m)\<rparr>"] Suc.hyps(2) m True
      by (simp add: upt_conv_Cons [of m] controllerInit_def del: upt_Suc)
  next
    case False
    then show ?thesis
      using destruct_from [of 0 m s] Suc.prems m by (simp add: upt_conv_Cons [of m] controllerInit_def ctrls_between_upto del: upt_Suc)
  qed
qed

definition gpio_ready :: "gpio \<Rightarrow> bool" where "gpio_ready s \<longleftrightarrow> gp_ctrls s = ctrls_upto 4"
definition gpio_unmapped :: "gpio \<Rightarrow> bool" where "gpio_unmapped s \<longleftrightarrow> gp_ctrls s = ctrls_upto 0"

lemma gpio_bss_unmapped: "gpio_unmapped gpio_bss"
  by (simp add: gpio_unmapped_def gpio_bss_def ctrls_upto_def controller_bases_def upt_rec)

text \<open>Constructing maps all controllers or none, and closes the memory device in every case.\<close>

lemma gpio_construct_result:
  assumes "gpio_unmapped s" "\<not> gp_devmem s"
  shows "gpio_construct open_ok mmap_ok s =
    Ok (if open_ok \<and> list_all mmap_ok [0..<4] then (True, s\<lparr>gp_ctrls := ctrls_upto 4\<rparr>) else (False, s))"
proof -
  have s: "s\<lparr>gp_ctrls := ctrls_upto 0\<rparr> = s" "s\<lparr>gp_devmem := False\<rparr> = s"
    using assms by (cases s; simp add: gpio_unmapped_def)+
  have len: "length (gp_ctrls s) = 4" using assms(1) by (simp add: gpio_unmapped_def)
  show ?thesis
    using init_from [of 0 "s\<lparr>gp_devmem := True\<rparr>" mmap_ok] assms s
    by (cases open_ok) (auto simp: gpio_construct_def len gpio_unmapped_def)
qed

lemma gpio_destruct_result: "gpio_ready s \<Longrightarrow> gpio_destruct s = Ok (s\<lparr>gp_ctrls := ctrls_upto 0\<rparr>)"
  using destruct_from [of 0 4 s] by (simp add: gpio_destruct_def gpio_ready_def ctrls_between_upto)

section \<open>What an operation puts on the bus\<close>

definition reg :: "u32 \<Rightarrow> u32 \<Rightarrow> u32" where
  "reg pin off = controller_bases ! unat (drop_bit 5 pin) + off"

lemma getController_ok:
  assumes "gpio_ready s" "unat pin < 128"
  shows "getController pin s = Ok \<lparr>ct_base = controller_bases ! unat (drop_bit 5 pin), ct_mapped = True\<rparr>"
proof -
  have "unat (drop_bit 5 pin) < 4" using assms(2) by (simp add: drop_bit_eq_div unat_div)
  then show ?thesis using assms(1) by (simp add: getController_def gpio_ready_def Let_def) (simp add: ctrls_upto_def)
qed

definition emit :: "bus_event list \<Rightarrow> gpio \<Rightarrow> gpio" where
  "emit es s = s\<lparr>gp_bus := gp_bus s @ es\<rparr>"

lemma emit_simps [simp]:
  "gp_bus (emit es s) = gp_bus s @ es" "gpio_ready (emit es s) = gpio_ready s"
  "emit es' (emit es s) = emit (es @ es') s" "emit [] s = s" "gp_devmem (emit es s) = gp_devmem s"
  by (simp_all add: emit_def gpio_ready_def)

lemma usleep_emit: "usleep us s = emit [Usleep us] s"
  by (simp add: usleep_def emit_def)

lemma GPIO_set_emit:
  "gpio_ready s \<Longrightarrow> unat pin < 128 \<Longrightarrow>
    GPIO_set dev pin s = (let w = Write_reg (reg pin SETDATAOUT) (getBit pin)
      in Ok (emit [w, Read_reg (reg pin DATAIN) (dev (gp_bus s @ [w]) (reg pin DATAIN))] s))"
  by (simp add: GPIO_set_def getController_ok write_reg_def read_reg_def Let_def emit_def reg_def)

lemma GPIO_clear_emit:
  "gpio_ready s \<Longrightarrow> unat pin < 128 \<Longrightarrow>
    GPIO_clear dev pin s = (let w = Write_reg (reg pin CLEARDATAOUT) (getBit pin)
      in Ok (emit [w, Read_reg (reg pin DATAIN) (dev (gp_bus s @ [w]) (reg pin DATAIN))] s))"
  by (simp add: GPIO_clear_def getController_ok write_reg_def read_reg_def Let_def emit_def reg_def)

text \<open>What a read answers: the bit of the pin in the input register.\<close>

definition pin_input :: "device \<Rightarrow> u32 \<Rightarrow> gpio \<Rightarrow> bool" where
  "pin_input dev pin s \<longleftrightarrow> dev (gp_bus s) (reg pin DATAIN) AND getBit pin \<noteq> 0"

lemma GPIO_read_emit:
  "gpio_ready s \<Longrightarrow> unat pin < 128 \<Longrightarrow>
    GPIO_read dev pin s = Ok (pin_input dev pin s, emit [Read_reg (reg pin DATAIN) (dev (gp_bus s) (reg pin DATAIN))] s)"
  by (simp add: GPIO_read_def getController_ok read_reg_def Let_def emit_def reg_def pin_input_def)

section \<open>Output levels\<close>

text \<open>The level of an output after an access, given its level before: the registers for setting and
  clearing act on the pins whose bits are written as one.\<close>

definition out_step :: "u32 \<Rightarrow> bus_event \<Rightarrow> bool \<Rightarrow> bool" where
  "out_step pin e level = (case e of
      Write_reg a v \<Rightarrow> if a = reg pin SETDATAOUT \<and> v AND getBit pin \<noteq> 0 then True
        else if a = reg pin CLEARDATAOUT \<and> v AND getBit pin \<noteq> 0 then False else level
    | Read_reg a v \<Rightarrow> level | Usleep n \<Rightarrow> level)"

definition out_level :: "u32 \<Rightarrow> bool \<Rightarrow> bus_event list \<Rightarrow> bool" where
  "out_level pin level es = fold (out_step pin) es level"

lemma out_level_simps [simp]:
  "out_level pin l [] = l" "out_level pin l (e # es) = out_level pin (out_step pin e l) es"
  "out_level pin l (xs @ ys) = out_level pin (out_level pin l xs) ys"
  by (simp_all add: out_level_def)

lemma out_step_other [simp]: "out_step pin (Read_reg a v) l = l" "out_step pin (Usleep n) l = l"
  by (simp_all add: out_step_def)

end
