(* ===== verification/Rc_Fpga.thy ===== *)
theory Rc_Fpga
  imports Rc_Gpio
begin

text \<open>
  Configuring the FPGA of the Radarcape (\<open>radarcape/fpga.c\<close>): the pins of the two boards, the reset,
  the bit-wise transfer of the configuration file over DATA0 and DCLK, the retries, and the path
  of the file. The FPGA is behind the registers of Rc\_Gpio; the contents of the file, or that it
  cannot be opened and mapped, is an argument.
\<close>

section \<open>Pins\<close>

record FPGApins =
  confd :: u32
  dclk :: u32
  nstat :: u32
  data0 :: u32
  nconf :: u32

definition fpga_pins :: "bool \<Rightarrow> FPGApins" where
  "fpga_pins bbwhite = (if bbwhite
     then \<lparr>confd = 38, dclk = 39, nstat = 34, data0 = 44, nconf = 37\<rparr>
     else \<lparr>confd = 45, dclk = 47, nstat = 46, data0 = 44, nconf = 61\<rparr>)"

definition FPGA_RETRIES :: nat where "FPGA_RETRIES = 3"
definition FPGA_TIMEOUT :: nat where "FPGA_TIMEOUT = 10"

section \<open>Operations\<close>

definition fpga_construct :: "device \<Rightarrow> bool \<Rightarrow> gpio \<Rightarrow> fault + (FPGApins \<times> gpio)" where
  "fpga_construct dev bbwhite s =
    (let p = fpga_pins bbwhite
     in bind_ok (GPIO_setDirection dev (confd p) GPIO_DIRECTION_IN s) (\<lambda>s.
        bind_ok (GPIO_setDirection dev (dclk p) GPIO_DIRECTION_OUT s) (\<lambda>s.
        bind_ok (GPIO_setDirection dev (nstat p) GPIO_DIRECTION_IN s) (\<lambda>s.
        bind_ok (GPIO_setDirection dev (data0 p) GPIO_DIRECTION_OUT s) (\<lambda>s.
        bind_ok (GPIO_setDirection dev (nconf p) GPIO_DIRECTION_OUT s) (\<lambda>s.
        bind_ok (GPIO_clear dev (dclk p) s) (\<lambda>s. Ok (p, s))))))))"

fun reset_wait :: "device \<Rightarrow> FPGApins \<Rightarrow> nat \<Rightarrow> gpio \<Rightarrow> fault + (bool \<times> gpio)" where
  "reset_wait dev p 0 s = Ok (False, s)"
| "reset_wait dev p (Suc timeout) s =
    bind_ok (GPIO_read dev (nstat p) s) (\<lambda>(st, s).
      if st then Ok (True, s) else reset_wait dev p timeout (usleep 50 s))"

definition fpga_reset :: "device \<Rightarrow> FPGApins \<Rightarrow> nat \<Rightarrow> gpio \<Rightarrow> fault + (bool \<times> gpio)" where
  "fpga_reset dev p timeout s =
    bind_ok (GPIO_clear dev (nconf p) s) (\<lambda>s.
    bind_ok (GPIO_clear dev (dclk p) (usleep 50000 s)) (\<lambda>s.
    bind_ok (GPIO_set dev (nconf p) s) (\<lambda>s. reset_wait dev p timeout s)))"

text \<open>The inner loop of \<open>transfer\<close>: \<open>n\<close> more bits of \<open>ch\<close>.\<close>

fun transfer_bits :: "device \<Rightarrow> FPGApins \<Rightarrow> nat \<Rightarrow> u8 \<Rightarrow> gpio \<Rightarrow> fault + gpio" where
  "transfer_bits dev p 0 ch s = Ok s"
| "transfer_bits dev p (Suc n) ch s =
    bind_ok (if ch AND 1 \<noteq> 0 then GPIO_set dev (data0 p) s else GPIO_clear dev (data0 p) s) (\<lambda>s.
    bind_ok (GPIO_set dev (dclk p) s) (\<lambda>s.
    bind_ok (GPIO_clear dev (dclk p) s) (\<lambda>s.
    transfer_bits dev p n (drop_bit 1 ch) s)))"

fun transfer :: "device \<Rightarrow> FPGApins \<Rightarrow> u8 list \<Rightarrow> gpio \<Rightarrow> fault + (bool \<times> gpio)" where
  "transfer dev p [] s = Ok (True, s)"
| "transfer dev p (ch # rfd) s =
    bind_ok (transfer_bits dev p 8 ch s) (\<lambda>s.
    bind_ok (GPIO_read dev (nstat p) s) (\<lambda>(st, s). if \<not> st then Ok (False, s) else transfer dev p rfd s))"

text \<open>The wait after the last byte goes on while CONF\_DONE is one.\<close>

fun spin_loop :: "device \<Rightarrow> FPGApins \<Rightarrow> nat \<Rightarrow> gpio \<Rightarrow> fault + gpio" where
  "spin_loop dev p spin s =
    bind_ok (GPIO_read dev (confd p) s) (\<lambda>(done, s).
      if \<not> done then Ok s
      else case spin of 0 \<Rightarrow> Ok s | Suc spin \<Rightarrow> spin_loop dev p spin (usleep 50 s))"

declare spin_loop.simps [simp del]

text \<open>The attempts that are left; the second result tells whether the file stays mapped.\<close>

fun program_loop :: "device \<Rightarrow> FPGApins \<Rightarrow> u8 list \<Rightarrow> nat \<Rightarrow> gpio \<Rightarrow> fault + (bool \<times> bool \<times> gpio)" where
  "program_loop dev p rfd 0 s = Ok (False, True, s)"
| "program_loop dev p rfd (Suc tries) s =
    bind_ok (fpga_reset dev p FPGA_TIMEOUT s) (\<lambda>(ok, s).
      if \<not> ok then program_loop dev p rfd tries s
      else bind_ok (transfer dev p rfd s) (\<lambda>(ok, s).
      if \<not> ok then program_loop dev p rfd tries s
      else bind_ok (spin_loop dev p FPGA_TIMEOUT s) (\<lambda>s.
           bind_ok (GPIO_read dev (confd p) s) (\<lambda>(done, s).
      if \<not> done then program_loop dev p rfd tries s else Ok (True, False, s)))))"

section \<open>The path of the file\<close>

definition fpga_PATH_MAX :: nat where "fpga_PATH_MAX = 4096"

text \<open>\<open>strncat\<close> into an array of \<open>cap\<close> bytes; strings are lists without their zero.\<close>

definition strncat :: "nat \<Rightarrow> u8 list \<Rightarrow> u8 list \<Rightarrow> size_t \<Rightarrow> fault + u8 list" where
  "strncat cap dst src n =
    (let dst' = dst @ take (unat n) src in if length dst' < cap then Ok dst' else Fault Out_of_bounds)"

text \<open>The bound given is \<open>strlen(file) - sizeof file\<close>, a \<open>size_t\<close>.\<close>

definition fpga_path :: "u8 list \<Rightarrow> bool \<Rightarrow> u8 list \<Rightarrow> fault + u8 list" where
  "fpga_path fwdir stat_ok cfgFilename =
    (if cfgFilename \<noteq> [] \<and> hd cfgFilename = 47 \<and> stat_ok then Ok cfgFilename
     else bind_ok (strncat fpga_PATH_MAX fwdir [47] (of_nat (length fwdir) - of_nat fpga_PATH_MAX)) (\<lambda>file.
       strncat fpga_PATH_MAX file cfgFilename (of_nat (length file) - of_nat fpga_PATH_MAX)))"

definition program :: "device \<Rightarrow> FPGApins \<Rightarrow> (u8 list \<Rightarrow> u8 list option) \<Rightarrow> u8 list \<Rightarrow> bool \<Rightarrow> u8 list \<Rightarrow> gpio \<Rightarrow>
    fault + (bool \<times> bool \<times> gpio)" where
  "program dev p mmap_file fwdir stat_ok cfgFilename s =
    bind_ok (fpga_path fwdir stat_ok cfgFilename) (\<lambda>file.
      case mmap_file file of
        None \<Rightarrow> Ok (False, False, s)
      | Some rfd \<Rightarrow> program_loop dev p rfd FPGA_RETRIES s)"

section \<open>What the FPGA sees\<close>

text \<open>The configuration interface of the FPGA, driven by the lines DATA0, DCLK and nCONFIG: nCONFIG low for
  at least \<open>hold\<close> microseconds and then high again is a reset, which discards the bits received so
  far; while nCONFIG is high a rising edge of DCLK shifts in the level of DATA0.\<close>

record fpga_chip =
  f_data :: bool
  f_clk :: bool
  f_nconf :: bool
  f_low :: nat
  f_bits :: "bool list"
  f_resets :: nat

definition pause :: "bus_event \<Rightarrow> nat" where
  "pause e = (case e of Usleep us \<Rightarrow> us | _ \<Rightarrow> 0)"

definition fpga_step :: "nat \<Rightarrow> FPGApins \<Rightarrow> bus_event \<Rightarrow> fpga_chip \<Rightarrow> fpga_chip" where
  "fpga_step hold p e f =
    (let d = out_step (data0 p) e (f_data f); c = out_step (dclk p) e (f_clk f); n = out_step (nconf p) e (f_nconf f);
         reset = (\<not> f_nconf f \<and> n \<and> hold \<le> f_low f)
     in \<lparr>f_data = d, f_clk = c, f_nconf = n,
         f_low = (if n then 0 else (if f_nconf f then 0 else f_low f) + pause e),
         f_bits = (if reset then [] else if n \<and> \<not> f_clk f \<and> c then f_bits f @ [d] else f_bits f),
         f_resets = f_resets f + of_bool reset\<rparr>)"

definition fpga_sees :: "nat \<Rightarrow> FPGApins \<Rightarrow> bus_event list \<Rightarrow> fpga_chip \<Rightarrow> fpga_chip" where
  "fpga_sees hold p es f = fold (fpga_step hold p) es f"

lemma fpga_sees_simps [simp]:
  "fpga_sees hold p [] f = f" "fpga_sees hold p (e # es) f = fpga_sees hold p es (fpga_step hold p e f)"
  "fpga_sees hold p (xs @ ys) f = fpga_sees hold p ys (fpga_sees hold p xs f)"
  by (simp_all add: fpga_sees_def)

text \<open>The bits of a byte, least significant one first.\<close>

definition byte_bits :: "u8 \<Rightarrow> bool list" where
  "byte_bits b = map (bit b) [0..<8]"

section \<open>The pins do not disturb each other\<close>

definition pins_of :: "FPGApins \<Rightarrow> u32 set" where
  "pins_of p = {confd p, dclk p, nstat p, data0 p, nconf p}"

definition set_event :: "u32 \<Rightarrow> bus_event" where
  "set_event pin = Write_reg (reg pin SETDATAOUT) (getBit pin)"

definition clear_event :: "u32 \<Rightarrow> bus_event" where
  "clear_event pin = Write_reg (reg pin CLEARDATAOUT) (getBit pin)"

lemma pins_small: "q \<in> pins_of (fpga_pins w) \<Longrightarrow> unat q < 128"
  by (cases w) (auto simp: pins_of_def fpga_pins_def)

lemma pin_bits: "q \<in> pins_of (fpga_pins w) \<Longrightarrow> g \<in> pins_of (fpga_pins w) \<Longrightarrow> getBit g AND getBit q \<noteq> 0 \<longleftrightarrow> q = g"
  by (cases w) (auto simp: pins_of_def fpga_pins_def getBit_def)

lemma pin_regs: "q \<in> pins_of (fpga_pins w) \<Longrightarrow> reg q off = 0x4804c000 + off"
  by (cases w) (auto simp: pins_of_def fpga_pins_def reg_def controller_bases_def)

lemma out_step_pins:
  assumes "q \<in> pins_of (fpga_pins w)" "g \<in> pins_of (fpga_pins w)"
  shows "out_step q (set_event g) l \<longleftrightarrow> q = g \<or> l" "out_step q (clear_event g) l \<longleftrightarrow> q \<noteq> g \<and> l"
  using pin_bits [OF assms] pin_regs [OF assms(1)] pin_regs [OF assms(2)]
  by (auto simp: out_step_def register_defs set_event_def clear_event_def)

section \<open>Effects on bus and levels\<close>

lemma pause_simps [simp]:
  "pause (Usleep us) = us" "pause (Read_reg a v) = 0" "pause (set_event g) = 0" "pause (clear_event g) = 0"
  by (simp_all add: pause_def set_event_def clear_event_def)

lemma members [simp]:
  "confd (fpga_pins w) \<in> pins_of (fpga_pins w)" "dclk (fpga_pins w) \<in> pins_of (fpga_pins w)"
  "nstat (fpga_pins w) \<in> pins_of (fpga_pins w)" "data0 (fpga_pins w) \<in> pins_of (fpga_pins w)"
  "nconf (fpga_pins w) \<in> pins_of (fpga_pins w)"
  by (simp_all add: pins_of_def)

lemma pins_differ [simp]:
  "data0 (fpga_pins w) \<noteq> dclk (fpga_pins w)" "dclk (fpga_pins w) \<noteq> data0 (fpga_pins w)"
  "data0 (fpga_pins w) \<noteq> nconf (fpga_pins w)" "nconf (fpga_pins w) \<noteq> data0 (fpga_pins w)"
  "dclk (fpga_pins w) \<noteq> nconf (fpga_pins w)" "nconf (fpga_pins w) \<noteq> dclk (fpga_pins w)"
  by (simp_all add: fpga_pins_def)

text \<open>The effects on the three lines of the FPGA.\<close>

lemmas line_steps =
  out_step_pins [where w = w, OF members(2) members(2)] out_step_pins [where w = w, OF members(2) members(4)]
  out_step_pins [where w = w, OF members(2) members(5)] out_step_pins [where w = w, OF members(4) members(2)]
  out_step_pins [where w = w, OF members(4) members(4)] out_step_pins [where w = w, OF members(4) members(5)]
  out_step_pins [where w = w, OF members(5) members(2)] out_step_pins [where w = w, OF members(5) members(4)]
  out_step_pins [where w = w, OF members(5) members(5)]
  for w

lemma set_pin:
  assumes "gpio_ready s" "g \<in> pins_of (fpga_pins w)"
  obtains v where "GPIO_set dev g s = Ok (emit [set_event g, Read_reg (reg g DATAIN) v] s)"
  using GPIO_set_emit [OF assms(1) pins_small [OF assms(2)], of dev] by (simp add: Let_def set_event_def)

lemma clear_pin:
  assumes "gpio_ready s" "g \<in> pins_of (fpga_pins w)"
  obtains v where "GPIO_clear dev g s = Ok (emit [clear_event g, Read_reg (reg g DATAIN) v] s)"
  using GPIO_clear_emit [OF assms(1) pins_small [OF assms(2)], of dev] by (simp add: Let_def clear_event_def)

lemma read_pin:
  assumes "gpio_ready s" "g \<in> pins_of (fpga_pins w)"
  shows "GPIO_read dev g s = Ok (pin_input dev g s, emit [Read_reg (reg g DATAIN) (dev (gp_bus s) (reg g DATAIN))] s)"
  using GPIO_read_emit [OF assms(1) pins_small [OF assms(2)]] .

text \<open>A piece of the bus that shifts in \<open>bits\<close>, with DCLK low and nCONFIG high before and after it.\<close>

definition shifts :: "FPGApins \<Rightarrow> bool list \<Rightarrow> bus_event list \<Rightarrow> bool" where
  "shifts p bits es \<longleftrightarrow> (\<forall>hold f. \<not> f_clk f \<longrightarrow> f_nconf f \<longrightarrow>
     f_bits (fpga_sees hold p es f) = f_bits f @ bits \<and> f_resets (fpga_sees hold p es f) = f_resets f
     \<and> \<not> f_clk (fpga_sees hold p es f) \<and> f_nconf (fpga_sees hold p es f))"

lemma shifts_append: "shifts p xs es \<Longrightarrow> shifts p ys fs \<Longrightarrow> shifts p (xs @ ys) (es @ fs)"
  by (simp add: shifts_def)

lemma shifts_Nil: "shifts p [] []"
  by (simp add: shifts_def)

lemma shifts_quiet: "shifts p [] [Read_reg a v]" "shifts p [] [Usleep n]"
  by (simp_all add: shifts_def fpga_step_def Let_def)

lemma transfer_bits_shifts:
  assumes "gpio_ready s"
  shows "\<exists>es. transfer_bits dev (fpga_pins w) n ch s = Ok (emit es s) \<and> shifts (fpga_pins w) (map (bit ch) [0..<n]) es"
  using assms
proof (induction n arbitrary: ch s)
  case 0
  then show ?case by (intro exI [of _ "[]"]) (simp add: shifts_Nil)
next
  case (Suc n)
  let ?p = "fpga_pins w"
  let ?e = "if bit ch 0 then set_event (data0 ?p) else clear_event (data0 ?p)"
  have b: "ch AND 1 \<noteq> 0 \<longleftrightarrow> bit ch 0" by (simp add: and_one_eq bit_0 odd_iff_mod_2_eq_one)
  obtain v1 where 1: "(if ch AND 1 \<noteq> 0 then GPIO_set dev (data0 ?p) s else GPIO_clear dev (data0 ?p) s)
      = Ok (emit [?e, Read_reg (reg (data0 ?p) DATAIN) v1] s)"
  proof (cases "bit ch 0")
    case True
    then show thesis using that set_pin [OF Suc.prems members(4), of dev] b by auto
  next
    case False
    then show thesis using that clear_pin [OF Suc.prems members(4), of dev] b by auto
  qed
  define s1 where "s1 = emit [?e, Read_reg (reg (data0 ?p) DATAIN) v1] s"
  have r1: "gpio_ready s1" using Suc.prems by (simp add: s1_def)
  obtain v2 where 2: "GPIO_set dev (dclk ?p) s1 = Ok (emit [set_event (dclk ?p), Read_reg (reg (dclk ?p) DATAIN) v2] s1)"
    by (rule set_pin [OF r1 members(2)])
  define s2 where "s2 = emit [set_event (dclk ?p), Read_reg (reg (dclk ?p) DATAIN) v2] s1"
  have r2: "gpio_ready s2" using r1 by (simp add: s2_def)
  obtain v3 where 3: "GPIO_clear dev (dclk ?p) s2 = Ok (emit [clear_event (dclk ?p), Read_reg (reg (dclk ?p) DATAIN) v3] s2)"
    by (rule clear_pin [OF r2 members(2)])
  define s3 where "s3 = emit [clear_event (dclk ?p), Read_reg (reg (dclk ?p) DATAIN) v3] s2"
  have r3: "gpio_ready s3" using r2 by (simp add: s3_def)
  obtain es where es: "transfer_bits dev ?p n (drop_bit 1 ch) s3 = Ok (emit es s3)"
    "shifts ?p (map (bit (drop_bit 1 ch)) [0..<n]) es" using Suc.IH [OF r3] by blast
  let ?es = "[?e, Read_reg (reg (data0 ?p) DATAIN) v1, set_event (dclk ?p), Read_reg (reg (dclk ?p) DATAIN) v2,
      clear_event (dclk ?p), Read_reg (reg (dclk ?p) DATAIN) v3]"
  have "shifts ?p [bit ch 0] ?es"
    by (simp add: shifts_def fpga_step_def line_steps Let_def)
  then have "shifts ?p ([bit ch 0] @ map (bit (drop_bit 1 ch)) [0..<n]) (?es @ es)" using es(2) by (rule shifts_append)
  moreover have "[bit ch 0] @ map (bit (drop_bit 1 ch)) [0..<n] = map (bit ch) [0..<Suc n]"
    by (simp add: map_upt_Suc bit_drop_bit_eq del: upt_Suc)
  moreover have "transfer_bits dev ?p (Suc n) ch s = Ok (emit (?es @ es) s)"
    using 1 2 3 es(1) by (simp add: s1_def s2_def s3_def)
  ultimately show ?case by (intro exI [of _ "?es @ es"]) simp
qed

text \<open>After any byte the FPGA may report an error; then that byte is the last one.\<close>

lemma transfer_shifts:
  assumes "gpio_ready s"
  shows "\<exists>ok es k. transfer dev (fpga_pins w) rfd s = Ok (ok, emit es s) \<and> k \<le> length rfd
    \<and> shifts (fpga_pins w) (concat (map byte_bits (take k rfd))) es \<and> (ok \<longrightarrow> k = length rfd) \<and> (\<not> ok \<longrightarrow> 0 < k)"
  using assms
proof (induction rfd arbitrary: s)
  case Nil
  then show ?case by (intro exI [of _ True] exI [of _ "[]"] exI [of _ 0]) (simp add: shifts_Nil)
next
  case (Cons ch rfd)
  let ?p = "fpga_pins w"
  obtain es where es: "transfer_bits dev ?p 8 ch s = Ok (emit es s)" "shifts ?p (byte_bits ch) es"
    using transfer_bits_shifts [OF Cons.prems] unfolding byte_bits_def by blast
  define v where "v = dev (gp_bus (emit es s)) (reg (nstat ?p) DATAIN)"
  define s1 where "s1 = emit [Read_reg (reg (nstat ?p) DATAIN) v] (emit es s)"
  have r: "gpio_ready (emit es s)" "gpio_ready s1" using Cons.prems by (simp_all add: s1_def)
  have rd: "GPIO_read dev (nstat ?p) (emit es s) = Ok (pin_input dev (nstat ?p) (emit es s), s1)"
    unfolding s1_def v_def by (rule read_pin [OF r(1) members(3)])
  have sh: "shifts ?p (byte_bits ch) (es @ [Read_reg (reg (nstat ?p) DATAIN) v])"
    using shifts_append [OF es(2) shifts_quiet(1)] by simp
  show ?case
  proof (cases "pin_input dev (nstat ?p) (emit es s)")
    case False
    then have "transfer dev ?p (ch # rfd) s = Ok (False, s1)" using es(1) rd by simp
    then show ?thesis
      using sh by (intro exI [of _ False] exI [of _ "es @ [Read_reg (reg (nstat ?p) DATAIN) v]"] exI [of _ 1]) (simp add: s1_def)
  next
    case True
    obtain ok fs k where fs: "transfer dev ?p rfd s1 = Ok (ok, emit fs s1)" "k \<le> length rfd"
      "shifts ?p (concat (map byte_bits (take k rfd))) fs" "ok \<longrightarrow> k = length rfd" "\<not> ok \<longrightarrow> 0 < k"
      using Cons.IH [OF r(2)] by blast
    have "transfer dev ?p (ch # rfd) s = Ok (ok, emit fs s1)" using es(1) rd True fs(1) by simp
    moreover have "shifts ?p (concat (map byte_bits (take (Suc k) (ch # rfd)))) ((es @ [Read_reg (reg (nstat ?p) DATAIN) v]) @ fs)"
      using shifts_append [OF sh fs(3)] by simp
    ultimately show ?thesis
      using fs(2,4) by (intro exI [of _ ok] exI [of _ "(es @ [Read_reg (reg (nstat ?p) DATAIN) v]) @ fs"] exI [of _ "Suc k"])
        (simp add: s1_def)
  qed
qed

lemma reset_wait_quiet:
  assumes "gpio_ready s"
  shows "\<exists>ok es. reset_wait dev (fpga_pins w) n s = Ok (ok, emit es s) \<and> shifts (fpga_pins w) [] es
    \<and> (n \<noteq> 0 \<and> pin_input dev (nstat (fpga_pins w)) s \<longrightarrow> ok)"
  using assms
proof (induction n arbitrary: s)
  case 0
  then show ?case by (intro exI [of _ False] exI [of _ "[]"]) (simp add: shifts_Nil)
next
  case (Suc n)
  let ?p = "fpga_pins w"
  let ?r = "Read_reg (reg (nstat ?p) DATAIN) (dev (gp_bus s) (reg (nstat ?p) DATAIN))"
  note rd = read_pin [OF Suc.prems members(3), of dev]
  have r1: "gpio_ready (usleep 50 (emit [?r] s))" using Suc.prems by (simp add: usleep_emit)
  obtain ok es where es: "reset_wait dev ?p n (usleep 50 (emit [?r] s)) = Ok (ok, emit es (usleep 50 (emit [?r] s)))"
    "shifts ?p [] es" using Suc.IH [OF r1] by metis
  show ?case
  proof (cases "pin_input dev (nstat ?p) s")
    case True
    then show ?thesis using rd shifts_quiet(1) by (intro exI [of _ True] exI [of _ "[?r]"]) simp
  next
    case False
    have "shifts ?p ([] @ [] @ []) ([?r] @ [Usleep 50] @ es)"
      by (intro shifts_append shifts_quiet es(2))
    then show ?thesis using rd False es(1)
      by (intro exI [of _ ok] exI [of _ "[?r, Usleep 50] @ es"]) (simp add: usleep_emit)
  qed
qed

text \<open>A reset holds nCONFIG low for 50 ms, whatever the lines were, and leaves DCLK low.\<close>

definition resets :: "FPGApins \<Rightarrow> bus_event list \<Rightarrow> bool" where
  "resets p es \<longleftrightarrow> (\<forall>hold f. hold \<le> 50000 \<longrightarrow>
     f_bits (fpga_sees hold p es f) = [] \<and> f_resets (fpga_sees hold p es f) = Suc (f_resets f)
     \<and> \<not> f_clk (fpga_sees hold p es f) \<and> f_nconf (fpga_sees hold p es f))"

definition resets_times :: "FPGApins \<Rightarrow> nat \<Rightarrow> bus_event list \<Rightarrow> bool" where
  "resets_times p k es \<longleftrightarrow> (\<forall>hold f. hold \<le> 50000 \<longrightarrow> f_resets (fpga_sees hold p es f) = f_resets f + k)"

lemma resets_times_append: "resets_times p j es \<Longrightarrow> resets_times p k fs \<Longrightarrow> resets_times p (j + k) (es @ fs)"
  by (simp add: resets_times_def)

lemma resets_shifts:
  "resets p es \<Longrightarrow> shifts p bits fs \<Longrightarrow>
    (\<forall>hold f. hold \<le> 50000 \<longrightarrow> f_bits (fpga_sees hold p (es @ fs) f) = bits) \<and> resets_times p 1 (es @ fs)"
  by (simp add: resets_def shifts_def resets_times_def)

lemma fpga_reset_resets:
  assumes "gpio_ready s"
  shows "\<exists>ok es. fpga_reset dev (fpga_pins w) n s = Ok (ok, emit es s) \<and> resets (fpga_pins w) es
    \<and> (n \<noteq> 0 \<and> (\<forall>t. pin_input dev (nstat (fpga_pins w)) t) \<longrightarrow> ok)"
proof -
  let ?p = "fpga_pins w"
  obtain v1 where 1: "GPIO_clear dev (nconf ?p) s = Ok (emit [clear_event (nconf ?p), Read_reg (reg (nconf ?p) DATAIN) v1] s)"
    by (rule clear_pin [OF assms members(5)])
  define s1 where "s1 = emit [clear_event (nconf ?p), Read_reg (reg (nconf ?p) DATAIN) v1, Usleep 50000] s"
  have r1: "gpio_ready s1" using assms by (simp add: s1_def)
  obtain v2 where 2: "GPIO_clear dev (dclk ?p) s1 = Ok (emit [clear_event (dclk ?p), Read_reg (reg (dclk ?p) DATAIN) v2] s1)"
    by (rule clear_pin [OF r1 members(2)])
  define s2 where "s2 = emit [clear_event (dclk ?p), Read_reg (reg (dclk ?p) DATAIN) v2] s1"
  have r2: "gpio_ready s2" using r1 by (simp add: s2_def)
  obtain v3 where 3: "GPIO_set dev (nconf ?p) s2 = Ok (emit [set_event (nconf ?p), Read_reg (reg (nconf ?p) DATAIN) v3] s2)"
    by (rule set_pin [OF r2 members(5)])
  define s3 where "s3 = emit [set_event (nconf ?p), Read_reg (reg (nconf ?p) DATAIN) v3] s2"
  have r3: "gpio_ready s3" using r2 by (simp add: s3_def)
  obtain ok es where es: "reset_wait dev ?p n s3 = Ok (ok, emit es s3)" "shifts ?p [] es"
    "n \<noteq> 0 \<and> pin_input dev (nstat ?p) s3 \<longrightarrow> ok"
    using reset_wait_quiet [OF r3] by metis
  let ?es = "[clear_event (nconf ?p), Read_reg (reg (nconf ?p) DATAIN) v1, Usleep 50000, clear_event (dclk ?p),
    Read_reg (reg (dclk ?p) DATAIN) v2, set_event (nconf ?p), Read_reg (reg (nconf ?p) DATAIN) v3]"
  have "resets ?p (?es @ es)"
    using es(2) by (simp add: resets_def shifts_def fpga_step_def line_steps Let_def)
  moreover have "fpga_reset dev ?p n s = Ok (ok, emit (?es @ es) s)"
    using 1 2 3 es(1) by (simp add: fpga_reset_def s1_def s2_def s3_def usleep_emit)
  ultimately show ?thesis using es(3) by blast
qed

lemma spin_loop_quiet:
  assumes "gpio_ready s"
  shows "\<exists>es. spin_loop dev (fpga_pins w) n s = Ok (emit es s) \<and> shifts (fpga_pins w) [] es"
  using assms
proof (induction n arbitrary: s)
  case 0
  then show ?case
    using read_pin [OF 0 members(1), of dev] shifts_quiet(1)
    by (intro exI [of _ "[Read_reg (reg (confd (fpga_pins w)) DATAIN) (dev (gp_bus s) (reg (confd (fpga_pins w)) DATAIN))]"])
      (simp add: spin_loop.simps)
next
  case (Suc n)
  let ?p = "fpga_pins w"
  let ?r = "Read_reg (reg (confd ?p) DATAIN) (dev (gp_bus s) (reg (confd ?p) DATAIN))"
  note rd = read_pin [OF Suc.prems members(1), of dev]
  have r1: "gpio_ready (usleep 50 (emit [?r] s))" using Suc.prems by (simp add: usleep_emit)
  obtain es where es: "spin_loop dev ?p n (usleep 50 (emit [?r] s)) = Ok (emit es (usleep 50 (emit [?r] s)))" "shifts ?p [] es"
    using Suc.IH [OF r1] by blast
  show ?case
  proof (cases "pin_input dev (confd ?p) s")
    case False
    then show ?thesis using rd shifts_quiet(1) by (intro exI [of _ "[?r]"]) (simp add: spin_loop.simps)
  next
    case True
    have "shifts ?p ([] @ [] @ []) ([?r] @ [Usleep 50] @ es)"
      by (intro shifts_append shifts_quiet es(2))
    then show ?thesis using rd True es(1)
      by (intro exI [of _ "[?r, Usleep 50] @ es"]) (simp add: spin_loop.simps [of dev ?p "Suc n"] usleep_emit)
  qed
qed

section \<open>Programming\<close>

text \<open>One reset followed by the whole file, after which the FPGA reports that it is configured.\<close>

definition configures :: "FPGApins \<Rightarrow> u8 list \<Rightarrow> bus_event list \<Rightarrow> bool" where
  "configures p rfd es \<longleftrightarrow> (\<exists>es' v. es = es' @ [Read_reg (reg (confd p) DATAIN) v] \<and> v AND getBit (confd p) \<noteq> 0
     \<and> (\<forall>hold f. hold \<le> 50000 \<longrightarrow> f_bits (fpga_sees hold p es' f) = concat (map byte_bits rfd)))"

lemma configures_later: "configures p rfd es \<Longrightarrow> configures p rfd (es0 @ es)"
  unfolding configures_def by (metis append_assoc fpga_sees_simps(3))

lemma resets_once: "resets p es \<Longrightarrow> resets_times p 1 es"
  by (simp add: resets_def resets_times_def)

lemma program_attempt:
  assumes "gpio_ready s" "fpga_reset dev (fpga_pins w) FPGA_TIMEOUT s = Ok (True, emit es1 s)" "resets (fpga_pins w) es1"
    and "transfer dev (fpga_pins w) rfd (emit es1 s) = Ok (True, emit es2 (emit es1 s))"
    and "shifts (fpga_pins w) (concat (map byte_bits rfd)) es2"
  obtains es where "program_loop dev (fpga_pins w) rfd (Suc n) s = program_loop dev (fpga_pins w) rfd n (emit es s)"
    "resets_times (fpga_pins w) 1 es"
  | es where "program_loop dev (fpga_pins w) rfd (Suc n) s = Ok (True, False, emit es s)" "resets_times (fpga_pins w) 1 es"
    "configures (fpga_pins w) rfd es"
proof -
  let ?p = "fpga_pins w"
  define s2 where "s2 = emit es2 (emit es1 s)"
  have r2: "gpio_ready s2" using assms(1) by (simp add: s2_def)
  obtain es3 where es3: "spin_loop dev ?p FPGA_TIMEOUT s2 = Ok (emit es3 s2)" "shifts ?p [] es3"
    using spin_loop_quiet [OF r2] by blast
  define v where "v = dev (gp_bus (emit es3 s2)) (reg (confd ?p) DATAIN)"
  let ?rd = "Read_reg (reg (confd ?p) DATAIN) v"
  have r3: "gpio_ready (emit es3 s2)" using r2 by simp
  have rd: "GPIO_read dev (confd ?p) (emit es3 s2) = Ok (v AND getBit (confd ?p) \<noteq> 0, emit [?rd] (emit es3 s2))"
    using read_pin [OF r3 members(1), of dev] by (simp add: v_def pin_input_def)
  let ?es = "es1 @ es2 @ es3"
  have all: "\<forall>hold f. hold \<le> 50000 \<longrightarrow> f_bits (fpga_sees hold ?p ?es f) = concat (map byte_bits rfd)"
    using resets_shifts [OF assms(3) shifts_append [OF assms(5) es3(2)]] by simp
  have one: "resets_times ?p 1 (?es @ [?rd])"
    using resets_shifts [OF assms(3) shifts_append [OF assms(5) shifts_append [OF es3(2) shifts_quiet(1)]]] by simp
  have loop: "program_loop dev ?p rfd (Suc n) s = (if v AND getBit (confd ?p) \<noteq> 0
      then Ok (True, False, emit (?es @ [?rd]) s) else program_loop dev ?p rfd n (emit (?es @ [?rd]) s))"
    using assms(2,4) es3(1) rd by (simp add: s2_def)
  show thesis
  proof (cases "v AND getBit (confd ?p) \<noteq> 0")
    case True
    then have "configures ?p rfd (?es @ [?rd])" unfolding configures_def using all by blast
    then show thesis using that(2) [OF _ one] loop True by simp
  next
    case False
    then show thesis using that(1) [OF _ one] loop by simp
  qed
qed

lemma program_loop_result:
  assumes "gpio_ready s"
  shows "\<exists>ok es k. program_loop dev (fpga_pins w) rfd n s = Ok (ok, \<not> ok, emit es s) \<and> resets_times (fpga_pins w) k es
    \<and> k \<le> n \<and> (ok \<longrightarrow> 0 < k) \<and> (\<not> ok \<longrightarrow> k = n) \<and> (ok \<longrightarrow> configures (fpga_pins w) rfd es)"
  using assms
proof (induction n arbitrary: s)
  case 0
  then show ?case by (intro exI [of _ False] exI [of _ "[]"] exI [of _ 0]) (simp add: resets_times_def)
next
  case (Suc n)
  let ?p = "fpga_pins w"
  have again: ?case if a: "program_loop dev ?p rfd (Suc n) s = program_loop dev ?p rfd n (emit es s)" "resets_times ?p 1 es" for es
  proof -
    obtain ok fs k where fs: "program_loop dev ?p rfd n (emit es s) = Ok (ok, \<not> ok, emit fs (emit es s))" "resets_times ?p k fs"
      "k \<le> n" "\<not> ok \<longrightarrow> k = n" "ok \<longrightarrow> configures ?p rfd fs"
      using Suc.IH [of "emit es s"] Suc.prems by auto
    then show ?thesis
      using a resets_times_append [OF a(2) fs(2)] configures_later [of ?p rfd fs es]
      by (intro exI [of _ ok] exI [of _ "es @ fs"] exI [of _ "1 + k"]) (auto simp del: program_loop.simps)
  qed
  obtain ok es1 where es1: "fpga_reset dev ?p FPGA_TIMEOUT s = Ok (ok, emit es1 s)" "resets ?p es1"
    using fpga_reset_resets [OF Suc.prems] by metis
  show ?case
  proof (cases ok)
    case False
    then show ?thesis using again [of es1] es1(1) resets_once [OF es1(2)] by simp
  next
    case True
    have r1: "gpio_ready (emit es1 s)" using Suc.prems by simp
    obtain ok2 es2 k where es2: "transfer dev ?p rfd (emit es1 s) = Ok (ok2, emit es2 (emit es1 s))"
      "shifts ?p (concat (map byte_bits (take k rfd))) es2" "ok2 \<longrightarrow> k = length rfd"
      using transfer_shifts [OF r1] by blast
    show ?thesis
    proof (cases ok2)
      case False
      then have "program_loop dev ?p rfd (Suc n) s = program_loop dev ?p rfd n (emit (es1 @ es2) s)"
        using es1(1) es2(1) True by simp
      then show ?thesis using again [of "es1 @ es2"] resets_shifts [OF es1(2) es2(2)] by simp
    next
      case ok2: True
      then have all: "shifts ?p (concat (map byte_bits rfd)) es2" using es2(2,3) by simp
      show ?thesis
      proof (rule program_attempt [OF Suc.prems es1(1) [unfolded eqTrueI [OF True]] es1(2) es2(1) [unfolded eqTrueI [OF ok2]] all, of n])
        fix es assume "program_loop dev ?p rfd (Suc n) s = program_loop dev ?p rfd n (emit es s)" "resets_times ?p 1 es"
        then show ?thesis by (rule again)
      next
        fix es assume "program_loop dev ?p rfd (Suc n) s = Ok (True, False, emit es s)" "resets_times ?p 1 es" "configures ?p rfd es"
        then show ?thesis by (intro exI [of _ True] exI [of _ es] exI [of _ 1]) auto
      qed
    qed
  qed
qed

section \<open>The path\<close>

lemma strncat_unbounded:
  assumes "length dst < cap" "cap \<le> 2 ^ 32" "length src < 2 ^ 32"
  shows "strncat cap dst src (of_nat (length dst) - of_nat cap)
    = (if length dst + length src < cap then Ok (dst @ src) else Fault Out_of_bounds)"
proof -
  have "unat (of_nat (length dst) - of_nat cap :: u64) = 2 ^ 64 - (cap - length dst)"
  proof -
    have "(of_nat (length dst) - of_nat cap :: u64) = - of_nat (cap - length dst)" using assms(1) by (simp add: of_nat_diff)
    moreover have "unat (of_nat (cap - length dst) :: u64) = cap - length dst" using assms(2) by (intro unat_of_nat_small) simp
    moreover have "(of_nat (2 ^ 64 - (cap - length dst)) :: u64) = - of_nat (cap - length dst)"
      using assms(2) by (subst of_nat_diff) simp_all
    moreover have "unat (of_nat (2 ^ 64 - (cap - length dst)) :: u64) = 2 ^ 64 - (cap - length dst)"
      using assms(1) by (intro unat_of_nat_small) simp
    ultimately show ?thesis by simp
  qed
  then have "take (unat (of_nat (length dst) - of_nat cap :: u64)) src = src" using assms by simp
  then show ?thesis by (simp add: strncat_def)
qed

lemma fpga_path_result:
  assumes "length fwdir < fpga_PATH_MAX" "length name < fpga_PATH_MAX"
  shows "fpga_path fwdir stat_ok name =
    (if name \<noteq> [] \<and> hd name = 47 \<and> stat_ok then Ok name
     else if length fwdir + 1 + length name < fpga_PATH_MAX then Ok (fwdir @ [47] @ name) else Fault Out_of_bounds)"
proof -
  have c: "fpga_PATH_MAX \<le> 2 ^ 32" "length [47 :: u8] < 2 ^ 32" "length name < 2 ^ 32"
    using assms(2) by (simp_all add: fpga_PATH_MAX_def)
  note 1 = strncat_unbounded [OF assms(1) c(1,2)]
  show ?thesis
  proof (cases "length fwdir + 1 < fpga_PATH_MAX")
    case True
    then have 2: "length (fwdir @ [47]) < fpga_PATH_MAX" by simp
    show ?thesis using True strncat_unbounded [OF 2 c(1,3)] by (simp add: fpga_path_def 1)
  next
    case False
    then show ?thesis by (simp add: fpga_path_def 1)
  qed
qed

section \<open>Properties\<close>

text \<open>C23: once the GPIO controllers are mapped and the file is, programming the FPGA resets it at most
  three times, whatever the hardware answers and whatever state it was in, and ends without a
  fault. A reset is nCONFIG held low for 50 ms, enough for every FPGA that needs \<open>hold\<close> microseconds
  of at most that. It succeeds only when CONF\_DONE reads as one after the FPGA has shifted in, since
  its last reset, exactly the bits of the file, least significant ones first; it fails only after
  three resets, and then the file stays mapped.\<close>

theorem fpga_programmed_completely:
  assumes "gpio_ready s" "fpga_path fwdir stat_ok name = Ok path" "mmap_file path = Some rfd"
    and p: "p = fpga_pins w" and hold: "hold \<le> 50000"
  shows "\<exists>ok es k. program dev p mmap_file fwdir stat_ok name s = Ok (ok, \<not> ok, emit es s)
    \<and> k \<le> 3 \<and> (ok \<longrightarrow> 0 < k) \<and> (\<not> ok \<longrightarrow> k = 3) \<and> (\<forall>f. f_resets (fpga_sees hold p es f) = f_resets f + k)
    \<and> (ok \<longrightarrow> (\<exists>es' v. es = es' @ [Read_reg (reg (confd p) DATAIN) v] \<and> v AND getBit (confd p) \<noteq> 0
         \<and> (\<forall>f. f_bits (fpga_sees hold p es' f) = concat (map byte_bits rfd))))"
proof -
  have prog: "program dev p mmap_file fwdir stat_ok name s = program_loop dev p rfd FPGA_RETRIES s"
    using assms(2,3) by (simp add: program_def)
  obtain ok es k where es: "program_loop dev p rfd FPGA_RETRIES s = Ok (ok, \<not> ok, emit es s)" "resets_times p k es"
    "k \<le> FPGA_RETRIES" "ok \<longrightarrow> 0 < k" "\<not> ok \<longrightarrow> k = FPGA_RETRIES" "ok \<longrightarrow> configures p rfd es"
    using program_loop_result [OF assms(1), of dev w rfd FPGA_RETRIES, folded p] by metis
  have last: "\<exists>es' v. es = es' @ [Read_reg (reg (confd p) DATAIN) v] \<and> v AND getBit (confd p) \<noteq> 0
      \<and> (\<forall>f. f_bits (fpga_sees hold p es' f) = concat (map byte_bits rfd))" if ok
    using es(6) that hold unfolding configures_def by blast
  show ?thesis
    using prog es(1-5) last hold
    by (intro exI [of _ ok] exI [of _ es] exI [of _ k]) (simp add: resets_times_def FPGA_RETRIES_def)
qed

text \<open>A board whose inputs all read as one accepts the file in the first attempt.\<close>

definition sample_gpio :: gpio where
  "sample_gpio = gpio_bss\<lparr>gp_ctrls := ctrls_upto 4\<rparr>"

definition ones :: device where "ones es a = - 1"

lemma ones_input: "g \<in> pins_of (fpga_pins w) \<Longrightarrow> pin_input ones g s"
  using pin_bits [of g w g] by (auto simp: pin_input_def ones_def)

lemma ones_transfer:
  "gpio_ready s \<Longrightarrow> \<exists>es. transfer ones (fpga_pins w) rfd s = Ok (True, emit es s)"
proof (induction rfd arbitrary: s)
  case Nil
  then show ?case by (intro exI [of _ "[]"]) simp
next
  case (Cons ch rfd)
  obtain es where es: "transfer_bits ones (fpga_pins w) 8 ch s = Ok (emit es s)"
    using transfer_bits_shifts [OF Cons.prems] by blast
  have r: "gpio_ready (emit es s)" using Cons.prems by simp
  note rd = read_pin [OF r members(3), of ones, unfolded eqTrueI [OF ones_input [OF members(3)]]]
  show ?case using es rd Cons.IH [of "emit _ (emit es s)"] r by force
qed

lemma ones_program:
  assumes "gpio_ready s"
  shows "\<exists>es. program_loop ones (fpga_pins w) rfd (Suc n) s = Ok (True, False, emit es s)"
proof -
  let ?p = "fpga_pins w"
  have "FPGA_TIMEOUT \<noteq> 0 \<and> (\<forall>t. pin_input ones (nstat ?p) t)" using ones_input [OF members(3)] by (simp add: FPGA_TIMEOUT_def)
  then obtain es1 where 1: "fpga_reset ones ?p FPGA_TIMEOUT s = Ok (True, emit es1 s)"
    using fpga_reset_resets [OF assms, of ones w FPGA_TIMEOUT] by metis
  have r1: "gpio_ready (emit es1 s)" using assms by simp
  obtain es2 where 2: "transfer ones ?p rfd (emit es1 s) = Ok (True, emit es2 (emit es1 s))"
    using ones_transfer [OF r1] by blast
  have r2: "gpio_ready (emit es2 (emit es1 s))" using assms by simp
  obtain es3 where 3: "spin_loop ones ?p FPGA_TIMEOUT (emit es2 (emit es1 s)) = Ok (emit es3 (emit es2 (emit es1 s)))"
    using spin_loop_quiet [OF r2] by blast
  have r3: "gpio_ready (emit es3 (emit es2 (emit es1 s)))" using assms by simp
  note rd = read_pin [OF r3 members(1), of ones, unfolded eqTrueI [OF ones_input [OF members(1)]]]
  show ?thesis
    using 1 2 3 rd by (intro exI [of _ "es1 @ es2 @ es3 @ [_]"]) simp
qed

theorem fpga_programmed_completely_witness:
  "\<exists>es v. program ones (fpga_pins False) (\<lambda>f. if f = [46, 47, 120] then Some [0x5a] else None) [46] False [120] sample_gpio
      = Ok (True, False, emit (es @ [Read_reg (reg 45 DATAIN) v]) sample_gpio)
    \<and> f_bits (fpga_sees 500 (fpga_pins False) es
        \<lparr>f_data = True, f_clk = True, f_nconf = False, f_low = 7, f_bits = [True, True], f_resets = 4\<rparr>)
      = [False, True, False, True, True, False, True, False]"
proof -
  let ?m = "\<lambda>f. if f = [46, 47, 120] then Some [0x5a] else None :: u8 list option"
  have r: "gpio_ready sample_gpio" by (simp add: sample_gpio_def gpio_ready_def)
  have path: "fpga_path [46] False [120] = Ok [46, 47, 120]" by (subst fpga_path_result) (simp_all add: fpga_PATH_MAX_def)
  have c: "confd (fpga_pins False) = 45" by (simp add: fpga_pins_def)
  have rfd: "?m [46, 47, 120] = Some [0x5a]" by simp
  have h: "(500 :: nat) \<le> 50000" by simp
  obtain ok es where es: "program ones (fpga_pins False) ?m [46] False [120] sample_gpio = Ok (ok, \<not> ok, emit es sample_gpio)"
    "ok \<longrightarrow> (\<exists>es' v. es = es' @ [Read_reg (reg (confd (fpga_pins False)) DATAIN) v]
       \<and> (\<forall>f. f_bits (fpga_sees 500 (fpga_pins False) es' f) = concat (map byte_bits [0x5a])))"
    using fpga_programmed_completely [where mmap_file = ?m and w = False and dev = ones, OF r path rfd refl h] by metis
  obtain t where "program_loop ones (fpga_pins False) [0x5a] (Suc 2) sample_gpio = Ok (True, False, emit t sample_gpio)"
    using ones_program [OF r] by blast
  then have ok using es(1) path by (simp add: program_def FPGA_RETRIES_def numeral_3_eq_3 numeral_2_eq_2 del: program_loop.simps)
  then obtain es' v where es': "es = es' @ [Read_reg (reg (confd (fpga_pins False)) DATAIN) v]"
    "\<forall>f. f_bits (fpga_sees 500 (fpga_pins False) es' f) = concat (map byte_bits [0x5a])" using es(2) by blast
  have bits: "concat (map byte_bits [0x5a]) = [False, True, False, True, True, False, True, False]"
    by (simp add: byte_bits_def upt_rec)
  show ?thesis using es(1) es' \<open>ok\<close> unfolding c bits by (intro exI [of _ es'] exI [of _ v]) simp
qed

text \<open>The bound given to \<open>strncat\<close> wraps around, so nothing bounds the path: if the directory, a
  slash and the configured name do not fit the array with the terminating zero, the copy writes
  behind it; otherwise it is the path.\<close>

theorem fpga_path_overflows:
  assumes "length fwdir < fpga_PATH_MAX" "length name < fpga_PATH_MAX" "\<not> (name \<noteq> [] \<and> hd name = 47 \<and> stat_ok)"
  shows "fpga_path fwdir stat_ok name =
    (if length fwdir + 1 + length name < fpga_PATH_MAX then Ok (fwdir @ [47] @ name) else Fault Out_of_bounds)"
  using fpga_path_result [OF assms(1,2)] assms(3) by auto

theorem fpga_path_overflows_witness:
  "fpga_path [46] False (replicate 4094 120) = Fault Out_of_bounds"
  by (subst fpga_path_overflows) (simp_all add: fpga_PATH_MAX_def)

end
