(* ===== verification/Util_Net.thy ===== *)
theory Util_Net
  imports Util_Endec "HOL-Library.Multiset"
begin

text \<open>
  Opening TCP connections (\<open>util/net_common-posix.c\<close>) with the random numbers of \<open>util/util.c\<close>: the
  addresses of a host are shuffled and tried one after the other. What \<open>rand\<close> delivers is a list
  of numbers, used from the front; a result \<open>None\<close> is a loop that is still drawing. Resolving the
  name, and the answers of \<open>socket\<close> and \<open>connect\<close>, are parameters; the sockets that are open, the
  attempts to connect with their results, and every \<open>close\<close> of a descriptor that is not open are
  recorded.
\<close>

section \<open>Random numbers\<close>

fun randInt_loop :: "u32 \<Rightarrow> u32 \<Rightarrow> u32 list \<Rightarrow> (u32 \<times> u32 list) option" where
  "randInt_loop limit n [] = None"
| "randInt_loop limit n (rnd # rs) = (if rnd \<ge> limit then randInt_loop limit n rs else Some (rnd mod n, rs))"

definition UTIL_randInt :: "u32 \<Rightarrow> u32 \<Rightarrow> u32 list \<Rightarrow> fault + (u32 \<times> u32 list) option" where
  "UTIL_randInt rand_max n rs =
    (if n = 0 then Fault Div_by_zero else Ok (randInt_loop (rand_max - rand_max mod n) n rs))"

text \<open>Shuffling: position \<open>i\<close> is exchanged with a random one up to it.\<close>

fun shuffle_hosts :: "u32 \<Rightarrow> nat \<Rightarrow> u32 list \<Rightarrow> 'a list \<Rightarrow> fault + ('a list \<times> u32 list) option" where
  "shuffle_hosts rand_max 0 rs xs = Ok (Some (xs, rs))"
| "shuffle_hosts rand_max (Suc i) rs xs =
    bind_ok (UTIL_randInt rand_max (of_nat (Suc i)) rs) (\<lambda>r. case r of
      None \<Rightarrow> Ok None
    | Some (j, rs) \<Rightarrow> shuffle_hosts rand_max i rs (xs[i := xs ! unat j, unat j := xs ! i]))"

section \<open>Connecting\<close>

datatype ai_family = AF_INET | AF_INET6 | AF_other int

record addrinfo =
  family :: ai_family
  address :: nat
  port_bytes :: "u8 list"

record sock_lib =
  sl_open :: "int list"
  sl_tried :: "(int \<times> addrinfo \<times> bool) list"
  sl_bad :: "int list"

text \<open>The answers of the operating system: the descriptor of a new socket (-1 for an error), and
  whether a connection is established.\<close>

record sock_env =
  new_socket :: "sock_lib \<Rightarrow> int"
  connects :: "sock_lib \<Rightarrow> addrinfo \<Rightarrow> bool"

definition lib_socket :: "sock_env \<Rightarrow> sock_lib \<Rightarrow> int \<times> sock_lib" where
  "lib_socket E s = (let fd = new_socket E s in (fd, if fd = -1 then s else s\<lparr>sl_open := fd # sl_open s\<rparr>))"

text \<open>Connecting a descriptor that is not open returns an error; closing one returns an error as well
  and is recorded in \<open>sl_bad\<close>.\<close>

definition lib_connect :: "sock_env \<Rightarrow> int \<Rightarrow> addrinfo \<Rightarrow> sock_lib \<Rightarrow> bool \<times> sock_lib" where
  "lib_connect E fd a s =
    (let ok = fd \<in> set (sl_open s) \<and> connects E s a in (ok, s\<lparr>sl_tried := sl_tried s @ [(fd, a, ok)]\<rparr>))"

definition lib_close :: "int \<Rightarrow> sock_lib \<Rightarrow> sock_lib" where
  "lib_close fd s =
    (if fd \<in> set (sl_open s) then s\<lparr>sl_open := remove1 fd (sl_open s)\<rparr> else s\<lparr>sl_bad := sl_bad s @ [fd]\<rparr>)"

definition known_family :: "addrinfo \<Rightarrow> bool" where
  "known_family a \<longleftrightarrow> family a = AF_INET \<or> family a = AF_INET6"

definition with_port :: "u16 \<Rightarrow> addrinfo \<Rightarrow> addrinfo" where
  "with_port port a = a\<lparr>port_bytes := be_bytes 2 port\<rparr>"

fun try_hosts :: "sock_env \<Rightarrow> u16 \<Rightarrow> addrinfo list \<Rightarrow> sock_lib \<Rightarrow> int \<times> sock_lib" where
  "try_hosts E port [] s = (-1, s)"
| "try_hosts E port (a # as) s =
    (if \<not> known_family a then try_hosts E port as s
     else let (fd, s) = lib_socket E s; (ok, s) = lib_connect E fd (with_port port a) s
       in if \<not> ok then try_hosts E port as (lib_close fd s) else (fd, s))"

text \<open>\<open>m1\<close> and \<open>m2\<close> tell whether memory could be allocated; \<open>resolved\<close> is the result of \<open>getaddrinfo\<close>.\<close>

definition NETC_connect :: "sock_env \<Rightarrow> u32 \<Rightarrow> bool \<times> bool \<Rightarrow> addrinfo list option \<Rightarrow> u16 \<Rightarrow> u32 list \<Rightarrow> sock_lib \<Rightarrow>
    fault + (int \<times> u32 list \<times> sock_lib) option" where
  "NETC_connect E rand_max m resolved port rs s =
    (if \<not> fst m then Fault Emergency
     else case resolved of
       None \<Rightarrow> Ok (Some (-1, rs, s))
     | Some hosts \<Rightarrow>
         if \<not> snd m then Fault Emergency
         else bind_ok (shuffle_hosts rand_max (length hosts) rs hosts) (\<lambda>r. case r of
             None \<Rightarrow> Ok None
           | Some (shuffled, rs) \<Rightarrow> let (fd, s) = try_hosts E port shuffled s in Ok (Some (fd, rs, s))))"

section \<open>Resolving by name\<close>

text \<open>The variant for systems without \<open>getaddrinfo\<close> (\<open>util/net_common-winsock.c\<close>): the host has one
  address family, and the socket address is built in a \<open>struct sockaddr\<close>.\<close>

record hostent =
  h_addrtype :: ai_family
  h_length :: nat
  h_addr_list :: "nat list"

definition sizeof_sockaddr :: nat where
  "sizeof_sockaddr = 16"

text \<open>The place of the address in \<open>struct sockaddr_in\<close> and \<open>struct sockaddr_in6\<close>.\<close>

definition offset_inaddr :: "ai_family \<Rightarrow> nat" where
  "offset_inaddr f = (if f = AF_INET then 4 else 8)"

definition build_sockaddr :: "hostent \<Rightarrow> u16 \<Rightarrow> nat \<Rightarrow> fault + addrinfo" where
  "build_sockaddr h port a =
    (if h_addrtype h = AF_INET \<or> h_addrtype h = AF_INET6
     then if offset_inaddr (h_addrtype h) + h_length h \<le> sizeof_sockaddr
       then Ok \<lparr>family = h_addrtype h, address = a, port_bytes = be_bytes 2 port\<rparr>
       else Fault Out_of_bounds
     else Fault Assert_failed)"

fun try_names :: "sock_env \<Rightarrow> u16 \<Rightarrow> hostent \<Rightarrow> nat list \<Rightarrow> sock_lib \<Rightarrow> fault + int \<times> sock_lib" where
  "try_names E port h [] s = Ok (-1, s)"
| "try_names E port h (a # as) s =
    bind_ok (build_sockaddr h port a) (\<lambda>addr.
      let (fd, s) = lib_socket E s; (ok, s) = lib_connect E fd addr s
      in if \<not> ok then try_names E port h as (lib_close fd s) else Ok (fd, s))"

definition NETC_connect_byname :: "sock_env \<Rightarrow> u32 \<Rightarrow> bool \<Rightarrow> hostent option \<Rightarrow> u16 \<Rightarrow> u32 list \<Rightarrow> sock_lib \<Rightarrow>
    fault + (int \<times> u32 list \<times> sock_lib) option" where
  "NETC_connect_byname E rand_max mem resolved port rs s = (case resolved of
      None \<Rightarrow> Ok (Some (-1, rs, s))
    | Some h \<Rightarrow>
        if h_addrtype h \<noteq> AF_INET \<and> h_addrtype h \<noteq> AF_INET6 then Ok (Some (-1, rs, s))
        else if \<not> mem then Fault Emergency
        else bind_ok (shuffle_hosts rand_max (length (h_addr_list h)) rs (h_addr_list h)) (\<lambda>r. case r of
            None \<Rightarrow> Ok None
          | Some (hosts, rs) \<Rightarrow> bind_ok (try_names E port h hosts s) (\<lambda>(fd, s). Ok (Some (fd, rs, s)))))"

section \<open>Random numbers are uniform\<close>

lemma unat_limit: "n \<noteq> 0 \<Longrightarrow> unat (m - m mod n :: u32) = unat m div unat n * unat n"
proof -
  assume "n \<noteq> 0"
  have "m mod n \<le> m" by (simp add: word_le_nat_alt unat_mod)
  then have "unat (m - m mod n) = unat m - unat m mod unat n" by (simp add: unat_sub unat_mod)
  then show ?thesis by (simp add: minus_mod_eq_div_mult)
qed

lemma randInt_first:
  assumes "n \<noteq> 0" "unat r < unat m div unat n * unat n"
  shows "UTIL_randInt m n (r # rs) = Ok (Some (r mod n, rs))"
  using assms unat_limit [OF assms(1), of m] by (simp add: UTIL_randInt_def not_le [symmetric] word_le_nat_alt)

lemma randInt_redraw:
  assumes "n \<noteq> 0" "unat m div unat n * unat n \<le> unat r"
  shows "UTIL_randInt m n (r # rs) = UTIL_randInt m n rs"
  using assms unat_limit [OF assms(1), of m] by (simp add: UTIL_randInt_def word_le_nat_alt)

lemma randInt_waits:
  assumes "n \<noteq> 0"
  shows "UTIL_randInt m n [r] = Ok None \<longleftrightarrow> unat m div unat n * unat n \<le> unat r"
proof (cases "unat r < unat m div unat n * unat n")
  case True
  then show ?thesis by (simp only: randInt_first [OF assms True] not_le [symmetric]) simp
next
  case False
  then have le: "unat m div unat n * unat n \<le> unat r" by (simp only: not_less)
  have "UTIL_randInt m n [] = Ok None" using assms by (simp add: UTIL_randInt_def)
  then show ?thesis using le \<open>UTIL_randInt m n [] = Ok None\<close> randInt_redraw [OF assms le, of "[]"] by metis
qed

lemma randInt_below:
  assumes "UTIL_randInt m n rs = Ok (Some (j, rs'))"
  shows "unat j < unat n"
proof -
  have n: "n \<noteq> 0" using assms by (auto simp: UTIL_randInt_def split: if_splits)
  then have "randInt_loop (m - m mod n) n rs = Some (j, rs')" using assms by (simp add: UTIL_randInt_def)
  then have "\<exists>r. j = r mod n" by (induction rs) (auto split: if_splits)
  then show ?thesis using n by (auto simp: unat_mod unat_gt_0)
qed

lemma randInt_draws:
  assumes "n \<noteq> 0" and k: "unat k < unat n"
  shows "{r. UTIL_randInt m n [r] = Ok (Some (k, []))}
    = (\<lambda>q. of_nat (q * unat n + unat k)) ` {..<unat m div unat n}"
proof -
  have n: "0 < unat n" using assms by (simp add: unat_gt_0)
  have "UTIL_randInt m n [r] = Ok (Some (k, [])) \<longleftrightarrow> unat r < unat m div unat n * unat n \<and> unat r mod unat n = unat k" for r
    using assms unat_limit [OF assms(1), of m]
    by (auto simp: UTIL_randInt_def word_le_nat_alt word_unat_eq_iff unat_mod)
  moreover have "unat r < unat m div unat n * unat n \<and> unat r mod unat n = unat k \<longleftrightarrow>
      r \<in> (\<lambda>q. of_nat (q * unat n + unat k)) ` {..<unat m div unat n}" for r :: u32
  proof
    assume r: "unat r < unat m div unat n * unat n \<and> unat r mod unat n = unat k"
    have "unat r = unat r div unat n * unat n + unat k" using r by (metis div_mult_mod_eq)
    then have "r = of_nat (unat r div unat n * unat n + unat k)" by simp
    moreover have "unat r div unat n < unat m div unat n" using r n by (simp add: less_mult_imp_div_less)
    ultimately show "r \<in> (\<lambda>q. of_nat (q * unat n + unat k)) ` {..<unat m div unat n}" by blast
  next
    assume "r \<in> (\<lambda>q. of_nat (q * unat n + unat k)) ` {..<unat m div unat n}"
    then obtain q where q: "q < unat m div unat n" "r = of_nat (q * unat n + unat k)" by blast
    have le: "q * unat n + unat k < unat m div unat n * unat n"
    proof -
      have "q * unat n + unat k < Suc q * unat n" using k by simp
      also have "\<dots> \<le> unat m div unat n * unat n" using q(1) by (intro mult_le_mono1) simp
      finally show ?thesis .
    qed
    also have "\<dots> \<le> unat m" by simp
    finally have "unat (of_nat (q * unat n + unat k) :: u32) = q * unat n + unat k"
      using unat_u32_less [of m] by (intro unat_of_nat_small) simp
    then have "unat r = q * unat n + unat k" unfolding q(2) .
    then show "unat r < unat m div unat n * unat n \<and> unat r mod unat n = unat k" using le k by simp
  qed
  ultimately show ?thesis by blast
qed

text \<open>Every number below \<open>n\<close> is the result of equally many values of \<open>rand\<close>.\<close>

lemma card_draws:
  assumes "n \<noteq> 0" "unat k < unat n"
  shows "card {r. UTIL_randInt m n [r] = Ok (Some (k, []))} = unat m div unat n"
proof -
  have n: "0 < unat n" using assms(1) by (simp add: unat_gt_0)
  have "inj_on (\<lambda>q. of_nat (q * unat n + unat k) :: u32) {..<unat m div unat n}"
  proof (rule inj_onI)
    fix p q assume pq: "p \<in> {..<unat m div unat n}" "q \<in> {..<unat m div unat n}"
      and eq: "(of_nat (p * unat n + unat k) :: u32) = of_nat (q * unat n + unat k)"
    have small: "unat (of_nat (x * unat n + unat k) :: u32) = x * unat n + unat k" if "x < unat m div unat n" for x
    proof -
      have "x * unat n + unat k < Suc x * unat n" using assms(2) by simp
      also have "\<dots> \<le> unat m div unat n * unat n" using that by (intro mult_le_mono1) simp
      also have "\<dots> \<le> unat m" by simp
      finally show ?thesis using unat_u32_less [of m] by (intro unat_of_nat_small) simp
    qed
    have "p * unat n + unat k = q * unat n + unat k"
      by (metis eq lessThan_iff pq small)
    then show "p = q" using n by simp
  qed
  then show ?thesis unfolding randInt_draws [OF assms] by (simp add: card_image)
qed

section \<open>Shuffling\<close>

text \<open>The shuffle with the numbers drawn, from the last position down.\<close>

fun shuffle :: "nat \<Rightarrow> nat list \<Rightarrow> 'a list \<Rightarrow> 'a list" where
  "shuffle (Suc i) (j # js) xs = shuffle i js (xs[i := xs ! j, j := xs ! i])"
| "shuffle i js xs = xs"

fun draws_ok :: "nat \<Rightarrow> nat list \<Rightarrow> bool" where
  "draws_ok 0 js \<longleftrightarrow> js = []"
| "draws_ok (Suc i) (j # js) \<longleftrightarrow> j \<le> i \<and> draws_ok i js"
| "draws_ok (Suc i) [] \<longleftrightarrow> False"

lemma shuffle_hosts_draws:
  assumes "shuffle_hosts m n rs xs = Ok (Some (ys, rs'))" "n < 2 ^ 32"
  shows "\<exists>js. draws_ok n js \<and> ys = shuffle n js xs"
  using assms
proof (induction n arbitrary: rs xs)
  case (Suc i)
  obtain j rs1 where j: "UTIL_randInt m (of_nat (Suc i)) rs = Ok (Some (j, rs1))"
    "shuffle_hosts m i rs1 (xs[i := xs ! unat j, unat j := xs ! i]) = Ok (Some (ys, rs'))"
    using Suc.prems(1) by (auto simp: bind_ok_eq_Inr split: option.splits)
  have "unat (of_nat (Suc i) :: u32) = Suc i" using Suc.prems(2) by (intro unat_of_nat_small) simp
  then have "unat j \<le> i" using randInt_below [OF j(1)] by simp
  moreover obtain js where "draws_ok i js" "ys = shuffle i js (xs[i := xs ! unat j, unat j := xs ! i])"
    using Suc.IH [OF j(2)] Suc.prems(2) by auto
  ultimately show ?case by (intro exI [of _ "unat j # js"]) simp
qed simp

lemma mset_exchange:
  "i < length xs \<Longrightarrow> j < length xs \<Longrightarrow> mset (xs[i := xs ! j, j := xs ! i]) = mset xs"
  by (rule mset_swap)

lemma shuffle_mset: "draws_ok n js \<Longrightarrow> n \<le> length xs \<Longrightarrow> mset (shuffle n js xs) = mset xs"
proof (induction n js xs rule: shuffle.induct)
  case (1 i j js xs)
  then show ?case by (simp add: mset_exchange)
qed auto

lemma shuffle_drop: "draws_ok n js \<Longrightarrow> n \<le> length xs \<Longrightarrow> drop n (shuffle n js xs) = drop n xs"
proof (induction n js xs rule: shuffle.induct)
  case (1 i j js xs)
  then have "drop i (shuffle i js (xs[i := xs ! j, j := xs ! i])) = drop i (xs[i := xs ! j, j := xs ! i])" by simp
  then have "drop 1 (drop i (shuffle i js (xs[i := xs ! j, j := xs ! i]))) = drop 1 (drop i (xs[i := xs ! j, j := xs ! i]))" by simp
  then show ?case using 1 by (simp add: drop_update_cancel)
qed auto

text \<open>Every order of different elements comes from exactly one sequence of numbers.\<close>

lemma shuffle_unique:
  assumes "distinct xs" "mset ys = mset xs" "n \<le> length xs" "drop n ys = drop n xs"
  shows "\<exists>!js. draws_ok n js \<and> shuffle n js xs = ys"
  using assms
proof (induction n arbitrary: xs)
  case 0
  then show ?case by auto
next
  case (Suc i)
  have len: "length ys = length xs" using Suc.prems(2) by (metis size_mset)
  have i: "i < length xs" using Suc.prems(3) by simp
  have "mset (take (Suc i) ys) = mset (take (Suc i) xs)"
    using Suc.prems(2,4) by (metis add_right_cancel append_take_drop_id mset_append)
  then have "set (take (Suc i) ys) = set (take (Suc i) xs)" by (metis set_mset_mset)
  moreover have "ys ! i \<in> set (take (Suc i) ys)" using i len by (simp add: in_set_conv_nth) (metis lessI nth_take)
  ultimately have "ys ! i \<in> set (take (Suc i) xs)" by simp
  then obtain j where j: "j \<le> i" "ys ! i = xs ! j" using i by (auto simp: in_set_conv_nth less_Suc_eq_le)
  define xs' where "xs' = xs[i := xs ! j, j := xs ! i]"
  have m': "mset xs' = mset xs" unfolding xs'_def using i j(1) by (intro mset_exchange) simp_all
  have d': "distinct xs'" using Suc.prems(1) m' by (metis mset_eq_imp_distinct_iff)
  have "drop i ys = ys ! i # drop (Suc i) ys" using i len by (simp add: Cons_nth_drop_Suc)
  also have "\<dots> = drop i xs'"
    using i j len Suc.prems(4) by (cases "j = i") (simp_all add: xs'_def drop_update_cancel drop_update_swap flip: Cons_nth_drop_Suc)
  finally have dr: "drop i ys = drop i xs'" .
  have only: "draws_ok (Suc i) js \<and> shuffle (Suc i) js xs = ys \<longleftrightarrow> (\<exists>ks. js = j # ks \<and> draws_ok i ks \<and> shuffle i ks xs' = ys)" for js
  proof (cases js)
    case (Cons k ks)
    have "k = j" if ks: "k \<le> i" "draws_ok i ks" "shuffle i ks (xs[i := xs ! k, k := xs ! i]) = ys"
    proof -
      have "drop i ys = drop i (xs[i := xs ! k, k := xs ! i])"
        using shuffle_drop [OF ks(2), of "xs[i := xs ! k, k := xs ! i]"] ks(3) i by simp
      then have "ys ! i = xs[i := xs ! k, k := xs ! i] ! i"
        using i len by (metis Cons_nth_drop_Suc length_list_update list.inject)
      then have "xs ! j = xs ! k" using i j(2) ks(1) by (cases "k = i") simp_all
      then show ?thesis using Suc.prems(1) i j(1) ks(1) by (simp add: nth_eq_iff_index_eq)
    qed
    then show ?thesis using Cons j(1) by (auto simp: xs'_def)
  qed simp
  have "\<exists>!ks. draws_ok i ks \<and> shuffle i ks xs' = ys"
    by (rule Suc.IH [OF d' _ _ dr]) (use m' Suc.prems(2) i in \<open>simp_all add: xs'_def\<close>)
  then show ?case unfolding only by blast
qed

section \<open>Trying the addresses\<close>

text \<open>The system hands out descriptors that are not in use.\<close>

definition sock_env_ok :: "sock_env \<Rightarrow> bool" where
  "sock_env_ok E \<longleftrightarrow> (\<forall>s. new_socket E s \<notin> set (sl_open s))"

text \<open>What trying a list of addresses does: attempts on the known ones in order, of which all but the
  last fail; the socket of one that succeeds stays open and is the result, and if all of them fail
  the result is -1 and no new socket is open. Every attempt without a socket closes -1.\<close>

definition tried_in_order :: "u16 \<Rightarrow> addrinfo list \<Rightarrow> sock_lib \<Rightarrow> int \<Rightarrow> sock_lib \<Rightarrow> bool" where
  "tried_in_order port as s fd s' \<longleftrightarrow> (\<exists>bs rest fds oks. filter known_family as = bs @ rest
     \<and> length fds = length bs \<and> length oks = length bs
     \<and> sl_tried s' = sl_tried s @ zip fds (zip (map (with_port port) bs) oks)
     \<and> sl_bad s' = sl_bad s @ filter (\<lambda>fd. fd = -1) fds
     \<and> (if fd = -1 then rest = [] \<and> oks = replicate (length bs) False \<and> sl_open s' = sl_open s
        else bs \<noteq> [] \<and> oks = replicate (length bs - 1) False @ [True]
          \<and> last fds = fd \<and> fd \<notin> set (sl_open s) \<and> sl_open s' = fd # sl_open s))"

lemma tried_in_order_Cons:
  assumes "known_family a" "sl_open t = sl_open s" "sl_tried t = sl_tried s @ [(fd0, with_port port a, False)]"
    and "sl_bad t = sl_bad s @ filter (\<lambda>fd. fd = -1) [fd0]"
    and "tried_in_order port as t fd s'"
  shows "tried_in_order port (a # as) s fd s'"
proof -
  obtain bs rest fds oks where t: "filter known_family as = bs @ rest" "length fds = length bs" "length oks = length bs"
    "sl_tried s' = sl_tried t @ zip fds (zip (map (with_port port) bs) oks)"
    "sl_bad s' = sl_bad t @ filter (\<lambda>fd. fd = -1) fds"
    "if fd = -1 then rest = [] \<and> oks = replicate (length bs) False \<and> sl_open s' = sl_open t
       else bs \<noteq> [] \<and> oks = replicate (length bs - 1) False @ [True]
         \<and> last fds = fd \<and> fd \<notin> set (sl_open t) \<and> sl_open s' = fd # sl_open t"
    using assms(5) unfolding tried_in_order_def by blast
  have "False # replicate (length bs - 1) False @ [True] = replicate (length bs) False @ [True]" if "bs \<noteq> []"
    using that by (cases bs) simp_all
  then show ?thesis
    unfolding tried_in_order_def
    by (intro exI [of _ "a # bs"] exI [of _ rest] exI [of _ "fd0 # fds"] exI [of _ "False # oks"])
      (use t assms in \<open>auto split: if_splits\<close>)
qed

lemma try_hosts_result:
  assumes "sock_env_ok E" "-1 \<notin> set (sl_open s)" "try_hosts E port as s = (fd, s')"
  shows "tried_in_order port as s fd s'"
  using assms(2,3)
proof (induction as arbitrary: s)
  case Nil
  then show ?case by (auto simp: tried_in_order_def)
next
  case (Cons a as)
  show ?case
  proof (cases "known_family a")
    case False
    then have "tried_in_order port as s fd s'" using Cons by simp
    then show ?thesis using False by (simp add: tried_in_order_def)
  next
    case known: True
    define fd0 where "fd0 = new_socket E s"
    define s1 where "s1 = snd (lib_socket E s)"
    have new: "fd0 \<notin> set (sl_open s)" using assms(1) by (simp add: sock_env_ok_def fd0_def)
    have s1: "lib_socket E s = (fd0, s1)" "sl_open s1 = (if fd0 = -1 then sl_open s else fd0 # sl_open s)"
      "sl_tried s1 = sl_tried s" "sl_bad s1 = sl_bad s"
      by (simp_all add: s1_def lib_socket_def fd0_def Let_def)
    define ok where "ok \<longleftrightarrow> fd0 \<in> set (sl_open s1) \<and> connects E s1 (with_port port a)"
    define s2 where "s2 = s1\<lparr>sl_tried := sl_tried s1 @ [(fd0, with_port port a, ok)]\<rparr>"
    have s2: "lib_connect E fd0 (with_port port a) s1 = (ok, s2)"
      by (simp add: lib_connect_def ok_def s2_def Let_def)
    show ?thesis
    proof (cases ok)
      case True
      then have "fd0 \<noteq> -1" using s1(2) Cons.prems(1) by (auto simp: ok_def split: if_splits)
      moreover have "fd = fd0" "s' = s2" using Cons.prems(2) known s1(1) s2 True by (simp_all add: Let_def)
      ultimately show ?thesis
        using known True s1 new
        unfolding tried_in_order_def
        by (intro exI [of _ "[a]"] exI [of _ "filter known_family as"] exI [of _ "[fd0]"] exI [of _ "[True]"])
          (auto simp: s2_def)
    next
      case False
      let ?t = "lib_close fd0 s2"
      have t: "sl_open ?t = sl_open s" "sl_tried ?t = sl_tried s @ [(fd0, with_port port a, False)]"
        "sl_bad ?t = sl_bad s @ filter (\<lambda>fd. fd = -1) [fd0]"
        using s1(2-4) Cons.prems(1) False by (simp_all add: lib_close_def s2_def)
      have "try_hosts E port as ?t = (fd, s')" using Cons.prems(2) known s1(1) s2 False by (simp add: Let_def)
      then have "tried_in_order port as ?t fd s'" using Cons.IH [of ?t] Cons.prems(1) t by simp
      then show ?thesis by (rule tried_in_order_Cons [OF known t])
    qed
  qed
qed

section \<open>Resolving by name agrees for IPv4\<close>

definition inet_host :: "nat \<Rightarrow> addrinfo" where
  "inet_host a = \<lparr>family = AF_INET, address = a, port_bytes = []\<rparr>"

lemma map_exchange:
  "i < length xs \<Longrightarrow> j < length xs \<Longrightarrow>
    (map f xs)[i := map f xs ! j, j := map f xs ! i] = map f (xs[i := xs ! j, j := xs ! i])"
  by (simp add: map_update)

lemma shuffle_hosts_map:
  assumes "n \<le> length xs" "n < 2 ^ 32"
  shows "shuffle_hosts m n rs (map f xs) = map_sum id (map_option (map_prod (map f) id)) (shuffle_hosts m n rs xs)"
  using assms
proof (induction n arbitrary: rs xs)
  case (Suc i)
  have i: "unat (of_nat (Suc i) :: u32) = Suc i" using Suc.prems(2) by (intro unat_of_nat_small) simp
  show ?case
  proof (cases "UTIL_randInt m (of_nat (Suc i)) rs")
    case (Inr r)
    show ?thesis
    proof (cases r)
      case (Some p)
      obtain j qs where p: "p = (j, qs)" by (cases p)
      have "unat j < length xs" using randInt_below [of m "of_nat (Suc i)" rs j qs] Inr Some p i Suc.prems(1) by simp
      then have "(map f xs)[i := map f xs ! unat j, unat j := map f xs ! i] = map f (xs[i := xs ! unat j, unat j := xs ! i])"
        using Suc.prems(1) by (intro map_exchange) simp_all
      then show ?thesis using Inr Some p Suc.IH [of "xs[i := xs ! unat j, unat j := xs ! i]" qs] Suc.prems by simp
    next
      case None
      then show ?thesis using Inr by simp
    qed
  qed simp
qed simp

lemma try_names_inet:
  assumes "h_addrtype h = AF_INET" "h_length h = 4"
  shows "try_names E port h as s = Ok (try_hosts E port (map inet_host as) s)"
proof (induction as arbitrary: s)
  case (Cons a as)
  have "build_sockaddr h port a = Ok (with_port port (inet_host a))"
    using assms by (simp add: build_sockaddr_def offset_inaddr_def sizeof_sockaddr_def with_port_def inet_host_def)
  then show ?case using Cons by (simp add: known_family_def inet_host_def Let_def split: prod.splits)
qed simp

lemma try_names_inet6:
  "h_addrtype h = AF_INET6 \<Longrightarrow> h_length h = 16 \<Longrightarrow> as \<noteq> [] \<Longrightarrow> try_names E port h as s = Fault Out_of_bounds"
  by (cases as) (simp_all add: build_sockaddr_def offset_inaddr_def sizeof_sockaddr_def)

lemma byname_inet:
  assumes "h_addrtype h = AF_INET" "h_length h = 4" "length (h_addr_list h) < 2 ^ 32"
  shows "NETC_connect_byname E m mem (Some h) port rs s
    = NETC_connect E m (True, mem) (Some (map inet_host (h_addr_list h))) port rs s"
proof (cases "shuffle_hosts m (length (h_addr_list h)) rs (h_addr_list h)")
  case (Inr r)
  then show ?thesis
    using assms shuffle_hosts_map [OF order_refl assms(3), of m rs inet_host]
    by (cases r) (auto simp: NETC_connect_byname_def NETC_connect_def try_names_inet [OF assms(1,2)] Let_def split: prod.splits)
qed (use assms shuffle_hosts_map [OF order_refl assms(3), of m rs inet_host]
    in \<open>simp add: NETC_connect_byname_def NETC_connect_def\<close>)

lemma byname_inet6:
  assumes "h_addrtype h = AF_INET6" "h_length h = 16" "h_addr_list h \<noteq> []" "length (h_addr_list h) < 2 ^ 32"
    and "shuffle_hosts m (length (h_addr_list h)) rs (h_addr_list h) = Ok (Some (hosts, rs'))"
  shows "NETC_connect_byname E m True (Some h) port rs s = Fault Out_of_bounds"
proof -
  obtain js where js: "draws_ok (length (h_addr_list h)) js" "hosts = shuffle (length (h_addr_list h)) js (h_addr_list h)"
    using shuffle_hosts_draws [OF assms(5,4)] by blast
  have "mset hosts = mset (h_addr_list h)" unfolding js(2) by (rule shuffle_mset [OF js(1) order_refl])
  then have "hosts \<noteq> []" using assms(3) by auto
  then show ?thesis using assms by (simp add: NETC_connect_byname_def try_names_inet6)
qed

section \<open>Properties\<close>

text \<open>Shuffling with the random numbers of the library is fair: for a bound of at least one and at
  most \<open>RAND_MAX\<close> the number is below the bound, every number below it is drawn by equally many
  values of \<open>rand\<close>, all others being drawn again; and the orders of different elements correspond
  one to one to the sequences of numbers drawn.\<close>

theorem shuffle_is_fair:
  assumes "0 < n" "n \<le> rand_max" "k < n" "distinct xs" "mset ys = mset xs"
  shows "card {r. UTIL_randInt rand_max n [r] = Ok (Some (k, []))} = unat rand_max div unat n
    \<and> 0 < unat rand_max div unat n
    \<and> (\<forall>r. UTIL_randInt rand_max n [r] = Ok None \<longleftrightarrow> unat rand_max div unat n * unat n \<le> unat r)
    \<and> (\<exists>!js. draws_ok (length xs) js \<and> shuffle (length xs) js xs = ys)"
proof (intro conjI allI)
  have n: "n \<noteq> 0" "unat k < unat n" using assms(1,3) by (auto simp: word_less_nat_alt)
  show "card {r. UTIL_randInt rand_max n [r] = Ok (Some (k, []))} = unat rand_max div unat n" by (rule card_draws [OF n])
  show "0 < unat rand_max div unat n"
  proof (rule iffD2 [OF div_greater_zero_iff], rule conjI)
    show "unat n \<le> unat rand_max" using assms(2) by (simp only: word_le_nat_alt)
    show "0 < unat n" by (rule le_less_trans [OF le0 n(2)])
  qed
  show "UTIL_randInt rand_max n [r] = Ok None \<longleftrightarrow> unat rand_max div unat n * unat n \<le> unat r" for r
    by (rule randInt_waits [OF n(1)])
  show "\<exists>!js. draws_ok (length xs) js \<and> shuffle (length xs) js xs = ys"
  proof (rule shuffle_unique [OF assms(4,5) order_refl])
    have "length ys = length xs" by (rule mset_eq_length [OF assms(5)])
    then show "drop (length xs) ys = drop (length xs) xs" by simp
  qed
qed

theorem shuffle_is_fair_witness:
  "card {r. UTIL_randInt 0x7fffffff 3 [r] = Ok (Some (1, []))} = 715827882
    \<and> (\<exists>!js. draws_ok 3 js \<and> shuffle 3 js [10, 20, 30] = [30, 10, 20 :: nat])"
proof -
  have "mset [30, 10, 20] = mset [10, 20, 30 :: nat]" by simp
  from shuffle_is_fair [OF _ _ _ _ this, of 3 "0x7fffffff" 1]
  have "card {r. UTIL_randInt 0x7fffffff 3 [r] = Ok (Some (1, []))} = 715827882"
    and "\<exists>!js. draws_ok (length [10, 20, 30 :: nat]) js \<and> shuffle (length [10, 20, 30 :: nat]) js [10, 20, 30] = [30, 10, 20 :: nat]"
    by simp_all
  then show ?thesis by (simp add: numeral_3_eq_3)
qed

text \<open>C24: connecting to a host tries its addresses of known families in some order, each at most once
  and with the port in network byte order, until \<open>connect\<close> succeeds on one; the socket of that
  attempt is returned and is the only new one left open. If it fails on all of them -1 is returned
  and no new socket is left open. (Every \<open>socket\<close> that fails is followed by a \<open>close\<close> of -1.)\<close>

theorem connect_tries_all_addresses:
  assumes "sock_env_ok E" "-1 \<notin> set (sl_open s)" "length hosts < 2 ^ 32"
    and "NETC_connect E rand_max (True, True) (Some hosts) port rs s = Ok (Some (fd, rs', s'))"
  shows "\<exists>shuffled. mset shuffled = mset hosts \<and> tried_in_order port shuffled s fd s'"
proof -
  obtain ys where ys: "shuffle_hosts rand_max (length hosts) rs hosts = Ok (Some (ys, rs'))"
    "try_hosts E port ys s = (fd, s')"
  proof -
    obtain r where r: "shuffle_hosts rand_max (length hosts) rs hosts = Ok r"
      "(case r of None \<Rightarrow> Ok None | Some (zs, rs) \<Rightarrow> (case try_hosts E port zs s of (fd, s) \<Rightarrow> Ok (Some (fd, rs, s))))
        = Ok (Some (fd, rs', s'))"
      using assms(4) by (auto simp: NETC_connect_def bind_ok_eq_Inr)
    then obtain zs qs where "r = Some (zs, qs)" by (cases r) auto
    then show thesis using that r by (cases "try_hosts E port zs s") simp
  qed
  obtain js where js: "draws_ok (length hosts) js" "ys = shuffle (length hosts) js hosts"
    using shuffle_hosts_draws [OF ys(1) assms(3)] by blast
  then have "mset ys = mset hosts" using shuffle_mset [OF js(1), of hosts] by simp
  then show ?thesis using try_hosts_result [OF assms(1,2) ys(2)] by blast
qed

definition sample_env_net :: sock_env where
  "sample_env_net = \<lparr>new_socket = (\<lambda>s. Max (insert 2 (set (sl_open s))) + 1), connects = (\<lambda>s a. address a = 1)\<rparr>"

definition sample_host :: "nat \<Rightarrow> ai_family \<Rightarrow> addrinfo" where
  "sample_host i f = \<lparr>family = f, address = i, port_bytes = [0, 0]\<rparr>"

lemma sample_env_net_ok: "sock_env_ok sample_env_net"
proof -
  have "Max (insert 2 A) + 1 \<notin> A" if "finite A" for A :: "int set"
    using that Max_ge [of "insert 2 A" "Max (insert 2 A) + 1"] by auto
  then show ?thesis by (simp add: sock_env_ok_def sample_env_net_def)
qed

theorem connect_tries_all_addresses_witness:
  "\<exists>s'. NETC_connect sample_env_net 0x7fffffff (True, True)
        (Some [sample_host 1 AF_INET, sample_host 2 (AF_other 9), sample_host 3 AF_INET6]) 10004 [0x7fffffff, 0, 5, 6, 7]
        \<lparr>sl_open = [], sl_tried = [], sl_bad = []\<rparr> = Ok (Some (3, [7], s'))
    \<and> sl_open s' = [3] \<and> map (snd \<circ> snd) (sl_tried s') = [False, True] \<and> sl_bad s' = []"
proof -
  let ?s = "\<lparr>sl_open = [], sl_tried = [], sl_bad = []\<rparr> :: sock_lib"
  let ?hosts = "[sample_host 1 AF_INET, sample_host 2 (AF_other 9), sample_host 3 AF_INET6]"
  obtain s' where s': "NETC_connect sample_env_net 0x7fffffff (True, True) (Some ?hosts) 10004 [0x7fffffff, 0, 5, 6, 7] ?s
      = Ok (Some (3, [7], s'))" "map (snd \<circ> snd) (sl_tried s') = [False, True]" "sl_bad s' = []"
    by (simp add: NETC_connect_def numeral_3_eq_3 UTIL_randInt_def sample_host_def sample_env_net_def
        known_family_def lib_socket_def lib_connect_def lib_close_def with_port_def Let_def)
  have "\<exists>shuffled. mset shuffled = mset ?hosts \<and> tried_in_order 10004 shuffled ?s 3 s'"
    by (rule connect_tries_all_addresses [OF sample_env_net_ok _ _ s'(1)]) simp_all
  then show ?thesis using s' by (auto simp: tried_in_order_def)
qed

text \<open>Connecting without \<open>getaddrinfo\<close> is connecting with it for a host with IPv4 addresses; for a
  host with an IPv6 address the first one is written behind the end of the socket address.\<close>

theorem byname_connects_inet_only:
  assumes "length (h_addr_list h) < 2 ^ 32"
  shows "(h_addrtype h = AF_INET \<and> h_length h = 4 \<longrightarrow>
      NETC_connect_byname E rand_max mem (Some h) port rs s
        = NETC_connect E rand_max (True, mem) (Some (map inet_host (h_addr_list h))) port rs s)
    \<and> (h_addrtype h = AF_INET6 \<and> h_length h = 16 \<and> h_addr_list h \<noteq> [] \<longrightarrow>
      (\<exists>hosts rs'. shuffle_hosts rand_max (length (h_addr_list h)) rs (h_addr_list h) = Ok (Some (hosts, rs'))) \<longrightarrow>
      NETC_connect_byname E rand_max True (Some h) port rs s = Fault Out_of_bounds)"
  using byname_inet byname_inet6 assms by blast

theorem byname_connects_inet_only_witness:
  "NETC_connect_byname sample_env_net 0x7fffffff True
      (Some \<lparr>h_addrtype = AF_INET, h_length = 4, h_addr_list = [7, 1]\<rparr>) 80 [1, 0] \<lparr>sl_open = [], sl_tried = [], sl_bad = []\<rparr>
    = NETC_connect sample_env_net 0x7fffffff (True, True) (Some [inet_host 7, inet_host 1]) 80 [1, 0] \<lparr>sl_open = [], sl_tried = [], sl_bad = []\<rparr>
    \<and> NETC_connect_byname sample_env_net 0x7fffffff True
      (Some \<lparr>h_addrtype = AF_INET6, h_length = 16, h_addr_list = [7, 1]\<rparr>) 80 [1, 0] \<lparr>sl_open = [], sl_tried = [], sl_bad = []\<rparr>
    = Fault Out_of_bounds"
proof -
  have "\<exists>hosts rs'. shuffle_hosts 0x7fffffff (length [7, 1]) [1, 0] [7, 1 :: nat] = Ok (Some (hosts, rs'))"
    by (simp add: UTIL_randInt_def word_le_nat_alt)
  then show ?thesis
    using byname_connects_inet_only [of "\<lparr>h_addrtype = AF_INET, h_length = 4, h_addr_list = [7, 1]\<rparr>" sample_env_net "0x7fffffff"
        True 80 "[1, 0]" "\<lparr>sl_open = [], sl_tried = [], sl_bad = []\<rparr>"]
      byname_connects_inet_only [of "\<lparr>h_addrtype = AF_INET6, h_length = 16, h_addr_list = [7, 1]\<rparr>" sample_env_net "0x7fffffff"
        True 80 "[1, 0]" "\<lparr>sl_open = [], sl_tried = [], sl_bad = []\<rparr>"]
    by simp
qed

end
