(* ===== verification/Rc_Input.thy ===== *)
theory Rc_Input
  imports Util_Net
begin

text \<open>
  The inputs of the daemon: a network connection or a serial line for the frames of the Radarcape
  (\<open>radarcape/network.c\<close>, \<open>radarcape/uart.c\<close>) and for the packets of the GPS receiver
  (\<open>trimble/trimble_input_network.c\<close>, \<open>trimble/trimble_input_uart.c\<close>). The answers of the operating
  system are parameters; every descriptor that is opened or closed is recorded. On the serial lines
  closing a descriptor that is not open is a fault; the sockets record it in \<open>sl_bad\<close>, since
  \<open>NETC_connect\<close> does it. A result \<open>None\<close> is an operation that is still waiting.
\<close>

section \<open>Network inputs\<close>

record net_input =
  ni_sock :: int
  ni_lib :: sock_lib
  ni_rand :: "u32 list"

text \<open>The answers of the sockets, and what resolving the name yields in one attempt to connect, after
  whether memory could be allocated.\<close>

type_synonym resolved = "(bool \<times> bool) \<times> addrinfo list option"

record net_env =
  sockets :: sock_env
  max_rand :: u32

datatype recv_answer = Recv_error | Recv_bytes "u8 list"

definition SOCK_recv :: "int \<Rightarrow> nat \<Rightarrow> recv_answer \<Rightarrow> sock_lib \<Rightarrow> u8 list option" where
  "SOCK_recv fd bufLen ans l =
    (if fd \<in> set (sl_open l) then (case ans of Recv_error \<Rightarrow> None | Recv_bytes bs \<Rightarrow> Some (take bufLen bs)) else None)"

subsection \<open>Radarcape\<close>

definition RC_INPUT_init_net :: "net_input \<Rightarrow> net_input" where
  "RC_INPUT_init_net s = s\<lparr>ni_sock := -1\<rparr>"

definition closeConn :: "net_input \<Rightarrow> net_input" where
  "closeConn s =
    (if ni_sock s \<noteq> -1 then s\<lparr>ni_lib := lib_close (ni_sock s) (ni_lib s), ni_sock := -1\<rparr> else s)"

definition RC_INPUT_disconnect_net :: "net_input \<Rightarrow> net_input" where
  "RC_INPUT_disconnect_net s = closeConn s"

definition doConnect_net :: "net_env \<Rightarrow> u16 \<Rightarrow> resolved \<Rightarrow> net_input \<Rightarrow> fault + (bool \<times> net_input) option" where
  "doConnect_net E port h s =
    (let s = closeConn s in
      bind_ok (NETC_connect (sockets E) (max_rand E) (fst h) (snd h) port (ni_rand s) (ni_lib s)) (\<lambda>r.
        case r of
          None \<Rightarrow> Ok None
        | Some (fd, rs, l) \<Rightarrow> Ok (Some (fd \<noteq> -1, s\<lparr>ni_sock := fd, ni_lib := l, ni_rand := rs\<rparr>))))"

text \<open>Between two attempts the thread sleeps.\<close>

fun RC_INPUT_connect_net :: "net_env \<Rightarrow> u16 \<Rightarrow> resolved list \<Rightarrow> net_input \<Rightarrow> fault + net_input option" where
  "RC_INPUT_connect_net E port [] s = Ok None"
| "RC_INPUT_connect_net E port (h # hs) s =
    bind_ok (doConnect_net E port h s) (\<lambda>r. case r of
      None \<Rightarrow> Ok None
    | Some (ok, s) \<Rightarrow> if ok then Ok (Some s) else RC_INPUT_connect_net E port hs s)"

definition RC_INPUT_read_net :: "nat \<Rightarrow> recv_answer \<Rightarrow> net_input \<Rightarrow> u8 list \<times> net_input" where
  "RC_INPUT_read_net bufLen ans s =
    (case SOCK_recv (ni_sock s) bufLen ans (ni_lib s) of
       None \<Rightarrow> ([], closeConn s)
     | Some bs \<Rightarrow> (bs, s))"

text \<open>\<open>rc\<close> is the result of \<open>send\<close>.\<close>

definition RC_INPUT_write_net :: "int \<Rightarrow> u8 list \<Rightarrow> nat" where
  "RC_INPUT_write_net rc bs = (if rc \<le> 0 then 0 else nat rc)"

subsection \<open>GPS receiver\<close>

definition TRIMBLE_INPUT_init_net :: "net_input \<Rightarrow> net_input" where
  "TRIMBLE_INPUT_init_net s = s\<lparr>ni_sock := -1\<rparr>"

definition trimble_closeConn :: "net_input \<Rightarrow> net_input" where
  "trimble_closeConn s =
    (if ni_sock s \<noteq> -1 then s\<lparr>ni_lib := lib_close (ni_sock s) (ni_lib s), ni_sock := -1\<rparr> else s)"

definition TRIMBLE_INPUT_disconnect_net :: "net_input \<Rightarrow> net_input" where
  "TRIMBLE_INPUT_disconnect_net s = trimble_closeConn s"

definition trimble_doConnect_net :: "net_env \<Rightarrow> u16 \<Rightarrow> resolved \<Rightarrow> net_input \<Rightarrow> fault + (bool \<times> net_input) option" where
  "trimble_doConnect_net E port h s =
    (let s = trimble_closeConn s in
      bind_ok (NETC_connect (sockets E) (max_rand E) (fst h) (snd h) port (ni_rand s) (ni_lib s)) (\<lambda>r.
        case r of
          None \<Rightarrow> Ok None
        | Some (fd, rs, l) \<Rightarrow> Ok (Some (fd \<noteq> -1, s\<lparr>ni_sock := fd, ni_lib := l, ni_rand := rs\<rparr>))))"

fun TRIMBLE_INPUT_connect_net :: "net_env \<Rightarrow> u16 \<Rightarrow> resolved list \<Rightarrow> net_input \<Rightarrow> fault + net_input option" where
  "TRIMBLE_INPUT_connect_net E port [] s = Ok None"
| "TRIMBLE_INPUT_connect_net E port (h # hs) s =
    bind_ok (trimble_doConnect_net E port h s) (\<lambda>r. case r of
      None \<Rightarrow> Ok None
    | Some (ok, s) \<Rightarrow> if ok then Ok (Some s) else TRIMBLE_INPUT_connect_net E port hs s)"

definition TRIMBLE_INPUT_read_net :: "nat \<Rightarrow> recv_answer \<Rightarrow> net_input \<Rightarrow> u8 list \<times> net_input" where
  "TRIMBLE_INPUT_read_net bufLen ans s =
    (case SOCK_recv (ni_sock s) bufLen ans (ni_lib s) of
       None \<Rightarrow> ([], trimble_closeConn s)
     | Some bs \<Rightarrow> (bs, s))"

definition TRIMBLE_INPUT_write_net :: "u8 list \<Rightarrow> nat" where
  "TRIMBLE_INPUT_write_net bs = length bs"

section \<open>Serial lines\<close>

datatype tty_flag = IGNPAR | PARMRK | ONLCR | CS8 | CREAD | HUPCL | CLOCAL | CRTSCTS | PARENB | PARODD
  | ISIG | ICANON | IEXTEN | ECHO | Other_flag nat

datatype baud = B9600 | B115200 | B3500000 | Other_baud nat

datatype set_when = TCSANOW | TCSADRAIN

datatype flush_what = TCIFLUSH | TCIOFLUSH

datatype open_flag = O_RDWR | O_NONBLOCK | O_NOCTTY | O_CLOEXEC

record termios =
  c_iflag :: "tty_flag set"
  c_oflag :: "tty_flag set"
  c_cflag :: "tty_flag set"
  c_lflag :: "tty_flag set"
  c_ispeed :: baud
  c_ospeed :: baud

text \<open>The calls of the operating system. The third argument of \<open>open\<close> is the mode of a new file.\<close>

datatype uart_call = Uart_open string "open_flag set" "open_flag set"
  | Uart_set set_when termios | Uart_flush flush_what | Uart_write "u8 list" | Uart_drain | Uart_poll int

record uart =
  u_fd :: int
  u_fds :: int
  u_open :: "int list"
  u_calls :: "uart_call list"

record uart_env =
  open_answer :: "uart \<Rightarrow> int"
  attr_answer :: "uart \<Rightarrow> termios option"
  set_answer :: "uart \<Rightarrow> bool"
  write_answer :: "uart \<Rightarrow> int"

datatype read_answer = Read_error | Read_again | Read_bytes "u8 list"

definition uart_call :: "uart_call \<Rightarrow> uart \<Rightarrow> uart" where
  "uart_call c s = s\<lparr>u_calls := u_calls s @ [c]\<rparr>"

definition dev_open :: "uart_env \<Rightarrow> string \<Rightarrow> open_flag set \<Rightarrow> open_flag set \<Rightarrow> uart \<Rightarrow> int \<times> uart" where
  "dev_open E path flags mode s =
    (let fd = open_answer E s; s = uart_call (Uart_open path flags mode) s
     in (fd, if fd < 0 then s else s\<lparr>u_open := fd # u_open s\<rparr>))"

definition dev_close :: "int \<Rightarrow> uart \<Rightarrow> fault + uart" where
  "dev_close fd s = (if fd \<in> set (u_open s) then Ok (s\<lparr>u_open := remove1 fd (u_open s)\<rparr>) else Fault Bad_descriptor)"

definition dev_set :: "uart_env \<Rightarrow> set_when \<Rightarrow> termios \<Rightarrow> uart \<Rightarrow> bool \<times> uart" where
  "dev_set E w t s = (set_answer E s, uart_call (Uart_set w t) s)"

definition dev_write :: "uart_env \<Rightarrow> u8 list \<Rightarrow> uart \<Rightarrow> int \<times> uart" where
  "dev_write E bs s = (write_answer E s, uart_call (Uart_write bs) s)"

text \<open>\<open>cfsetispeed\<close> and \<open>cfsetospeed\<close>.\<close>

definition set_speed :: "baud \<Rightarrow> termios \<Rightarrow> termios" where
  "set_speed b t = t\<lparr>c_ispeed := b, c_ospeed := b\<rparr>"

definition no_local :: "termios \<Rightarrow> tty_flag set" where
  "no_local t = c_lflag t - {ISIG, ICANON, IEXTEN, ECHO}"

subsection \<open>Radarcape\<close>

definition UART :: string where "UART = ''/dev/ttyS5''"

definition RC_INPUT_init_uart :: "uart \<Rightarrow> uart" where
  "RC_INPUT_init_uart s = s\<lparr>u_fd := -1\<rparr>"

definition closeUart :: "uart \<Rightarrow> fault + uart" where
  "closeUart s = (if u_fd s \<noteq> -1 then bind_ok (dev_close (u_fd s) s) (\<lambda>s. Ok (s\<lparr>u_fd := -1\<rparr>)) else Ok s)"

definition RC_INPUT_disconnect_uart :: "uart \<Rightarrow> fault + uart" where
  "RC_INPUT_disconnect_uart s = closeUart s"

definition rc_settings :: "termios \<Rightarrow> termios" where
  "rc_settings t = set_speed B3500000
    (t\<lparr>c_iflag := {IGNPAR}, c_oflag := {ONLCR}, c_cflag := {CS8, CREAD, HUPCL, CLOCAL, CRTSCTS}, c_lflag := no_local t\<rparr>)"

definition doConnect_uart :: "uart_env \<Rightarrow> uart \<Rightarrow> fault + bool \<times> uart" where
  "doConnect_uart E s = bind_ok (closeUart s) (\<lambda>s.
    let (fd, s) = dev_open E UART {O_RDWR} {O_NONBLOCK, O_NOCTTY, O_CLOEXEC} s; s = s\<lparr>u_fd := fd\<rparr>
    in if fd < 0 then Ok (False, s\<lparr>u_fd := -1\<rparr>)
      else case attr_answer E s of
        None \<Rightarrow> bind_ok (closeUart s) (\<lambda>s. Ok (False, s))
      | Some t \<Rightarrow>
          let (ok, s) = dev_set E TCSANOW (rc_settings t) s
          in if \<not> ok then bind_ok (closeUart s) (\<lambda>s. Ok (False, s))
            else let s = uart_call (Uart_flush TCIOFLUSH) s in Ok (True, s\<lparr>u_fds := u_fd s\<rparr>))"

text \<open>\<open>n\<close> is the number of attempts that are made.\<close>

fun RC_INPUT_connect_uart :: "uart_env \<Rightarrow> nat \<Rightarrow> uart \<Rightarrow> fault + uart option" where
  "RC_INPUT_connect_uart E 0 s = Ok None"
| "RC_INPUT_connect_uart E (Suc n) s =
    bind_ok (doConnect_uart E s) (\<lambda>(ok, s). if ok then Ok (Some s) else RC_INPUT_connect_uart E n s)"

text \<open>Reading a descriptor that is not open is an error; the answers of the others come from a list.\<close>

fun RC_INPUT_read_uart :: "nat \<Rightarrow> read_answer list \<Rightarrow> uart \<Rightarrow> fault + (u8 list \<times> uart) option" where
  "RC_INPUT_read_uart bufLen as s =
    (if u_fd s \<notin> set (u_open s) then bind_ok (closeUart s) (\<lambda>s. Ok (Some ([], s)))
     else case as of
       [] \<Rightarrow> Ok None
     | Read_error # as \<Rightarrow> bind_ok (closeUart s) (\<lambda>s. Ok (Some ([], s)))
     | Read_again # as \<Rightarrow> RC_INPUT_read_uart bufLen as (uart_call (Uart_poll (u_fds s)) s)
     | Read_bytes bs # as \<Rightarrow>
         if take bufLen bs = [] then RC_INPUT_read_uart bufLen as (uart_call (Uart_poll (u_fds s)) s)
         else Ok (Some (take bufLen bs, s)))"

declare RC_INPUT_read_uart.simps [simp del]

definition RC_INPUT_write_uart :: "uart_env \<Rightarrow> u8 list \<Rightarrow> uart \<Rightarrow> nat \<times> uart" where
  "RC_INPUT_write_uart E bs s = (let (rc, s) = dev_write E bs s in (if rc \<le> 0 then 0 else nat rc, s))"

subsection \<open>GPS receiver\<close>

definition trimble_UART :: string where "trimble_UART = ''/dev/ttyS2''"

definition TRIMBLE_INPUT_init_uart :: "uart \<Rightarrow> uart" where
  "TRIMBLE_INPUT_init_uart s = s\<lparr>u_fd := -1\<rparr>"

definition trimble_closeUart :: "uart \<Rightarrow> fault + uart" where
  "trimble_closeUart s = (if u_fd s \<noteq> -1 then bind_ok (dev_close (u_fd s) s) (\<lambda>s. Ok (s\<lparr>u_fd := -1\<rparr>)) else Ok s)"

definition TRIMBLE_INPUT_disconnect_uart :: "uart \<Rightarrow> fault + uart" where
  "TRIMBLE_INPUT_disconnect_uart s = trimble_closeUart s"

definition TRIMBLE_INPUT_write_uart :: "uart_env \<Rightarrow> u8 list \<Rightarrow> uart \<Rightarrow> nat \<times> uart" where
  "TRIMBLE_INPUT_write_uart E bs s = (let (rc, s) = dev_write E bs s in (if rc \<le> 0 then 0 else nat rc, s))"

definition trimble_slow :: "termios \<Rightarrow> termios" where
  "trimble_slow t = set_speed B9600
    (t\<lparr>c_iflag := {IGNPAR, PARMRK}, c_oflag := {ONLCR}, c_cflag := {CS8, CREAD, HUPCL, CLOCAL, PARENB, PARODD},
      c_lflag := no_local t\<rparr>)"

definition trimble_fast :: "termios \<Rightarrow> termios" where
  "trimble_fast t = set_speed B115200 (t\<lparr>c_iflag := {IGNPAR}\<rparr>)"

definition setSpeed :: "u8 list" where
  "setSpeed = [0x10, 0xbc, 0x00, 0x0b, 0x0b, 0x03, 0x01, 0x00, 0x00, 0x02, 0x02, 0x00, 0x10, 0x03]"

text \<open>The second half of \<open>doConnect\<close>, \<open>t\<close> being the settings of the line.\<close>

definition trimble_set_up :: "uart_env \<Rightarrow> termios \<Rightarrow> uart \<Rightarrow> fault + bool \<times> uart" where
  "trimble_set_up E t s =
    (let t = trimble_slow t; (ok, s) = dev_set E TCSANOW t s
     in if \<not> ok then bind_ok (trimble_closeUart s) (\<lambda>s. Ok (False, s))
       else
         let s = uart_call (Uart_flush TCIOFLUSH) s; (n, s) = TRIMBLE_INPUT_write_uart E setSpeed s
         in if n \<noteq> length setSpeed then Ok (False, s)
           else
             let t = trimble_fast t; (ok, s) = dev_set E TCSADRAIN t s
             in if \<not> ok then bind_ok (trimble_closeUart s) (\<lambda>s. Ok (False, s))
               else
                 let (n, s) = TRIMBLE_INPUT_write_uart E setSpeed s
                 in if n \<noteq> length setSpeed then Ok (False, s)
                   else
                     let s = uart_call (Uart_flush TCIFLUSH) (uart_call Uart_drain s)
                     in Ok (True, s\<lparr>u_fds := u_fd s\<rparr>))"

definition trimble_doConnect_uart :: "uart_env \<Rightarrow> uart \<Rightarrow> fault + bool \<times> uart" where
  "trimble_doConnect_uart E s = bind_ok (trimble_closeUart s) (\<lambda>s.
    let (fd, s) = dev_open E trimble_UART {O_RDWR} {O_NONBLOCK, O_NOCTTY, O_CLOEXEC} s; s = s\<lparr>u_fd := fd\<rparr>
    in if fd < 0 then Ok (False, s\<lparr>u_fd := -1\<rparr>)
      else case attr_answer E s of
        None \<Rightarrow> bind_ok (trimble_closeUart s) (\<lambda>s. Ok (False, s))
      | Some t \<Rightarrow> trimble_set_up E t s)"

fun TRIMBLE_INPUT_connect_uart :: "uart_env \<Rightarrow> nat \<Rightarrow> uart \<Rightarrow> fault + uart option" where
  "TRIMBLE_INPUT_connect_uart E 0 s = Ok None"
| "TRIMBLE_INPUT_connect_uart E (Suc n) s =
    bind_ok (trimble_doConnect_uart E s) (\<lambda>(ok, s). if ok then Ok (Some s) else TRIMBLE_INPUT_connect_uart E n s)"

fun TRIMBLE_INPUT_read_uart :: "nat \<Rightarrow> read_answer list \<Rightarrow> uart \<Rightarrow> fault + (u8 list \<times> uart) option" where
  "TRIMBLE_INPUT_read_uart bufLen as s =
    (if u_fd s \<notin> set (u_open s) then bind_ok (trimble_closeUart s) (\<lambda>s. Ok (Some ([], s)))
     else case as of
       [] \<Rightarrow> Ok None
     | Read_error # as \<Rightarrow> bind_ok (trimble_closeUart s) (\<lambda>s. Ok (Some ([], s)))
     | Read_again # as \<Rightarrow> TRIMBLE_INPUT_read_uart bufLen as (uart_call (Uart_poll (u_fds s)) s)
     | Read_bytes bs # as \<Rightarrow>
         if take bufLen bs = [] then TRIMBLE_INPUT_read_uart bufLen as (uart_call (Uart_poll (u_fds s)) s)
         else Ok (Some (take bufLen bs, s)))"

declare TRIMBLE_INPUT_read_uart.simps [simp del]

section \<open>Sessions\<close>

text \<open>What a receiving thread does with its input, in any order.\<close>

datatype ('c, 'r) input_op = In_connect 'c | In_read nat 'r | In_write "u8 list" | In_disconnect

fun input_session :: "('o \<Rightarrow> 's \<Rightarrow> fault + 's option) \<Rightarrow> 'o list \<Rightarrow> 's \<Rightarrow> fault + 's option" where
  "input_session step [] s = Ok (Some s)"
| "input_session step (op # ops) s =
    bind_ok (step op s) (\<lambda>r. case r of None \<Rightarrow> Ok None | Some s \<Rightarrow> input_session step ops s)"

definition rc_net_step :: "net_env \<Rightarrow> u16 \<Rightarrow> (resolved list, recv_answer) input_op \<Rightarrow> net_input \<Rightarrow> fault + net_input option" where
  "rc_net_step E port op s = (case op of
      In_connect hs \<Rightarrow> RC_INPUT_connect_net E port hs s
    | In_read n a \<Rightarrow> Ok (Some (snd (RC_INPUT_read_net n a s)))
    | In_write bs \<Rightarrow> Ok (Some s)
    | In_disconnect \<Rightarrow> Ok (Some (RC_INPUT_disconnect_net s)))"

definition trimble_net_step :: "net_env \<Rightarrow> u16 \<Rightarrow> (resolved list, recv_answer) input_op \<Rightarrow> net_input \<Rightarrow> fault + net_input option" where
  "trimble_net_step E port op s = (case op of
      In_connect hs \<Rightarrow> TRIMBLE_INPUT_connect_net E port hs s
    | In_read n a \<Rightarrow> Ok (Some (snd (TRIMBLE_INPUT_read_net n a s)))
    | In_write bs \<Rightarrow> Ok (Some s)
    | In_disconnect \<Rightarrow> Ok (Some (TRIMBLE_INPUT_disconnect_net s)))"

definition rc_uart_step :: "uart_env \<Rightarrow> (nat, read_answer list) input_op \<Rightarrow> uart \<Rightarrow> fault + uart option" where
  "rc_uart_step E op s = (case op of
      In_connect n \<Rightarrow> RC_INPUT_connect_uart E n s
    | In_read n as \<Rightarrow> bind_ok (RC_INPUT_read_uart n as s) (\<lambda>r. Ok (map_option snd r))
    | In_write bs \<Rightarrow> Ok (Some (snd (RC_INPUT_write_uart E bs s)))
    | In_disconnect \<Rightarrow> bind_ok (RC_INPUT_disconnect_uart s) (\<lambda>s. Ok (Some s)))"

definition trimble_uart_step :: "uart_env \<Rightarrow> (nat, read_answer list) input_op \<Rightarrow> uart \<Rightarrow> fault + uart option" where
  "trimble_uart_step E op s = (case op of
      In_connect n \<Rightarrow> TRIMBLE_INPUT_connect_uart E n s
    | In_read n as \<Rightarrow> bind_ok (TRIMBLE_INPUT_read_uart n as s) (\<lambda>r. Ok (map_option snd r))
    | In_write bs \<Rightarrow> Ok (Some (snd (TRIMBLE_INPUT_write_uart E bs s)))
    | In_disconnect \<Rightarrow> bind_ok (TRIMBLE_INPUT_disconnect_uart s) (\<lambda>s. Ok (Some s)))"

text \<open>The descriptors that are open are those of the rest of the process and the one the input holds.\<close>

definition owned :: "int list \<Rightarrow> int \<Rightarrow> int list \<Rightarrow> bool" where
  "owned base fd opened \<longleftrightarrow> -1 \<notin> set opened \<and> opened = (if fd = -1 then base else fd # base)"

text \<open>The contract of an input: no operation closes a descriptor that is not open, and each leaves open
  exactly what the input holds.\<close>

locale input_device =
  fixes step :: "'o \<Rightarrow> 's \<Rightarrow> fault + 's option"
    and exact :: "int list \<Rightarrow> 's \<Rightarrow> bool"
  assumes step_closes: "exact base s \<Longrightarrow> step op s \<noteq> Fault Bad_descriptor"
    and step_exact: "exact base s \<Longrightarrow> step op s = Ok (Some s') \<Longrightarrow> exact base s'"
begin

lemma session_exact:
  assumes "exact base s"
  shows "input_session step ops s \<noteq> Fault Bad_descriptor
    \<and> (\<forall>s'. input_session step ops s = Ok (Some s') \<longrightarrow> exact base s')"
  using assms
proof (induction ops arbitrary: s)
  case (Cons op ops)
  show ?case
  proof (cases "step op s")
    case (Inr r)
    show ?thesis
    proof (cases r)
      case (Some t)
      have "exact base t" by (rule step_exact [OF Cons.prems Inr [unfolded Some]])
      then show ?thesis using Cons.IH [of t] Inr Some by simp
    qed (simp add: Inr)
  qed (use Cons.prems step_closes [of base s op] in auto)
qed simp

end

section \<open>Network inputs satisfy the contract\<close>

text \<open>The only descriptor closed without being open is the -1 of a socket that could not be created,
  once for each of them.\<close>

definition closes_own :: "sock_lib \<Rightarrow> bool" where
  "closes_own l \<longleftrightarrow> sl_bad l = filter (\<lambda>fd. fd = -1) (map fst (sl_tried l))"

definition net_exact :: "net_env \<Rightarrow> int list \<Rightarrow> net_input \<Rightarrow> bool" where
  "net_exact E base s \<longleftrightarrow> sock_env_ok (sockets E) \<and> owned base (ni_sock s) (sl_open (ni_lib s)) \<and> closes_own (ni_lib s)"

lemma closeConn_exact:
  assumes "net_exact E base s"
  shows "net_exact E base (closeConn s) \<and> ni_sock (closeConn s) = -1"
  using assms by (auto simp: closeConn_def net_exact_def owned_def closes_own_def lib_close_def)

lemma randInt_faults: "UTIL_randInt m n rs \<noteq> Fault Bad_descriptor"
  by (simp add: UTIL_randInt_def)

lemma shuffle_hosts_faults: "shuffle_hosts m n rs xs \<noteq> Fault Bad_descriptor"
proof (induction n arbitrary: rs xs)
  case (Suc n)
  then show ?case
    using randInt_faults [of m "of_nat (Suc n)" rs]
    by (cases "UTIL_randInt m (of_nat (Suc n)) rs") (auto split: option.splits)
qed simp

lemma NETC_connect_faults: "NETC_connect E m mem hosts port rs l \<noteq> Fault Bad_descriptor"
  using shuffle_hosts_faults [of m "length (the hosts)" rs "the hosts"]
  by (cases "shuffle_hosts m (length (the hosts)) rs (the hosts)")
    (auto simp: NETC_connect_def split: option.splits prod.splits)

lemma NETC_connect_owned:
  assumes "sock_env_ok E" "owned base (-1) (sl_open l)" "closes_own l"
    and "NETC_connect E m mem hosts port rs l = Ok (Some (fd, rs', l'))"
  shows "owned base fd (sl_open l') \<and> closes_own l'"
proof (cases hosts)
  case None
  then show ?thesis using assms(2-4) by (auto simp: NETC_connect_def split: if_splits)
next
  case (Some hs)
  then obtain r where r: "shuffle_hosts m (length hs) rs hs = Ok r" "fst mem" "snd mem"
    using assms(4) by (auto simp: NETC_connect_def bind_ok_eq_Inr split: if_splits)
  then obtain ys qs where "r = Some (ys, qs)"
    using assms(4) Some by (cases r) (auto simp: NETC_connect_def)
  then have t: "try_hosts E port ys l = (fd, l')"
    using assms(4) Some r by (cases "try_hosts E port ys l") (simp add: NETC_connect_def)
  have "-1 \<notin> set (sl_open l)" using assms(2) unfolding owned_def by (rule conjunct1)
  have b: "sl_open l = base" using assms(2) by (simp add: owned_def)
  from try_hosts_result [OF assms(1) \<open>-1 \<notin> set (sl_open l)\<close> t] show ?thesis
    using b \<open>-1 \<notin> set (sl_open l)\<close> assms(3)
    by (cases "fd = -1") (auto simp: tried_in_order_def owned_def closes_own_def)
qed

lemma doConnect_net_exact:
  assumes "net_exact E base s"
  shows "doConnect_net E port h s \<noteq> Fault Bad_descriptor
    \<and> (\<forall>ok s'. doConnect_net E port h s = Ok (Some (ok, s')) \<longrightarrow> net_exact E base s' \<and> ok = (ni_sock s' \<noteq> -1))"
proof -
  define t where "t = closeConn s"
  have t: "net_exact E base t" "ni_sock t = -1" using closeConn_exact [OF assms] by (simp_all add: t_def)
  show ?thesis
  proof (cases "NETC_connect (sockets E) (max_rand E) (fst h) (snd h) port (ni_rand t) (ni_lib t)")
    case (Inl e)
    then have "e \<noteq> Bad_descriptor"
      using NETC_connect_faults [of "sockets E" "max_rand E" "fst h" "snd h" port "ni_rand t" "ni_lib t"] by metis
    then show ?thesis using Inl by (simp add: doConnect_net_def Let_def flip: t_def)
  next
    case (Inr r)
    show ?thesis
    proof (cases r)
      case (Some p)
      obtain fd rs l where p: "p = (fd, rs, l)" by (cases p)
      have "owned base fd (sl_open l) \<and> closes_own l"
        by (rule NETC_connect_owned [OF _ _ _ Inr [unfolded Some p]]) (use t in \<open>simp_all add: net_exact_def\<close>)
      then show ?thesis using t Inr Some p by (simp add: doConnect_net_def net_exact_def Let_def flip: t_def)
    qed (use Inr in \<open>simp add: doConnect_net_def Let_def flip: t_def\<close>)
  qed
qed

lemma connect_net_exact:
  assumes "net_exact E base s"
  shows "RC_INPUT_connect_net E port hs s \<noteq> Fault Bad_descriptor
    \<and> (\<forall>s'. RC_INPUT_connect_net E port hs s = Ok (Some s') \<longrightarrow> net_exact E base s' \<and> ni_sock s' \<noteq> -1)"
  using assms
proof (induction hs arbitrary: s)
  case (Cons h hs)
  show ?case
  proof (cases "doConnect_net E port h s")
    case (Inr r)
    then show ?thesis
      using doConnect_net_exact [OF Cons.prems, of port h] Cons.IH by (cases r) (auto split: prod.splits)
  qed (use doConnect_net_exact [OF Cons.prems, of port h] in auto)
qed simp

lemma read_net_exact:
  assumes "net_exact E base s"
  shows "net_exact E base (snd (RC_INPUT_read_net n a s))"
  using closeConn_exact [OF assms] assms by (auto simp: RC_INPUT_read_net_def split: option.splits)

lemma rc_net_step_exact:
  assumes "net_exact E base s"
  shows "rc_net_step E port op s \<noteq> Fault Bad_descriptor
    \<and> (\<forall>s'. rc_net_step E port op s = Ok (Some s') \<longrightarrow> net_exact E base s')"
proof (cases op)
  case (In_connect hs)
  then show ?thesis using connect_net_exact [OF assms, of port hs] by (simp add: rc_net_step_def)
next
  case (In_read n a)
  then show ?thesis using read_net_exact [OF assms] by (simp add: rc_net_step_def)
next
  case (In_write bs)
  then show ?thesis using assms by (simp add: rc_net_step_def)
next
  case In_disconnect
  then show ?thesis using closeConn_exact [OF assms] by (simp add: rc_net_step_def RC_INPUT_disconnect_net_def)
qed

interpretation rc_net: input_device "rc_net_step E port" "net_exact E" for E port
  by unfold_locales (simp_all add: rc_net_step_exact)

text \<open>The functions of the GPS receiver are the same.\<close>

lemma trimble_closeConn_eq: "trimble_closeConn = closeConn"
  by (simp add: fun_eq_iff trimble_closeConn_def closeConn_def)

lemma trimble_doConnect_net_eq: "trimble_doConnect_net = doConnect_net"
  by (simp add: fun_eq_iff trimble_doConnect_net_def doConnect_net_def trimble_closeConn_eq)

lemma trimble_connect_net_eq: "TRIMBLE_INPUT_connect_net E port hs = RC_INPUT_connect_net E port hs"
proof (induction hs)
  case (Cons h hs)
  show ?case by (rule ext) (simp only: TRIMBLE_INPUT_connect_net.simps RC_INPUT_connect_net.simps
      trimble_doConnect_net_eq Cons cong: option.case_cong)
qed (simp add: fun_eq_iff)

lemma trimble_read_net_eq: "TRIMBLE_INPUT_read_net n a s = RC_INPUT_read_net n a s"
  by (cases "SOCK_recv (ni_sock s) n a (ni_lib s)")
    (simp_all add: TRIMBLE_INPUT_read_net_def RC_INPUT_read_net_def trimble_closeConn_eq)

lemma trimble_net_step_eq: "trimble_net_step E port op s = rc_net_step E port op s"
  by (cases op) (simp_all add: trimble_net_step_def rc_net_step_def trimble_connect_net_eq trimble_read_net_eq
      TRIMBLE_INPUT_disconnect_net_def RC_INPUT_disconnect_net_def trimble_closeConn_eq)

interpretation trimble_net: input_device "trimble_net_step E port" "net_exact E" for E port
  by unfold_locales (simp_all only: trimble_net_step_eq rc_net.step_closes rc_net.step_exact not_False_eq_True)

section \<open>Serial lines satisfy the contract\<close>

definition uart_owned :: "int list \<Rightarrow> uart \<Rightarrow> bool" where
  "uart_owned base s \<longleftrightarrow> owned base (u_fd s) (u_open s)"

text \<open>Between the operations the line that is polled is also the one that is read.\<close>

definition uart_exact :: "int list \<Rightarrow> uart \<Rightarrow> bool" where
  "uart_exact base s \<longleftrightarrow> uart_owned base s \<and> (u_fd s \<noteq> -1 \<longrightarrow> u_fds s = u_fd s)"

lemma uart_call_simps [simp]:
  "u_fd (uart_call c s) = u_fd s" "u_fds (uart_call c s) = u_fds s" "u_open (uart_call c s) = u_open s"
  "u_calls (uart_call c s) = u_calls s @ [c]"
  by (simp_all add: uart_call_def)

lemma closeUart_owned:
  assumes "uart_owned base s"
  shows "\<exists>s'. closeUart s = Ok s' \<and> uart_exact base s' \<and> u_fd s' = -1 \<and> u_calls s' = u_calls s"
  using assms by (auto simp: closeUart_def dev_close_def uart_owned_def uart_exact_def owned_def)

lemma dev_open_owned:
  assumes "uart_owned base s" "u_fd s = -1" "dev_open E p f md s = (fd, t)"
  shows "u_calls t = u_calls s @ [Uart_open p f md] \<and> (fd < 0 \<longrightarrow> uart_owned base (t\<lparr>u_fd := -1\<rparr>))
    \<and> (\<not> fd < 0 \<longrightarrow> uart_owned base (t\<lparr>u_fd := fd\<rparr>))"
proof -
  have "u_open s = base" "-1 \<notin> set (u_open s)" using assms(1,2) by (auto simp: uart_owned_def owned_def)
  then show ?thesis using assms(3) by (auto simp: dev_open_def uart_owned_def owned_def Let_def split: if_splits)
qed

lemma doConnect_uart_owned:
  assumes "uart_owned base s"
  shows "\<exists>ok s'. doConnect_uart E s = Ok (ok, s') \<and> uart_owned base s'
    \<and> (ok \<longrightarrow> uart_exact base s' \<and> u_fd s' \<noteq> -1 \<and> (\<exists>t. u_calls s' = u_calls s
      @ [Uart_open UART {O_RDWR} {O_NONBLOCK, O_NOCTTY, O_CLOEXEC}, Uart_set TCSANOW (rc_settings t), Uart_flush TCIOFLUSH]))"
proof -
  obtain s1 where s1: "closeUart s = Ok s1" "uart_owned base s1" "u_fd s1 = -1" "u_calls s1 = u_calls s"
    using closeUart_owned [OF assms] by (auto simp: uart_exact_def)
  obtain fd s2 where s2: "dev_open E UART {O_RDWR} {O_NONBLOCK, O_NOCTTY, O_CLOEXEC} s1 = (fd, s2)" by fastforce
  note o = dev_open_owned [OF s1(2,3) s2]
  show ?thesis
  proof (cases "fd < 0")
    case True
    then show ?thesis using s1 s2 o by (auto simp: doConnect_uart_def)
  next
    case False
    define s3 where "s3 = s2\<lparr>u_fd := fd\<rparr>"
    have s3: "uart_owned base s3" "u_fd s3 \<noteq> -1" "u_calls s3 = u_calls s @ [Uart_open UART {O_RDWR} {O_NONBLOCK, O_NOCTTY, O_CLOEXEC}]"
      using False o s1(4) by (auto simp: s3_def uart_owned_def)
    obtain c where c: "closeUart s3 = Ok c" "uart_owned base c" using closeUart_owned [OF s3(1)] by (auto simp: uart_exact_def)
    show ?thesis
    proof (cases "attr_answer E s3")
      case None
      then show ?thesis using s1 s2 False c by (auto simp: doConnect_uart_def s3_def)
    next
      case (Some t)
      define s4 where "s4 = uart_call (Uart_set TCSANOW (rc_settings t)) s3"
      have s4: "dev_set E TCSANOW (rc_settings t) s3 = (set_answer E s3, s4)" by (simp add: dev_set_def s4_def)
      have o4: "uart_owned base s4" using s3(1) by (simp add: s4_def uart_owned_def)
      obtain d where d: "closeUart s4 = Ok d" "uart_owned base d" using closeUart_owned [OF o4] by (auto simp: uart_exact_def)
      show ?thesis
      proof (cases "set_answer E s3")
        case False
        then show ?thesis using s1 s2 \<open>\<not> fd < 0\<close> Some s4 d by (auto simp: doConnect_uart_def s3_def)
      next
        case True
        then show ?thesis
          using s1 s2 \<open>\<not> fd < 0\<close> Some s4 o4 s3
          by (simp add: doConnect_uart_def flip: s3_def) (auto simp: s4_def uart_exact_def uart_owned_def)
      qed
    qed
  qed
qed

lemma connect_uart_exact:
  assumes "uart_owned base s"
  shows "\<exists>r. RC_INPUT_connect_uart E n s = Ok r \<and> (\<forall>s'. r = Some s' \<longrightarrow> uart_exact base s' \<and> u_fd s' \<noteq> -1
    \<and> (\<exists>cs t. u_calls s' = cs
      @ [Uart_open UART {O_RDWR} {O_NONBLOCK, O_NOCTTY, O_CLOEXEC}, Uart_set TCSANOW (rc_settings t), Uart_flush TCIOFLUSH]))"
  using assms
proof (induction n arbitrary: s)
  case (Suc n)
  obtain ok s1 where s1: "doConnect_uart E s = Ok (ok, s1)" "uart_owned base s1"
    "ok \<longrightarrow> uart_exact base s1 \<and> u_fd s1 \<noteq> -1 \<and> (\<exists>t. u_calls s1 = u_calls s
      @ [Uart_open UART {O_RDWR} {O_NONBLOCK, O_NOCTTY, O_CLOEXEC}, Uart_set TCSANOW (rc_settings t), Uart_flush TCIOFLUSH])"
    using doConnect_uart_owned [OF Suc.prems, of E] by blast
  then show ?case using Suc.IH [OF s1(2)] by (cases ok) auto
qed simp

text \<open>What the answers of \<open>read\<close> amount to: waiting for the first that brings bytes or an error.\<close>

definition waits :: "read_answer \<Rightarrow> bool" where
  "waits a \<longleftrightarrow> a = Read_again \<or> a = Read_bytes []"

lemma uart_exact_open:
  assumes "uart_exact base s"
  shows "u_fd s \<in> set (u_open s) \<longleftrightarrow> u_fd s \<noteq> -1"
  using assms by (auto simp: uart_exact_def uart_owned_def owned_def)

lemma uart_exact_call: "uart_exact base s \<Longrightarrow> uart_exact base (uart_call c s)"
  by (simp add: uart_exact_def uart_owned_def)

lemma read_uart_exact:
  assumes "uart_exact base s"
  shows "\<exists>r. RC_INPUT_read_uart n as s = Ok r \<and> (\<forall>bs s'. r = Some (bs, s') \<longrightarrow> uart_exact base s')"
  using assms
proof (induction as arbitrary: s)
  case Nil
  obtain c where "closeUart s = Ok c" "uart_exact base c"
    using closeUart_owned [of base s] Nil by (auto simp: uart_exact_def)
  then show ?case by (simp add: RC_INPUT_read_uart.simps)
next
  case (Cons a as)
  obtain c where c: "closeUart s = Ok c" "uart_exact base c"
    using closeUart_owned [of base s] Cons.prems by (auto simp: uart_exact_def)
  then show ?case
    using Cons.IH [OF uart_exact_call [OF Cons.prems]] Cons.prems
    by (cases a) (simp_all add: RC_INPUT_read_uart.simps [of n "b # as" for b])
qed

lemma read_uart_waits:
  assumes "uart_exact base s" "u_fd s \<noteq> -1" "list_all waits ws"
  shows "RC_INPUT_read_uart n (ws @ as) s
    = RC_INPUT_read_uart n as (s\<lparr>u_calls := u_calls s @ replicate (length ws) (Uart_poll (u_fd s))\<rparr>)"
  using assms
proof (induction ws arbitrary: s)
  case (Cons w ws)
  define t where "t = uart_call (Uart_poll (u_fds s)) s"
  have t: "uart_exact base t" "u_fd t \<noteq> -1" using Cons.prems by (simp_all add: t_def uart_exact_call)
  have fds: "u_fds s = u_fd s" using Cons.prems by (simp add: uart_exact_def)
  have "RC_INPUT_read_uart n ((w # ws) @ as) s = RC_INPUT_read_uart n (ws @ as) t"
    using Cons.prems uart_exact_open [OF Cons.prems(1)]
    by (auto simp: RC_INPUT_read_uart.simps [of n "w # ws @ as"] waits_def t_def)
  also have "\<dots> = RC_INPUT_read_uart n as (t\<lparr>u_calls := u_calls t @ replicate (length ws) (Uart_poll (u_fd t))\<rparr>)"
    using Cons.IH [OF t] Cons.prems(3) by simp
  finally show ?case by (simp add: t_def uart_call_def fds)
qed simp

lemma read_uart_answer:
  assumes "uart_exact base s" "u_fd s \<noteq> -1" "\<not> waits a" "0 < n"
  shows "\<exists>s'. RC_INPUT_read_uart n (a # as) s = Ok (Some (case a of Read_bytes bs \<Rightarrow> take n bs | _ \<Rightarrow> [], s'))
    \<and> u_calls s' = u_calls s \<and> u_fd s' = (if a = Read_error then -1 else u_fd s)"
proof -
  obtain c where c: "closeUart s = Ok c" "u_fd c = -1" "u_calls c = u_calls s"
    using closeUart_owned [of base s] assms(1) by (auto simp: uart_exact_def)
  have "a = Read_error \<or> (\<exists>b bs. a = Read_bytes (b # bs))"
    using assms(3) by (cases a) (auto simp: waits_def neq_Nil_conv)
  then show ?thesis
    using c assms uart_exact_open [OF assms(1)] by (auto simp: RC_INPUT_read_uart.simps [of n "a # as"])
qed

lemma rc_uart_step_exact:
  assumes "uart_exact base s"
  shows "rc_uart_step E op s \<noteq> Fault Bad_descriptor
    \<and> (\<forall>s'. rc_uart_step E op s = Ok (Some s') \<longrightarrow> uart_exact base s')"
proof (cases op)
  case (In_connect n)
  have "uart_owned base s" using assms by (simp add: uart_exact_def)
  from connect_uart_exact [OF this, of E n] obtain r where
    "RC_INPUT_connect_uart E n s = Ok r" "\<forall>s'. r = Some s' \<longrightarrow> uart_exact base s'" by blast
  then show ?thesis using In_connect by (simp add: rc_uart_step_def)
next
  case (In_read n as)
  obtain r where "RC_INPUT_read_uart n as s = Ok r" "\<forall>bs s'. r = Some (bs, s') \<longrightarrow> uart_exact base s'"
    using read_uart_exact [OF assms] by blast
  then show ?thesis using In_read by (auto simp: rc_uart_step_def)
next
  case (In_write bs)
  then show ?thesis
    using assms by (simp add: rc_uart_step_def RC_INPUT_write_uart_def dev_write_def uart_exact_call)
next
  case In_disconnect
  obtain t where "closeUart s = Ok t" "uart_exact base t"
    using closeUart_owned [of base s] assms by (auto simp: uart_exact_def)
  then show ?thesis using In_disconnect by (simp add: rc_uart_step_def RC_INPUT_disconnect_uart_def)
qed

interpretation rc_uart: input_device "rc_uart_step E" uart_exact for E
  by unfold_locales (simp_all add: rc_uart_step_exact)

subsection \<open>GPS receiver\<close>

lemma trimble_closeUart_eq: "trimble_closeUart = closeUart"
  by (simp add: fun_eq_iff trimble_closeUart_def closeUart_def)

lemma trimble_read_uart_eq: "TRIMBLE_INPUT_read_uart n as s = RC_INPUT_read_uart n as s"
proof (induction as arbitrary: s)
  case Nil
  then show ?case by (simp add: TRIMBLE_INPUT_read_uart.simps RC_INPUT_read_uart.simps trimble_closeUart_eq)
next
  case (Cons a as)
  then show ?case
    by (cases a) (simp_all add: TRIMBLE_INPUT_read_uart.simps [of n "b # as" for b]
        RC_INPUT_read_uart.simps [of n "b # as" for b] trimble_closeUart_eq)
qed

text \<open>What is sent to the line of the GPS receiver before it is used.\<close>

definition trimble_setup :: "termios \<Rightarrow> uart_call list" where
  "trimble_setup t = [Uart_open trimble_UART {O_RDWR} {O_NONBLOCK, O_NOCTTY, O_CLOEXEC}, Uart_set TCSANOW (trimble_slow t),
     Uart_flush TCIOFLUSH, Uart_write setSpeed, Uart_set TCSADRAIN (trimble_fast (trimble_slow t)), Uart_write setSpeed,
     Uart_drain, Uart_flush TCIFLUSH]"

lemma trimble_write_uart: "snd (TRIMBLE_INPUT_write_uart E bs s) = uart_call (Uart_write bs) s"
  by (simp add: TRIMBLE_INPUT_write_uart_def dev_write_def)

lemma uart_owned_call: "uart_owned base s \<Longrightarrow> uart_owned base (uart_call c s)"
  by (simp add: uart_owned_def)

lemma trimble_set_up_owned:
  assumes "uart_owned base s" "u_fd s \<noteq> -1"
  shows "\<exists>ok s'. trimble_set_up E t s = Ok (ok, s') \<and> uart_owned base s'
    \<and> (ok \<longrightarrow> uart_exact base s' \<and> u_fd s' \<noteq> -1 \<and> u_calls s' = u_calls s @ tl (trimble_setup t))"
proof -
  have closes: "\<exists>d. closeUart u = Ok d \<and> uart_owned base d" if "uart_owned base u" for u
    using closeUart_owned [OF that] by (auto simp: uart_exact_def)
  define s1 where "s1 = uart_call (Uart_set TCSANOW (trimble_slow t)) s"
  obtain n1 s2 where s2: "TRIMBLE_INPUT_write_uart E setSpeed (uart_call (Uart_flush TCIOFLUSH) s1) = (n1, s2)" by fastforce
  define s3 where "s3 = uart_call (Uart_set TCSADRAIN (trimble_fast (trimble_slow t))) s2"
  obtain n2 s4 where s4: "TRIMBLE_INPUT_write_uart E setSpeed s3 = (n2, s4)" by fastforce
  have w: "s2 = uart_call (Uart_write setSpeed) (uart_call (Uart_flush TCIOFLUSH) s1)" "s4 = uart_call (Uart_write setSpeed) s3"
    using trimble_write_uart [of E setSpeed] s2 s4 by (metis snd_conv)+
  have o: "uart_owned base s1" "uart_owned base s2" "uart_owned base s3" "uart_owned base s4"
    using assms(1) by (simp_all add: w s1_def s3_def uart_owned_call)
  have calls: "u_fd s4 = u_fd s" "u_calls s4 = u_calls s @ [Uart_set TCSANOW (trimble_slow t), Uart_flush TCIOFLUSH,
      Uart_write setSpeed, Uart_set TCSADRAIN (trimble_fast (trimble_slow t)), Uart_write setSpeed]"
    by (simp_all add: w s1_def s3_def)
  obtain d1 d3 where d: "closeUart s1 = Ok d1" "uart_owned base d1" "closeUart s3 = Ok d3" "uart_owned base d3"
    using closes [OF o(1)] closes [OF o(3)] by blast
  have run: "trimble_set_up E t s =
    (if \<not> set_answer E s then Ok (False, d1)
     else if n1 \<noteq> length setSpeed then Ok (False, s2)
     else if \<not> set_answer E s2 then Ok (False, d3)
     else if n2 \<noteq> length setSpeed then Ok (False, s4)
     else Ok (True, (uart_call (Uart_flush TCIFLUSH) (uart_call Uart_drain s4))\<lparr>u_fds := u_fd s4\<rparr>))"
    using s2 s4 d by (simp add: trimble_set_up_def dev_set_def Let_def trimble_closeUart_eq flip: s1_def s3_def)
  show ?thesis
    unfolding run using d o assms(2) calls
    by (auto simp: uart_exact_def uart_owned_def trimble_setup_def)
qed

lemma trimble_doConnect_uart_owned:
  assumes "uart_owned base s"
  shows "\<exists>ok s'. trimble_doConnect_uart E s = Ok (ok, s') \<and> uart_owned base s'
    \<and> (ok \<longrightarrow> uart_exact base s' \<and> u_fd s' \<noteq> -1 \<and> (\<exists>t. u_calls s' = u_calls s @ trimble_setup t))"
proof -
  obtain s1 where s1: "closeUart s = Ok s1" "uart_owned base s1" "u_fd s1 = -1" "u_calls s1 = u_calls s"
    using closeUart_owned [OF assms] by (auto simp: uart_exact_def)
  obtain fd s2 where s2: "dev_open E trimble_UART {O_RDWR} {O_NONBLOCK, O_NOCTTY, O_CLOEXEC} s1 = (fd, s2)" by fastforce
  note o = dev_open_owned [OF s1(2,3) s2]
  show ?thesis
  proof (cases "fd < 0")
    case True
    then show ?thesis using s1 s2 o by (auto simp: trimble_doConnect_uart_def trimble_closeUart_eq)
  next
    case False
    define s3 where "s3 = s2\<lparr>u_fd := fd\<rparr>"
    have s3: "uart_owned base s3" "u_fd s3 \<noteq> -1" "u_calls s3 = u_calls s @ [hd (trimble_setup undefined)]"
      using False o s1(4) by (auto simp: s3_def trimble_setup_def)
    show ?thesis
    proof (cases "attr_answer E s3")
      case None
      obtain c where "closeUart s3 = Ok c" "uart_owned base c" using closeUart_owned [OF s3(1)] by (auto simp: uart_exact_def)
      then show ?thesis using s1 s2 False None by (auto simp: trimble_doConnect_uart_def trimble_closeUart_eq s3_def)
    next
      case (Some t)
      have "trimble_doConnect_uart E s = trimble_set_up E t s3"
        using s1 s2 False Some by (simp add: trimble_doConnect_uart_def trimble_closeUart_eq s3_def)
      then show ?thesis
        using trimble_set_up_owned [OF s3(1,2), of E t] s3(3) by (auto simp: trimble_setup_def)
    qed
  qed
qed

lemma trimble_connect_uart_exact:
  assumes "uart_owned base s"
  shows "\<exists>r. TRIMBLE_INPUT_connect_uart E n s = Ok r \<and> (\<forall>s'. r = Some s' \<longrightarrow> uart_exact base s' \<and> u_fd s' \<noteq> -1
    \<and> (\<exists>cs t. u_calls s' = cs @ trimble_setup t))"
  using assms
proof (induction n arbitrary: s)
  case (Suc n)
  obtain ok s1 where s1: "trimble_doConnect_uart E s = Ok (ok, s1)" "uart_owned base s1"
    "ok \<longrightarrow> uart_exact base s1 \<and> u_fd s1 \<noteq> -1 \<and> (\<exists>t. u_calls s1 = u_calls s @ trimble_setup t)"
    using trimble_doConnect_uart_owned [OF Suc.prems, of E] by blast
  then show ?case using Suc.IH [OF s1(2)] by (cases ok) auto
qed simp

lemma trimble_uart_step_exact:
  assumes "uart_exact base s"
  shows "trimble_uart_step E op s \<noteq> Fault Bad_descriptor
    \<and> (\<forall>s'. trimble_uart_step E op s = Ok (Some s') \<longrightarrow> uart_exact base s')"
proof (cases op)
  case (In_connect n)
  have "uart_owned base s" using assms by (simp add: uart_exact_def)
  from trimble_connect_uart_exact [OF this, of E n] obtain r where
    "TRIMBLE_INPUT_connect_uart E n s = Ok r" "\<forall>s'. r = Some s' \<longrightarrow> uart_exact base s'" by blast
  then show ?thesis using In_connect by (simp add: trimble_uart_step_def)
next
  case (In_write bs)
  then show ?thesis using assms by (simp add: trimble_uart_step_def trimble_write_uart uart_exact_call)
next
  case (In_read n as)
  then show ?thesis
    using rc_uart_step_exact [OF assms, of E "In_read n as"]
    by (simp add: trimble_uart_step_def rc_uart_step_def trimble_read_uart_eq)
next
  case In_disconnect
  then show ?thesis
    using rc_uart_step_exact [OF assms, of E In_disconnect]
    by (simp add: trimble_uart_step_def rc_uart_step_def TRIMBLE_INPUT_disconnect_uart_def
        RC_INPUT_disconnect_uart_def trimble_closeUart_eq)
qed

interpretation trimble_uart: input_device "trimble_uart_step E" uart_exact for E
  by unfold_locales (simp_all add: trimble_uart_step_exact)

section \<open>Properties\<close>

lemma read_uart_after_waits:
  assumes "uart_exact base s" "u_fd s \<noteq> -1" "list_all waits ws" "\<not> waits a" "0 < n"
  shows "\<exists>s'. RC_INPUT_read_uart n (ws @ a # rest) s = Ok (Some (case a of Read_bytes bs \<Rightarrow> take n bs | _ \<Rightarrow> [], s'))
    \<and> u_calls s' = u_calls s @ replicate (length ws) (Uart_poll (u_fd s))
    \<and> u_fd s' = (if a = Read_error then -1 else u_fd s)"
proof -
  let ?t = "s\<lparr>u_calls := u_calls s @ replicate (length ws) (Uart_poll (u_fd s))\<rparr>"
  have "uart_exact base ?t" "u_fd ?t \<noteq> -1" using assms(1,2) by (simp_all add: uart_exact_def uart_owned_def)
  from read_uart_answer [OF this assms(4,5), of rest] show ?thesis
    unfolding read_uart_waits [OF assms(1-3)] by (simp cong: if_cong)
qed


definition sample_uart_env :: uart_env where
  "sample_uart_env = \<lparr>open_answer = (\<lambda>s. if u_calls s = [] then -1 else 4),
     attr_answer = (\<lambda>s. Some \<lparr>c_iflag = {}, c_oflag = {}, c_cflag = {}, c_lflag = {ECHO}, c_ispeed = B9600, c_ospeed = B9600\<rparr>),
     set_answer = (\<lambda>s. True), write_answer = (\<lambda>s. if length (u_calls s) < 6 then 3 else 14)\<rparr>"

definition sample_uart :: uart where
  "sample_uart = \<lparr>u_fd = 0, u_fds = 0, u_open = [0], u_calls = []\<rparr>"

text \<open>The first socket cannot be created.\<close>

definition sample_net_env :: net_env where
  "sample_net_env = \<lparr>sockets = sample_env_net\<lparr>new_socket := (\<lambda>s. if sl_tried s = [] \<and> -1 \<notin> set (sl_open s) then -1 else new_socket sample_env_net s)\<rparr>,
     max_rand = 0x7fffffff\<rparr>"

definition sample_net :: net_input where
  "sample_net = \<lparr>ni_sock = 0, ni_lib = \<lparr>sl_open = [0], sl_tried = [], sl_bad = []\<rparr>, ni_rand = [5, 6, 7]\<rparr>"

lemmas sample_runs = sample_net_env_def sample_net_def sample_env_net_def RC_INPUT_init_net_def doConnect_net_def
  closeConn_def NETC_connect_def UTIL_randInt_def word_le_nat_alt inet_host_def known_family_def with_port_def
  lib_socket_def lib_connect_def lib_close_def SOCK_recv_def RC_INPUT_read_net_def rc_net_step_def
  RC_INPUT_disconnect_net_def Let_def sample_uart_env_def sample_uart_def RC_INPUT_init_uart_def doConnect_uart_def
  closeUart_def dev_open_def dev_close_def dev_set_def rc_uart_step_def RC_INPUT_read_uart.simps

lemma sample_runs_result:
  "\<exists>n'. input_session (rc_net_step sample_net_env 10003)
      [In_connect [((True, True), None), ((True, True), Some [inet_host 1]), ((True, True), Some [inet_host 1])], In_read 9 Recv_error,
       In_connect [((True, True), Some [inet_host 1])], In_read 1 (Recv_bytes [5, 6])] (RC_INPUT_init_net sample_net) = Ok (Some n')
    \<and> ni_sock n' = 3 \<and> map fst (sl_tried (ni_lib n')) = [-1, 3, 3]"
  "\<exists>u'. input_session (rc_uart_step sample_uart_env) [In_connect 3, In_read 9 [Read_again, Read_bytes [1]]]
      (RC_INPUT_init_uart sample_uart) = Ok (Some u') \<and> u_fd u' = 4"
  by (simp_all add: sample_runs numeral_3_eq_3)


text \<open>A line that was opened has been set up with the speeds and modes of its receiver, the GPS receiver
  after it was told its new speed at the old and at the new one; reading then waits on exactly this
  line until there are bytes or an error, and an error closes it.\<close>

theorem serial_lines_set_up_and_read:
  assumes "-1 \<notin> set base" "u_open s = base" "list_all waits ws" "\<not> waits a" "0 < n"
  shows "(\<forall>s1. RC_INPUT_connect_uart E k (RC_INPUT_init_uart s) = Ok (Some s1) \<longrightarrow>
      (\<exists>s' cs t. u_calls s1 = cs @ [Uart_open UART {O_RDWR} {O_NONBLOCK, O_NOCTTY, O_CLOEXEC},
            Uart_set TCSANOW (rc_settings t), Uart_flush TCIOFLUSH]
        \<and> RC_INPUT_read_uart n (ws @ a # rest) s1 = Ok (Some (case a of Read_bytes bs \<Rightarrow> take n bs | _ \<Rightarrow> [], s'))
        \<and> u_calls s' = u_calls s1 @ replicate (length ws) (Uart_poll (u_fd s1))
        \<and> u_fd s' = (if a = Read_error then -1 else u_fd s1)))
    \<and> (\<forall>s1. TRIMBLE_INPUT_connect_uart E k (TRIMBLE_INPUT_init_uart s) = Ok (Some s1) \<longrightarrow>
      (\<exists>s' cs t. u_calls s1 = cs @ trimble_setup t
        \<and> TRIMBLE_INPUT_read_uart n (ws @ a # rest) s1 = Ok (Some (case a of Read_bytes bs \<Rightarrow> take n bs | _ \<Rightarrow> [], s'))
        \<and> u_calls s' = u_calls s1 @ replicate (length ws) (Uart_poll (u_fd s1))
        \<and> u_fd s' = (if a = Read_error then -1 else u_fd s1)))"
proof (intro conjI allI impI, goal_cases)
  case (1 s1)
  have "uart_owned base (RC_INPUT_init_uart s)" using assms(1,2) by (auto simp: uart_owned_def owned_def RC_INPUT_init_uart_def)
  from connect_uart_exact [OF this, of E k] 1 show ?case
    using read_uart_after_waits [OF _ _ assms(3-5), of base s1 rest] by auto
next
  case (2 s1)
  have "uart_owned base (TRIMBLE_INPUT_init_uart s)"
    using assms(1,2) by (auto simp: uart_owned_def owned_def TRIMBLE_INPUT_init_uart_def)
  from trimble_connect_uart_exact [OF this, of E k] 2 show ?case
    using read_uart_after_waits [OF _ _ assms(3-5), of base s1 rest] by (auto simp: trimble_read_uart_eq)
qed

theorem serial_lines_set_up_and_read_witness:
  "\<exists>s1 s'. TRIMBLE_INPUT_connect_uart sample_uart_env 4 (TRIMBLE_INPUT_init_uart sample_uart) = Ok (Some s1)
    \<and> TRIMBLE_INPUT_read_uart 2 [Read_again, Read_bytes [], Read_bytes [7, 8, 9]] s1 = Ok (Some ([7, 8], s'))
    \<and> u_calls s' = u_calls s1 @ [Uart_poll 4, Uart_poll 4]"
proof -
  have "\<exists>s1. TRIMBLE_INPUT_connect_uart sample_uart_env 4 (TRIMBLE_INPUT_init_uart sample_uart) = Ok (Some s1) \<and> u_fd s1 = 4"
    by (simp add: sample_runs TRIMBLE_INPUT_init_uart_def trimble_doConnect_uart_def trimble_closeUart_def trimble_set_up_def
        TRIMBLE_INPUT_write_uart_def dev_write_def setSpeed_def numeral_eq_Suc)
  then obtain s1 where s1: "TRIMBLE_INPUT_connect_uart sample_uart_env 4 (TRIMBLE_INPUT_init_uart sample_uart) = Ok (Some s1)"
    "u_fd s1 = 4" by blast
  have w: "list_all waits [Read_again, Read_bytes []]" "\<not> waits (Read_bytes [7, 8, 9])" by (simp_all add: waits_def)
  show ?thesis
    using serial_lines_set_up_and_read [OF _ _ w, of "[0]" sample_uart 2 sample_uart_env 4 "[]"] s1
    by (auto simp: sample_uart_def numeral_eq_Suc)
qed

end
