(* ===== verification/Rc_Dummy.thy ===== *)
theory Rc_Dummy
  imports Rc_Parser_Props
begin

text \<open>
  The input that makes up frames (\<open>radarcape/dummy.c\<close>): a status frame first, then long Mode-S
  frames with random contents. The time, the random numbers and the byte of the buffer that is
  never written are parameters; how long it sleeps is not modelled.
\<close>

record dummy_input =
  dummy_first :: bool
  dummy_x :: u64
  dummy_x2 :: u64

definition RC_INPUT_init_dummy :: "dummy_input \<Rightarrow> dummy_input" where
  "RC_INPUT_init_dummy s = \<lparr>dummy_first = True, dummy_x = 0, dummy_x2 = 0\<rparr>"

definition dummy_mlat :: "u64 \<Rightarrow> u64 \<Rightarrow> u64" where
  "dummy_mlat sec nsec = push_bit 30 (sec mod (60 * 60 * 24)) OR nsec"

text \<open>\<open>be64toh\<close> leaves the most significant byte first on every host.\<close>

definition dummy_time :: "u64 \<Rightarrow> u64 \<Rightarrow> u8 list" where
  "dummy_time sec nsec = take 6 (drop 2 (be_bytes 8 (dummy_mlat sec nsec)))"

definition dummy_mbuf :: "(nat \<Rightarrow> u32) \<Rightarrow> u8 \<Rightarrow> bool \<Rightarrow> u8 list" where
  "dummy_mbuf rnd junk first =
    (if first then replicate 15 0
     else [ucast (rnd 0 AND 0xff) - 0x7f, 0x8a] @ map (\<lambda>i. ucast (rnd (i - 1) AND 0xff)) [2..<14] @ [junk])"

definition sizeof_ebuf :: nat where "sizeof_ebuf = 43"

definition RC_INPUT_read_dummy :: "u64 \<times> u64 \<Rightarrow> (nat \<Rightarrow> u32) \<Rightarrow> u8 \<Rightarrow> nat \<Rightarrow> dummy_input \<Rightarrow> fault + u8 list \<times> dummy_input" where
  "RC_INPUT_read_dummy tp rnd junk bufLen s =
    (let ebuf = [BEAST_SYNC, if dummy_first s then 0x34 else 0x33] @ BEAST_encode (dummy_time (fst tp) (snd tp))
           @ BEAST_encode (dummy_mbuf rnd junk (dummy_first s))
     in if sizeof_ebuf < length ebuf then Fault Out_of_bounds
        else Ok (take bufLen ebuf, s\<lparr>dummy_first := False, dummy_x := (dummy_x s + 1) mod 53, dummy_x2 := (dummy_x2 s + 1) mod 401\<rparr>))"

definition RC_INPUT_write_dummy :: "u8 list \<Rightarrow> nat" where
  "RC_INPUT_write_dummy bs = length bs"

section \<open>Lengths\<close>

lemma length_dummy_time: "length (dummy_time sec nsec) = 6"
  by (simp add: dummy_time_def)

lemma length_dummy_mbuf: "length (dummy_mbuf rnd junk b) = 15"
  by (simp add: dummy_mbuf_def)

lemma dummy_mbuf_at_1: "dummy_mbuf rnd junk b ! 1 \<noteq> BEAST_SYNC"
  by (simp add: dummy_mbuf_def BEAST_SYNC_def)

lemma count_list_less:
  assumes "i < length xs" "xs ! i \<noteq> x"
  shows "count_list xs x < length xs"
proof -
  have "xs = take i xs @ xs ! i # drop (Suc i) xs" using assms(1) by (rule id_take_nth_drop)
  then have "count_list xs x = count_list (take i xs) x + count_list (drop (Suc i) xs) x"
    using assms(2) by (metis count_list.simps(2) count_list_append)
  also have "\<dots> \<le> length (take i xs) + length (drop (Suc i) xs)"
    by (intro add_mono count_list_le_length)
  also have "\<dots> < length xs" using assms(1) by simp
  finally show ?thesis .
qed

text \<open>The second byte of the buffer is never escaped, so the encoded frame just fits.\<close>

lemma dummy_frame_fits:
  "length (BEAST_encode (dummy_time sec nsec)) + length (BEAST_encode (dummy_mbuf rnd junk b)) + 2 \<le> sizeof_ebuf"
proof -
  have "count_list (dummy_mbuf rnd junk b) BEAST_SYNC < 15"
    using count_list_less [OF _ dummy_mbuf_at_1, of rnd junk b] by (simp add: length_dummy_mbuf)
  moreover have "count_list (dummy_time sec nsec) BEAST_SYNC \<le> 6"
    using count_list_le_length [of "dummy_time sec nsec"] by (simp add: length_dummy_time)
  ultimately show ?thesis
    by (simp add: BEAST_encode_eq_escape length_escape length_dummy_time length_dummy_mbuf sizeof_ebuf_def)
qed

section \<open>Properties\<close>

text \<open>The frames made up always fit the array they are built in, and the parser reads each of them back
  with its time and contents, a status frame first and long Mode-S frames from then on.\<close>

theorem dummy_frames_intact:
  assumes "sizeof_ebuf \<le> bufLen"
  shows "\<exists>bs s'. RC_INPUT_read_dummy tp rnd junk bufLen s = Ok (bs, s') \<and> \<not> dummy_first s'
    \<and> (\<forall>c rest. chunks_ok c \<longrightarrow> flat c = bs @ rest \<longrightarrow>
        (\<exists>raw_d d c'. INPUT_getFrame bo junk' c = (Some (raw_d, d), c')
          \<and> frameType d = (if dummy_first s then OPENSKY_FRAME_TYPE_STATUS else OPENSKY_FRAME_TYPE_MODE_S_LONG)
          \<and> mlat d = be_word (dummy_time (fst tp) (snd tp))
          \<and> siglevel d # payload d = dummy_mbuf rnd junk (dummy_first s)
          \<and> flat c' = rest \<and> rc_stats c' = rc_stats c))"
proof -
  let ?t = "dummy_time (fst tp) (snd tp)" and ?m = "dummy_mbuf rnd junk (dummy_first s)"
  let ?type = "if dummy_first s then OPENSKY_FRAME_TYPE_STATUS else OPENSKY_FRAME_TYPE_MODE_S_LONG"
  let ?e = "BEAST_SYNC # ?type # BEAST_encode ?t @ BEAST_encode ?m"
  let ?s = "s\<lparr>dummy_first := False, dummy_x := (dummy_x s + 1) mod 53, dummy_x2 := (dummy_x2 s + 1) mod 401\<rparr>"
  have "length ?e \<le> sizeof_ebuf" using dummy_frame_fits [of "fst tp" "snd tp" rnd junk "dummy_first s"] by simp
  then have run: "RC_INPUT_read_dummy tp rnd junk bufLen s = Ok (?e, ?s)"
    using assms by (simp add: RC_INPUT_read_dummy_def Let_def OPENSKY_FRAME_TYPE_MODE_S_LONG_def OPENSKY_FRAME_TYPE_STATUS_def)
  have "length ?m = Suc 14" by (simp add: length_dummy_mbuf)
  then obtain sig pl where m: "?m = sig # pl" "length pl = 14" by (auto simp only: length_Suc_conv)
  have six: "take 6 (?t @ [sig]) = ?t" "(?t @ [sig]) ! 6 = sig" by (simp_all add: length_dummy_time nth_append)
  have n: "frame_payload_len ?type = Some (length pl)" "length (?t @ [sig]) = 7"
    by (simp_all add: frame_payload_len_def m OPENSKY_FRAME_TYPE_MODE_AC_def OPENSKY_FRAME_TYPE_MODE_S_SHORT_def
        OPENSKY_FRAME_TYPE_MODE_S_LONG_def OPENSKY_FRAME_TYPE_STATUS_def length_dummy_time)
  show ?thesis
  proof (rule exI [of _ ?e], rule exI [of _ ?s], intro conjI allI impI)
    show "RC_INPUT_read_dummy tp rnd junk bufLen s = Ok (?e, ?s)" by (rule run)
    show "\<not> dummy_first ?s" by simp
    fix c rest assume c: "chunks_ok c" "flat c = ?e @ rest"
    then have "flat c = BEAST_SYNC # ?type # BEAST_encode ((?t @ [sig]) @ pl) @ rest"
      using m by (simp add: BEAST_encode_eq_escape)
    from getFrame_roundtrip [OF c(1) this n, of bo junk'] show "\<exists>raw_d d c'. INPUT_getFrame bo junk' c = (Some (raw_d, d), c')
        \<and> frameType d = ?type \<and> mlat d = be_word ?t \<and> siglevel d # payload d = ?m \<and> flat c' = rest \<and> rc_stats c' = rc_stats c"
      unfolding six m by blast
  qed
qed

definition sample_dummy :: dummy_input where
  "sample_dummy = \<lparr>dummy_first = False, dummy_x = 52, dummy_x2 = 9\<rparr>"

theorem dummy_frames_intact_witness:
  "\<exists>bs s' raw_d d c'. RC_INPUT_read_dummy (86401, 7) (\<lambda>i. 0x1a) 0x1a 100 (RC_INPUT_init_dummy sample_dummy) = Ok (bs, s')
    \<and> INPUT_getFrame Little_endian 0 (sample_rc [bs @ [1, 2]]) = (Some (raw_d, d), c')
    \<and> frameType d = OPENSKY_FRAME_TYPE_STATUS \<and> siglevel d # payload d = replicate 15 0 \<and> flat c' = [1, 2]"
proof -
  have n: "sizeof_ebuf \<le> 100" by (simp add: sizeof_ebuf_def)
  have first: "dummy_first (RC_INPUT_init_dummy sample_dummy) = True" "dummy_mbuf (\<lambda>i. 0x1a) 0x1a True = replicate 15 0"
    by (simp_all add: RC_INPUT_init_dummy_def dummy_mbuf_def)
  from dummy_frames_intact [OF n, of "(86401, 7)" "\<lambda>i. 0x1a" "0x1a" "RC_INPUT_init_dummy sample_dummy" Little_endian 0]
  obtain bs s' where r: "RC_INPUT_read_dummy (86401, 7) (\<lambda>i. 0x1a) 0x1a 100 (RC_INPUT_init_dummy sample_dummy) = Ok (bs, s')"
    and f: "\<And>c rest. chunks_ok c \<Longrightarrow> flat c = bs @ rest \<Longrightarrow> \<exists>raw_d d c'. INPUT_getFrame Little_endian 0 c = (Some (raw_d, d), c')
      \<and> frameType d = OPENSKY_FRAME_TYPE_STATUS \<and> siglevel d # payload d = replicate 15 0 \<and> flat c' = rest"
    unfolding simp_thms if_True first by (elim exE conjE) (rule that, assumption, blast)
  have "chunks_ok (sample_rc [bs @ [1, 2]])" "flat (sample_rc [bs @ [1, 2]]) = bs @ [1, 2]" by (simp_all add: sample_rc_facts)
  from f [OF this] show ?thesis using r by blast
qed

end
