(* ===== verification/Util_Proc.thy ===== *)
theory Util_Proc
  imports Util_Cstring Util_Endec
begin

text \<open>
  Starting other programs (\<open>util/proc.c\<close>) and the talkback packets that do so
  (\<open>radarcape/tb-misc.c\<close>, \<open>radarcape/tb-rshell.c\<close>). A call that forks continues in two processes;
  the model yields the list of all of them, each with its calls of the operating system and how it
  ends.
\<close>

section \<open>Printing a command line\<close>

definition sizeof_cmdline :: nat where "sizeof_cmdline = 1000"

definition write_at :: "nat \<Rightarrow> u8 list \<Rightarrow> u8 list \<Rightarrow> u8 list" where
  "write_at p bs buf = take p buf @ bs @ drop (p + length bs) buf"

text \<open>\<open>memccpy (ptr, arg, 0, n)\<close> at offset \<open>p\<close>: the argument is copied up to and with its NUL, but at
  most \<open>n\<close> bytes; the result is the position behind the NUL, if it was copied.\<close>

definition memccpy :: "u8 list \<Rightarrow> nat \<Rightarrow> u8 list \<Rightarrow> nat \<Rightarrow> u8 list \<times> nat option" where
  "memccpy buf p arg n =
    (let src = take n (arg @ [0])
     in (write_at p src buf, if length arg < n then Some (p + length src) else None))"

fun cmdline_loop :: "u8 list list \<Rightarrow> nat option \<Rightarrow> u8 list \<Rightarrow> u8 list list \<times> nat option \<times> u8 list" where
  "cmdline_loop [] ptr buf = ([], ptr, buf)"
| "cmdline_loop args None buf = (args, None, buf)"
| "cmdline_loop (arg # args) (Some p) buf =
    (if p = sizeof_cmdline then (arg # args, Some p, buf)
     else
       let buf = buf[p - 1 := 32]; (buf, ptr) = memccpy buf p arg (sizeof_cmdline - p)
       in cmdline_loop args ptr buf)"

text \<open>What \<open>%s\<close> prints: the bytes before the first NUL; without one it reads on behind the array.\<close>

definition read_cstring :: "u8 list \<Rightarrow> fault + u8 list" where
  "read_cstring buf = (if 0 \<in> set buf then Ok (takeWhile (\<lambda>b. b \<noteq> 0) buf) else Fault Out_of_bounds)"

text \<open>\<open>init\<close> is what the array holds before; the result is what is logged behind \<open>Executing\<close>.\<close>

definition printCmdLine :: "u8 list \<Rightarrow> u8 list list \<Rightarrow> fault + u8 list" where
  "printCmdLine init argv =
    (let buf = init[0 := 0]; (args, ptr, buf) = cmdline_loop argv (Some 1) buf;
         buf = (if args \<noteq> [] \<and> (ptr = None \<or> ptr = Some sizeof_cmdline)
           then write_at (sizeof_cmdline - 4) (ascii ''...'' @ [0]) buf else buf)
     in read_cstring buf)"

section \<open>Specification\<close>

text \<open>Every argument behind a blank.\<close>

definition cmd_line :: "u8 list list \<Rightarrow> u8 list" where
  "cmd_line argv = concat (map (\<lambda>a. 32 # a) argv)"

lemma cmd_line_simps [simp]: "cmd_line [] = []" "cmd_line (a # as) = 32 # a @ cmd_line as"
  by (simp_all add: cmd_line_def)

lemma length_write_at [simp]: "p + length bs \<le> length buf \<Longrightarrow> length (write_at p bs buf) = length buf"
  by (simp add: write_at_def)

text \<open>The buffer while everything has fitted: the line so far and its NUL.\<close>

definition holds :: "u8 list \<Rightarrow> u8 list \<Rightarrow> bool" where
  "holds line buf \<longleftrightarrow> length buf = sizeof_cmdline \<and> take (length line + 1) buf = line @ [0] \<and> length line < sizeof_cmdline"

lemma holds_step:
  assumes "holds line buf" "length line + 1 < sizeof_cmdline"
  shows "length line + length arg + 1 < sizeof_cmdline \<Longrightarrow>
      \<exists>buf'. memccpy (buf[length line := 32]) (length line + 1) arg (sizeof_cmdline - (length line + 1))
        = (buf', Some (length line + length arg + 2)) \<and> holds (line @ 32 # arg) buf'"
    and "\<not> length line + length arg + 1 < sizeof_cmdline \<Longrightarrow>
      memccpy (buf[length line := 32]) (length line + 1) arg (sizeof_cmdline - (length line + 1))
        = (take sizeof_cmdline (line @ 32 # arg), None)"
proof -
  have buf: "length buf = sizeof_cmdline" "take (length line + 1) buf = line @ [0]" using assms(1) by (simp_all add: holds_def)
  have l: "length line < length buf" using assms(2) buf(1) by simp
  have "take (length line) buf = line"
    using arg_cong [OF buf(2), of "take (length line)"] by simp
  then have pre: "take (length line + 1) (buf[length line := 32]) = line @ [32]"
    using l by (simp add: take_Suc_conv_app_nth)
  show "\<exists>buf'. memccpy (buf[length line := 32]) (length line + 1) arg (sizeof_cmdline - (length line + 1))
        = (buf', Some (length line + length arg + 2)) \<and> holds (line @ 32 # arg) buf'"
    if "length line + length arg + 1 < sizeof_cmdline"
    using that assms(2) pre buf(1)
    by (auto simp: memccpy_def write_at_def holds_def Let_def sizeof_cmdline_def)
  show "memccpy (buf[length line := 32]) (length line + 1) arg (sizeof_cmdline - (length line + 1))
        = (take sizeof_cmdline (line @ 32 # arg), None)"
    if "\<not> length line + length arg + 1 < sizeof_cmdline"
  proof -
    obtain k where k: "sizeof_cmdline = length line + Suc k" "k \<le> length arg"
    proof (rule that [of "sizeof_cmdline - length line - 1"])
      show "sizeof_cmdline = length line + Suc (sizeof_cmdline - length line - 1)" using assms(2) by simp
      show "sizeof_cmdline - length line - 1 \<le> length arg" using \<open>\<not> length line + length arg + 1 < sizeof_cmdline\<close> by simp
    qed
    have "sizeof_cmdline - length line = Suc k" "sizeof_cmdline - Suc (length line) = k" using k(1) by simp_all
    then show ?thesis using pre buf(1) k(2) by (simp add: memccpy_def write_at_def Let_def)
  qed
qed

text \<open>The line is printed whole if it fits; otherwise its end is cut and marked, unless it is the last
  argument that does not fit: then the array is left without a NUL.\<close>

definition cmdline_spec :: "u8 list \<Rightarrow> u8 list list \<Rightarrow> fault + u8 list" where
  "cmdline_spec line argv =
    (let full = line @ cmd_line argv
     in if length full < sizeof_cmdline then Ok full
        else if length (line @ cmd_line (butlast argv)) + 1 < sizeof_cmdline then Fault Out_of_bounds
        else Ok (take (sizeof_cmdline - 4) full @ ascii ''...''))"

definition finish_cmdline :: "u8 list list \<times> nat option \<times> u8 list \<Rightarrow> fault + u8 list" where
  "finish_cmdline r = (case r of (args, ptr, buf) \<Rightarrow>
    read_cstring (if args \<noteq> [] \<and> (ptr = None \<or> ptr = Some sizeof_cmdline)
      then write_at (sizeof_cmdline - 4) (ascii ''...'' @ [0]) buf else buf))"

lemma read_cstring_prefix: "0 \<notin> set xs \<Longrightarrow> read_cstring (xs @ 0 # ys) = Ok xs"
  by (simp add: read_cstring_def takeWhile_append)

lemma read_cstring_none: "0 \<notin> set xs \<Longrightarrow> read_cstring xs = Fault Out_of_bounds"
  by (simp add: read_cstring_def)

lemma holds_read: "holds line buf \<Longrightarrow> 0 \<notin> set line \<Longrightarrow> read_cstring buf = Ok line"
  using read_cstring_prefix [of line "drop (length line + 1) buf"]
  by (metis append.assoc append_Cons append_Nil append_take_drop_id holds_def)

text \<open>Marking a line that was cut.\<close>

lemma finish_cut:
  assumes "0 \<notin> set line" "sizeof_cmdline - 4 \<le> length line" "length buf = sizeof_cmdline"
    and "take (sizeof_cmdline - 4) buf = take (sizeof_cmdline - 4) line" "args \<noteq> []" "ptr = None \<or> ptr = Some sizeof_cmdline"
  shows "finish_cmdline (args, ptr, buf) = Ok (take (sizeof_cmdline - 4) line @ ascii ''...'')"
proof -
  have "write_at (sizeof_cmdline - 4) (ascii ''...'' @ [0]) buf = (take (sizeof_cmdline - 4) line @ ascii ''...'') @ [0]"
    using assms(3,4) by (simp add: write_at_def ascii_def sizeof_cmdline_def)
  moreover have "0 \<notin> set (take (sizeof_cmdline - 4) line @ ascii ''...'')"
    using assms(1) by (auto simp: ascii_def dest: in_set_takeD)
  ultimately show ?thesis
    using assms(5,6) read_cstring_prefix [of "take (sizeof_cmdline - 4) line @ ascii ''...''" "[]"]
    by (simp add: finish_cmdline_def)
qed

lemma cmd_line_append: "cmd_line (as @ bs) = cmd_line as @ cmd_line bs"
  by (simp add: cmd_line_def)

lemma cmd_line_clean: "\<forall>a\<in>set argv. 0 \<notin> set a \<Longrightarrow> 0 \<notin> set (cmd_line argv)"
  by (auto simp: cmd_line_def)

lemma take_prefix: "take n xs = ys @ zs \<Longrightarrow> k \<le> length ys \<Longrightarrow> k \<le> n \<Longrightarrow> take k xs = take k ys"
  by (metis append_Nil2 diff_is_0_eq min.absorb1 take0 take_append take_take)

lemma take_cut: "k \<le> n \<Longrightarrow> k \<le> length xs \<Longrightarrow> take k (take n xs) = take k (xs @ ys)"
  by (simp add: min_def)

lemma cmdline_loop_spec:
  assumes "holds line buf" "0 \<notin> set line" "\<forall>a\<in>set argv. 0 \<notin> set a"
  shows "finish_cmdline (cmdline_loop argv (Some (length line + 1)) buf) = cmdline_spec line argv"
  using assms
proof (induction argv arbitrary: line buf)
  case Nil
  then show ?case using holds_read [OF Nil(1,2)] by (simp add: finish_cmdline_def cmdline_spec_def holds_def)
next
  case (Cons a as)
  have clean: "0 \<notin> set (line @ cmd_line (a # as))" using Cons.prems(2) cmd_line_clean [OF Cons.prems(3)] by simp
  have buf: "length buf = sizeof_cmdline" "take (length line + 1) buf = line @ [0]" using Cons.prems(1) by (simp_all add: holds_def)
  show ?case
  proof (cases "length line + 1 = sizeof_cmdline")
    case True
    have "take (sizeof_cmdline - 4) buf = take (sizeof_cmdline - 4) (line @ cmd_line (a # as))"
      using take_prefix [OF buf(2), of "sizeof_cmdline - 4"] True by (simp add: sizeof_cmdline_def)
    from finish_cut [OF clean _ buf(1) this, of "a # as" "Some sizeof_cmdline"] True show ?thesis
      by (auto simp: cmdline_spec_def Let_def)
  next
    case False
    then have l: "length line + 1 < sizeof_cmdline" using Cons.prems(1) by (simp add: holds_def)
    show ?thesis
    proof (cases "length line + length a + 1 < sizeof_cmdline")
      case True
      then obtain buf' where b: "memccpy (buf[length line := 32]) (length line + 1) a (sizeof_cmdline - (length line + 1))
          = (buf', Some (length line + length a + 2))" "holds (line @ 32 # a) buf'"
        using holds_step(1) [OF Cons.prems(1) l] by blast
      have "finish_cmdline (cmdline_loop as (Some (length (line @ 32 # a) + 1)) buf') = cmdline_spec (line @ 32 # a) as"
        by (rule Cons.IH [OF b(2)]) (use Cons.prems in auto)
      moreover have "cmdline_spec (line @ 32 # a) as = cmdline_spec line (a # as)"
        using True by (cases as) (auto simp: cmdline_spec_def Let_def)
      ultimately show ?thesis using b False by simp
    next
      case long: False
      let ?b = "take sizeof_cmdline (line @ 32 # a)"
      have run: "cmdline_loop (a # as) (Some (length line + 1)) buf = (as, None, ?b)"
        using holds_step(2) [OF Cons.prems(1) l long] False by (cases as) simp_all
      have b: "length ?b = sizeof_cmdline" "0 \<notin> set ?b" using long clean by (auto dest: in_set_takeD)
      show ?thesis
      proof (cases as)
        case Nil
        then show ?thesis
          using run b(2) l long read_cstring_none [OF b(2)] by (simp add: finish_cmdline_def cmdline_spec_def Let_def)
      next
        case (Cons a' as')
        have "take (sizeof_cmdline - 4) ?b = take (sizeof_cmdline - 4) (line @ cmd_line (a # as))"
          using take_cut [of "sizeof_cmdline - 4" sizeof_cmdline "line @ 32 # a" "cmd_line as"] long
          by (simp add: sizeof_cmdline_def del: take_take take_append)
        from finish_cut [OF clean _ b(1) this, of as None] show ?thesis
          using run Cons long by (auto simp: cmdline_spec_def Let_def)
      qed
    qed
  qed
qed

lemma printCmdLine_spec:
  assumes "length init = sizeof_cmdline" "\<forall>a\<in>set argv. 0 \<notin> set a"
  shows "printCmdLine init argv = cmdline_spec [] argv"
proof -
  have "holds [] (init[0 := 0])" using assms(1) by (cases init) (simp_all add: holds_def sizeof_cmdline_def)
  from cmdline_loop_spec [OF this _ assms(2)] show ?thesis
    by (simp add: printCmdLine_def finish_cmdline_def Let_def)
qed

section \<open>Processes\<close>

datatype proc_call = Call_fork | Call_daemon | Call_cgroup | Call_stdin | Call_umask | Call_print "u8 list"
  | Call_exec "u8 list list" | Call_wait

text \<open>A process: whether a fork has made it, and its calls.\<close>

record proc =
  pr_child :: bool
  pr_calls :: "proc_call list"

datatype 'a outcome = Returned 'a | Replaced "u8 list list" | Exited int | Faulted fault

type_synonym 'a procs = "(proc \<times> 'a outcome) list"

text \<open>The answers of the operating system: whether \<open>fork\<close>, \<open>daemon\<close> and \<open>execve\<close> succeed, whether the
  program waited for exited with 0, and what the array of \<open>printCmdLine\<close> holds.\<close>

record proc_env =
  fork_ok :: "proc \<Rightarrow> bool"
  daemon_ok :: "proc \<Rightarrow> bool"
  exec_ok :: "proc \<Rightarrow> bool"
  waited_ok :: "proc \<Rightarrow> bool"
  cmdline_init :: "proc \<Rightarrow> u8 list"
  with_systemd :: "u8 list option"

definition pcall :: "proc_call \<Rightarrow> proc \<Rightarrow> proc" where
  "pcall c p = p\<lparr>pr_calls := pr_calls p @ [c]\<rparr>"

definition child_of :: "proc \<Rightarrow> proc" where
  "child_of p = \<lparr>pr_child = True, pr_calls = []\<rparr>"

definition then_procs :: "'a procs \<Rightarrow> (proc \<Rightarrow> 'a \<Rightarrow> 'b procs) \<Rightarrow> 'b procs" where
  "then_procs ps f = concat (map (\<lambda>(p, out). case out of
     Returned a \<Rightarrow> f p a | Replaced argv \<Rightarrow> [(p, Replaced argv)] | Exited c \<Rightarrow> [(p, Exited c)] | Faulted e \<Rightarrow> [(p, Faulted e)]) ps)"

definition PROC_fork :: "proc_env \<Rightarrow> proc \<Rightarrow> bool procs" where
  "PROC_fork E p =
    (if fork_ok E p then [(pcall Call_fork p, Returned False), (child_of p, Returned True)]
     else [(pcall Call_fork p, Returned False)])"

definition PROC_execRaw :: "proc_env \<Rightarrow> u8 list list \<Rightarrow> proc \<Rightarrow> unit procs" where
  "PROC_execRaw E argv p =
    (case printCmdLine (cmdline_init E p) argv of
       Inl e \<Rightarrow> [(p, Faulted e)]
     | Inr line \<Rightarrow>
         let p = pcall (Call_exec argv) (pcall (Call_print line) p)
         in if exec_ok E p then [(p, Replaced argv)] else [(p, Returned ())])"

text \<open>The result of \<open>_Exit(EXIT_FAILURE)\<close> is 1.\<close>

definition PROC_execAndFinalize :: "proc_env \<Rightarrow> u8 list list \<Rightarrow> proc \<Rightarrow> 'a procs" where
  "PROC_execAndFinalize E argv p =
    then_procs (PROC_execRaw E argv (pcall Call_umask (pcall Call_stdin p))) (\<lambda>p _. [(p, Exited 1)])"

definition escape_cgroup :: "proc_env \<Rightarrow> proc \<Rightarrow> proc" where
  "escape_cgroup E p = (if with_systemd E = None then p else pcall Call_cgroup p)"

definition PROC_forkAndExec :: "proc_env \<Rightarrow> u8 list list \<Rightarrow> proc \<Rightarrow> unit procs" where
  "PROC_forkAndExec E argv p =
    then_procs (PROC_fork E p) (\<lambda>p child.
      if \<not> child then [(p, Returned ())]
      else if \<not> daemon_ok E p then [(pcall Call_daemon p, Exited 1)]
      else PROC_execAndFinalize E argv (escape_cgroup E (pcall Call_daemon p)))"

text \<open>Without a child the process waits for any other one; the answer stands for what it finds then.\<close>

definition PROC_execAndReturn :: "proc_env \<Rightarrow> u8 list list \<Rightarrow> proc \<Rightarrow> bool procs" where
  "PROC_execAndReturn E argv p =
    (let w = pcall Call_wait (pcall Call_fork p)
     in (if fork_ok E p then PROC_execAndFinalize E argv (child_of p) else []) @ [(w, Returned (waited_ok E w))])"

section \<open>Talkback packets\<close>

definition TB_restartDaemon :: "proc_env \<Rightarrow> u8 list \<Rightarrow> bool \<Rightarrow> proc \<Rightarrow> unit procs" where
  "TB_restartDaemon E MAIN_progName FPGA_bbwhite p =
    PROC_execRaw E (if FPGA_bbwhite then [MAIN_progName] else [MAIN_progName, ascii ''--black'']) p"

definition TB_rebootSystem :: "proc_env \<Rightarrow> u8 list \<Rightarrow> proc \<Rightarrow> unit procs" where
  "TB_rebootSystem E systemd p = PROC_forkAndExec E [systemd @ ascii ''/systemctl'', ascii ''reboot''] p"

definition pacman_argv :: "u8 list list" where
  "pacman_argv = [ascii ''/usr/bin/pacman'', ascii ''--noconfirm'', ascii ''--needed'', ascii ''-Sy'', ascii ''openskyd'', ascii ''rcc'']"

definition TB_upgradeDaemon :: "proc_env \<Rightarrow> proc \<Rightarrow> unit procs" where
  "TB_upgradeDaemon E p =
    then_procs (PROC_fork E p) (\<lambda>p child.
      if \<not> child then [(p, Returned ())]
      else then_procs (PROC_execAndReturn E pacman_argv p) (\<lambda>p ok.
        if \<not> ok then [(p, Returned ())]
        else case with_systemd E of
          None \<Rightarrow> [(p, Returned ())]
        | Some d \<Rightarrow>
            then_procs (PROC_execAndReturn E [d @ ascii ''/systemctl'', ascii ''daemon-reload''] p) (\<lambda>p _.
              PROC_execAndFinalize E [d @ ascii ''/systemctl'', ascii ''restart'', ascii ''openskyd''] p)))"

definition INET_ADDRSTRLEN :: nat where "INET_ADDRSTRLEN = 16"

text \<open>\<open>inet_ntop\<close> for an IPv4 address, most significant byte first.\<close>

definition inet_ntop4 :: "u8 list \<Rightarrow> u8 list" where
  "inet_ntop4 bs = decimal (unat (bs ! 0)) @ 46 # decimal (unat (bs ! 1)) @ 46 # decimal (unat (bs ! 2))
     @ 46 # decimal (unat (bs ! 3))"

text \<open>The address as \<open>snprintf\<close> leaves it in an array of \<open>INET_ADDRSTRLEN + 6\<close> bytes.\<close>

definition shell_addr :: "u8 list \<Rightarrow> u8 list" where
  "shell_addr bs = take (INET_ADDRSTRLEN + 5)
     (inet_ntop4 bs @ 58 # decimal (unat (be_word (take 2 (drop 4 bs)) :: u16)))"

definition shell_argv :: "u8 list \<Rightarrow> u8 list list" where
  "shell_argv bs = [ascii ''/usr/bin/rcc'', ascii ''-t'', ascii '':22'', ascii ''-r'', shell_addr bs, ascii ''-n'']"

definition TB_reverseShell :: "proc_env \<Rightarrow> u8 list \<Rightarrow> proc \<Rightarrow> unit procs" where
  "TB_reverseShell E payload_bytes p =
    (if length payload_bytes < 6 then [(p, Faulted Out_of_bounds)] else PROC_forkAndExec E (shell_argv payload_bytes) p)"

section \<open>Children do not return\<close>

lemma then_procs_simps [simp]:
  "then_procs [] f = []"
  "then_procs ((p, Returned a) # ps) f = f p a @ then_procs ps f"
  "then_procs ((p, Replaced argv) # ps) f = (p, Replaced argv) # then_procs ps f"
  "then_procs ((p, Exited c) # ps) f = (p, Exited c) # then_procs ps f"
  "then_procs ((p, Faulted e) # ps) f = (p, Faulted e) # then_procs ps f"
  by (simp_all add: then_procs_def)

lemma then_procs_append [simp]: "then_procs (ps @ qs) f = then_procs ps f @ then_procs qs f"
  by (simp add: then_procs_def)

lemma pcall_simps [simp]: "pr_child (pcall c p) = pr_child p" "pr_calls (pcall c p) = pr_calls p @ [c]"
  by (simp_all add: pcall_def)

lemma escape_cgroup_simps [simp]:
  "pr_child (escape_cgroup E p) = pr_child p"
  "Call_exec a \<in> set (pr_calls (escape_cgroup E p)) \<longleftrightarrow> Call_exec a \<in> set (pr_calls p)"
  by (simp_all add: escape_cgroup_def)

lemma child_of_simps [simp]: "pr_child (child_of p)" "pr_calls (child_of p) = []"
  by (simp_all add: child_of_def)

text \<open>Executing a program for good: with standard input and the umask set the command line is logged and the
  program executed; the process is replaced by it or, if that fails, exits.\<close>

lemma execAndFinalize_result:
  assumes "\<And>p. length (cmdline_init E p) = sizeof_cmdline" "\<forall>a\<in>set argv. 0 \<notin> set a"
    and "length (cmd_line argv) < sizeof_cmdline"
  shows "PROC_execAndFinalize E argv p =
    (let q = p\<lparr>pr_calls := pr_calls p @ [Call_stdin, Call_umask, Call_print (cmd_line argv), Call_exec argv]\<rparr>
     in [(q, if exec_ok E q then Replaced argv else Exited 1)])"
proof -
  have "printCmdLine (cmdline_init E q) argv = Ok (cmd_line argv)" for q
    using printCmdLine_spec [OF assms(1,2)] assms(3) by (simp add: cmdline_spec_def)
  then show ?thesis by (simp add: PROC_execAndFinalize_def PROC_execRaw_def pcall_def Let_def)
qed

text \<open>Starting a program in the background: the process that was there forks and goes on. If the fork
  succeeds there is exactly one other process, its child: it becomes a daemon of its own (outside the
  control group of this one, with systemd), sets standard input and umask, logs the command line and
  executes the program, by which it is replaced. Where it cannot become a daemon or execute the
  program it exits with 1.\<close>

definition started :: "proc_env \<Rightarrow> u8 list list \<Rightarrow> proc \<Rightarrow> unit procs \<Rightarrow> bool" where
  "started E argv p ps \<longleftrightarrow>
    (if \<not> fork_ok E p then ps = [(p\<lparr>pr_calls := pr_calls p @ [Call_fork]\<rparr>, Returned ())]
     else \<exists>q out. ps = [(p\<lparr>pr_calls := pr_calls p @ [Call_fork]\<rparr>, Returned ()), (q, out)] \<and> pr_child q
       \<and> (if daemon_ok E \<lparr>pr_child = True, pr_calls = []\<rparr>
          then pr_calls q = [Call_daemon] @ (if with_systemd E = None then [] else [Call_cgroup])
              @ [Call_stdin, Call_umask, Call_print (cmd_line argv), Call_exec argv]
            \<and> out = (if exec_ok E q then Replaced argv else Exited 1)
          else pr_calls q = [Call_daemon] \<and> out = Exited 1))"

lemma forkAndExec_started:
  assumes "\<And>p. length (cmdline_init E p) = sizeof_cmdline" "\<forall>a\<in>set argv. 0 \<notin> set a"
    and "length (cmd_line argv) < sizeof_cmdline"
  shows "started E argv p (PROC_forkAndExec E argv p)"
  by (simp add: started_def PROC_forkAndExec_def PROC_fork_def execAndFinalize_result [OF assms] pcall_def child_of_def
      escape_cgroup_def Let_def)

section \<open>The address of the reverse shell\<close>

lemma decimal_clean: "0 \<notin> set (decimal n)" "46 \<notin> set (decimal n)" "58 \<notin> set (decimal n)"
  using decimal_props [of n] by (auto simp: is_digit_def word_le_nat_alt)

lemma decimal_eq_iff: "decimal m = decimal n \<longleftrightarrow> m = n"
  using decimal_props by metis

lemma length_decimal_byte: "length (decimal (unat (b :: u8))) \<le> 3"
  using unsigned_less [where ?'a = nat, of b] by (intro length_decimal) simp_all

lemma length_decimal_port: "length (decimal (unat (w :: u16))) \<le> 5"
  using unsigned_less [where ?'a = nat, of w] by (intro length_decimal) simp_all

lemma shell_addr_whole:
  "shell_addr bs = inet_ntop4 bs @ 58 # decimal (unat (be_word (take 2 (drop 4 bs)) :: u16))"
  "length (shell_addr bs) \<le> 21"
proof -
  have "length (inet_ntop4 bs @ 58 # decimal (unat (be_word (take 2 (drop 4 bs)) :: u16))) \<le> 21"
    using length_decimal_byte [of "bs ! 0"] length_decimal_byte [of "bs ! 1"] length_decimal_byte [of "bs ! 2"]
      length_decimal_byte [of "bs ! 3"] length_decimal_port [of "be_word (take 2 (drop 4 bs))"]
    by (simp add: inet_ntop4_def)
  then show "shell_addr bs = inet_ntop4 bs @ 58 # decimal (unat (be_word (take 2 (drop 4 bs)) :: u16))"
    "length (shell_addr bs) \<le> 21"
    by (simp_all add: shell_addr_def INET_ADDRSTRLEN_def)
qed

lemma append_sep_eq:
  assumes "x \<notin> set xs" "x \<notin> set ys"
  shows "xs @ x # as = ys @ x # bs \<longleftrightarrow> xs = ys \<and> as = bs"
proof
  assume e: "xs @ x # as = ys @ x # bs"
  have "takeWhile (\<lambda>y. y \<noteq> x) (zs @ x # cs) = zs" if "x \<notin> set zs" for zs cs
    using that by (induction zs) auto
  then have "xs = ys" using assms e by metis
  then show "xs = ys \<and> as = bs" using e by simp
qed simp

lemma all_less_4: "(\<forall>i<4. P i) \<longleftrightarrow> P 0 \<and> P 1 \<and> P 2 \<and> P (3 :: nat)"
  by (auto simp: numeral_eq_Suc less_Suc_eq)

lemma shell_addr_inj:
  assumes "length bs = 6" "length cs = 6" "shell_addr bs = shell_addr cs"
  shows "bs = cs"
proof -
  have e: "\<forall>i<4. bs ! i = cs ! i" "(be_word (take 2 (drop 4 bs)) :: u16) = be_word (take 2 (drop 4 cs))"
  proof -
    let ?d = "\<lambda>xs i. decimal (unat (xs ! i))"
    have "inet_ntop4 bs = inet_ntop4 cs" "decimal (unat (be_word (take 2 (drop 4 bs)) :: u16)) = decimal (unat (be_word (take 2 (drop 4 cs)) :: u16))"
      using assms(3) append_sep_eq [of 58 "inet_ntop4 bs" "inet_ntop4 cs"] decimal_clean
      by (simp_all add: shell_addr_whole inet_ntop4_def)
    then show "\<forall>i<4. bs ! i = cs ! i" "(be_word (take 2 (drop 4 bs)) :: u16) = be_word (take 2 (drop 4 cs))"
      using decimal_clean by (simp_all add: inet_ntop4_def append_sep_eq decimal_eq_iff all_less_4 word_unat_eq_iff)
  qed
  have "take 2 (drop 4 bs) = take 2 (drop 4 cs)"
    using e(2) be_bytes_be_word [of "take 2 (drop 4 bs)", where 'a = 16] be_bytes_be_word [of "take 2 (drop 4 cs)", where 'a = 16]
      assms(1,2) by simp
  then have "drop 4 bs = drop 4 cs" using assms(1,2) by simp
  moreover have "take 4 bs = take 4 cs" using e(1) assms(1,2) by (simp add: list_eq_iff_nth_eq)
  ultimately show ?thesis by (metis append_take_drop_id)
qed

section \<open>Upgrading\<close>

text \<open>No process made to execute a program for good returns, so only the last one matters.\<close>

definition returns :: "'a procs \<Rightarrow> (proc \<times> 'a) list" where
  "returns ps = concat (map (\<lambda>(p, out). case out of Returned a \<Rightarrow> [(p, a)] | _ \<Rightarrow> []) ps)"

lemma returns_simps [simp]:
  "returns [] = []" "returns ((p, Returned a) # ps) = (p, a) # returns ps" "returns ((p, Replaced argv) # ps) = returns ps"
  "returns ((p, Exited c) # ps) = returns ps" "returns ((p, Faulted e) # ps) = returns ps"
  "returns (ps @ qs) = returns ps @ returns qs"
  by (simp_all add: returns_def)

lemma returns_then: "returns (then_procs ps f) = concat (map (\<lambda>(p, a). returns (f p a)) (returns ps))"
proof (induction ps)
  case (Cons x ps)
  then show ?case by (cases x; cases "snd x") auto
qed simp

lemma returns_execAndFinalize [simp]: "returns (PROC_execAndFinalize E argv p) = []"
  by (simp add: PROC_execAndFinalize_def returns_then concat_eq_Nil_conv)

lemma returns_execAndReturn [simp]:
  "returns (PROC_execAndReturn E argv p)
    = [(pcall Call_wait (pcall Call_fork p), waited_ok E (pcall Call_wait (pcall Call_fork p)))]"
  by (simp add: PROC_execAndReturn_def Let_def)

lemma returns_upgrade:
  "returns (TB_upgradeDaemon E p) =
    (let w = pcall Call_wait (pcall Call_fork (child_of p))
     in (pcall Call_fork p, ()) # (if fork_ok E p \<and> (with_systemd E = None \<or> \<not> waited_ok E w) then [(w, ())] else []))"
  by (auto simp: TB_upgradeDaemon_def PROC_fork_def returns_then Let_def split: option.splits)

section \<open>Properties\<close>

text \<open>C40: a command line that fits its array is logged whole, one that does not is cut and marked; but if it
  is the last argument that does not fit, the array is left without a NUL and is read behind its end,
  as happens when a daemon with a long program name is told to restart.\<close>

theorem command_line_logged:
  assumes "length init = sizeof_cmdline" "\<forall>a\<in>set argv. 0 \<notin> set a"
  shows "printCmdLine init argv =
      (if length (cmd_line argv) < sizeof_cmdline then Ok (cmd_line argv)
       else if length (cmd_line (butlast argv)) + 1 < sizeof_cmdline then Fault Out_of_bounds
       else Ok (take (sizeof_cmdline - 4) (cmd_line argv) @ ascii ''...''))
    \<and> (argv = [name] \<and> sizeof_cmdline \<le> length name + 1 \<and> cmdline_init E p = init \<longrightarrow>
        TB_restartDaemon E name True p = [(p, Faulted Out_of_bounds)])"
proof -
  have "printCmdLine init argv = cmdline_spec [] argv" by (rule printCmdLine_spec [OF assms])
  then show ?thesis by (auto simp: cmdline_spec_def Let_def TB_restartDaemon_def PROC_execRaw_def sizeof_cmdline_def)
qed

theorem command_line_logged_witness:
  "printCmdLine (replicate 1000 7) (replicate 40 (replicate 30 97)) = Ok (take 996 (cmd_line (replicate 40 (replicate 30 97))) @ [46, 46, 46])
    \<and> printCmdLine (replicate 1000 7) [[97], [98, 99]] = Ok [32, 97, 32, 98, 99]
    \<and> printCmdLine (replicate 1000 7) [replicate 999 97] = Fault Out_of_bounds"
proof -
  have n: "length (replicate 1000 (7 :: u8)) = sizeof_cmdline" by (simp only: length_replicate sizeof_cmdline_def)
  have len: "length (cmd_line (replicate k (replicate m 97))) = k * Suc m" for k m
    by (induction k) simp_all
  have b: "butlast (replicate 40 (replicate 30 (97 :: u8))) = replicate 39 (replicate 30 97)"
    by (simp add: butlast_conv_take min_def)
  have "\<forall>a\<in>set (replicate 40 (replicate 30 (97 :: u8))). 0 \<notin> set a" "\<forall>a\<in>set [[97], [98, 99 :: u8]]. 0 \<notin> set a"
    "\<forall>a\<in>set [replicate 999 (97 :: u8)]. 0 \<notin> set a" by simp_all
  from this [THEN command_line_logged [OF n, THEN conjunct1]] show ?thesis
    by (simp add: len b sizeof_cmdline_def ascii_def del: replicate.simps)
qed

text \<open>C38: told to open a reverse shell the daemon forks and goes on; if the fork succeeds there is exactly one new
  process, which becomes a daemon, logs the command line and is replaced by the remote shell program
  with exactly the arguments listed, or exits with 1 if it cannot become a daemon or the program cannot
  be executed. The address handed over is complete and stands for exactly the address and port of the
  packet. Rebooting starts its program in the same way.\<close>

theorem reverse_shell_started:
  assumes "\<And>p. length (cmdline_init E p) = sizeof_cmdline" "length bs = 6"
  shows "started E [ascii ''/usr/bin/rcc'', ascii ''-t'', ascii '':22'', ascii ''-r'', shell_addr bs, ascii ''-n''] p (TB_reverseShell E bs p)
    \<and> shell_addr bs = inet_ntop4 bs @ 58 # decimal (unat (be_word (take 2 (drop 4 bs)) :: u16))
    \<and> (\<forall>cs. length cs = 6 \<longrightarrow> shell_addr cs = shell_addr bs \<longrightarrow> cs = bs)
    \<and> (\<forall>d. is_cstring d \<and> length d < 900 \<longrightarrow> started E [d @ ascii ''/systemctl'', ascii ''reboot''] p (TB_rebootSystem E d p))"
proof (intro conjI allI impI)
  have clean: "0 \<notin> set (shell_addr bs)"
    using decimal_clean by (auto simp: shell_addr_whole inet_ntop4_def)
  have "\<forall>a\<in>set (shell_argv bs). 0 \<notin> set a" using clean by (simp add: shell_argv_def ascii_def)
  moreover have "length (cmd_line (shell_argv bs)) < sizeof_cmdline"
    using shell_addr_whole(2) [of bs] by (simp add: shell_argv_def ascii_def sizeof_cmdline_def)
  ultimately have "started E (shell_argv bs) p (PROC_forkAndExec E (shell_argv bs) p)"
    using assms(1) by (intro forkAndExec_started) simp_all
  then show "started E [ascii ''/usr/bin/rcc'', ascii ''-t'', ascii '':22'', ascii ''-r'', shell_addr bs, ascii ''-n''] p (TB_reverseShell E bs p)"
    using assms(2) by (simp add: TB_reverseShell_def shell_argv_def)
  show "shell_addr bs = inet_ntop4 bs @ 58 # decimal (unat (be_word (take 2 (drop 4 bs)) :: u16))" by (rule shell_addr_whole)
  show "cs = bs" if "length cs = 6" "shell_addr cs = shell_addr bs" for cs by (rule shell_addr_inj [OF that(1) assms(2) that(2)])
  show "started E [d @ ascii ''/systemctl'', ascii ''reboot''] p (TB_rebootSystem E d p)" if "is_cstring d \<and> length d < 900" for d
    unfolding TB_rebootSystem_def using assms(1) that
    by (intro forkAndExec_started) (simp_all add: ascii_def is_cstring_def sizeof_cmdline_def)
qed

definition sample_proc_env :: "bool \<Rightarrow> u8 list option \<Rightarrow> proc_env" where
  "sample_proc_env w d = \<lparr>fork_ok = (\<lambda>p. True), daemon_ok = (\<lambda>p. True), exec_ok = (\<lambda>p. True), waited_ok = (\<lambda>p. w),
     cmdline_init = (\<lambda>p. replicate 1000 7), with_systemd = d\<rparr>"

definition sample_proc :: proc where
  "sample_proc = \<lparr>pr_child = False, pr_calls = []\<rparr>"

theorem reverse_shell_started_witness:
  "\<exists>q. TB_reverseShell (sample_proc_env True None) [127, 0, 0, 1, 31, 144] sample_proc
      = [(\<lparr>pr_child = False, pr_calls = [Call_fork]\<rparr>, Returned ()),
         (q, Replaced [ascii ''/usr/bin/rcc'', ascii ''-t'', ascii '':22'', ascii ''-r'', shell_addr [127, 0, 0, 1, 31, 144], ascii ''-n''])]
    \<and> pr_child q"
proof -
  have "length (cmdline_init (sample_proc_env True None) p) = sizeof_cmdline" for p
    by (simp only: sample_proc_env_def proc_env.simps length_replicate sizeof_cmdline_def)
  moreover have "length [127, 0, 0, 1, 31, 144 :: u8] = 6" by simp
  ultimately have "started (sample_proc_env True None)
      [ascii ''/usr/bin/rcc'', ascii ''-t'', ascii '':22'', ascii ''-r'', shell_addr [127, 0, 0, 1, 31, 144], ascii ''-n'']
      sample_proc (TB_reverseShell (sample_proc_env True None) [127, 0, 0, 1, 31, 144] sample_proc)"
    by (rule reverse_shell_started [THEN conjunct1])
  then show ?thesis by (auto simp: started_def sample_proc_env_def sample_proc_def)
qed

text \<open>C39: told to upgrade, the daemon forks and goes on; but when the upgrade fails, or when there is no
  systemd, the child that waited for it goes on as well, as a second daemon in the talkback loop, while
  every other process of the upgrade is replaced by a program or exits.\<close>

theorem failed_upgrade_leaves_second_daemon:
  assumes "\<not> pr_child p"
  shows "(\<exists>q. (q, Returned ()) \<in> set (TB_upgradeDaemon E p) \<and> \<not> pr_child q)
    \<and> ((\<exists>q. (q, Returned ()) \<in> set (TB_upgradeDaemon E p) \<and> pr_child q) \<longleftrightarrow>
        fork_ok E p \<and> (with_systemd E = None \<or> \<not> waited_ok E (pcall Call_wait (pcall Call_fork (child_of p)))))
    \<and> length (returns (TB_upgradeDaemon E p)) \<le> 2"
proof -
  have "(q, Returned ()) \<in> set ps \<longleftrightarrow> (q, ()) \<in> set (returns ps)" for q and ps :: "unit procs"
    by (auto simp: returns_def split: outcome.splits)
  then show ?thesis using assms by (auto simp: returns_upgrade Let_def)
qed

theorem failed_upgrade_leaves_second_daemon_witness:
  "(\<exists>q. (q, Returned ()) \<in> set (TB_upgradeDaemon (sample_proc_env False (Some [47])) sample_proc) \<and> pr_child q)
    \<and> \<not> (\<exists>q. (q, Returned ()) \<in> set (TB_upgradeDaemon (sample_proc_env True (Some [47])) sample_proc) \<and> pr_child q)"
proof -
  have "\<not> pr_child sample_proc" by (simp add: sample_proc_def)
  from failed_upgrade_leaves_second_daemon [OF this, of "sample_proc_env False (Some [47])"]
    failed_upgrade_leaves_second_daemon [OF this, of "sample_proc_env True (Some [47])"]
  show ?thesis by (simp add: sample_proc_env_def)
qed

end
