(* ===== verification/Dump_Serial.thy ===== *)
theory Dump_Serial
  imports Rc_Config Core_Login Core_Tb
begin

text \<open>
  Requesting the serial number (\<open>dump1090/req-serial.c\<close>): the feeder asks the network for a number
  once, waits for the answer on the talkback channel and saves it in its configuration, from which
  it is read at the next start. The events the waiting thread wakes up for are a list; a result
  \<open>None\<close> is a thread that is still waiting.
\<close>

section \<open>State\<close>

text \<open>\<open>serialNumber\<close> and \<open>hasSerial\<close> are the variables of the configuration option.\<close>

definition req_serialNumber :: nat where "req_serialNumber = 30"
definition req_hasSerial :: nat where "req_hasSerial = 30"

definition req_cfgDesc :: CFG_Section where
  "req_cfgDesc = section_of (ascii ''Device'')
     [(option_of (ascii ''serial'') CFG_VALUE_TYPE_INT req_serialNumber (Def_integer 0))\<lparr>opt_given := Some req_hasSerial\<rparr>]"

definition serialNumber :: "cfg_store \<Rightarrow> u32" where
  "serialNumber st = (case cfg_vars st req_serialNumber of Var_integer i \<Rightarrow> i | _ \<Rightarrow> 0)"

definition hasSerial :: "cfg_store \<Rightarrow> bool" where
  "hasSerial st = cfg_given st req_hasSerial"

section \<open>Operations\<close>

definition TB_PACKET_TYPE_SERIAL_RES :: u32 where "TB_PACKET_TYPE_SERIAL_RES = 5"

text \<open>\<open>fn\<close> is the name under which \<open>serialResponse\<close> is registered.\<close>

definition req_reg :: "nat \<Rightarrow> processor list \<Rightarrow> fault + processor list" where
  "req_reg fn ps = TB_register TB_PACKET_TYPE_SERIAL_RES 4 (Fn_registered fn) ps"

definition serialResponse :: "byte_order \<Rightarrow> u8 list \<Rightarrow> cfg_store \<Rightarrow> fault + cfg_store" where
  "serialResponse bo bs st = (case ENDEC_tou32 bo bs of
      None \<Rightarrow> Fault Out_of_bounds
    | Some n \<Rightarrow> Ok (st\<lparr>cfg_vars := (cfg_vars st)(req_serialNumber := Var_integer n),
        cfg_given := (cfg_given st)(req_hasSerial := True)\<rparr>))"

definition sendSerialRequest :: "'n net_send \<Rightarrow> 'n \<Rightarrow> bool \<times> 'n" where
  "sendSerialRequest send n = send [OPENSKY_SYNC, OPENSKY_FRAME_TYPE_SERIAL_REQ] n"

text \<open>One wake-up: the responses that arrived during the wait, and its result; after a time-out, whether
  the connection is still the same.\<close>

datatype wait_result = Wait_ok | Wait_timeout bool | Wait_error

type_synonym wait_event = "u8 list list \<times> wait_result"

fun responses :: "byte_order \<Rightarrow> u8 list list \<Rightarrow> cfg_store \<Rightarrow> fault + cfg_store" where
  "responses bo [] st = Ok st"
| "responses bo (bs # bss) st = bind_ok (serialResponse bo bs st) (responses bo bss)"

text \<open>\<open>disconnect\<close> is \<open>NET_forceDisconnect\<close>; the deadlines of the waits are recorded.\<close>

fun wait_serial :: "byte_order \<Rightarrow> ('n \<Rightarrow> 'n) \<Rightarrow> u64 \<Rightarrow> u32 \<Rightarrow> wait_event list \<Rightarrow> cfg_store \<Rightarrow> 'n \<Rightarrow>
    fault + (SERIAL_RETURN \<times> u64 list \<times> cfg_store \<times> 'n) option" where
  "wait_serial bo disconnect ts rounds es st n =
    (if hasSerial st then Ok (Some (SERIAL_RETURN_SUCCESS, [], st, n))
     else case es of
       [] \<Rightarrow> Ok None
     | (bss, r) # es \<Rightarrow> bind_ok (responses bo bss st) (\<lambda>st.
         bind_ok (case r of
           Wait_ok \<Rightarrow> wait_serial bo disconnect ts rounds es st n
         | Wait_error \<Rightarrow> Fault Emergency
         | Wait_timeout connected \<Rightarrow>
             if \<not> connected then Ok (Some (SERIAL_RETURN_FAIL_NET, [], st, n))
             else if rounds = 30 then Ok (Some (SERIAL_RETURN_FAIL_NET, [], st, disconnect n))
             else wait_serial bo disconnect (ts + 2) (rounds + 1) es st n) (\<lambda>res.
         Ok (map_option (\<lambda>(rc, tss, st, n). (rc, ts # tss, st, n)) res))))"

declare wait_serial.simps [simp del]

text \<open>\<open>now\<close> is the time when waiting starts; \<open>file\<close> is what opening the file to write gives. The result is
  the status and, on success, the number.\<close>

definition SERIAL_getSerial ::
    "byte_order \<Rightarrow> 'n net_send \<Rightarrow> ('n \<Rightarrow> 'n) \<Rightarrow> 'f put \<Rightarrow> 'f option \<Rightarrow> u64 \<Rightarrow> wait_event list \<Rightarrow> cfg_store \<Rightarrow> 'n \<Rightarrow>
      fault + (SERIAL_RETURN \<times> u32 option \<times> 'f option \<times> u64 list \<times> cfg_store \<times> 'n) option" where
  "SERIAL_getSerial bo send disconnect put file now es st n =
    (if hasSerial st then Ok (Some (SERIAL_RETURN_SUCCESS, Some (serialNumber st), file, [], st, n))
     else
       let (ok, n) = sendSerialRequest send n
       in if \<not> ok then Ok (Some (SERIAL_RETURN_FAIL_NET, None, file, [], st, n))
         else bind_ok (wait_serial bo disconnect (now + 2) 1 es st n) (\<lambda>r. case r of
             None \<Rightarrow> Ok None
           | Some (rc, tss, st, n) \<Rightarrow>
               if rc \<noteq> SERIAL_RETURN_SUCCESS then Ok (Some (rc, None, file, tss, st, n))
               else bind_ok (CFG_writeSection put (\<lambda>d. []) req_cfgDesc st file) (\<lambda>(written, file).
                 if \<not> written then Fault Emergency
                 else Ok (Some (SERIAL_RETURN_SUCCESS, Some (serialNumber st), file, tss, st, n)))))"

section \<open>Waiting\<close>

definition is_timeout :: "wait_event \<Rightarrow> bool" where
  "is_timeout e \<longleftrightarrow> snd e = Wait_timeout True \<or> snd e = Wait_timeout False"

definition timeouts :: "wait_event list \<Rightarrow> nat" where
  "timeouts es = length (filter is_timeout es)"

definition good_event :: "wait_event \<Rightarrow> bool" where
  "good_event e \<longleftrightarrow> snd e \<noteq> Wait_error \<and> (\<forall>bs\<in>set (fst e). 4 \<le> length bs)"

text \<open>The deadline moves on by two seconds after a time-out.\<close>

fun deadlines :: "u64 \<Rightarrow> wait_event list \<Rightarrow> u64 list" where
  "deadlines ts [] = []"
| "deadlines ts (e # es) = ts # deadlines (if is_timeout e then ts + 2 else ts) es"

lemma timeouts_simps [simp]: "timeouts [] = 0" "timeouts (e # es) = (if is_timeout e then Suc (timeouts es) else timeouts es)"
  by (simp_all add: timeouts_def)

definition response_number :: "u8 list \<Rightarrow> u32" where
  "response_number bs = be_word (take 4 bs)"

text \<open>A variable of type integer and its flag after a response.\<close>

definition answered :: "u8 list list \<Rightarrow> cfg_store \<Rightarrow> cfg_store" where
  "answered bss st = (if bss = [] then st
     else st\<lparr>cfg_vars := (cfg_vars st)(req_serialNumber := Var_integer (response_number (last bss))),
       cfg_given := (cfg_given st)(req_hasSerial := True)\<rparr>)"

lemma responses_answered: "\<forall>bs\<in>set bss. 4 \<le> length bs \<Longrightarrow> responses bo bss st = Ok (answered bss st)"
proof (induction bss arbitrary: st)
  case (Cons bs bss)
  then show ?case
    by (cases bss) (simp_all add: serialResponse_def ENDEC_tou32_be answered_def response_number_def)
qed (simp add: answered_def)

lemma answered_facts:
  "bss \<noteq> [] \<Longrightarrow> hasSerial (answered bss st) \<and> serialNumber (answered bss st) = response_number (last bss)"
  "hasSerial (answered bss st) \<longleftrightarrow> bss \<noteq> [] \<or> hasSerial st"
  by (auto simp: answered_def hasSerial_def serialNumber_def)

text \<open>How waiting ends, \<open>k\<close> being the number of waits: with the response that arrived in the last one, or
  when that one timed out and the connection is gone or it was the thirtieth.\<close>

definition wait_ends :: "('n \<Rightarrow> 'n) \<Rightarrow> nat \<Rightarrow> wait_event list \<Rightarrow> nat \<Rightarrow> cfg_store \<Rightarrow> 'n \<Rightarrow> SERIAL_RETURN \<Rightarrow> cfg_store \<Rightarrow> 'n \<Rightarrow> bool" where
  "wait_ends disconnect left es k st n rc st' n' \<longleftrightarrow> 0 < k \<and> k \<le> length es \<and> (\<forall>i<k - 1. fst (es ! i) = [])
     \<and> timeouts (take k es) \<le> left \<and> st' = answered (fst (es ! (k - 1))) st
     \<and> (if rc = SERIAL_RETURN_SUCCESS then fst (es ! (k - 1)) \<noteq> [] \<and> n' = n
        else rc = SERIAL_RETURN_FAIL_NET
          \<and> (if snd (es ! (k - 1)) = Wait_timeout True then timeouts (take k es) = left \<and> n' = disconnect n
             else snd (es ! (k - 1)) = Wait_timeout False \<and> n' = n))"

lemma wait_ends_Cons:
  assumes "wait_ends disconnect m es k st n rc st' n'" "fst e = []" "left = (if is_timeout e then Suc m else m)"
  shows "wait_ends disconnect left (e # es) (Suc k) st n rc st' n'"
proof -
  obtain j where k: "k = Suc j" using assms(1) by (cases k) (auto simp: wait_ends_def)
  have "(\<forall>i<Suc j. fst ((e # es) ! i) = []) \<longleftrightarrow> (\<forall>i<j. fst (es ! i) = [])"
    using assms(2) by (auto simp: less_Suc_eq_0_disj)
  then show ?thesis using assms by (auto simp: wait_ends_def k)
qed

text \<open>One wait.\<close>

lemma wait_serial_step:
  assumes "\<not> hasSerial st" "good_event (bss, r)"
  shows "wait_serial bo disconnect ts rounds ((bss, r) # es) st n =
    (if r = Wait_timeout False then Ok (Some (SERIAL_RETURN_FAIL_NET, [ts], answered bss st, n))
     else if r = Wait_timeout True \<and> rounds = 30 then Ok (Some (SERIAL_RETURN_FAIL_NET, [ts], answered bss st, disconnect n))
     else if bss \<noteq> [] then Ok (Some (SERIAL_RETURN_SUCCESS, [ts], answered bss st, n))
     else bind_ok (wait_serial bo disconnect (if is_timeout (bss, r) then ts + 2 else ts)
         (if is_timeout (bss, r) then rounds + 1 else rounds) es st n)
       (\<lambda>res. Ok (map_option (\<lambda>(rc, tss, st, n). (rc, ts # tss, st, n)) res)))"
proof -
  have resp: "responses bo bss st = Ok (answered bss st)"
    using responses_answered assms(2) by (simp add: good_event_def)
  have stop: "wait_serial bo disconnect t k es (answered bss st) n = Ok (Some (SERIAL_RETURN_SUCCESS, [], answered bss st, n))"
    if "bss \<noteq> []" for t k
    using that answered_facts(2) [of bss st] by (simp add: wait_serial.simps)
  have same: "bss = [] \<Longrightarrow> answered bss st = st" by (simp add: answered_def)
  show ?thesis
    using assms resp stop same
    by (cases r; cases "bss = []")
      (auto simp: wait_serial.simps [of _ _ _ _ "(b, w) # es" for b w] is_timeout_def good_event_def)
qed

lemma wait_serial_ends:
  assumes "\<not> hasSerial st" "\<forall>e\<in>set es. good_event e" "0 < rounds" "rounds \<le> 30" "31 - unat rounds \<le> timeouts es"
  shows "\<exists>k rc st' n'. wait_serial bo disconnect ts rounds es st n = Ok (Some (rc, take k (deadlines ts es), st', n'))
    \<and> wait_ends disconnect (31 - unat rounds) es k st n rc st' n'"
  using assms(2-5)
proof (induction es arbitrary: ts rounds)
  case Nil
  then show ?case by (auto simp: word_le_nat_alt)
next
  case (Cons e es)
  obtain bss r where e: "e = (bss, r)" by (cases e)
  have good: "good_event (bss, r)" "r \<noteq> Wait_error" using Cons.prems(1) by (simp_all add: good_event_def e)
  note step = wait_serial_step [OF assms(1) good(1), of bo disconnect ts rounds es n]
  have u: "unat rounds \<le> 30" "rounds = 30 \<longleftrightarrow> unat rounds = 30" "0 < unat rounds"
    using Cons.prems(2,3) by (auto simp: word_le_nat_alt word_less_nat_alt word_unat_eq_iff)
  show ?case
  proof (cases "r = Wait_timeout False \<or> r = Wait_timeout True \<and> rounds = 30 \<or> bss \<noteq> []")
    case True
    then show ?thesis
      by (intro exI [of _ 1]) (use e step u good(2) in \<open>cases r; auto simp: wait_ends_def is_timeout_def\<close>)
  next
    case False
    let ?t = "is_timeout e"
    let ?ts = "if ?t then ts + 2 else ts" and ?rounds = "if ?t then rounds + 1 else rounds"
    have t: "?t \<longleftrightarrow> r = Wait_timeout True" using False by (auto simp: is_timeout_def e)
    have next_round: "unat ?rounds = (if ?t then unat rounds + 1 else unat rounds)"
      using u(1) by (simp add: unat_word_ariths)
    have "0 < ?rounds" "?rounds \<le> 30" "31 - unat ?rounds \<le> timeouts es"
      using next_round u False t Cons.prems(4) by (auto simp: word_le_nat_alt word_less_nat_alt split: if_splits)
    then obtain k rc st' n' where IH: "wait_serial bo disconnect ?ts ?rounds es st n = Ok (Some (rc, take k (deadlines ?ts es), st', n'))"
      "wait_ends disconnect (31 - unat ?rounds) es k st n rc st' n'"
      using Cons.IH [of ?rounds ?ts] Cons.prems(1) by auto
    have "wait_ends disconnect (31 - unat rounds) (e # es) (Suc k) st n rc st' n'"
      by (rule wait_ends_Cons [OF IH(2)]) (use False e next_round u t in \<open>auto split: if_splits\<close>)
    moreover have "wait_serial bo disconnect ts rounds (e # es) st n = Ok (Some (rc, take (Suc k) (deadlines ts (e # es)), st', n'))"
    proof -
      have n: "\<not> r = Wait_timeout False" "\<not> (r = Wait_timeout True \<and> rounds = 30)" "\<not> bss \<noteq> []" using False by auto
      show ?thesis
        using step IH(1) unfolding if_not_P [OF n(1)] if_not_P [OF n(2)] if_not_P [OF n(3)] e by simp
    qed
    ultimately show ?thesis by blast
  qed
qed

section \<open>The file\<close>

definition serial_lines :: "u32 \<Rightarrow> cfg_line list" where
  "serial_lines i = [Header (ascii ''Device'') False, Setting (ascii ''serial'') [32] [32] (decimal (unat i)) False]"

lemma write_serial:
  assumes "cfg_vars st req_serialNumber = Var_integer i"
  shows "CFG_writeSection put_all format_f req_cfgDesc st (Some f) = Ok (True, Some (f @ concat (map render (serial_lines i))))"
  using assms
  by (simp add: CFG_writeSection_def req_cfgDesc_def section_of_def option_of_def left_out_def option_text_def
      serial_lines_def eol_def)

text \<open>The whole request when the file can be written: the response is saved.\<close>

lemma getSerial_request:
  assumes "\<not> hasSerial st" "\<forall>e\<in>set es. good_event e" "30 \<le> timeouts es"
    and "send [OPENSKY_SYNC, OPENSKY_FRAME_TYPE_SERIAL_REQ] n = (True, n1)"
  shows "\<exists>k rc st' n'. wait_ends disconnect 30 es k st n1 rc st' n'
    \<and> SERIAL_getSerial bo send disconnect put_all (Some f) now es st n = Ok (Some
        (if rc = SERIAL_RETURN_SUCCESS
         then (rc, Some (serialNumber st'), Some (f @ concat (map render (serial_lines (serialNumber st')))),
           take k (deadlines (now + 2) es), st', n')
         else (rc, None, Some f, take k (deadlines (now + 2) es), st', n')))"
proof -
  obtain k rc st' n' where w: "wait_serial bo disconnect (now + 2) 1 es st n1 = Ok (Some (rc, take k (deadlines (now + 2) es), st', n'))"
    "wait_ends disconnect 30 es k st n1 rc st' n'"
    using wait_serial_ends [OF assms(1,2), of 1 bo disconnect "now + 2" n1] assms(3) by auto
  show ?thesis
  proof (cases "rc = SERIAL_RETURN_SUCCESS")
    case True
    then have "fst (es ! (k - 1)) \<noteq> []" "st' = answered (fst (es ! (k - 1))) st" using w(2) by (simp_all add: wait_ends_def)
    then have "cfg_vars st' req_serialNumber = Var_integer (serialNumber st')" by (simp add: answered_def serialNumber_def)
    then show ?thesis
      using w True assms(1,4) write_serial [of st' "serialNumber st'" "\<lambda>d. []" f]
      by (intro exI [of _ k] exI [of _ rc] exI [of _ st'] exI [of _ n'])
        (simp add: SERIAL_getSerial_def sendSerialRequest_def)
  next
    case False
    then show ?thesis
      using w assms(1,4)
      by (intro exI [of _ k] exI [of _ rc] exI [of _ st'] exI [of _ n'])
        (simp add: SERIAL_getSerial_def sendSerialRequest_def)
  qed
qed

section \<open>Properties\<close>

text \<open>C13: however the waiting thread is woken up, a request for a serial number is over after at most thirty
  time-outs, each two seconds after the one before: with the number of the first wake-up that brought a
  response, which is then returned and saved; or with a failure of the network, when that wake-up timed
  out and the connection has changed, or was the thirtieth, after which the thread disconnects.\<close>

theorem serial_request_ends:
  assumes "\<not> hasSerial st" "\<forall>e\<in>set es. good_event e" "30 \<le> timeouts es"
    and "send [OPENSKY_SYNC, OPENSKY_FRAME_TYPE_SERIAL_REQ] n = (True, n1)"
  shows "\<exists>k rc num file st' n'. SERIAL_getSerial bo send disconnect put_all (Some f) now es st n
      = Ok (Some (rc, num, file, take k (deadlines (now + 2) es), st', n'))
    \<and> 0 < k \<and> k \<le> length es \<and> (\<forall>i<k - 1. fst (es ! i) = []) \<and> timeouts (take k es) \<le> 30
    \<and> (if rc = SERIAL_RETURN_SUCCESS
       then fst (es ! (k - 1)) \<noteq> [] \<and> num = Some (response_number (last (fst (es ! (k - 1))))) \<and> n' = n1
         \<and> file = Some (f @ concat (map render (serial_lines (the num))))
       else rc = SERIAL_RETURN_FAIL_NET \<and> num = None \<and> file = Some f
         \<and> (if snd (es ! (k - 1)) = Wait_timeout True then timeouts (take k es) = 30 \<and> n' = disconnect n1
            else snd (es ! (k - 1)) = Wait_timeout False \<and> n' = n1))"
proof -
  obtain k rc st' n' where w: "wait_ends disconnect 30 es k st n1 rc st' n'"
    and run: "SERIAL_getSerial bo send disconnect put_all (Some f) now es st n = Ok (Some
        (if rc = SERIAL_RETURN_SUCCESS
         then (rc, Some (serialNumber st'), Some (f @ concat (map render (serial_lines (serialNumber st')))),
           take k (deadlines (now + 2) es), st', n')
         else (rc, None, Some f, take k (deadlines (now + 2) es), st', n')))"
    using getSerial_request [of st es send n n1 disconnect bo f now] assms by blast
  show ?thesis
  proof (cases "rc = SERIAL_RETURN_SUCCESS")
    case True
    then show ?thesis
      using w run answered_facts(1) [of "fst (es ! (k - 1))" st] by (fastforce simp: wait_ends_def)
  next
    case False
    then show ?thesis using w run by (fastforce simp: wait_ends_def)
  qed
qed

definition sample_serial_store :: cfg_store where
  "sample_serial_store = \<lparr>cfg_vars = (\<lambda>i. Var_integer 0), cfg_given = (\<lambda>g. False)\<rparr>"

definition sample_wakeups :: "wait_event list" where
  "sample_wakeups = [([], Wait_timeout True), ([], Wait_ok), ([[0, 0, 1, 2], [0, 0, 1, 4, 9]], Wait_ok)]
     @ replicate 29 ([], Wait_timeout True)"

lemma sample_wakeups_ok: "\<forall>e\<in>set sample_wakeups. good_event e" "30 \<le> timeouts sample_wakeups"
  by (auto simp: sample_wakeups_def good_event_def timeouts_def is_timeout_def filter_replicate)

theorem serial_request_ends_witness:
  "\<exists>k rc num file st' n'. SERIAL_getSerial Little_endian (\<lambda>m n. (True, n @ [m])) (\<lambda>n. []) put_all (Some []) 1000 sample_wakeups
      sample_serial_store [] = Ok (Some (rc, num, file, take k (deadlines 1002 sample_wakeups), st', n'))
    \<and> 0 < k \<and> (\<forall>i<k - 1. fst (sample_wakeups ! i) = [])
    \<and> (rc = SERIAL_RETURN_SUCCESS \<longrightarrow> n' = [[OPENSKY_SYNC, OPENSKY_FRAME_TYPE_SERIAL_REQ]])"
proof -
  have "\<not> hasSerial sample_serial_store" by (simp add: hasSerial_def sample_serial_store_def)
  from serial_request_ends [OF this sample_wakeups_ok, of "\<lambda>m n. (True, n @ [m])" "[]" "[[OPENSKY_SYNC, OPENSKY_FRAME_TYPE_SERIAL_REQ]]"
      Little_endian "\<lambda>n. []" "[]" 1000]
  show ?thesis by simp metis
qed

text \<open>A response that arrives together with the time-out that ends the request, or at any time when no
  thread is waiting, makes the next request succeed with its number without asking for another one,
  but the number is never saved.\<close>

theorem late_serial_is_not_saved:
  assumes "4 \<le> length bs" "\<not> hasSerial st"
    and "send [OPENSKY_SYNC, OPENSKY_FRAME_TYPE_SERIAL_REQ] n = (True, n1)"
  shows "\<exists>st'. SERIAL_getSerial bo send disconnect put file now [([bs], Wait_timeout False)] st n
        = Ok (Some (SERIAL_RETURN_FAIL_NET, None, file, [now + 2], st', n1))
      \<and> serialResponse bo bs st = Ok st'
      \<and> SERIAL_getSerial bo send disconnect put file now' es st' n2
        = Ok (Some (SERIAL_RETURN_SUCCESS, Some (response_number bs), file, [], st', n2))"
proof -
  have "serialResponse bo bs st = Ok (answered [bs] st)"
    using responses_answered [of "[bs]" bo st] assms(1) by (cases "serialResponse bo bs st") simp_all
  moreover have "wait_serial bo disconnect (now + 2) 1 [([bs], Wait_timeout False)] st n1
      = Ok (Some (SERIAL_RETURN_FAIL_NET, [now + 2], answered [bs] st, n1))"
    using wait_serial_step [OF assms(2), of "[bs]" "Wait_timeout False"] assms(1) by (simp add: good_event_def)
  moreover have "hasSerial (answered [bs] st)" "serialNumber (answered [bs] st) = response_number bs"
    using answered_facts(1) [of "[bs]" st] by simp_all
  ultimately show ?thesis
    using assms(2,3) by (intro exI [of _ "answered [bs] st"]) (simp add: SERIAL_getSerial_def sendSerialRequest_def)
qed

theorem late_serial_is_not_saved_witness:
  "\<exists>st'. SERIAL_getSerial Big_endian (\<lambda>m n. (True, Suc n)) (\<lambda>n. n) put_all (Some []) 50 [([[0, 0, 1, 4]], Wait_timeout False)]
        sample_serial_store 0 = Ok (Some (SERIAL_RETURN_FAIL_NET, None, Some [], [50 + 2], st', Suc 0))
      \<and> SERIAL_getSerial Big_endian (\<lambda>m n. (True, Suc n)) (\<lambda>n. n) put_all (Some []) 60 [] st' 7
        = Ok (Some (SERIAL_RETURN_SUCCESS, Some (response_number [0, 0, 1, 4]), Some [], [], st', 7))"
proof -
  have "4 \<le> length [0, 0, 1, 4 :: u8]" "\<not> hasSerial sample_serial_store"
    by (simp_all add: hasSerial_def sample_serial_store_def)
  from late_serial_is_not_saved [OF this, of "\<lambda>m n. (True, Suc n)" 0 "Suc 0" Big_endian "\<lambda>n. n" put_all "Some []" 50 60 "[]" 7]
  show ?thesis by blast
qed

end
