(* ===== verification/Dump_Feeder.thy ===== *)
theory Dump_Feeder
  imports Dump_Serial Core_Gps
begin

text \<open>
  The feeder for dump1090: the position and the device type from its configuration
  (\<open>dump1090/position.c\<close>, \<open>dump1090/devtype.c\<close>), and the part of \<open>dump1090/dump1090.c\<close> that makes
  the directories, loads, reads and checks the configuration. The sections it shares with the
  Radarcape daemon are those of the theory \<open>Rc_Config\<close>. The files are a parameter.
\<close>

section \<open>Doubles\<close>

text \<open>The fields of an IEEE double, and its value times \<open>2 ^ 1075\<close>; infinities count as \<open>2 ^ 1024\<close>, above all
  finite numbers.\<close>

definition dbl_exponent :: "ieee_double \<Rightarrow> nat" where
  "dbl_exponent x = unat (double_bits x) div 2 ^ 52 mod 2 ^ 11"

definition dbl_fraction :: "ieee_double \<Rightarrow> nat" where
  "dbl_fraction x = unat (double_bits x) mod 2 ^ 52"

definition dbl_nan :: "ieee_double \<Rightarrow> bool" where
  "dbl_nan x \<longleftrightarrow> dbl_exponent x = 2047 \<and> dbl_fraction x \<noteq> 0"

definition dbl_scaled :: "ieee_double \<Rightarrow> int" where
  "dbl_scaled x =
    (if unat (double_bits x) < 2 ^ 63 then 1 else -1)
    * int ((if dbl_exponent x = 0 then dbl_fraction x else 2 ^ 52 + dbl_fraction x) * 2 ^ max 1 (dbl_exponent x))"

text \<open>One, in these units; \<open>x < k\<close> and \<open>k < x\<close> in C, for a small integer \<open>k\<close>: both are false when \<open>x\<close> is not a number.\<close>

definition dbl_one :: int where "dbl_one = 2 ^ 1075"

definition dbl_below :: "ieee_double \<Rightarrow> int \<Rightarrow> bool" where
  "dbl_below x k \<longleftrightarrow> \<not> dbl_nan x \<and> dbl_scaled x < k * dbl_one"

definition dbl_above :: "ieee_double \<Rightarrow> int \<Rightarrow> bool" where
  "dbl_above x k \<longleftrightarrow> \<not> dbl_nan x \<and> k * dbl_one < dbl_scaled x"

section \<open>Position\<close>

text \<open>The variables of the options and the flags that tell whether they are given.\<close>

definition position_latitude :: nat where "position_latitude = 31"
definition position_longitude :: nat where "position_longitude = 32"
definition position_altitude :: nat where "position_altitude = 33"

definition position_options :: "CFG_Option list" where
  "position_options = map (\<lambda>(nm, v). (option_of nm CFG_VALUE_TYPE_DOUBLE v (Def_dbl (Double_bits 0)))\<lparr>opt_given := Some v\<rparr>)
     [(ascii ''Latitude'', position_latitude), (ascii ''Longitude'', position_longitude), (ascii ''Altitude'', position_altitude)]"

text \<open>Every failed check ends the process with an emergency message.\<close>

fun all_given :: "CFG_Option list \<Rightarrow> cfg_store \<Rightarrow> fault + unit" where
  "all_given [] st = Ok ()"
| "all_given (opt # os) st = (case opt_given opt of
      None \<Rightarrow> Fault Out_of_bounds
    | Some g \<Rightarrow> if \<not> cfg_given st g then Fault Emergency else all_given os st)"

definition position_checkCfg :: "cfg_store \<Rightarrow> fault + bool" where
  "position_checkCfg st =
    bind_ok (all_given position_options st) (\<lambda>_.
      case (cfg_vars st position_latitude, cfg_vars st position_longitude) of
        (Var_dbl lat, Var_dbl lon) \<Rightarrow>
          if dbl_below lat (-90) \<or> dbl_above lat 90 then Fault Emergency
          else if dbl_below lon (-180) \<or> dbl_above lon 180 then Fault Emergency
          else Ok True
      | _ \<Rightarrow> Fault Bad_type)"

definition position_cfgDesc :: CFG_Section where
  "position_cfgDesc = (section_of (ascii ''GPS'') position_options)\<lparr>sect_check := Some position_checkCfg\<rparr>"

definition setPosition :: "byte_order \<Rightarrow> 'n net_send \<Rightarrow> cfg_store \<Rightarrow> gps \<Rightarrow> 'n \<Rightarrow> fault + (gps \<times> 'n)" where
  "setPosition bo send st g n =
    (case (cfg_vars st position_latitude, cfg_vars st position_longitude, cfg_vars st position_altitude) of
       (Var_dbl lat, Var_dbl lon, Var_dbl alt) \<Rightarrow> GPS_setPositionWithFix bo send lat lon alt g n
     | _ \<Rightarrow> Fault Bad_type)"

section \<open>Device type\<close>

definition OPENSKY_DEVICE_TYPE_FEEDER :: u32 where "OPENSKY_DEVICE_TYPE_FEEDER = 5"
definition OPENSKY_DEVICE_TYPE_FEEDER_HPTOA :: u32 where "OPENSKY_DEVICE_TYPE_FEEDER_HPTOA = 8"

definition devtype_devType :: nat where "devtype_devType = 34"
definition sizeof_devType :: nat where "sizeof_devType = 20"

text \<open>The array of the option is one byte longer than its maximal length; the last byte stays zero.\<close>

definition devtype_cfgDesc :: CFG_Section where
  "devtype_cfgDesc = section_of (ascii ''Device'')
     [(option_of (ascii ''Type'') CFG_VALUE_TYPE_STRING devtype_devType (Def_string None))
        \<lparr>opt_maxlen := of_nat (sizeof_devType - 1)\<rparr>]"

text \<open>\<open>strncasecmp\<close> of two strings says equal.\<close>

definition strncaseeq :: "nat \<Rightarrow> u8 list \<Rightarrow> u8 list \<Rightarrow> bool" where
  "strncaseeq n s t \<longleftrightarrow> strcaseeq (take n (cstr s)) (take n (cstr t))"

definition DEVTYPE_getDeviceType :: "cfg_store \<Rightarrow> fault + u32" where
  "DEVTYPE_getDeviceType st =
    (case cfg_vars st devtype_devType of
       Var_string devType \<Rightarrow>
         Ok (if strncaseeq sizeof_devType devType (ascii ''hptoa'') \<or> strncaseeq sizeof_devType devType (ascii ''opensky'')
           then OPENSKY_DEVICE_TYPE_FEEDER_HPTOA else OPENSKY_DEVICE_TYPE_FEEDER)
     | _ \<Rightarrow> Fault Bad_type)"

section \<open>Configuration of the feeder\<close>

definition ident_username :: nat where "ident_username = 35"

definition ident_cfgDesc :: CFG_Section where
  "ident_cfgDesc = section_of (ascii ''IDENT'')
     [(option_of (ascii ''Username'') CFG_VALUE_TYPE_STRING ident_username (Def_string None))
        \<lparr>opt_maxlen := of_nat OPENSKY_MAX_USERNAME\<rparr>]"

text \<open>The sections in the order in which the components register them.\<close>

definition feeder_sections :: "CFG_Section list" where
  "feeder_sections = [relay_cfg, stat_cfg, req_cfgDesc, position_cfgDesc, devtype_cfgDesc, net_cfgDesc, buf_cfgDesc,
     rc_cfgDesc, rc_input_cfgDesc, filter_cfgDesc, ident_cfgDesc]"

definition feeder_bss :: cfg_store where
  "feeder_bss = \<lparr>cfg_vars = bss_vars (all_options feeder_sections), cfg_given = (\<lambda>g. False)\<rparr>"

text \<open>What \<open>stat\<close> finds at a path.\<close>

datatype path_kind = Path_missing | Path_denied | Path_unknown | Path_dir | Path_other

record file_env =
  mkdir_ok :: "u8 list \<Rightarrow> bool"
  file_contents :: "u8 list \<Rightarrow> u8 list option"
  dir_names :: "u8 list \<Rightarrow> u8 list list option"

definition ensureDir :: "file_env \<Rightarrow> u8 list \<Rightarrow> (u8 list \<Rightarrow> path_kind) \<Rightarrow> fault + (u8 list \<Rightarrow> path_kind)" where
  "ensureDir E path fs = (case fs path of
      Path_missing \<Rightarrow> if mkdir_ok E path then Ok (fs(path := Path_dir)) else Fault Emergency
    | Path_denied \<Rightarrow> Fault Emergency
    | Path_unknown \<Rightarrow> Ok fs
    | Path_dir \<Rightarrow> Ok fs
    | Path_other \<Rightarrow> Fault Emergency)"

definition feeder_configure :: "(u8 list \<Rightarrow> ieee_double) \<Rightarrow> file_env \<Rightarrow> u8 list \<Rightarrow> u8 list \<Rightarrow> (u8 list \<Rightarrow> path_kind) \<Rightarrow>
    cfg_parser \<Rightarrow> cfg_store \<Rightarrow> fault + (bool \<times> cfg_store)" where
  "feeder_configure strtod E LOCALSTATEDIR SYSCONFDIR fs p st =
    (let read = \<lambda>path. CFG_readDirectory strtod True False feeder_sections (file_contents E) path (dir_names E path)
     in bind_ok (ensureDir E LOCALSTATEDIR fs) (\<lambda>fs.
        bind_ok (ensureDir E (LOCALSTATEDIR @ ascii ''/conf.d'') fs) (\<lambda>fs.
        bind_ok (CFG_loadDefaults feeder_sections st) (\<lambda>st.
        bind_ok (CFG_setPort feeder_sections (ascii ''INPUT'') (ascii ''Port'') 30005 st) (\<lambda>st.
        let st = st\<lparr>cfg_vars := (cfg_vars st)(filter_sync := Var_boolean False)\<rparr> in
        bind_ok (read (LOCALSTATEDIR @ ascii ''/conf.d'') p st) (\<lambda>(cfgVar, p, st).
        bind_ok (read (SYSCONFDIR @ ascii ''/conf.d'') p st) (\<lambda>(cfgEtc, p, st).
        bind_ok (CFG_check feeder_sections st) (\<lambda>ok.
          if ok then Ok (cfgEtc \<and> cfgVar, st) else Fault Emergency))))))))"

section \<open>The table\<close>

lemmas feeder_desc_defs = cfg_desc_defs req_cfgDesc_def position_cfgDesc_def position_options_def devtype_cfgDesc_def
  ident_cfgDesc_def sizeof_devType_def OPENSKY_MAX_USERNAME_def

lemmas feeder_var_defs = cfg_var_defs req_serialNumber_def position_latitude_def position_longitude_def
  position_altitude_def devtype_devType_def ident_username_def

lemma feeder_table_ok: "table_ok feeder_sections"
  by (simp add: table_ok_def all_options_def feeder_sections_def feeder_desc_defs default_ok_def NI_MAXHOST_def)

lemma feeder_bss_ok: "store_ok (all_options feeder_sections) feeder_bss"
  by (simp add: store_ok_def feeder_bss_def all_options_def feeder_sections_def feeder_desc_defs feeder_var_defs
      bss_var_def var_ok_def NI_MAXHOST_def)

lemma feeder_cfgFix_ok:
  "store_ok (all_options feeder_sections) st \<Longrightarrow> \<exists>st' c. buffer_cfgFix st = Ok st'
    \<and> store_ok (all_options feeder_sections) st' \<and> buffer_config st = Some c \<and> buffer_config st' = Some (buf_cfgFix c)"
  by (rule buffer_cfgFix_ok) (auto simp: all_options_def feeder_sections_def)

lemma feeder_fixes_ok: "fixes_ok (all_options feeder_sections) feeder_sections"
  using feeder_cfgFix_ok by (fastforce simp: fixes_ok_def feeder_sections_def feeder_desc_defs)

lemma fix_all_feeder: "fix_all feeder_sections = buffer_cfgFix"
  by (intro ext) (simp add: feeder_sections_def feeder_desc_defs split: sum.split, simp add: bind_ok_def split: sum.split)

lemma feeder_lookups:
  "lookup_option feeder_sections (ascii ''Device'') (ascii ''serial'') = Some (hd (sect_options req_cfgDesc))"
  "lookup_option feeder_sections (ascii ''INPUT'') (ascii ''Port'') =
    Some (option_of (ascii ''port'') CFG_VALUE_TYPE_PORT rc_cfgPort (Def_port 10003))"
  "list_ex (\<lambda>s. strcaseeq (sect_name s) (ascii ''Device'')) feeder_sections"
  by (simp_all add: feeder_sections_def feeder_desc_defs strcaseeq_def to_lower_def)

section \<open>Checking\<close>

lemma feeder_vars:
  assumes "store_ok (all_options feeder_sections) st"
  shows "\<exists>a. cfg_vars st net_cfgHost = Var_string a \<and> a \<noteq> []" "\<exists>q. cfg_vars st net_cfgPort = Var_port q \<and> q \<le> 0xffff"
    "\<exists>a. cfg_vars st rc_cfgHost = Var_string a \<and> a \<noteq> []" "\<exists>q. cfg_vars st rc_cfgPort = Var_port q"
    "\<exists>x. cfg_vars st position_latitude = Var_dbl x" "\<exists>x. cfg_vars st position_longitude = Var_dbl x"
    "\<exists>x. cfg_vars st position_altitude = Var_dbl x" "\<exists>b. cfg_vars st filter_sync = Var_boolean b"
    "\<exists>a. cfg_vars st devtype_devType = Var_string a"
proof -
  have strings: "\<exists>a. v = Var_string a \<and> a \<noteq> []" if "var_type v = CFG_VALUE_TYPE_STRING" "var_sane v" for v
    using that by (cases v) auto
  have ports: "\<exists>q. v = Var_port q \<and> q \<le> 0xffff" if "var_type v = CFG_VALUE_TYPE_PORT" "var_sane v" for v
    using that by (cases v) auto
  have bools: "\<exists>b. v = Var_boolean b" if "var_type v = CFG_VALUE_TYPE_BOOL" for v using that by (cases v) simp_all
  have doubles: "\<exists>x. v = Var_dbl x" if "var_type v = CFG_VALUE_TYPE_DOUBLE" for v using that by (cases v) simp_all
  have "list_all (\<lambda>opt. var_ok opt (cfg_vars st (opt_var opt)))
      (sect_options net_cfgDesc @ sect_options rc_input_cfgDesc @ position_options @ sect_options filter_cfgDesc
        @ sect_options devtype_cfgDesc)"
    using assms by (simp add: store_ok_def all_options_def feeder_sections_def position_cfgDesc_def section_of_def)
  then show "\<exists>a. cfg_vars st net_cfgHost = Var_string a \<and> a \<noteq> []" "\<exists>q. cfg_vars st net_cfgPort = Var_port q \<and> q \<le> 0xffff"
    "\<exists>a. cfg_vars st rc_cfgHost = Var_string a \<and> a \<noteq> []" "\<exists>q. cfg_vars st rc_cfgPort = Var_port q"
    "\<exists>x. cfg_vars st position_latitude = Var_dbl x" "\<exists>x. cfg_vars st position_longitude = Var_dbl x"
    "\<exists>x. cfg_vars st position_altitude = Var_dbl x" "\<exists>b. cfg_vars st filter_sync = Var_boolean b"
    "\<exists>a. cfg_vars st devtype_devType = Var_string a"
    using strings ports bools doubles
    by (simp_all add: net_cfgDesc_def rc_input_cfgDesc_def filter_cfgDesc_def devtype_cfgDesc_def host_port_def
        position_options_def section_of_def option_of_def var_ok_def) blast+
qed

text \<open>A coordinate that is not a number passes the check.\<close>

definition within :: "int \<Rightarrow> ieee_double \<Rightarrow> bool" where
  "within k x \<longleftrightarrow> dbl_nan x \<or> \<bar>dbl_scaled x\<bar> \<le> k * dbl_one"

lemma within_iff: "within k x \<longleftrightarrow> \<not> dbl_below x (- k) \<and> \<not> dbl_above x k"
  by (auto simp: within_def dbl_below_def dbl_above_def abs_le_iff)

definition position_config_ok :: "cfg_store \<Rightarrow> bool" where
  "position_config_ok st = (case (cfg_vars st position_latitude, cfg_vars st position_longitude, cfg_vars st position_altitude) of
      (Var_dbl lat, Var_dbl lon, Var_dbl alt) \<Rightarrow> within 90 lat \<and> within 180 lon
        \<and> cfg_given st position_latitude \<and> cfg_given st position_longitude \<and> cfg_given st position_altitude
    | _ \<Rightarrow> False)"

lemma all_given_position:
  "all_given position_options st = (if cfg_given st position_latitude \<and> cfg_given st position_longitude
     \<and> cfg_given st position_altitude then Ok () else Fault Emergency)"
  by (simp add: position_options_def)

lemma position_check:
  assumes "store_ok (all_options feeder_sections) st"
  shows "position_checkCfg st = (if position_config_ok st then Ok True else Fault Emergency)"
proof -
  obtain lat lon alt where v: "cfg_vars st position_latitude = Var_dbl lat" "cfg_vars st position_longitude = Var_dbl lon"
    "cfg_vars st position_altitude = Var_dbl alt" using feeder_vars(5-7) [OF assms] by blast
  show ?thesis by (simp add: position_checkCfg_def all_given_position position_config_ok_def v within_iff)
qed

lemma check_feeder:
  assumes "store_ok (all_options feeder_sections) st"
  shows "CFG_check feeder_sections st
      = (if position_config_ok st
         then bind_ok (check_host_port net_cfgHost net_cfgPort st) (\<lambda>ok.
           if ok then check_host_port rc_cfgHost rc_cfgPort st else Ok False)
         else Fault Emergency)"
proof -
  have "\<exists>q. cfg_vars st net_cfgPort = Var_port q" using feeder_vars(2) [OF assms] by blast
  from check_host_port_cases [OF feeder_vars(1) [OF assms] this] check_host_port_cases [OF feeder_vars(3,4) [OF assms]]
  obtain b c where "check_host_port net_cfgHost net_cfgPort st = Ok b" "check_host_port rc_cfgHost rc_cfgPort st = Ok c"
    by (elim exE conjE)
  then show ?thesis by (simp add: feeder_sections_def feeder_desc_defs position_check [OF assms])
qed

lemma check_feeder_safe:
  assumes "store_ok (all_options feeder_sections) st"
  shows "case CFG_check feeder_sections st of
      Inl f \<Rightarrow> f = Emergency
    | Inr ok \<Rightarrow> ok \<longrightarrow> network_config_ok st \<and> position_config_ok st"
proof -
  obtain b where b: "check_host_port net_cfgHost net_cfgPort st = Ok b"
    "b \<longleftrightarrow> (\<exists>a q. cfg_vars st net_cfgHost = Var_string a \<and> cstr a \<noteq> [] \<and> cfg_vars st net_cfgPort = Var_port q \<and> q \<noteq> 0)"
    using check_host_port_cases [OF feeder_vars(1) [OF assms]] feeder_vars(2) [OF assms] by blast
  obtain c where c: "check_host_port rc_cfgHost rc_cfgPort st = Ok c"
    using check_host_port_cases [OF feeder_vars(3,4) [OF assms]] by auto
  have "b \<longrightarrow> network_config_ok st"
    using b(2) feeder_vars(2) [OF assms] by (auto simp: network_config_ok_def word_greater_zero_iff)
  then show ?thesis by (simp add: check_feeder [OF assms] b(1) c)
qed

lemma assign_var_given: "assign_var opt v st = Ok st' \<Longrightarrow> cfg_given st' = cfg_given st"
  by (auto simp: assign_var_def split: if_splits)

lemma assignOptionFromDefault_given:
  assumes "assignOptionFromDefault opt st = Ok st'" "cfg_given st = (\<lambda>g. False)"
  shows "cfg_given st' = (\<lambda>g. False)"
proof -
  obtain t where "st' = set_given opt False t" "\<exists>v. assign_var opt v st = Ok t"
    using assms(1) by (auto simp: assignOptionFromDefault_def strncpy_var_def bind_ok_eq_Inr
        split: CFG_VALUE_TYPE.splits CFG_Value.splits option.splits if_splits)
  then show ?thesis using assign_var_given [of opt _ st t] assms(2) by (auto simp: set_given_def split: option.split)
qed

lemma load_options_given:
  "load_options opts st = Ok st' \<Longrightarrow> cfg_given st = (\<lambda>g. False) \<Longrightarrow> cfg_given st' = (\<lambda>g. False)"
  by (induction opts arbitrary: st) (auto simp: bind_ok_eq_Inr dest: assignOptionFromDefault_given)

lemma feeder_port_ok:
  assumes "store_ok (all_options feeder_sections) st"
  obtains st' where "CFG_setPort feeder_sections (ascii ''INPUT'') (ascii ''Port'') 30005 st = Ok st'"
    "store_ok (all_options feeder_sections) st'" "cfg_vars st' = (cfg_vars st)(rc_cfgPort := Var_port 30005)"
    "cfg_given st' = cfg_given st"
proof -
  let ?opt = "option_of (ascii ''port'') CFG_VALUE_TYPE_PORT rc_cfgPort (Def_port 10003)"
  have "getOptionByString feeder_sections (ascii ''INPUT'') (ascii ''Port'') = Ok ?opt"
    using getOption_exact [of "ascii ''INPUT''" "ascii ''Port''" feeder_sections "[]" "[]"] feeder_lookups(2)
    by (simp add: getOptionByString_def)
  moreover have "?opt \<in> set (all_options feeder_sections)"
    by (simp add: all_options_def feeder_sections_def rc_input_cfgDesc_def host_port_def section_of_def)
  then obtain st' where "assign_var ?opt (Var_port 30005) st = Ok st'" "store_ok (all_options feeder_sections) st'"
    using assign_scalar [OF assms, of ?opt "Var_port 30005"] by (auto simp: option_of_def)
  moreover have "cfg_given st' = cfg_given st" using \<open>assign_var ?opt (Var_port 30005) st = Ok st'\<close> by (rule assign_var_given)
  ultimately show thesis
    using that assign_var_value [of ?opt "Var_port 30005" st st'] by (simp add: CFG_setPort_def set_scalar_def option_of_def)
qed

section \<open>A configured position\<close>

definition position_option :: "string \<Rightarrow> nat \<Rightarrow> CFG_Option" where
  "position_option nm v = (option_of (ascii nm) CFG_VALUE_TYPE_DOUBLE v (Def_dbl (Double_bits 0)))\<lparr>opt_given := Some v\<rparr>"

lemma position_lookups:
  "lookup_option feeder_sections (ascii ''GPS'') (ascii ''Latitude'') = Some (position_option ''Latitude'' position_latitude)"
  "lookup_option feeder_sections (ascii ''GPS'') (ascii ''Longitude'') = Some (position_option ''Longitude'' position_longitude)"
  "lookup_option feeder_sections (ascii ''GPS'') (ascii ''Altitude'') = Some (position_option ''Altitude'' position_altitude)"
  "list_ex (\<lambda>s. strcaseeq (sect_name s) (ascii ''GPS'')) feeder_sections"
  "position_option ''Latitude'' position_latitude \<in> set (all_options feeder_sections)"
  "position_option ''Longitude'' position_longitude \<in> set (all_options feeder_sections)"
  "position_option ''Altitude'' position_altitude \<in> set (all_options feeder_sections)"
  by (simp_all add: feeder_sections_def feeder_desc_defs strcaseeq_def to_lower_def position_option_def all_options_def)

definition number_text :: "u8 list \<Rightarrow> bool" where
  "number_text t \<longleftrightarrow> plain_value t \<and> t \<noteq> [] \<and> length t < 60 \<and> 0 \<notin> set t"

lemma exec_double:
  assumes "store_ok (all_options feeder_sections) st" "number_text t"
    and "lookup_option feeder_sections sec (ascii nm) = Some (position_option nm v)"
    and "position_option nm v \<in> set (all_options feeder_sections)"
  obtains st' where "exec_line strtod d feeder_sections (Setting (ascii nm) [] [] t False) (Some sec) st = Ok (Some sec, st')"
    "store_ok (all_options feeder_sections) st'" "cfg_vars st' = (cfg_vars st)(v := Var_dbl (strtod t))"
    "cfg_given st' = (cfg_given st)(v := True)"
proof -
  let ?opt = "position_option nm v"
  have opt: "opt_type ?opt = CFG_VALUE_TYPE_DOUBLE" "opt_var ?opt = v" "opt_given ?opt = Some v"
    by (simp_all add: position_option_def option_of_def)
  obtain st1 where st1: "assign_var ?opt (Var_dbl (strtod t)) st = Ok st1" "store_ok (all_options feeder_sections) st1"
    using assign_scalar [OF assms(1,4), of "Var_dbl (strtod t)"] opt(1) by auto
  have "cfg_given st1 = cfg_given st" using st1(1) by (auto simp: assign_var_def split: if_splits)
  moreover have "parseDouble strtod t (of_nat (length t)) = Ok (Some (strtod t))"
    using number_string_plain [of t 60] assms(2) by (simp add: parseDouble_def number_text_def)
  then have "assignOptionFromString strtod ?opt t (of_nat (length t)) st = Ok (True, st1)"
    using opt(1) st1(1) by (simp add: assignOptionFromString_def assign_parsed_some)
  then have "assign_line strtod d ?opt t (of_nat (length t)) st = Ok (True, set_given ?opt True st1)"
    using assms(2) by (intro assign_line_simple) (simp_all add: number_text_def)
  moreover have "store_ok (all_options feeder_sections) (set_given ?opt True st1)" using st1(2) by simp
  ultimately show thesis
    using that [of "set_given ?opt True st1"] assms(3) assign_var_value [OF st1(1)] opt(2,3)
    by (simp add: set_given_def del: ascii_simps)
qed

definition position_lines :: "u8 list \<Rightarrow> u8 list \<Rightarrow> u8 list \<Rightarrow> cfg_line list" where
  "position_lines t1 t2 t3 = [Header (ascii ''GPS'') False, Setting (ascii ''Latitude'') [] [] t1 False,
     Setting (ascii ''Longitude'') [] [] t2 False, Setting (ascii ''Altitude'') [] [] t3 False]"

lemma position_lines_ok:
  assumes "number_text t1" "number_text t2" "number_text t3"
  shows "\<forall>l\<in>set (position_lines t1 t2 t3). line_ok l" "length (concat (map render (position_lines t1 t2 t3))) < 2 ^ 63"
  using assms by (simp_all add: position_lines_def number_text_def plain_key_def blanks_def is_space_def eol_def)

text \<open>The variables that a configuration without network settings leaves as they are by default.\<close>

definition hosts_set :: "cfg_store \<Rightarrow> bool" where
  "hosts_set st \<longleftrightarrow> (\<exists>h1 h2 p1 p2. cfg_vars st net_cfgHost = Var_string h1 \<and> cstr h1 \<noteq> []
     \<and> cfg_vars st net_cfgPort = Var_port p1 \<and> p1 \<noteq> 0
     \<and> cfg_vars st rc_cfgHost = Var_string h2 \<and> cstr h2 \<noteq> [] \<and> cfg_vars st rc_cfgPort = Var_port p2 \<and> p2 \<noteq> 0)"

lemma hosts_set_check:
  assumes "hosts_set st"
  shows "check_host_port net_cfgHost net_cfgPort st = Ok True" "check_host_port rc_cfgHost rc_cfgPort st = Ok True"
proof -
  have "check_host_port host port st = Ok True"
    if "cfg_vars st host = Var_string h" "cstr h \<noteq> []" "cfg_vars st port = Var_port q" "q \<noteq> 0" for host port h q
    using that by (cases h) (auto simp: check_host_port_def cstr_def split: if_splits)
  then show "check_host_port net_cfgHost net_cfgPort st = Ok True" "check_host_port rc_cfgHost rc_cfgPort st = Ok True"
    using assms by (auto simp: hosts_set_def)
qed

lemma feeder_defaults:
  obtains st0 where "CFG_loadDefaults feeder_sections feeder_bss = Ok st0" "store_ok (all_options feeder_sections) st0"
    "hosts_set st0" "cfg_given st0 = (\<lambda>g. False)"
proof -
  obtain st0 where st0: "CFG_loadDefaults feeder_sections feeder_bss = Ok st0" "store_ok (all_options feeder_sections) st0"
    using CFG_loadDefaults_ok [OF feeder_bss_ok _ feeder_table_ok] by auto
  have "list_all default_string_ok (all_options feeder_sections)" "distinct (map opt_var (all_options feeder_sections))"
    by (simp_all add: all_options_def feeder_sections_def feeder_desc_defs default_string_ok_def feeder_var_defs)
  then have "\<forall>opt\<in>set (all_options feeder_sections). is_default opt (cfg_vars st0 (opt_var opt))"
    using load_options_values feeder_table_ok st0(1) by (simp add: table_ok_def CFG_loadDefaults_options)
  then have "\<forall>opt\<in>set (sect_options net_cfgDesc @ sect_options rc_input_cfgDesc). is_default opt (cfg_vars st0 (opt_var opt))"
    by (auto simp: all_options_def feeder_sections_def)
  then have "hosts_set st0"
    by (auto simp: net_cfgDesc_def rc_input_cfgDesc_def host_port_def section_of_def option_of_def is_default_def hosts_set_def)
  moreover have "cfg_given st0 = (\<lambda>g. False)"
    using load_options_given st0(1) by (simp add: CFG_loadDefaults_options feeder_bss_def)
  ultimately show thesis using st0 that by blast
qed

text \<open>Reading the three lines.\<close>

lemma read_position:
  assumes "store_ok (all_options feeder_sections) st" "hosts_set st" "number_text t1" "number_text t2" "number_text t3"
  obtains q st' where "CFG_readFile strtod d feeder_sections (Some (concat (map render (position_lines t1 t2 t3)))) p st = Ok (True, q, st')"
    "store_ok (all_options feeder_sections) st'" "hosts_set st'"
    "cfg_vars st' position_latitude = Var_dbl (strtod t1)" "cfg_vars st' position_longitude = Var_dbl (strtod t2)"
    "cfg_vars st' position_altitude = Var_dbl (strtod t3)"
    "cfg_given st' position_latitude" "cfg_given st' position_longitude" "cfg_given st' position_altitude"
proof -
  obtain a where a: "exec_line strtod d feeder_sections (Setting (ascii ''Latitude'') [] [] t1 False) (Some (ascii ''GPS'')) st = Ok (Some (ascii ''GPS''), a)"
    "store_ok (all_options feeder_sections) a" "cfg_vars a = (cfg_vars st)(position_latitude := Var_dbl (strtod t1))"
    "cfg_given a = (cfg_given st)(position_latitude := True)"
    by (rule exec_double [OF assms(1,3) position_lookups(1,5)])
  obtain b where b: "exec_line strtod d feeder_sections (Setting (ascii ''Longitude'') [] [] t2 False) (Some (ascii ''GPS'')) a = Ok (Some (ascii ''GPS''), b)"
    "store_ok (all_options feeder_sections) b" "cfg_vars b = (cfg_vars a)(position_longitude := Var_dbl (strtod t2))"
    "cfg_given b = (cfg_given a)(position_longitude := True)"
    by (rule exec_double [OF a(2) assms(4) position_lookups(2,6)])
  obtain c where c: "exec_line strtod d feeder_sections (Setting (ascii ''Altitude'') [] [] t3 False) (Some (ascii ''GPS'')) b = Ok (Some (ascii ''GPS''), c)"
    "store_ok (all_options feeder_sections) c" "cfg_vars c = (cfg_vars b)(position_altitude := Var_dbl (strtod t3))"
    "cfg_given c = (cfg_given b)(position_altitude := True)"
    by (rule exec_double [OF b(2) assms(5) position_lookups(3,7)])
  obtain st' where st': "buffer_cfgFix c = Ok st'" "store_ok (all_options feeder_sections) st'"
    using feeder_cfgFix_ok [OF c(2)] by blast
  have "exec_lines strtod d feeder_sections (position_lines t1 t2 t3) None st = Ok (Some (ascii ''GPS''), c)"
    using a(1) b(1) c(1) position_lookups(4) by (simp add: position_lines_def del: ascii_simps exec_line.simps(2))
  then have "bind_ok (CFG_readFile strtod d feeder_sections (Some (concat (map render (position_lines t1 t2 t3)))) p st)
      (\<lambda>(ok, p, st). Ok (ok, st)) = Ok (True, st')"
    using cfg_file_lines [OF position_lines_ok [OF assms(3-5)]] st'(1) by (simp add: fix_all_feeder)
  then obtain q where "CFG_readFile strtod d feeder_sections (Some (concat (map render (position_lines t1 t2 t3)))) p st = Ok (True, q, st')"
    by (auto simp: bind_ok_eq_Inr)
  moreover have "cfg_given st' = cfg_given c" "\<forall>i. i \<noteq> buf_statBacklog \<longrightarrow> i \<noteq> buf_gc \<longrightarrow> cfg_vars st' i = cfg_vars c i"
    using st'(1) by (auto simp: buffer_cfgFix_def Let_def split: option.splits)
  ultimately show thesis
    using that [OF _ st'(2)] assms(2) a(3,4) b(3,4) c(3,4) by (simp add: hosts_set_def feeder_var_defs)
qed

section \<open>A serial number is kept\<close>

text \<open>A request that succeeds leaves exactly the lines of its number in the file.\<close>

lemma getSerial_file:
  assumes "SERIAL_getSerial bo send disconnect put_all (Some []) now es st n
      = Ok (Some (SERIAL_RETURN_SUCCESS, Some num, Some out, tss, st1, n1))"
    and "\<not> hasSerial st"
  shows "out = concat (map render (serial_lines num))"
proof -
  have w: "CFG_writeSection put_all (\<lambda>d. []) req_cfgDesc st1 (Some []) = Ok (True, Some out)" "num = serialNumber st1"
    using assms by (auto simp: SERIAL_getSerial_def bind_ok_eq_Inr split: prod.splits option.splits if_splits)
  then obtain i where "cfg_vars st1 req_serialNumber = Var_integer i"
    by (cases "cfg_vars st1 req_serialNumber")
      (auto simp: CFG_writeSection_def req_cfgDesc_def section_of_def option_of_def left_out_def option_text_def)
  then show ?thesis using write_serial [of st1 i "\<lambda>d. []" "[]"] w by (simp add: serialNumber_def)
qed

lemma exec_serial_lines:
  assumes "store_ok (all_options feeder_sections) st"
  obtains st' where "exec_lines strtod d feeder_sections (serial_lines i) None st = Ok (Some (ascii ''Device''), st')"
    "store_ok (all_options feeder_sections) st'" "hasSerial st'" "serialNumber st' = i"
proof -
  let ?opt = "hd (sect_options req_cfgDesc)" and ?t = "decimal (unat i)"
  have opt: "?opt \<in> set (all_options feeder_sections)" "opt_type ?opt = CFG_VALUE_TYPE_INT"
    "opt_var ?opt = req_serialNumber" "opt_given ?opt = Some req_hasSerial"
    by (simp_all add: all_options_def feeder_sections_def req_cfgDesc_def section_of_def option_of_def)
  obtain st1 where st1: "assign_var ?opt (Var_integer i) st = Ok st1" "store_ok (all_options feeder_sections) st1"
    using assign_scalar [OF assms opt(1), of "Var_integer i"] opt(2) by auto
  have "parseInt ?t (of_nat (length ?t)) = Ok (Some i)" using parseInt_decimal [of "unat i"] unat_u32_less [of i] by simp
  then have "assignOptionFromString strtod ?opt ?t (of_nat (length ?t)) st = Ok (True, st1)"
    using opt(2) st1(1) by (simp add: assignOptionFromString_def assign_parsed_some)
  then have "assign_line strtod d ?opt ?t (of_nat (length ?t)) st = Ok (True, set_given ?opt True st1)"
    using decimal_plain(2) length_decimal [of "unat i" 10] unat_u32_less [of i] by (intro assign_line_simple) auto
  then have "exec_lines strtod d feeder_sections (serial_lines i) None st
      = Ok (Some (ascii ''Device''), set_given ?opt True st1)"
    using feeder_lookups(1,3) by (simp add: serial_lines_def)
  moreover have "hasSerial (set_given ?opt True st1)" "serialNumber (set_given ?opt True st1) = i"
    using assign_var_value [OF st1(1)] opt(3,4) by (simp_all add: hasSerial_def serialNumber_def set_given_def)
  ultimately show thesis using that st1(2) by simp
qed

lemma buffer_cfgFix_serial:
  "buffer_cfgFix st = Ok st' \<Longrightarrow> hasSerial st' = hasSerial st \<and> serialNumber st' = serialNumber st"
  by (auto simp: buffer_cfgFix_def Let_def hasSerial_def serialNumber_def feeder_var_defs split: option.splits)

lemma serial_lines_ok: "\<forall>l\<in>set (serial_lines i). line_ok l" "length (concat (map render (serial_lines i))) < 2 ^ 63"
  using length_decimal [of "unat i" 10] unat_u32_less [of i] decimal_plain
  by (auto simp: serial_lines_def plain_key_def blanks_def is_space_def eol_def)

section \<open>Properties\<close>

text \<open>C14: a serial number that a request returned is in the file it wrote, and reading this file in the next
  run makes it the serial number again, whatever was configured before: it is returned without asking
  the network and without touching the file.\<close>

theorem serial_number_survives_restart:
  assumes "SERIAL_getSerial bo send disconnect put_all (Some []) now es st n
      = Ok (Some (SERIAL_RETURN_SUCCESS, Some num, Some out, tss, st1, n1))"
    and "\<not> hasSerial st" and "store_ok (all_options feeder_sections) st0"
  shows "\<exists>q st2. CFG_readFile strtod d feeder_sections (Some out) p st0 = Ok (True, q, st2)
    \<and> store_ok (all_options feeder_sections) st2
    \<and> (\<forall>bo' send' disconnect' put now' es' n'. SERIAL_getSerial bo' send' disconnect' put file' now' es' st2 (n' :: 'm)
        = Ok (Some (SERIAL_RETURN_SUCCESS, Some num, file', [], st2, n')))"
proof -
  obtain st' where st': "exec_lines strtod d feeder_sections (serial_lines num) None st0 = Ok (Some (ascii ''Device''), st')"
    "store_ok (all_options feeder_sections) st'" "hasSerial st'" "serialNumber st' = num"
    using exec_serial_lines [OF assms(3)] by metis
  obtain st2 where st2: "buffer_cfgFix st' = Ok st2" "store_ok (all_options feeder_sections) st2"
    using feeder_cfgFix_ok [OF st'(2)] by blast
  have "bind_ok (CFG_readFile strtod d feeder_sections (Some out) p st0) (\<lambda>(ok, p, st). Ok (ok, st)) = Ok (True, st2)"
    unfolding getSerial_file [OF assms(1,2)] cfg_file_lines [OF serial_lines_ok] st'(1) bind_ok_simps prod.case fix_all_feeder st2(1) ..
  then obtain q where "CFG_readFile strtod d feeder_sections (Some out) p st0 = Ok (True, q, st2)"
    by (auto simp: bind_ok_eq_Inr)
  then show ?thesis
    using st2(2) buffer_cfgFix_serial [OF st2(1)] st'(3,4) by (simp add: SERIAL_getSerial_def)
qed

definition sample_cfg_parser :: cfg_parser where
  "sample_cfg_parser = \<lparr>bufferInput = 0, bufferSize = 0, bufferLine = 0, sectionState = SECTION_STATE_UNKNOWN,
     sectionName = 0, sectionNameLen = 0\<rparr>"

theorem serial_number_survives_restart_witness:
  "\<exists>out tss st1 q st2. SERIAL_getSerial Big_endian (\<lambda>m n. (True, Suc n)) (\<lambda>n. n) put_all (Some []) 50 [([[0, 0, 1, 2]], Wait_ok)]
        sample_serial_store 0 = Ok (Some (SERIAL_RETURN_SUCCESS, Some (response_number [0, 0, 1, 2]), Some out, tss, st1, 1))
    \<and> CFG_readFile (\<lambda>t. Double_bits 0) True feeder_sections (Some out) sample_cfg_parser feeder_bss = Ok (True, q, st2)
    \<and> SERIAL_getSerial Little_endian (\<lambda>m n. (False, n)) (\<lambda>n. n) put_all None 90 [] st2 ()
        = Ok (Some (SERIAL_RETURN_SUCCESS, Some (response_number [0, 0, 1, 2]), None, [], st2, ()))"
proof -
  let ?st1 = "answered [[0, 0, 1, 2]] sample_serial_store" and ?num = "response_number [0, 0, 1, 2]"
  have no: "\<not> hasSerial sample_serial_store" by (simp add: hasSerial_def sample_serial_store_def)
  have st1: "cfg_vars ?st1 req_serialNumber = Var_integer ?num" "serialNumber ?st1 = ?num"
    using answered_facts(1) [of "[[0, 0, 1, 2]]" sample_serial_store] by (simp_all add: answered_def)
  have "good_event ([[0, 0, 1, 2]], Wait_ok)" by (simp add: good_event_def)
  from wait_serial_step [OF no this, of Big_endian "\<lambda>n. n" "50 + 2" 1 "[]" "Suc 0"]
  have "SERIAL_getSerial Big_endian (\<lambda>m n. (True, Suc n)) (\<lambda>n. n) put_all (Some []) 50 [([[0, 0, 1, 2]], Wait_ok)]
      sample_serial_store 0 = Ok (Some (SERIAL_RETURN_SUCCESS, Some ?num, Some (concat (map render (serial_lines ?num))), [50 + 2], ?st1, 1))"
    using no st1 write_serial [OF st1(1), of "\<lambda>d. []" "[]"] by (simp add: SERIAL_getSerial_def sendSerialRequest_def)
  moreover from serial_number_survives_restart [OF this no feeder_bss_ok, of "\<lambda>t. Double_bits 0" True sample_cfg_parser
      None, where 'm = unit]
  obtain q st2 where "CFG_readFile (\<lambda>t. Double_bits 0) True feeder_sections (Some (concat (map render (serial_lines ?num))))
      sample_cfg_parser feeder_bss = Ok (True, q, st2)"
    "SERIAL_getSerial Little_endian (\<lambda>m n. (False, n)) (\<lambda>n. n) put_all None 90 [] st2 ()
      = Ok (Some (SERIAL_RETURN_SUCCESS, Some ?num, None, [], st2, ()))" by (elim exE conjE) blast
  ultimately show ?thesis by blast
qed

text \<open>Whatever the directories and the files in them hold, the feeder either ends with an emergency message
  or an access out of bounds of the parser, or starts with a configuration of the right types, a host
  and a port to connect to, and a complete position within the bounds of latitude and longitude,
  unless a coordinate is not a number; its device type is one of the two of a feeder.\<close>

theorem feeder_config_safe:
  "case feeder_configure strtod E LOCALSTATEDIR SYSCONFDIR fs p feeder_bss of
     Inl f \<Rightarrow> f = Out_of_bounds \<or> f = Emergency
   | Inr (read, st) \<Rightarrow> store_ok (all_options feeder_sections) st \<and> network_config_ok st \<and> position_config_ok st
       \<and> DEVTYPE_getDeviceType st \<in> {Ok OPENSKY_DEVICE_TYPE_FEEDER, Ok OPENSKY_DEVICE_TYPE_FEEDER_HPTOA}"
proof -
  let ?ok = "store_ok (all_options feeder_sections)"
  let ?read = "\<lambda>path. CFG_readDirectory strtod True False feeder_sections (file_contents E) path (dir_names E path)"
  let ?sync = "\<lambda>st. st\<lparr>cfg_vars := (cfg_vars st)(filter_sync := Var_boolean False)\<rparr>"
  let ?var = "LOCALSTATEDIR @ ascii ''/conf.d''" and ?etc = "SYSCONFDIR @ ascii ''/conf.d''"
  have made: "ensureDir E path fs = Fault Emergency \<or> (\<exists>fs'. ensureDir E path fs = Ok fs')" for path fs
    by (simp add: ensureDir_def split: path_kind.split)
  obtain st0 where st0: "CFG_loadDefaults feeder_sections feeder_bss = Ok st0" "?ok st0"
    using CFG_loadDefaults_ok [OF feeder_bss_ok _ feeder_table_ok] by auto
  obtain st1 where st1: "CFG_setPort feeder_sections (ascii ''INPUT'') (ascii ''Port'') 30005 st0 = Ok st1" "?ok st1"
    using feeder_port_ok [OF st0(2)] by metis
  have sync: "?ok (?sync st1)" using feeder_vars(8) [OF st1(2)] by (intro store_ok_update [OF st1(2)]) auto
  have read: "?read path q st = Fault Out_of_bounds \<or> (\<exists>ok q' st'. ?read path q st = Ok (ok, q', st') \<and> ?ok st')"
    if "?ok st" for path q st
    using read_directory_types [OF feeder_table_ok that feeder_fixes_ok, of strtod True False "file_contents E" path "dir_names E path" q]
    by (cases "?read path q st") auto
  have check: "CFG_check feeder_sections st = Fault Emergency \<or> (\<exists>ok. CFG_check feeder_sections st = Ok ok
      \<and> (ok \<longrightarrow> network_config_ok st \<and> position_config_ok st))" if "?ok st" for st
    using check_feeder_safe [OF that] by (cases "CFG_check feeder_sections st") auto
  have type: "DEVTYPE_getDeviceType st \<in> {Ok OPENSKY_DEVICE_TYPE_FEEDER, Ok OPENSKY_DEVICE_TYPE_FEEDER_HPTOA}"
    if "?ok st" for st
    using feeder_vars(9) [OF that] by (auto simp: DEVTYPE_getDeviceType_def)
  consider (dir) "ensureDir E LOCALSTATEDIR fs = Fault Emergency"
    | (conf) fs1 where "ensureDir E LOCALSTATEDIR fs = Ok fs1" "ensureDir E ?var fs1 = Fault Emergency"
    | (dirs) fs1 fs2 where "ensureDir E LOCALSTATEDIR fs = Ok fs1" "ensureDir E ?var fs1 = Ok fs2"
    using made by meson
  then show ?thesis
  proof cases
    case dirs
    from read [OF sync, of ?var p] show ?thesis
    proof (elim disjE exE conjE)
      fix a q st assume a: "?read ?var p (?sync st1) = Ok (a, q, st)" "?ok st"
      from read [OF a(2), of ?etc q] show ?thesis
      proof (elim disjE exE conjE)
        fix b q' st' assume b: "?read ?etc q st = Ok (b, q', st')" "?ok st'"
        from check [OF b(2)] type [OF b(2)] show ?thesis
          by (elim disjE exE conjE) (simp_all add: feeder_configure_def Let_def dirs st0(1) st1(1) a(1) b del: ascii_simps)
      qed (simp add: feeder_configure_def Let_def dirs st0(1) st1(1) a(1) del: ascii_simps)
    qed (simp add: feeder_configure_def Let_def dirs st0(1) st1(1) del: ascii_simps)
  qed (simp_all add: feeder_configure_def Let_def del: ascii_simps)
qed


text \<open>50 degrees, 100 degrees, and not a number.\<close>

lemma sample_doubles:
  "within 90 (Double_bits 0x4049000000000000)" "within 180 (Double_bits 0x4049000000000000)"
  "\<not> within 90 (Double_bits 0x4059000000000000)" "within 90 (Double_bits 0x7ff8000000000000)"
  "within 180 (Double_bits 0x7ff8000000000000)"
  by (simp_all add: within_def dbl_nan_def dbl_scaled_def dbl_exponent_def dbl_fraction_def dbl_one_def)

definition sample_files :: file_env where
  "sample_files = \<lparr>mkdir_ok = (\<lambda>path. True),
     file_contents = (\<lambda>path. Some (concat (map render (position_lines [49] [49] [49])))),
     dir_names = (\<lambda>path. if path = [118] @ ascii ''/conf.d'' then Some [[48]] else Some [])\<rparr>"


end
