(* ===== verification/Util_Log.thy ===== *)
theory Util_Log
  imports Util_Cstring
begin

text \<open>
  Logging (\<open>util/log_stdio.c\<close> and, for the feeder library, \<open>gplib/log_lib.cc\<close>): the functions as the
  sequences of actions they perform on the streams, the mutex and the cancellation state of their
  thread, and the runs of several threads that log, each of which can be cancelled. The messages
  are already formatted, and the texts of errors are parameters.
\<close>

section \<open>Actions\<close>

datatype log_stream = Msg_stream | Err_stream

datatype log_action = Cancel_disable | Cancel_restore | Mutex_lock | Mutex_unlock
  | Write log_stream "u8 list" | Flush log_stream | Abort_process

datatype LOG_LEVEL = LOG_LEVEL_INFO | LOG_LEVEL_DEBUG | LOG_LEVEL_WARN | LOG_LEVEL_ERROR | LOG_LEVEL_EMERG

fun levelNames :: "LOG_LEVEL \<Rightarrow> u8 list" where
  "levelNames LOG_LEVEL_INFO = ascii ''INFO''"
| "levelNames LOG_LEVEL_DEBUG = ascii ''DEBUG''"
| "levelNames LOG_LEVEL_WARN = ascii ''WARN''"
| "levelNames LOG_LEVEL_ERROR = ascii ''ERROR''"
| "levelNames LOG_LEVEL_EMERG = ascii ''EMERG''"

text \<open>\<open>%d\<close>.\<close>

definition decimal_int :: "int \<Rightarrow> u8 list" where
  "decimal_int i = (if i < 0 then 45 # decimal (nat (- i)) else decimal (nat i))"

section \<open>The log of the daemons\<close>

text \<open>\<open>printf("[%s] ", s)\<close>.\<close>

definition print_tag :: "u8 list \<Rightarrow> log_action list" where
  "print_tag s = [Write Msg_stream (91 # s @ [93, 32])]"

definition LOG_flush :: "log_action list" where
  "LOG_flush = [Cancel_disable, Flush Msg_stream, Cancel_restore]"

definition LOG_logf :: "LOG_LEVEL \<Rightarrow> u8 list option \<Rightarrow> u8 list \<Rightarrow> log_action list" where
  "LOG_logf level prefix msg =
    [Cancel_disable, Mutex_lock] @ print_tag (levelNames level)
    @ (case prefix of None \<Rightarrow> [] | Some p \<Rightarrow> print_tag p)
    @ [Write Msg_stream msg, Write Msg_stream [10]]
    @ [Mutex_unlock, Cancel_restore] @ (if level = LOG_LEVEL_EMERG then LOG_flush @ [Abort_process] else [])"

definition LOG_log :: "LOG_LEVEL \<Rightarrow> u8 list option \<Rightarrow> u8 list \<Rightarrow> log_action list" where
  "LOG_log level prefix str =
    [Cancel_disable, Mutex_lock] @ print_tag (levelNames level)
    @ (case prefix of None \<Rightarrow> [] | Some p \<Rightarrow> print_tag p)
    @ [Write Msg_stream (str @ [10])]
    @ [Mutex_unlock, Cancel_restore] @ (if level = LOG_LEVEL_EMERG then LOG_flush @ [Abort_process] else [])"

text \<open>\<open>strerror\<close> gives the text of an error, if there is one.\<close>

definition logWithErr :: "(int \<Rightarrow> u8 list option) \<Rightarrow> LOG_LEVEL \<Rightarrow> int \<Rightarrow> u8 list option \<Rightarrow> u8 list \<Rightarrow> log_action list" where
  "logWithErr strerror level err prefix msg =
    [Cancel_disable, Mutex_lock] @ print_tag (levelNames level)
    @ (case prefix of None \<Rightarrow> [] | Some p \<Rightarrow> print_tag p)
    @ [Write Msg_stream msg]
    @ (case strerror err of
         Some errstr \<Rightarrow> [Write Msg_stream ([58, 32] @ errstr @ [32, 40] @ decimal_int err @ [41])]
       | None \<Rightarrow> [Write Msg_stream (ascii '': Unknown Error ('' @ decimal_int err @ [41])])
    @ [Write Msg_stream [10]]
    @ [Mutex_unlock, Cancel_restore] @ (if level = LOG_LEVEL_EMERG then LOG_flush @ [Abort_process] else [])"

definition LOG_errno :: "(int \<Rightarrow> u8 list option) \<Rightarrow> int \<Rightarrow> LOG_LEVEL \<Rightarrow> u8 list option \<Rightarrow> u8 list \<Rightarrow> log_action list" where
  "LOG_errno strerror errno level prefix msg = logWithErr strerror level errno prefix msg"

definition LOG_errno2 :: "(int \<Rightarrow> u8 list option) \<Rightarrow> LOG_LEVEL \<Rightarrow> int \<Rightarrow> u8 list option \<Rightarrow> u8 list \<Rightarrow> log_action list" where
  "LOG_errno2 strerror level err prefix msg = logWithErr strerror level err prefix msg"

text \<open>On POSIX, errors of the network are those of \<open>errno\<close>.\<close>

definition LOG_errnet :: "(int \<Rightarrow> u8 list option) \<Rightarrow> int \<Rightarrow> LOG_LEVEL \<Rightarrow> u8 list option \<Rightarrow> u8 list \<Rightarrow> log_action list" where
  "LOG_errnet strerror errno level prefix msg = logWithErr strerror level errno prefix msg"

section \<open>The log of the library\<close>

definition getStream :: "LOG_LEVEL \<Rightarrow> log_stream" where
  "getStream level = (if level = LOG_LEVEL_ERROR \<or> level = LOG_LEVEL_EMERG then Err_stream else Msg_stream)"

definition lib_LOG_flush :: "log_action list" where
  "lib_LOG_flush = [Cancel_disable, Flush Msg_stream, Flush Err_stream, Cancel_restore]"

definition lib_LOG_log :: "LOG_LEVEL \<Rightarrow> u8 list option \<Rightarrow> u8 list \<Rightarrow> log_action list" where
  "lib_LOG_log level prefix str =
    (let stream = getStream level
     in [Cancel_disable, Mutex_lock]
        @ [Write stream [91], Write stream (levelNames level), Write stream [93]]
        @ (case prefix of None \<Rightarrow> [] | Some p \<Rightarrow> [Write stream [32], Write stream [91], Write stream p, Write stream [93]])
        @ [Write stream [32], Write stream str, Write stream [10], Flush stream]
        @ [Mutex_unlock, Cancel_restore] @ (if level = LOG_LEVEL_EMERG then lib_LOG_flush @ [Abort_process] else []))"

definition sizeof_str :: nat where "sizeof_str = 2048"

text \<open>\<open>vsnprintf\<close> cuts the message.\<close>

definition lib_LOG_logf :: "LOG_LEVEL \<Rightarrow> u8 list option \<Rightarrow> u8 list \<Rightarrow> log_action list" where
  "lib_LOG_logf level prefix msg = lib_LOG_log level prefix (take (sizeof_str - 1) msg)"

definition lib_logWithErr :: "(int \<Rightarrow> u8 list option) \<Rightarrow> LOG_LEVEL \<Rightarrow> int \<Rightarrow> u8 list option \<Rightarrow> u8 list \<Rightarrow> log_action list" where
  "lib_logWithErr strerror level err prefix msg =
    (let stream = getStream level; str = take (sizeof_str - 1) msg
     in [Cancel_disable, Mutex_lock]
        @ [Write stream [91], Write stream (levelNames level), Write stream [93]]
        @ (case prefix of None \<Rightarrow> [] | Some p \<Rightarrow> [Write stream [32], Write stream [91], Write stream p, Write stream [93]])
        @ [Write stream [32], Write stream str]
        @ (case strerror err of
             Some errstr \<Rightarrow> [Write stream [58], Write stream errstr, Write stream [32], Write stream [40],
               Write stream (decimal_int err), Write stream [41], Write stream [10], Flush stream]
           | None \<Rightarrow> [Write stream (ascii '': Unknown error (''), Write stream (decimal_int err), Write stream [41],
               Write stream [10], Flush stream])
        @ [Mutex_unlock, Cancel_restore] @ (if level = LOG_LEVEL_EMERG then lib_LOG_flush @ [Abort_process] else []))"

section \<open>Threads\<close>

text \<open>A thread: the calls it still has to make, the rest of the one it is in, whether it can be cancelled,
  and the state that \<open>Cancel_restore\<close> restores.\<close>

record log_thread =
  lt_todo :: "log_action list list"
  lt_now :: "log_action list"
  lt_cancelable :: bool
  lt_saved :: bool

record log_state =
  lg_threads :: "nat \<Rightarrow> log_thread"
  lg_mutex :: "nat option"
  lg_out :: "log_stream \<Rightarrow> u8 list"
  lg_flushed :: "log_stream \<Rightarrow> nat"
  lg_aborted :: bool

definition set_thread :: "nat \<Rightarrow> log_thread \<Rightarrow> log_state \<Rightarrow> log_state" where
  "set_thread t th s = s\<lparr>lg_threads := (lg_threads s)(t := th)\<rparr>"

text \<open>\<open>None\<close> when the thread has to wait.\<close>

fun exec_action :: "log_action \<Rightarrow> nat \<Rightarrow> log_thread \<Rightarrow> log_state \<Rightarrow> log_state option" where
  "exec_action Cancel_disable t th s = Some (set_thread t (th\<lparr>lt_saved := lt_cancelable th, lt_cancelable := False\<rparr>) s)"
| "exec_action Cancel_restore t th s = Some (set_thread t (th\<lparr>lt_cancelable := lt_saved th\<rparr>) s)"
| "exec_action Mutex_lock t th s = (if lg_mutex s = None then Some (set_thread t th (s\<lparr>lg_mutex := Some t\<rparr>)) else None)"
| "exec_action Mutex_unlock t th s = Some (set_thread t th (s\<lparr>lg_mutex := None\<rparr>))"
| "exec_action (Write st bs) t th s = Some (set_thread t th (s\<lparr>lg_out := (lg_out s)(st := lg_out s st @ bs)\<rparr>))"
| "exec_action (Flush st) t th s = Some (set_thread t th (s\<lparr>lg_flushed := (lg_flushed s)(st := length (lg_out s st))\<rparr>))"
| "exec_action Abort_process t th s = Some (set_thread t th (s\<lparr>lg_aborted := True\<rparr>))"

definition thread_step :: "nat \<Rightarrow> log_state \<Rightarrow> log_state option" where
  "thread_step t s =
    (if lg_aborted s then None
     else let th = lg_threads s t in case lt_now th of
       a # as \<Rightarrow> exec_action a t (th\<lparr>lt_now := as\<rparr>) s
     | [] \<Rightarrow> (case lt_todo th of
         [] \<Rightarrow> None
       | c # cs \<Rightarrow> Some (set_thread t (th\<lparr>lt_now := c, lt_todo := cs\<rparr>) s)))"

text \<open>Cancellation takes effect between two calls, or where a stream is used.\<close>

definition cancel_point :: "log_thread \<Rightarrow> bool" where
  "cancel_point th \<longleftrightarrow> (case lt_now th of [] \<Rightarrow> True | Write st bs # as \<Rightarrow> True | Flush st # as \<Rightarrow> True | _ \<Rightarrow> False)"

inductive log_step :: "log_state \<Rightarrow> log_state \<Rightarrow> bool" where
  run: "thread_step t s = Some s' \<Longrightarrow> log_step s s'"
| cancel: "\<not> lg_aborted s \<Longrightarrow> lt_cancelable (lg_threads s t) \<Longrightarrow> cancel_point (lg_threads s t) \<Longrightarrow>
    log_step s (set_thread t ((lg_threads s t)\<lparr>lt_todo := [], lt_now := []\<rparr>) s)"

inductive_cases log_stepE: "log_step s s'"

text \<open>Threads that make the given calls.\<close>

inductive log_reach :: "(nat \<Rightarrow> log_action list list) \<Rightarrow> log_state \<Rightarrow> bool" for calls where
  init: "(\<And>t. lt_todo (lg_threads s t) = calls t \<and> lt_now (lg_threads s t) = []) \<Longrightarrow> lg_mutex s = None \<Longrightarrow>
    lg_out s = (\<lambda>st. []) \<Longrightarrow> lg_flushed s = (\<lambda>st. 0) \<Longrightarrow> \<not> lg_aborted s \<Longrightarrow> log_reach calls s"
| step: "log_reach calls s \<Longrightarrow> log_step s s' \<Longrightarrow> log_reach calls s'"

section \<open>Calls\<close>

text \<open>What the functions have in common: a line that is written to one stream while the mutex is held, and, for
  an emergency, streams that are flushed before the process is aborted.\<close>

record log_call =
  lc_stream :: log_stream
  lc_body :: "log_action list"
  lc_emerg :: bool
  lc_flush :: "log_stream list"

fun written :: "log_stream \<Rightarrow> log_action list \<Rightarrow> u8 list" where
  "written st [] = []"
| "written st (Write st' bs # as) = (if st' = st then bs else []) @ written st as"
| "written st (a # as) = written st as"

definition lc_line :: "log_call \<Rightarrow> u8 list" where
  "lc_line c = written (lc_stream c) (lc_body c)"

definition tail_of :: "log_call \<Rightarrow> log_action list" where
  "tail_of c = (if lc_emerg c then [Cancel_disable] @ map Flush (lc_flush c) @ [Cancel_restore, Abort_process] else [])"

definition actions_of :: "log_call \<Rightarrow> log_action list" where
  "actions_of c = [Cancel_disable, Mutex_lock] @ lc_body c @ [Mutex_unlock, Cancel_restore] @ tail_of c"

fun body_action :: "log_stream \<Rightarrow> log_action \<Rightarrow> bool" where
  "body_action st (Write st' bs) = (st' = st)"
| "body_action st (Flush st') = True"
| "body_action st a = False"

definition call_ok :: "log_call \<Rightarrow> bool" where
  "call_ok c \<longleftrightarrow> list_all (body_action (lc_stream c)) (lc_body c) \<and> lc_stream c \<in> set (lc_flush c)"

text \<open>The lines of the two logs.\<close>

definition daemon_line :: "LOG_LEVEL \<Rightarrow> u8 list option \<Rightarrow> u8 list \<Rightarrow> u8 list" where
  "daemon_line level prefix msg = 91 # levelNames level @ [93, 32]
     @ (case prefix of None \<Rightarrow> [] | Some p \<Rightarrow> 91 # p @ [93, 32]) @ msg @ [10]"

definition error_text :: "(int \<Rightarrow> u8 list option) \<Rightarrow> int \<Rightarrow> u8 list" where
  "error_text strerror err = (case strerror err of
      Some errstr \<Rightarrow> [58, 32] @ errstr @ [32, 40] @ decimal_int err @ [41]
    | None \<Rightarrow> ascii '': Unknown Error ('' @ decimal_int err @ [41])"

definition lib_error_text :: "(int \<Rightarrow> u8 list option) \<Rightarrow> int \<Rightarrow> u8 list" where
  "lib_error_text strerror err = (case strerror err of
      Some errstr \<Rightarrow> [58] @ errstr @ [32, 40] @ decimal_int err @ [41]
    | None \<Rightarrow> ascii '': Unknown error ('' @ decimal_int err @ [41])"

definition logs_line :: "log_action list \<Rightarrow> log_stream \<Rightarrow> bool \<Rightarrow> u8 list \<Rightarrow> bool" where
  "logs_line as st em line \<longleftrightarrow> (\<exists>c. as = actions_of c \<and> call_ok c \<and> lc_stream c = st \<and> lc_emerg c = em \<and> lc_line c = line)"

lemma written_append [simp]: "written st (as @ bs) = written st as @ written st bs"
  by (induction st as rule: written.induct) simp_all

lemma logs_lineI:
  assumes "as = [Cancel_disable, Mutex_lock] @ body @ [Mutex_unlock, Cancel_restore]
      @ (if em then ([Cancel_disable] @ map Flush fl @ [Cancel_restore]) @ [Abort_process] else [])"
    and "list_all (body_action st) body" "st \<in> set fl" "written st body = line"
  shows "logs_line as st em line"
  unfolding logs_line_def
  by (rule exI [of _ "\<lparr>lc_stream = st, lc_body = body, lc_emerg = em, lc_flush = fl\<rparr>"])
    (use assms in \<open>simp add: actions_of_def tail_of_def call_ok_def lc_line_def\<close>)

lemma LOG_logf_line: "logs_line (LOG_logf level prefix msg) Msg_stream (level = LOG_LEVEL_EMERG) (daemon_line level prefix msg)"
  by (rule logs_lineI [where fl = "[Msg_stream]" and body = "print_tag (levelNames level)
        @ (case prefix of None \<Rightarrow> [] | Some p \<Rightarrow> print_tag p) @ [Write Msg_stream msg, Write Msg_stream [10]]"])
    (simp_all add: LOG_logf_def LOG_flush_def print_tag_def daemon_line_def split: option.split)

lemma LOG_log_line: "logs_line (LOG_log level prefix str) Msg_stream (level = LOG_LEVEL_EMERG) (daemon_line level prefix str)"
  by (rule logs_lineI [where fl = "[Msg_stream]" and body = "print_tag (levelNames level)
        @ (case prefix of None \<Rightarrow> [] | Some p \<Rightarrow> print_tag p) @ [Write Msg_stream (str @ [10])]"])
    (simp_all add: LOG_log_def LOG_flush_def print_tag_def daemon_line_def split: option.split)

lemma logWithErr_line:
  "logs_line (logWithErr strerror level err prefix msg) Msg_stream (level = LOG_LEVEL_EMERG)
    (daemon_line level prefix (msg @ error_text strerror err))"
  by (rule logs_lineI [where fl = "[Msg_stream]" and body = "print_tag (levelNames level)
        @ (case prefix of None \<Rightarrow> [] | Some p \<Rightarrow> print_tag p) @ [Write Msg_stream msg]
        @ (case strerror err of Some errstr \<Rightarrow> [Write Msg_stream ([58, 32] @ errstr @ [32, 40] @ decimal_int err @ [41])]
           | None \<Rightarrow> [Write Msg_stream (ascii '': Unknown Error ('' @ decimal_int err @ [41])]) @ [Write Msg_stream [10]]"])
    (simp_all add: logWithErr_def LOG_flush_def print_tag_def daemon_line_def error_text_def split: option.split)

lemma lib_LOG_log_line:
  "logs_line (lib_LOG_log level prefix str) (getStream level) (level = LOG_LEVEL_EMERG) (daemon_line level prefix str)"
  by (rule logs_lineI [where fl = "[Msg_stream, Err_stream]" and body = "let stream = getStream level in
        [Write stream [91], Write stream (levelNames level), Write stream [93]]
        @ (case prefix of None \<Rightarrow> [] | Some p \<Rightarrow> [Write stream [32], Write stream [91], Write stream p, Write stream [93]])
        @ [Write stream [32], Write stream str, Write stream [10], Flush stream]"])
    (simp_all add: lib_LOG_log_def lib_LOG_flush_def daemon_line_def getStream_def Let_def split: option.split)

lemma lib_logWithErr_line:
  "logs_line (lib_logWithErr strerror level err prefix msg) (getStream level) (level = LOG_LEVEL_EMERG)
    (daemon_line level prefix (take (sizeof_str - 1) msg @ lib_error_text strerror err))"
  by (rule logs_lineI [where fl = "[Msg_stream, Err_stream]" and body = "let stream = getStream level in
        [Write stream [91], Write stream (levelNames level), Write stream [93]]
        @ (case prefix of None \<Rightarrow> [] | Some p \<Rightarrow> [Write stream [32], Write stream [91], Write stream p, Write stream [93]])
        @ [Write stream [32], Write stream (take (sizeof_str - 1) msg)]
        @ (case strerror err of
             Some errstr \<Rightarrow> [Write stream [58], Write stream errstr, Write stream [32], Write stream [40],
               Write stream (decimal_int err), Write stream [41], Write stream [10], Flush stream]
           | None \<Rightarrow> [Write stream (ascii '': Unknown error (''), Write stream (decimal_int err), Write stream [41],
               Write stream [10], Flush stream])"])
    (simp_all add: lib_logWithErr_def lib_LOG_flush_def daemon_line_def lib_error_text_def getStream_def Let_def split: option.split)

section \<open>Invariant\<close>

text \<open>Where a thread is: between calls, before the lock, writing its line (what is left of it), after it, and,
  for an emergency, on the way to the abort.\<close>

datatype log_phase = Idle | Before log_call | Locking log_call | Holding log_call "log_action list" | Unlocked log_call
  | Leaving log_call | Flushing log_call "log_stream list" | Aborting log_call | Aborted log_call

fun phase_now :: "log_phase \<Rightarrow> log_action list" where
  "phase_now Idle = []"
| "phase_now (Before c) = actions_of c"
| "phase_now (Locking c) = Mutex_lock # lc_body c @ Mutex_unlock # Cancel_restore # tail_of c"
| "phase_now (Holding c body) = body @ Mutex_unlock # Cancel_restore # tail_of c"
| "phase_now (Unlocked c) = Cancel_restore # tail_of c"
| "phase_now (Leaving c) = tail_of c"
| "phase_now (Flushing c fs) = map Flush fs @ [Cancel_restore, Abort_process]"
| "phase_now (Aborting c) = [Abort_process]"
| "phase_now (Aborted c) = []"

text \<open>The call whose line is not yet, and the one whose line is already in the log.\<close>

fun starting :: "log_phase \<Rightarrow> log_call list" where
  "starting (Before c) = [c]"
| "starting (Locking c) = [c]"
| "starting ph = []"

fun emitted :: "log_phase \<Rightarrow> log_call list" where
  "emitted (Holding c body) = [c]"
| "emitted (Unlocked c) = [c]"
| "emitted (Leaving c) = [c]"
| "emitted (Flushing c fs) = [c]"
| "emitted (Aborting c) = [c]"
| "emitted (Aborted c) = [c]"
| "emitted ph = []"

fun shielded :: "log_phase \<Rightarrow> bool" where
  "shielded (Locking c) = True"
| "shielded (Holding c body) = True"
| "shielded (Unlocked c) = True"
| "shielded (Flushing c fs) = True"
| "shielded ph = False"

fun phase_call_ok :: "log_phase \<Rightarrow> bool" where
  "phase_call_ok (Holding c body) = (\<exists>done. lc_body c = done @ body)"
| "phase_call_ok (Leaving c) = lc_emerg c"
| "phase_call_ok (Flushing c fs) = (lc_emerg c \<and> (\<exists>done. lc_flush c = done @ fs))"
| "phase_call_ok (Aborting c) = lc_emerg c"
| "phase_call_ok (Aborted c) = lc_emerg c"
| "phase_call_ok ph = True"

definition thread_inv :: "log_call list \<Rightarrow> log_thread \<Rightarrow> log_phase \<Rightarrow> log_call list \<Rightarrow> bool" where
  "thread_inv calls th ph l \<longleftrightarrow> lt_now th = phase_now ph \<and> phase_call_ok ph \<and> (shielded ph \<longrightarrow> \<not> lt_cancelable th)
     \<and> (\<exists>cs. calls = l @ starting ph @ cs \<and> (lt_todo th = map actions_of cs \<or> lt_todo th = [] \<and> ph = Idle))
     \<and> (\<exists>l0. l = l0 @ emitted ph \<and> (\<forall>c\<in>set l0. \<not> lc_emerg c))"

text \<open>A line is among the first \<open>n\<close> bytes of a stream.\<close>

definition shown :: "u8 list \<Rightarrow> nat \<Rightarrow> u8 list \<Rightarrow> bool" where
  "shown line n out \<longleftrightarrow> (\<exists>pre post. out = pre @ line @ post \<and> length (pre @ line) \<le> n)"

lemma shown_mono: "shown line n out \<Longrightarrow> n \<le> m \<Longrightarrow> shown line m (out @ bs)"
  unfolding shown_def by (metis append_assoc order_trans)

fun phase_shown :: "(log_stream \<Rightarrow> u8 list) \<Rightarrow> (log_stream \<Rightarrow> nat) \<Rightarrow> log_phase \<Rightarrow> bool" where
  "phase_shown out fl (Unlocked c) = shown (lc_line c) (length (out (lc_stream c))) (out (lc_stream c))"
| "phase_shown out fl (Leaving c) = shown (lc_line c) (length (out (lc_stream c))) (out (lc_stream c))"
| "phase_shown out fl (Flushing c fs) = shown (lc_line c)
     (if lc_stream c \<in> set fs then length (out (lc_stream c)) else fl (lc_stream c)) (out (lc_stream c))"
| "phase_shown out fl (Aborting c) = shown (lc_line c) (fl (lc_stream c)) (out (lc_stream c))"
| "phase_shown out fl (Aborted c) = shown (lc_line c) (fl (lc_stream c)) (out (lc_stream c))"
| "phase_shown out fl ph = True"

definition logged :: "nat \<Rightarrow> (nat \<times> log_call) list \<Rightarrow> log_call list" where
  "logged t ms = map snd (filter (\<lambda>m. fst m = t) ms)"

lemma logged_simps [simp]:
  "logged t [] = []" "logged t (ms @ [(u, c)]) = logged t ms @ (if u = t then [c] else [])"
  by (simp_all add: logged_def)

definition lines :: "log_stream \<Rightarrow> (nat \<times> log_call) list \<Rightarrow> u8 list" where
  "lines st ms = concat (map (\<lambda>m. written st (lc_body (snd m))) ms)"

lemma lines_simps [simp]: "lines st [] = []" "lines st (ms @ [m]) = lines st ms @ written st (lc_body (snd m))"
  by (simp_all add: lines_def)

definition pending :: "log_stream \<Rightarrow> log_state \<Rightarrow> u8 list" where
  "pending st s = (case lg_mutex s of None \<Rightarrow> [] | Some t \<Rightarrow> written st (lt_now (lg_threads s t)))"

definition log_inv :: "(nat \<Rightarrow> log_call list) \<Rightarrow> log_state \<Rightarrow> (nat \<Rightarrow> log_phase) \<Rightarrow> (nat \<times> log_call) list \<Rightarrow> bool" where
  "log_inv calls s ph ms \<longleftrightarrow>
     (\<forall>t. thread_inv (calls t) (lg_threads s t) (ph t) (logged t ms) \<and> phase_shown (lg_out s) (lg_flushed s) (ph t))
     \<and> (\<forall>t. lg_mutex s = Some t \<longleftrightarrow> (\<exists>c body. ph t = Holding c body))
     \<and> (\<forall>st. lg_out s st @ pending st s = lines st ms)
     \<and> (\<forall>st. lg_flushed s st \<le> length (lg_out s st))
     \<and> (lg_aborted s \<longleftrightarrow> (\<exists>t c. ph t = Aborted c))
     \<and> (\<forall>t c body. ph t = Holding c body \<longrightarrow> (\<exists>ms0. ms = ms0 @ [(t, c)]))"

lemma log_invD:
  assumes "log_inv calls s ph ms"
  shows "thread_inv (calls t) (lg_threads s t) (ph t) (logged t ms)" "phase_shown (lg_out s) (lg_flushed s) (ph t)"
    "lg_mutex s = Some t \<longleftrightarrow> (\<exists>c body. ph t = Holding c body)" "lg_out s st @ pending st s = lines st ms"
    "lg_flushed s st \<le> length (lg_out s st)" "lg_aborted s \<longleftrightarrow> (\<exists>t c. ph t = Aborted c)"
    "ph t = Holding c body \<Longrightarrow> \<exists>ms0. ms = ms0 @ [(t, c)]"
  using assms unfolding log_inv_def by blast+

lemma thread_inv_emitted: "thread_inv calls th ph l \<Longrightarrow> c \<in> set (emitted ph) \<Longrightarrow> c \<in> set calls"
  by (auto simp: thread_inv_def)

lemma written_tail [simp]: "written st (tail_of c) = []"
proof -
  have "written st (map Flush fs @ [Cancel_restore, Abort_process]) = []" for fs by (induction fs) simp_all
  then show ?thesis by (simp add: tail_of_def)
qed

lemma phase_shown_mono:
  assumes "phase_shown out fl ph" "\<And>st. \<exists>bs. out' st = out st @ bs" "\<And>st. fl st \<le> fl' st"
  shows "phase_shown out' fl' ph"
proof -
  have "shown line (length (out st)) (out st) \<Longrightarrow> shown line (length (out' st)) (out' st)" for line st
    using assms(2) [of st] shown_mono by fastforce
  moreover have "shown line (fl st) (out st) \<Longrightarrow> shown line (fl' st) (out' st)" for line st
    using assms(2,3) [of st] shown_mono by fastforce
  ultimately show ?thesis using assms(1) by (cases ph) (auto split: if_splits)
qed

text \<open>One thread moves on, the others stay where they are.\<close>

lemma log_inv_move:
  assumes inv: "log_inv calls s ph ms"
    and th: "lg_threads s' = (lg_threads s)(t := th')"
    and out: "\<And>st. \<exists>bs. lg_out s' st = lg_out s st @ bs"
    and fl: "\<And>st. lg_flushed s st \<le> lg_flushed s' st \<and> lg_flushed s' st \<le> length (lg_out s' st)"
    and me: "thread_inv (calls t) th' p (logged t ms')" "phase_shown (lg_out s') (lg_flushed s') p"
    and ms: "ms' = ms \<or> lg_mutex s = None \<and> (\<exists>c. ms' = ms @ [(t, c)])"
    and last: "\<And>c body. p = Holding c body \<Longrightarrow> \<exists>ms0. ms' = ms0 @ [(t, c)]"
    and mutex: "lg_mutex s' = Some t \<longleftrightarrow> (\<exists>c body. p = Holding c body)" "\<And>u. u \<noteq> t \<Longrightarrow> lg_mutex s' = Some u \<longleftrightarrow> lg_mutex s = Some u"
    and log: "\<And>st. lg_out s' st @ pending st s' = lines st ms'"
    and ab: "\<not> lg_aborted s" "lg_aborted s' \<longleftrightarrow> (\<exists>c. p = Aborted c)"
  shows "log_inv calls s' (ph(t := p)) ms'"
proof -
  have "thread_inv (calls u) (lg_threads s' u) ((ph(t := p)) u) (logged u ms')
      \<and> phase_shown (lg_out s') (lg_flushed s') ((ph(t := p)) u)" for u
  proof (cases "u = t")
    case True
    then show ?thesis using th me by simp
  next
    case False
    then have "logged u ms' = logged u ms" using ms by auto
    moreover have "phase_shown (lg_out s) (lg_flushed s) (ph u)" using inv by (simp add: log_inv_def)
    then have "phase_shown (lg_out s') (lg_flushed s') (ph u)"
      by (rule phase_shown_mono) (use out fl in \<open>simp_all\<close>)
    ultimately show ?thesis using False th inv by (simp add: log_inv_def)
  qed
  moreover have "lg_mutex s' = Some u \<longleftrightarrow> (\<exists>c body. (ph(t := p)) u = Holding c body)" for u
    using mutex inv by (cases "u = t") (simp_all add: log_inv_def)
  moreover have "lg_aborted s' \<longleftrightarrow> (\<exists>u c. (ph(t := p)) u = Aborted c)"
    using ab inv by (auto simp: log_inv_def)
  moreover have "(ph(t := p)) u = Holding c body \<Longrightarrow> \<exists>ms0. ms' = ms0 @ [(u, c)]" for u c body
    using last ms inv by (cases "u = t") (auto simp: log_inv_def)
  ultimately show ?thesis unfolding log_inv_def using fl log by blast
qed

text \<open>A move outside the critical section.\<close>

lemma log_inv_quiet:
  assumes inv: "log_inv calls s ph ms" and ab: "\<not> lg_aborted s"
    and quiet: "\<nexists>c body. ph t = Holding c body" "\<nexists>c body. p = Holding c body"
    and s': "lg_threads s' = (lg_threads s)(t := th')" "lg_mutex s' = lg_mutex s" "lg_out s' = lg_out s"
    and fl: "\<And>st. lg_flushed s st \<le> lg_flushed s' st \<and> lg_flushed s' st \<le> length (lg_out s st)"
    and ab': "lg_aborted s' \<longleftrightarrow> (\<exists>c. p = Aborted c)"
    and me: "thread_inv (calls t) th' p (logged t ms)" "phase_shown (lg_out s) (lg_flushed s') p"
  shows "log_inv calls s' (ph(t := p)) ms"
proof (rule log_inv_move [OF inv s'(1)])
  have "lg_mutex s \<noteq> Some t" using inv quiet(1) by (simp add: log_inv_def)
  then show "lg_mutex s' = Some t \<longleftrightarrow> (\<exists>c body. p = Holding c body)" using quiet(2) s'(2) by simp
  show "lg_out s' st @ pending st s' = lines st ms" for st
  proof -
    have "pending st s' = pending st s"
      using s'(1,2) \<open>lg_mutex s \<noteq> Some t\<close> by (simp add: pending_def split: option.split)
    then show ?thesis using inv s'(3) by (simp add: log_inv_def)
  qed
qed (use assms in auto)

lemma set_thread_simps [simp]:
  "lg_threads (set_thread t th s) = (lg_threads s)(t := th)" "lg_mutex (set_thread t th s) = lg_mutex s"
  "lg_out (set_thread t th s) = lg_out s" "lg_flushed (set_thread t th s) = lg_flushed s"
  "lg_aborted (set_thread t th s) = lg_aborted s"
  by (simp_all add: set_thread_def)

lemma pending_holder: "lg_mutex s = Some t \<Longrightarrow> pending st s = written st (lt_now (lg_threads s t))"
  "lg_mutex s = None \<Longrightarrow> pending st s = []"
  by (simp_all add: pending_def)

lemma logged_shown:
  assumes "c \<in> set (logged t ms)" "out = lines (lc_stream c) ms"
  shows "shown (lc_line c) (length out) out"
proof -
  have "(t, c) \<in> set ms" using assms(1) by (auto simp: logged_def)
  then obtain ms1 ms2 where "ms = ms1 @ (t, c) # ms2" by (meson split_list)
  then have "out = lines (lc_stream c) ms1 @ lc_line c @ lines (lc_stream c) ms2"
    using assms(2) by (simp add: lines_def lc_line_def)
  then show ?thesis by (auto simp: shown_def)
qed

lemma body_action_cases:
  assumes "body_action st a"
  obtains bs where "a = Write st bs" | st' where "a = Flush st'"
  using assms by (cases a) auto

text \<open>The thread that holds the mutex.\<close>

lemma holding_step:
  assumes inv: "log_inv calls s ph ms" and ok: "\<forall>c\<in>set (calls t). call_ok c"
    and step: "thread_step t s = Some s'" and h: "ph t = Holding c body"
  shows "\<exists>p. log_inv calls s' (ph(t := p)) ms"
proof -
  let ?th = "lg_threads s t"
  have ti: "thread_inv (calls t) ?th (Holding c body) (logged t ms)" and m: "lg_mutex s = Some t"
    and out: "lg_out s st @ pending st s = lines st ms" and fl: "lg_flushed s st \<le> length (lg_out s st)" for st
    using inv h unfolding log_inv_def by metis+
  have ab: "\<not> lg_aborted s" using step by (auto simp: thread_step_def split: if_splits)
  have now: "lt_now ?th = body @ Mutex_unlock # Cancel_restore # tail_of c" and c: "c \<in> set (logged t ms)" "call_ok c"
    using ti ok by (auto simp: thread_inv_def)
  have pend: "pending st s = written st body" for st using pending_holder(1) [OF m] now by simp
  show ?thesis
  proof (cases body)
    case Nil
    then have s': "s' = set_thread t (?th\<lparr>lt_now := Cancel_restore # tail_of c\<rparr>) (s\<lparr>lg_mutex := None\<rparr>)"
      using step ab now by (simp add: thread_step_def Let_def)
    have "log_inv calls s' (ph(t := Unlocked c)) ms"
    proof (rule log_inv_move [OF inv])
      have "lg_out s (lc_stream c) = lines (lc_stream c) ms" using out pend Nil by simp
      then show "phase_shown (lg_out s') (lg_flushed s') (Unlocked c)" using logged_shown [OF c(1)] s' by simp
      show "thread_inv (calls t) (?th\<lparr>lt_now := Cancel_restore # tail_of c\<rparr>) (Unlocked c) (logged t ms)"
        using ti by (auto simp: thread_inv_def)
      show "lg_out s' st @ pending st s' = lines st ms" for st
        using out [of st] pend [of st] Nil s' by (simp add: pending_holder(2))
    qed (use s' fl ab m in auto)
    then show ?thesis by blast
  next
    case (Cons a b)
    have "list_all (body_action (lc_stream c)) body"
      using ti c(2) by (auto simp: thread_inv_def call_ok_def)
    then have "body_action (lc_stream c) a" using Cons by simp
    then have "\<exists>bs st'. s' = set_thread t (?th\<lparr>lt_now := b @ Mutex_unlock # Cancel_restore # tail_of c\<rparr>)
        (s\<lparr>lg_out := (lg_out s)(lc_stream c := lg_out s (lc_stream c) @ bs)\<rparr>) \<and> a = Write (lc_stream c) bs
      \<or> s' = set_thread t (?th\<lparr>lt_now := b @ Mutex_unlock # Cancel_restore # tail_of c\<rparr>)
        (s\<lparr>lg_flushed := (lg_flushed s)(st' := length (lg_out s st'))\<rparr>) \<and> a = Flush st'"
      by (rule body_action_cases) (use step ab now Cons in \<open>auto simp: thread_step_def Let_def\<close>)
    then have s': "lg_threads s' = (lg_threads s)(t := ?th\<lparr>lt_now := b @ Mutex_unlock # Cancel_restore # tail_of c\<rparr>)"
      "lg_mutex s' = Some t" "\<not> lg_aborted s'" "\<And>st. lg_out s' st = lg_out s st @ written st [a]"
      "\<And>st. lg_flushed s st \<le> lg_flushed s' st \<and> lg_flushed s' st \<le> length (lg_out s' st)"
      using m ab fl by (auto intro: trans_le_add1 [OF fl])
    have "log_inv calls s' (ph(t := Holding c b)) ms"
    proof (rule log_inv_move [OF inv s'(1)])
      show "thread_inv (calls t) (?th\<lparr>lt_now := b @ Mutex_unlock # Cancel_restore # tail_of c\<rparr>) (Holding c b) (logged t ms)"
        using ti Cons by (auto simp: thread_inv_def)
      have "written st (a # b) = written st [a] @ written st b" for st by (cases a) simp_all
      then show "lg_out s' st @ pending st s' = lines st ms" for st
        using out [of st] pend [of st] Cons s'(1,4) pending_holder(1) [OF s'(2)] by simp
      show "\<exists>ms0. ms = ms0 @ [(t, c')]" if "Holding c b = Holding c' b'" for c' b' using inv h that by (simp add: log_inv_def)
    qed (use s' m ab in auto)
    then show ?thesis by blast
  qed
qed

lemma thread_step_inv:
  assumes inv: "log_inv calls s ph ms" and ok: "\<forall>c\<in>set (calls t). call_ok c" and step: "thread_step t s = Some s'"
  shows "\<exists>p ms'. log_inv calls s' (ph(t := p)) ms'"
proof -
  let ?th = "lg_threads s t"
  have ti: "thread_inv (calls t) ?th (ph t) (logged t ms)" and ps: "phase_shown (lg_out s) (lg_flushed s) (ph t)"
    and out: "lg_out s st @ pending st s = lines st ms" and fl: "lg_flushed s st \<le> length (lg_out s st)"
    and m: "lg_mutex s = Some t \<longleftrightarrow> (\<exists>c body. ph t = Holding c body)"
    and ab_iff: "lg_aborted s \<longleftrightarrow> (\<exists>t c. ph t = Aborted c)" for st
    using inv unfolding log_inv_def by metis+
  have ab: "\<not> lg_aborted s" using step by (auto simp: thread_step_def split: if_splits)
  note quiet = log_inv_quiet [OF inv ab]
  note run = thread_step_def Let_def
  show ?thesis
  proof (cases "ph t")
    case Idle
    then have "lt_now ?th = []" using ti by (simp add: thread_inv_def)
    moreover obtain cs where cs: "calls t = logged t ms @ cs" "lt_todo ?th = map actions_of cs \<or> lt_todo ?th = []"
      using ti Idle by (auto simp: thread_inv_def)
    ultimately obtain c cs' where c: "cs = c # cs'" "s' = set_thread t (?th\<lparr>lt_now := actions_of c, lt_todo := map actions_of cs'\<rparr>) s"
      using step ab by (cases cs) (auto simp: run split: list.splits)
    then have "log_inv calls s' (ph(t := Before c)) ms"
      using cs ti Idle fl ab by (intro quiet) (auto simp: thread_inv_def)
    then show ?thesis by blast
  next
    case (Before c)
    then have s': "s' = set_thread t (?th\<lparr>lt_now := phase_now (Locking c), lt_saved := lt_cancelable ?th, lt_cancelable := False\<rparr>) s"
      using step ab ti by (simp add: run thread_inv_def actions_of_def)
    then have "log_inv calls s' (ph(t := Locking c)) ms"
      using ti Before fl ab by (intro quiet) (auto simp: thread_inv_def)
    then show ?thesis by blast
  next
    case (Locking c)
    then have s': "lg_mutex s = None" "s' = set_thread t (?th\<lparr>lt_now := phase_now (Holding c (lc_body c))\<rparr>) (s\<lparr>lg_mutex := Some t\<rparr>)"
      using step ab ti by (auto simp: run thread_inv_def split: if_splits)
    have "log_inv calls s' (ph(t := Holding c (lc_body c))) (ms @ [(t, c)])"
    proof (rule log_inv_move [OF inv])
      show "lg_out s' st @ pending st s' = lines st (ms @ [(t, c)])" for st
        using out [of st] s' by (simp add: pending_def)
    qed (use s' ti Locking fl ab in \<open>auto simp: thread_inv_def\<close>)
    then show ?thesis by blast
  next
    case (Holding c body)
    from holding_step [OF inv ok step this] show ?thesis by blast
  next
    case (Unlocked c)
    then have s': "s' = set_thread t (?th\<lparr>lt_now := tail_of c, lt_cancelable := lt_saved ?th\<rparr>) s"
      using step ab ti by (simp add: run thread_inv_def)
    show ?thesis
    proof (cases "lc_emerg c")
      case True
      then have "log_inv calls s' (ph(t := Leaving c)) ms"
        using ti ps Unlocked s' fl ab by (intro quiet) (auto simp: thread_inv_def)
      then show ?thesis by blast
    next
      case False
      then have "log_inv calls s' (ph(t := Idle)) ms"
        using ti ps Unlocked s' fl ab by (intro quiet) (auto simp: thread_inv_def tail_of_def)
      then show ?thesis by blast
    qed
  next
    case (Leaving c)
    then have em: "lc_emerg c" and c: "call_ok c" using ti ok by (auto simp: thread_inv_def)
    then have s': "s' = set_thread t (?th\<lparr>lt_now := phase_now (Flushing c (lc_flush c)), lt_saved := lt_cancelable ?th, lt_cancelable := False\<rparr>) s"
      using step ab ti Leaving by (simp add: run thread_inv_def tail_of_def)
    then have "log_inv calls s' (ph(t := Flushing c (lc_flush c))) ms"
      using ti ps Leaving em c fl ab by (intro quiet) (auto simp: thread_inv_def call_ok_def)
    then show ?thesis by blast
  next
    case (Flushing c fs)
    show ?thesis
    proof (cases fs)
      case Nil
      then have s': "s' = set_thread t (?th\<lparr>lt_now := [Abort_process], lt_cancelable := lt_saved ?th\<rparr>) s"
        using step ab ti Flushing by (simp add: run thread_inv_def)
      then have "log_inv calls s' (ph(t := Aborting c)) ms"
        using ti ps Flushing Nil fl ab by (intro quiet) (auto simp: thread_inv_def)
      then show ?thesis by blast
    next
      case (Cons f fs')
      then have s': "s' = set_thread t (?th\<lparr>lt_now := phase_now (Flushing c fs')\<rparr>) (s\<lparr>lg_flushed := (lg_flushed s)(f := length (lg_out s f))\<rparr>)"
        using step ab ti Flushing by (simp add: run thread_inv_def)
      then have "log_inv calls s' (ph(t := Flushing c fs')) ms"
        using ti ps Flushing Cons fl ab by (intro quiet) (auto simp: thread_inv_def)
      then show ?thesis by blast
    qed
  next
    case (Aborting c)
    then have s': "s' = set_thread t (?th\<lparr>lt_now := []\<rparr>) (s\<lparr>lg_aborted := True\<rparr>)"
      using step ab ti by (simp add: run thread_inv_def)
    then have "log_inv calls s' (ph(t := Aborted c)) ms"
      using ti ps Aborting fl ab by (intro quiet) (auto simp: thread_inv_def)
    then show ?thesis by blast
  next
    case (Aborted c)
    then show ?thesis using ab ab_iff by blast
  qed
qed

lemma cancel_inv:
  assumes inv: "log_inv calls s ph ms" and "\<not> lg_aborted s" "lt_cancelable (lg_threads s t)" "cancel_point (lg_threads s t)"
  shows "\<exists>p. log_inv calls (set_thread t ((lg_threads s t)\<lparr>lt_todo := [], lt_now := []\<rparr>) s) (ph(t := p)) ms"
proof -
  let ?th = "lg_threads s t"
  have ti: "thread_inv (calls t) ?th (ph t) (logged t ms)" and fl: "lg_flushed s st \<le> length (lg_out s st)"
    and ab_iff: "lg_aborted s \<longleftrightarrow> (\<exists>t c. ph t = Aborted c)" for st
    using inv unfolding log_inv_def by metis+
  then have idle: "ph t = Idle"
    using assms(2-4) by (cases "ph t") (auto simp: thread_inv_def cancel_point_def actions_of_def tail_of_def)
  have "log_inv calls (set_thread t (?th\<lparr>lt_todo := [], lt_now := []\<rparr>) s) (ph(t := Idle)) ms"
    using ti fl idle assms(2) by (intro log_inv_quiet [OF inv assms(2)]) (auto simp: thread_inv_def)
  then show ?thesis by blast
qed

lemma reach_inv:
  assumes "log_reach acts s" "\<And>t. acts t = map actions_of (calls t)" "\<And>t. \<forall>c\<in>set (calls t). call_ok c"
  shows "\<exists>ph ms. log_inv calls s ph ms"
  using assms(1)
proof induction
  case (init s)
  then have "log_inv calls s (\<lambda>t. Idle) []"
    using assms(2) by (auto simp: log_inv_def thread_inv_def pending_def)
  then show ?case by blast
next
  case (step s s')
  then obtain ph ms where inv: "log_inv calls s ph ms" by blast
  from step.hyps(2) show ?case
    by (rule log_stepE) (use thread_step_inv [OF inv] cancel_inv [OF inv] assms(3) in metis)+
qed

text \<open>The lines logged so far, as calls of the program.\<close>

lemma logged_pull:
  assumes "\<And>t. \<exists>rest. map g (calls t) = logged t ms @ rest"
  shows "\<exists>ns. map (apsnd g) ns = ms \<and> (\<forall>t. \<exists>rest. calls t = map snd (filter (\<lambda>n. fst n = t) ns) @ rest)"
  using assms
proof (induction ms rule: rev_induct)
  case (snoc m ms)
  obtain u c where m: "m = (u, c)" by (cases m)
  have "\<exists>rest. map g (calls t) = logged t ms @ rest" for t
    using snoc.prems [of t] m by (metis append_assoc logged_simps(2))
  then obtain ns where ns: "map (apsnd g) ns = ms" "\<And>t. \<exists>rest. calls t = map snd (filter (\<lambda>n. fst n = t) ns) @ rest"
    using snoc.IH by blast
  obtain r1 r2 where r: "calls u = map snd (filter (\<lambda>n. fst n = u) ns) @ r1" "map g (calls u) = (logged u ms @ [c]) @ r2"
    using ns(2) [of u] snoc.prems [of u] m by auto
  have "logged u ms = map g (map snd (filter (\<lambda>n. fst n = u) ns))"
    unfolding ns(1) [symmetric] logged_def by (induction ns) auto
  then have "map g r1 = c # r2" using r by simp
  then obtain f r3 where f: "r1 = f # r3" "g f = c" by (cases r1) auto
  have "map (apsnd g) (ns @ [(u, f)]) = ms @ [m]" using ns(1) f m by simp
  moreover have "\<exists>rest. calls t = map snd (filter (\<lambda>n. fst n = t) (ns @ [(u, f)])) @ rest" for t
    using ns(2) [of t] r(1) f(1) by (cases "t = u") auto
  ultimately show ?case by blast
qed simp

definition calls_of :: "nat \<Rightarrow> (nat \<times> 'f) list \<Rightarrow> 'f list" where
  "calls_of t ns = map snd (filter (\<lambda>n. fst n = t) ns)"

text \<open>\<open>ns\<close> are the calls whose lines are in the streams, in this order; the calls of every thread are among them in
  its order, and only the last line may be cut, while its thread holds the mutex.\<close>

definition log_of :: "('f \<Rightarrow> log_stream) \<Rightarrow> ('f \<Rightarrow> u8 list) \<Rightarrow> (nat \<Rightarrow> 'f list) \<Rightarrow> log_state \<Rightarrow> (nat \<times> 'f) list \<Rightarrow> bool" where
  "log_of stream line calls s ns \<longleftrightarrow>
    (\<forall>t. \<exists>rest. calls t = calls_of t ns @ rest)
    \<and> (\<forall>st. \<exists>cut. lg_out s st @ cut = concat (map (line \<circ> snd) (filter (\<lambda>n. stream (snd n) = st) ns))
        \<and> (cut \<noteq> [] \<longrightarrow> (\<exists>t ns0 f begun. lg_mutex s = Some t \<and> ns = ns0 @ [(t, f)] \<and> line f = begun @ cut)))"

lemma written_other:
  "list_all (body_action st') body \<Longrightarrow> st \<noteq> st' \<Longrightarrow> written st body = []"
  by (induction st body rule: written.induct) (auto split: if_splits)

section \<open>Runs of any logging functions\<close>

text \<open>What the runs rely on: every function writes one line in the way of \<open>actions_of\<close>.\<close>

locale log_functions =
  fixes actions :: "'f \<Rightarrow> log_action list" and stream :: "'f \<Rightarrow> log_stream" and emerg :: "'f \<Rightarrow> bool" and line :: "'f \<Rightarrow> u8 list"
  assumes logs: "logs_line (actions f) (stream f) (emerg f) (line f)"
begin

lemma log_calls:
  obtains cc where "\<And>f. actions f = actions_of (cc f)" "\<And>f. call_ok (cc f)" "\<And>f. lc_stream (cc f) = stream f"
    "\<And>f. lc_emerg (cc f) = emerg f" "\<And>f. lc_line (cc f) = line f"
  using logs unfolding logs_line_def by metis

text \<open>What is known of a run.\<close>

lemma log_run:
  assumes reach: "log_reach (\<lambda>t. map actions (calls t)) s"
  obtains cc ph ns where "log_inv (map cc \<circ> calls) s ph (map (apsnd cc) ns)" "log_of stream line calls s ns"
    "\<And>f. actions f = actions_of (cc f)" "\<And>f. call_ok (cc f)" "\<And>f. lc_stream (cc f) = stream f"
    "\<And>f. lc_emerg (cc f) = emerg f" "\<And>f. lc_line (cc f) = line f"
proof -
  obtain cc where cc: "\<And>f. actions f = actions_of (cc f)" "\<And>f. call_ok (cc f)" "\<And>f. lc_stream (cc f) = stream f"
    "\<And>f. lc_emerg (cc f) = emerg f" "\<And>f. lc_line (cc f) = line f"
    using log_calls by metis
  obtain ph ms where inv: "log_inv (map cc \<circ> calls) s ph ms"
    using reach_inv [OF reach, of "map cc \<circ> calls"] cc(1,2) by auto
  have "\<exists>rest. map cc (calls t) = logged t ms @ rest" for t
    using inv by (auto simp: log_inv_def thread_inv_def)
  then obtain ns where ns: "map (apsnd cc) ns = ms" "\<And>t. \<exists>rest. calls t = calls_of t ns @ rest"
    using logged_pull [of cc calls ms] unfolding calls_of_def by metis
  have wr: "written st (lc_body (cc f)) = (if stream f = st then line f else [])" for st f
    using written_other [of "lc_stream (cc f)" "lc_body (cc f)" st] cc(2,3,5) [of f] by (auto simp: call_ok_def lc_line_def)
  have lines: "lines st ms = concat (map (line \<circ> snd) (filter (\<lambda>n. stream (snd n) = st) ns))" for st
    unfolding ns(1) [symmetric] by (induction ns) (auto simp: lines_def wr)
  have "log_of stream line calls s ns"
    unfolding log_of_def
  proof (intro conjI allI, goal_cases)
    case (1 t)
    show ?case by (rule ns(2))
  next
    case (2 st)
    have "\<exists>t ns0 f begun. lg_mutex s = Some t \<and> ns = ns0 @ [(t, f)] \<and> line f = begun @ pending st s"
      if pend: "pending st s \<noteq> []"
    proof -
      obtain t where t: "lg_mutex s = Some t" using pend by (cases "lg_mutex s") (auto simp: pending_def)
      then obtain c body where h: "ph t = Holding c body" using log_invD(3) [OF inv] by blast
      then obtain ms0 where "ms = ms0 @ [(t, c)]" using log_invD(7) [OF inv] by blast
      then obtain ns0 f where f: "ns = ns0 @ [(t, f)]" "cc f = c"
        using ns(1) by (auto simp: map_eq_append_conv)
      obtain pre where b: "lc_body c = pre @ body" "lt_now (lg_threads s t) = phase_now (Holding c body)"
        using log_invD(1) [OF inv, of t] h by (auto simp: thread_inv_def)
      then have "pending st s = written st body" using pending_holder(1) [OF t] by simp
      moreover from this have "line f = written st pre @ written st body"
        using wr [of st f] b(1) f(2) pend by (auto split: if_splits)
      ultimately show ?thesis using t f(1) by auto
    qed
    then show ?case using log_invD(4) [OF inv, of st] lines [of st] by metis
  qed
  then show thesis using that inv ns(1) cc by metis
qed

lemma lines_whole:
  assumes "log_reach (\<lambda>t. map actions (calls t)) s"
  shows "\<exists>ns. (\<forall>t. \<exists>rest. calls t = calls_of t ns @ rest)
    \<and> (\<forall>st. \<exists>cut. lg_out s st @ cut = concat (map (line \<circ> snd) (filter (\<lambda>n. stream (snd n) = st) ns))
        \<and> (cut \<noteq> [] \<longrightarrow> (\<exists>t ns0 f begun. lg_mutex s = Some t \<and> ns = ns0 @ [(t, f)] \<and> line f = begun @ cut)))"
  using log_run [OF assms] unfolding log_of_def by metis

lemma emergency_aborts:
  assumes "log_reach (\<lambda>t. map actions (calls t)) s"
  shows "\<exists>ns. log_of stream line calls s ns
    \<and> (\<forall>t. \<forall>f\<in>set (butlast (calls_of t ns)). \<not> emerg f)
    \<and> (\<forall>t. lt_now (lg_threads s t) = [] \<and> \<not> lg_aborted s \<longrightarrow> (\<forall>f\<in>set (calls_of t ns). \<not> emerg f))
    \<and> (lg_aborted s \<longrightarrow> (\<exists>t. \<exists>f\<in>set (calls t). emerg f
         \<and> shown (line f) (lg_flushed s (stream f)) (lg_out s (stream f))))"
proof -
  obtain cc ph ns where inv: "log_inv (map cc \<circ> calls) s ph (map (apsnd cc) ns)" and log: "log_of stream line calls s ns"
    and cc: "\<And>f. lc_stream (cc f) = stream f" "\<And>f. lc_emerg (cc f) = emerg f"
      "\<And>f. lc_line (cc f) = line f"
    using log_run [OF assms] by metis
  have log_cc: "logged t (map (apsnd cc) ns) = map cc (calls_of t ns)" for t
    unfolding logged_def calls_of_def by (induction ns) auto
  have ti: "thread_inv (map cc (calls t)) (lg_threads s t) (ph t) (map cc (calls_of t ns))" for t
    using log_invD(1) [OF inv, of t] log_cc [of t] by simp
  have calm: "(\<forall>f\<in>set (butlast (calls_of t ns)). \<not> emerg f)
      \<and> (emitted (ph t) = [] \<longrightarrow> (\<forall>f\<in>set (calls_of t ns). \<not> emerg f))" for t
  proof -
    obtain l0 where l0: "map cc (calls_of t ns) = l0 @ emitted (ph t)" "\<forall>c\<in>set l0. \<not> lc_emerg c"
      using ti [of t] by (auto simp: thread_inv_def)
    have "set (map cc (butlast (calls_of t ns))) \<subseteq> set l0"
      using l0(1) by (cases "ph t") (auto simp: map_butlast dest: in_set_butlastD)
    moreover have "emitted (ph t) = [] \<Longrightarrow> set (map cc (calls_of t ns)) \<subseteq> set l0" using l0(1) by simp
    ultimately show ?thesis using l0(2) cc(2) by (metis image_eqI image_set subset_eq)
  qed
  have "emitted (ph t) = []" if "lt_now (lg_threads s t) = []" "\<not> lg_aborted s" for t
  proof -
    have "\<nexists>c. ph t = Aborted c" using log_invD(6) [OF inv] that(2) by blast
    moreover have "phase_call_ok (ph t)" "phase_now (ph t) = []" using ti [of t] that(1) by (simp_all add: thread_inv_def)
    ultimately show ?thesis by (cases "ph t") (auto simp: tail_of_def)
  qed
  moreover have "\<exists>t. \<exists>f\<in>set (calls t). emerg f
      \<and> shown (line f) (lg_flushed s (stream f)) (lg_out s (stream f))" if "lg_aborted s"
  proof -
    obtain t c where t: "ph t = Aborted c" using log_invD(6) [OF inv] \<open>lg_aborted s\<close> by blast
    then have "c \<in> set (map cc (calls t))" using thread_inv_emitted [OF ti [of t]] by simp
    moreover have "lc_emerg c" using ti [of t] t by (auto simp: thread_inv_def)
    moreover have "phase_shown (lg_out s) (lg_flushed s) (Aborted c)" using log_invD(2) [OF inv, of t] t by simp
    ultimately show ?thesis using cc by (intro exI [of _ t]) auto
  qed
  ultimately show ?thesis using log calm by blast
qed

lemma never_deadlocks:
  assumes "log_reach (\<lambda>t. map actions (calls t)) s" and "\<not> lg_aborted s"
  shows "(\<forall>t. lt_now (lg_threads s t) \<noteq> [] \<or> lt_todo (lg_threads s t) \<noteq> [] \<longrightarrow> (\<exists>u s'. thread_step u s = Some s'))
    \<and> (\<forall>t. lg_mutex s = Some t \<longrightarrow> \<not> lt_cancelable (lg_threads s t))"
proof -
  obtain cc ph ns where inv: "log_inv (map cc \<circ> calls) s ph (map (apsnd cc) ns)"
    and cc: "\<And>f. call_ok (cc f)" using log_run [OF assms(1)] by metis
  have act: "\<exists>s'. thread_step t s = Some s'"
    if "lt_now (lg_threads s t) = a # as" "a = Mutex_lock \<longrightarrow> lg_mutex s = None" for t a as
    using that assms(2) by (cases a) (auto simp: thread_step_def Let_def)
  have held: "(\<exists>s'. thread_step t s = Some s') \<and> \<not> lt_cancelable (lg_threads s t)" if m: "lg_mutex s = Some t" for t
  proof -
    obtain c body where h: "ph t = Holding c body" using log_invD(3) [OF inv] m by blast
    obtain l where ti: "thread_inv (map cc (calls t)) (lg_threads s t) (Holding c body) l"
      using log_invD(1) [OF inv, of t] h by auto
    then have now: "lt_now (lg_threads s t) = body @ Mutex_unlock # Cancel_restore # tail_of c" by (simp add: thread_inv_def)
    have "c \<in> set (map cc (calls t))" by (rule thread_inv_emitted [OF ti]) simp
    moreover have "set body \<subseteq> set (lc_body c)" using ti by (auto simp: thread_inv_def)
    ultimately have "call_ok c" "set body \<subseteq> set (lc_body c)" using cc by auto
    then have "Mutex_lock \<notin> set body" unfolding call_ok_def list_all_iff by (metis body_action.simps(5) subset_iff)
    then show ?thesis using act [of t] now ti by (cases body) (auto simp: thread_inv_def)
  qed
  show ?thesis
  proof (intro conjI allI impI)
    fix t assume work: "lt_now (lg_threads s t) \<noteq> [] \<or> lt_todo (lg_threads s t) \<noteq> []"
    show "\<exists>u s'. thread_step u s = Some s'"
    proof (cases "lg_mutex s")
      case None
      show ?thesis
      proof (cases "lt_now (lg_threads s t)")
        case Nil
        then show ?thesis using work assms(2)
          by (intro exI [of _ t]) (auto simp: thread_step_def Let_def neq_Nil_conv)
      next
        case (Cons a as)
        then show ?thesis using act None by blast
      qed
    next
      case (Some u)
      then show ?thesis using held by blast
    qed
  qed (use held in blast)
qed

end

section \<open>The functions as calls\<close>

text \<open>A call of the program: of the daemon's functions, or of the library's when \<open>lib\<close>.\<close>

datatype log_fn = Fn_logf LOG_LEVEL "u8 list option" "u8 list" | Fn_log LOG_LEVEL "u8 list option" "u8 list"
  | Fn_errno2 LOG_LEVEL int "u8 list option" "u8 list"

fun fn_level :: "log_fn \<Rightarrow> LOG_LEVEL" where
  "fn_level (Fn_logf level prefix msg) = level"
| "fn_level (Fn_log level prefix str) = level"
| "fn_level (Fn_errno2 level err prefix msg) = level"

fun fn_actions :: "bool \<Rightarrow> (int \<Rightarrow> u8 list option) \<Rightarrow> log_fn \<Rightarrow> log_action list" where
  "fn_actions lib strerror (Fn_logf level prefix msg) = (if lib then lib_LOG_logf level prefix msg else LOG_logf level prefix msg)"
| "fn_actions lib strerror (Fn_log level prefix str) = (if lib then lib_LOG_log level prefix str else LOG_log level prefix str)"
| "fn_actions lib strerror (Fn_errno2 level err prefix msg) =
    (if lib then lib_logWithErr strerror level err prefix msg else LOG_errno2 strerror level err prefix msg)"

fun fn_line :: "bool \<Rightarrow> (int \<Rightarrow> u8 list option) \<Rightarrow> log_fn \<Rightarrow> u8 list" where
  "fn_line lib strerror (Fn_logf level prefix msg) = daemon_line level prefix (if lib then take (sizeof_str - 1) msg else msg)"
| "fn_line lib strerror (Fn_log level prefix str) = daemon_line level prefix str"
| "fn_line lib strerror (Fn_errno2 level err prefix msg) = daemon_line level prefix
    (if lib then take (sizeof_str - 1) msg @ lib_error_text strerror err else msg @ error_text strerror err)"

definition fn_stream :: "bool \<Rightarrow> log_fn \<Rightarrow> log_stream" where
  "fn_stream lib f = (if lib then getStream (fn_level f) else Msg_stream)"

lemma fn_logs_line: "logs_line (fn_actions lib strerror f) (fn_stream lib f) (fn_level f = LOG_LEVEL_EMERG) (fn_line lib strerror f)"
  using LOG_logf_line LOG_log_line logWithErr_line lib_LOG_log_line lib_logWithErr_line
  by (cases f) (simp_all add: fn_stream_def lib_LOG_logf_def LOG_errno2_def)

interpretation program_log: log_functions "fn_actions lib strerror" "fn_stream lib" "\<lambda>f. fn_level f = LOG_LEVEL_EMERG" "fn_line lib strerror"
  for lib strerror
  by unfold_locales (rule fn_logs_line)

section \<open>Concrete runs\<close>

text \<open>The threads of a list move on one after the other.\<close>

fun schedule :: "nat list \<Rightarrow> log_state \<Rightarrow> log_state option" where
  "schedule [] s = Some s"
| "schedule (t # ts) s = Option.bind (thread_step t s) (schedule ts)"

lemma schedule_reach: "log_reach acts s \<Longrightarrow> schedule ts s = Some s' \<Longrightarrow> log_reach acts s'"
  by (induction ts arbitrary: s) (auto split: bind_splits dest: log_step.run log_reach.step)

definition sample_calls :: "nat \<Rightarrow> log_fn list" where
  "sample_calls t = (if t = 0 then [Fn_log LOG_LEVEL_EMERG None [120]] else if t = 1 then [Fn_logf LOG_LEVEL_INFO (Some [80]) [121]] else [])"

definition sample_log :: "bool \<Rightarrow> log_state" where
  "sample_log lib = \<lparr>lg_threads = (\<lambda>t. \<lparr>lt_todo = map (fn_actions lib (\<lambda>e. None)) (sample_calls t), lt_now = [], lt_cancelable = True, lt_saved = True\<rparr>),
     lg_mutex = None, lg_out = (\<lambda>st. []), lg_flushed = (\<lambda>st. 0), lg_aborted = False\<rparr>"

lemma sample_log_reach: "log_reach (\<lambda>t. map (fn_actions lib (\<lambda>e. None)) (sample_calls t)) (sample_log lib)"
  by (rule log_reach.init) (simp_all add: sample_log_def)

lemmas sample_log_simps = sample_log_def sample_calls_def thread_step_def Let_def set_thread_def LOG_log_def LOG_logf_def
  LOG_flush_def print_tag_def

text \<open>Thread 1 writes its line up to the prefix, and thread 0 has to wait; later both lines are there, and the process
  is aborted.\<close>

lemma sample_log_runs:
  "\<exists>s. schedule [0, 1, 1, 0, 1, 1, 1] (sample_log False) = Some s \<and> lg_mutex s = Some 1 \<and> \<not> lg_aborted s
    \<and> lg_out s Msg_stream = ascii ''[INFO] [P] '' \<and> lt_now (lg_threads s 0) \<noteq> [] \<and> thread_step 0 s = None"
  "\<exists>s. schedule ([0, 1, 1, 0, 1, 1, 1, 1, 1, 1, 0, 0, 0, 0, 0, 0, 0, 0, 0]) (sample_log False) = Some s \<and> lg_aborted s
    \<and> lg_out s Msg_stream = ascii ''[INFO] [P] y'' @ [10] @ ascii ''[EMERG] x'' @ [10]"
  by (simp_all add: sample_log_simps)

section \<open>Properties\<close>

text \<open>C15: however the threads are scheduled and cancelled, each stream holds whole lines of calls, those of a thread
  in its order; only the last line can be incomplete, while the thread that writes it holds the mutex.\<close>

theorem log_lines_whole:
  assumes "log_reach (\<lambda>t. map (fn_actions lib strerror) (calls t)) s"
  shows "\<exists>ns. (\<forall>t. \<exists>rest. calls t = calls_of t ns @ rest)
    \<and> (\<forall>st. \<exists>cut. lg_out s st @ cut = concat (map (fn_line lib strerror \<circ> snd) (filter (\<lambda>n. fn_stream lib (snd n) = st) ns))
        \<and> (cut \<noteq> [] \<longrightarrow> (\<exists>t ns0 f begun. lg_mutex s = Some t \<and> ns = ns0 @ [(t, f)] \<and> fn_line lib strerror f = begun @ cut)))"
  using program_log.lines_whole [OF assms] .

theorem log_lines_whole_witness:
  "\<exists>s ns. schedule [0, 1, 1, 0, 1, 1, 1] (sample_log False) = Some s \<and> lg_out s Msg_stream = ascii ''[INFO] [P] ''
    \<and> (\<exists>cut. lg_out s Msg_stream @ cut = concat (map (fn_line False (\<lambda>e. None) \<circ> snd) (filter (\<lambda>n. fn_stream False (snd n) = Msg_stream) ns)))
    \<and> (\<forall>t. \<exists>rest. sample_calls t = calls_of t ns @ rest)"
proof -
  obtain s where s: "schedule [0, 1, 1, 0, 1, 1, 1] (sample_log False) = Some s" "lg_out s Msg_stream = ascii ''[INFO] [P] ''"
    using sample_log_runs(1) by blast
  from log_lines_whole [OF schedule_reach [OF sample_log_reach s(1)]] obtain ns where
    ns: "\<forall>t. \<exists>rest. sample_calls t = calls_of t ns @ rest"
      "\<exists>cut. lg_out s Msg_stream @ cut = concat (map (fn_line False (\<lambda>e. None) \<circ> snd) (filter (\<lambda>n. fn_stream False (snd n) = Msg_stream) ns))"
    by meson
  show ?thesis by (rule exI [of _ s], rule exI [of _ ns], intro conjI s ns)
qed

text \<open>C16: an emergency ends the process: the line of an emergency is the last one of its thread, which does not return
  from the call unless the process is aborted, and when it is, the line of an emergency has been flushed.\<close>

theorem log_emergency_aborts:
  assumes "log_reach (\<lambda>t. map (fn_actions lib strerror) (calls t)) s"
  shows "\<exists>ns. log_of (fn_stream lib) (fn_line lib strerror) calls s ns
    \<and> (\<forall>t. \<forall>f\<in>set (butlast (calls_of t ns)). fn_level f \<noteq> LOG_LEVEL_EMERG)
    \<and> (\<forall>t. lt_now (lg_threads s t) = [] \<and> \<not> lg_aborted s \<longrightarrow> (\<forall>f\<in>set (calls_of t ns). fn_level f \<noteq> LOG_LEVEL_EMERG))
    \<and> (lg_aborted s \<longrightarrow> (\<exists>t. \<exists>f\<in>set (calls t). fn_level f = LOG_LEVEL_EMERG
         \<and> shown (fn_line lib strerror f) (lg_flushed s (fn_stream lib f)) (lg_out s (fn_stream lib f))))"
  using program_log.emergency_aborts [OF assms] .

theorem log_emergency_aborts_witness:
  "\<exists>s t. schedule ([0, 1, 1, 0, 1, 1, 1, 1, 1, 1, 0, 0, 0, 0, 0, 0, 0, 0, 0]) (sample_log False) = Some s \<and> lg_aborted s
    \<and> (\<exists>f\<in>set (sample_calls t). fn_level f = LOG_LEVEL_EMERG
         \<and> shown (fn_line False (\<lambda>e. None) f) (lg_flushed s (fn_stream False f)) (lg_out s (fn_stream False f)))"
proof -
  obtain s where s: "schedule ([0, 1, 1, 0, 1, 1, 1, 1, 1, 1, 0, 0, 0, 0, 0, 0, 0, 0, 0]) (sample_log False) = Some s" "lg_aborted s"
    using sample_log_runs(2) by blast
  from log_emergency_aborts [OF schedule_reach [OF sample_log_reach s(1)]] s(2) obtain t where
    t: "\<exists>f\<in>set (sample_calls t). fn_level f = LOG_LEVEL_EMERG
         \<and> shown (fn_line False (\<lambda>e. None) f) (lg_flushed s (fn_stream False f)) (lg_out s (fn_stream False f))" by meson
  show ?thesis by (rule exI [of _ s], rule exI [of _ t], intro conjI s t)
qed

text \<open>C37: logging never deadlocks: as long as the process is not aborted and some thread still has something to log, some
  thread can go on; the thread that holds the mutex cannot be cancelled.\<close>

theorem log_never_deadlocks:
  assumes "log_reach (\<lambda>t. map (fn_actions lib strerror) (calls t)) s" and "\<not> lg_aborted s"
  shows "(\<forall>t. lt_now (lg_threads s t) \<noteq> [] \<or> lt_todo (lg_threads s t) \<noteq> [] \<longrightarrow> (\<exists>u s'. thread_step u s = Some s'))
    \<and> (\<forall>t. lg_mutex s = Some t \<longrightarrow> \<not> lt_cancelable (lg_threads s t))"
  using program_log.never_deadlocks [OF assms] .

theorem log_never_deadlocks_witness:
  "\<exists>s u s'. schedule [0, 1, 1, 0, 1, 1, 1] (sample_log False) = Some s \<and> thread_step 0 s = None \<and> thread_step u s = Some s'
    \<and> lg_mutex s = Some 1 \<and> \<not> lt_cancelable (lg_threads s 1)"
proof -
  obtain s where s: "schedule [0, 1, 1, 0, 1, 1, 1] (sample_log False) = Some s" "lg_mutex s = Some 1" "\<not> lg_aborted s"
    "lt_now (lg_threads s 0) \<noteq> []" "thread_step 0 s = None"
    using sample_log_runs(1) by blast
  from log_never_deadlocks [OF schedule_reach [OF sample_log_reach s(1)] s(3)] s(2,4) obtain u s' where
    u: "thread_step u s = Some s'" "\<not> lt_cancelable (lg_threads s 1)" by meson
  show ?thesis by (rule exI [of _ s], rule exI [of _ u], rule exI [of _ s'], intro conjI s u)
qed

end
