(* ===== verification/Spec2Isabelle.thy ===== *)
theory Spec2Isabelle
  imports Util_Endec Util_List Core_Buffer_Run Core_Network_Inv Core_Tb Core_Login Core_Relay
    Rc_Parser_Props Rc_Main Rc_Config Trimble_Recv Rc_Lib Rc_Fpga Util_Net
    Rc_Input Rc_Dummy Util_Proc Dump_Feeder Util_Log
begin

text \<open>
  A verification development for the OpenSky sensor software (C and C++ under \<open>src/src\<close>): the daemon of
  the Radarcape, the feeder for dump1090 and the feeder libraries, which read Mode-S frames from a
  receiver, filter and buffer them, and send them to the OpenSky Network. This theory imports all
  others; what follows says which theory models which part, how the models correspond to the code, and
  what the lemmas show. All names of files are relative to \<open>src/src\<close>.

  \<^bold>\<open>The program.\<close> A process is a set of components (\<open>util/component.c\<close>), each with callbacks, an optional
  thread and a section of the configuration (\<open>util/cfgfile.c\<close>). The receiver thread (\<open>core/recv.c\<close>) takes
  frames of the input parser (\<open>radarcape/rc-parser.c\<close>) over one of three inputs (\<open>radarcape/network.c\<close>,
  \<open>uart.c\<close>, \<open>dummy.c\<close>), or the application hands them over (\<open>gplib/opensky.cc\<close>); frames that pass the filter
  (\<open>core/filter.c\<close>) go into the buffer (\<open>core/buffer.c\<close>), from which the relay thread (\<open>core/relay.c\<close>) sends
  them over the connection (\<open>core/network.c\<close>) after logging in (\<open>core/login.c\<close>). The talkback thread
  (\<open>core/tb.c\<close>) receives packets of the network, which change the filter or start programs
  (\<open>radarcape/tb-misc.c\<close>, \<open>tb-rshell.c\<close>, \<open>util/proc.c\<close>). The position comes from a Trimble receiver
  (\<open>trimble/\<close>) or the configuration (\<open>dump1090/position.c\<close>) and is sent by \<open>core/gps.c\<close>; the serial number
  from a network card (\<open>util/serial_eth.c\<close>) or from the network (\<open>dump1090/req-serial.c\<close>).

  \<^bold>\<open>Conventions.\<close> A C structure is a \<open>record\<close>, an enumeration a \<open>datatype\<close> (or the words of the wire format),
  and an integer a word of its width. The state of a file is one record, and a function maps the state
  before to the state after. A call that fails in a way C does not handle (a failed assertion, a message
  of level \<open>EMERG\<close>, an access outside an array, a descriptor that is not open) is \<open>Fault\<close>, a value of
  \<open>fault + 'a\<close>; \<open>bind_ok\<close> sequences such calls. Answers of the operating system, of memory allocation and of
  the hardware, times, random numbers and the contents of files are parameters, mostly lists with one
  element per call. A loop that waits ends in \<open>None\<close> when these answers are used up, so \<open>None\<close> stands for a
  thread that is still waiting; where a loop must end, a theorem gives the answers after which it has.
  There is no fuel: loops over memory are structural, have a measure, or, over linked lists, are
  \<open>partial_function (option)\<close> and proved to return on every well-formed list. Doubles are their IEEE 754 bits. Functions under a mutex are
  atomic steps; threads are interleaved by step relations.

  \<^bold>\<open>Foundations.\<close> \<open>Opensky_Prelude\<close>: word types, faults, \<open>memchr\<close>, lemmas on lists and words. \<open>Util_Cstring\<close>:
  strings and numbers of the C library. \<open>Util_Endec\<close> (\<open>util/endec.h\<close>): big endian encoding on hosts of either
  byte order; the locale \<open>be_codec\<close> is the contract of the codecs. \<open>Util_List_D\<close>, \<open>Util_List_DC\<close>,
  \<open>Util_List_S\<close>, \<open>Util_List\<close> (\<open>util/list.h\<close>): the four kinds of linked lists at the level of pointers; the locale
  \<open>list_contract\<close> has all four as interpretations, and any sequence of operations refines the same sequence
  on HOL lists. \<open>Core_Types\<close>, \<open>Core_Beast\<close>: frames, and the escaping of the SYNC byte (below:
  \<open>beast_encode_escapes\<close>).

  \<^bold>\<open>Frames.\<close> \<open>Core_Buffer\<close> models \<open>core/buffer.c\<close>: pools of frames, queue, garbage collection.
  \<open>Core_Buffer_Inv\<close> shows that every frame is in exactly one place, and \<open>Core_Buffer_Run\<close> that no call
  faults in any run of producer, consumer and collector, that the frames delivered are a subsequence of
  those committed, in order, and which ones are dropped. \<open>Core_Filter\<close> and \<open>Core_Relay\<close> model the filter and
  the loops of the receiver and relay threads. \<open>Rc_Parser\<close> and \<open>Rc_Parser_Props\<close>: the parser of the beast
  stream, its independence of the chunks it is fed, resynchronisation, and the round trip with the
  encoder. \<open>Rc_Input\<close>: network and serial inputs of both receivers; the locale \<open>input_device\<close>, with four
  interpretations, gives that no descriptor leaks. \<open>Rc_Dummy\<close>: the made up frames are read back.
  \<open>Gp_Feeder\<close> and \<open>Rc_Lib\<close>: the interfaces of the two libraries.

  \<^bold>\<open>Network.\<close> \<open>Core_Network\<close> is the state machine of the connection, shared by the main, sending and
  receiving threads; \<open>Core_Network_Inv\<close> has its invariant: no operation on a closed descriptor, no leak,
  and the threads get back to a common connection. \<open>Core_Login\<close>, \<open>Core_Gps\<close>, \<open>Core_Tb\<close>: the login sequence,
  the position, and the dispatch of talkback packets however the stream is cut. \<open>Util_Net\<close>: connecting to
  the addresses of a host in random order, on POSIX and with \<open>gethostbyname\<close>. \<open>Util_Serial_Eth\<close>,
  \<open>Dump_Serial\<close>: serial numbers. \<open>Util_Proc\<close>: processes as the set of processes a fork leaves behind, and the
  talkback packets that start programs.

  \<^bold>\<open>Configuration and components.\<close> \<open>Util_Cfg\<close>, \<open>Util_Cfg_Read\<close>: tables, values and the parser of
  configuration files with its accesses to the mapped file; \<open>Util_Cfg_Types\<close>: variables keep their types;
  \<open>Util_Cfg_Lines\<close>: the parser implements a line by line meaning; \<open>Util_Cfg_Write\<close>: what is written is read
  back. \<open>Rc_Config\<close> and \<open>Dump_Feeder\<close>: the sections of the daemon and of the feeder, their checks, and the
  part of \<open>main\<close> that configures. \<open>Util_Component\<close>, \<open>Util_Component_Props\<close>, \<open>Util_Component_Run\<close>: the
  component manager, the order of dependencies, rollback, and stopping; \<open>Rc_Main\<close>: the components of the
  daemon and its life from registration to the end. \<open>Util_Log\<close>: the two logs; threads that log, can be
  cancelled and can abort the process; the locale \<open>log_functions\<close> is what a logging function has to do.

  \<^bold>\<open>Hardware.\<close> \<open>Trimble_Parser\<close>, \<open>Trimble_Recv\<close>: the packets of the GPS receiver and what they do to the
  position. \<open>Rc_Gpio\<close>: pins and watchdog. \<open>Rc_Fpga\<close>: configuring the FPGA.

  \<^bold>\<open>Bounds.\<close> The loops over data are structural or have a measure. Counters of the configured sizes are words
  and wrap; where a property needs that they do not, the bound is a premise (for example files below
  \<open>2 ^ 63\<close> bytes, fewer than \<open>2 ^ 32\<close> addresses of a host). The array sizes of the code appear as constants:
  a frame buffer of 46 bytes, 128 bytes in the talkback channel, 1000 for a command line, 2048 for a message
  of the library's log, \<open>PATH_MAX\<close> = 4096.

  \<^bold>\<open>Not modelled.\<close> The text of the statistics (\<open>util/statistics.c\<close>, whose numbers are those of the modelled
  components); formatting of log messages; mapping of files (\<open>util/port/mmap-*.c\<close>, whose result is a
  parameter); the \<open>getaddrinfo\<close> variant of \<open>util/net_common-winsock.c\<close>, which repeats the POSIX code on the
  calls of Windows; dropping privileges and
  waiting for signals in \<open>util/util.c\<close>; parsing the command line; the input that only sleeps
  (\<open>trimble/trimble_input_dummy.c\<close>); the macros of \<open>util/threads.h\<close>, beyond cancellation in \<open>Util_Log\<close>; the
  example programs and unit tests. Of \<open>dump1090/dump1090.c\<close>, the runs of its components are
  not repeated: they are those of the component manager. These parts make calls of the operating system
  in sequence and keep no state of their own that another part relies on.
\<close>

text \<open>The beast encoder doubles every SYNC byte and leaves every other byte alone, in order.\<close>

theorem beast_encode_escapes:
  "BEAST_encode inp = concat (map (\<lambda>b. if b = BEAST_SYNC then [b, b] else [b]) inp)"
  by (auto simp: BEAST_encode_eq_escape escape_def escape1_def fun_eq_iff intro!: arg_cong [where f = concat])

end
